(* ===== verification/Prelude.thy ===== *)
theory Prelude
  imports Complex_Main "HOL-Library.Multiset"
begin

text \<open>
  What every component of the development shares: the reading of JavaScript numbers the
  server applies to values it is handed, the list operations its array code amounts to
  (find the first row, cut it out, walk a list and stop at the first refusal), sums over a
  roster of accounts, and the two interfaces several components rely on: a keyed store whose
  rows are read and written one at a time, and a transition system with an invariant.
\<close>

named_theorems refusal_simps "unfolding the guards of an operation that may refuse"
named_theorems core_simps "the facts that carry conservation of weapons"

section \<open>JavaScript numbers\<close>

text \<open>
  \<open>Number(value)\<close> is a double. The server asks one thing of a number it is handed:
  whether it is a whole one it can represent exactly. Every double that is a whole number is
  \<open>Whole\<close>; NaN, an infinity and a fraction are \<open>NotWhole\<close>.
\<close>

datatype js_number = Whole int | NotWhole

definition max_safe_integer :: int where
  "max_safe_integer = 2 ^ 53 - 1"

fun is_safe_integer :: "js_number \<Rightarrow> bool" where
  "is_safe_integer (Whole i) = (\<bar>i\<bar> \<le> max_safe_integer)"
| "is_safe_integer NotWhole = False"

text \<open>\<open>Math.round\<close>: to the nearest whole number, halves upwards.\<close>

definition js_round :: "real \<Rightarrow> int" where
  "js_round x = \<lfloor>x + 1 / 2\<rfloor>"

lemma js_round_of_int [simp]: "js_round (of_int i) = i"
  by (simp add: js_round_def floor_eq_iff)

lemma js_round_mono: "x \<le> y \<Longrightarrow> js_round x \<le> js_round y"
  unfolding js_round_def by (rule floor_mono) simp

lemma js_round_nonneg: "0 \<le> x \<Longrightarrow> 0 \<le> js_round x"
  using js_round_mono [of 0 x] js_round_of_int [of 0] by simp

lemma js_round_le_int: "x \<le> of_int n \<Longrightarrow> js_round x \<le> n"
  using js_round_mono [of x "of_int n"] by simp

lemma js_round_ge_int: "of_int n \<le> x \<Longrightarrow> n \<le> js_round x"
  using js_round_mono [of "of_int n" x] by simp

section \<open>Text\<close>

text \<open>\<open>String.prototype.trim\<close> and \<open>toUpperCase\<close>, on characters of eight bits.\<close>

definition blank :: "char \<Rightarrow> bool" where
  "blank c = (of_char c \<in> {9, 10, 11, 12, 13, 32, 160 :: nat})"

definition trim :: "string \<Rightarrow> string" where
  "trim s = rev (dropWhile blank (rev (dropWhile blank s)))"

definition to_upper :: "char \<Rightarrow> char" where
  "to_upper c = (let n = of_char c :: nat in if 97 \<le> n \<and> n \<le> 122 then char_of (n - 32) else c)"

lemma length_trim: "length (trim s) \<le> length s"
  unfolding trim_def by (metis length_dropWhile_le length_rev le_trans)

lemma trim_nothing_at_the_ends:
  assumes "trim s \<noteq> []"
  shows "\<not> blank (hd (trim s))" and "\<not> blank (last (trim s))"
proof -
  define t where "t = dropWhile blank s"
  have t: "trim s = rev (dropWhile blank (rev t))" by (simp add: trim_def t_def)
  show "\<not> blank (last (trim s))" using assms hd_dropWhile [of blank "rev t"] by (simp add: t last_rev del: dropWhile_eq_Nil_conv)
  have "t \<noteq> []" using assms by (auto simp: t)
  then have "\<not> blank (hd t)" unfolding t_def by (rule hd_dropWhile)
  moreover have "\<exists>us. t = trim s @ us" unfolding t by (metis rev_append rev_rev_ident takeWhile_dropWhile_id)
  ultimately show "\<not> blank (hd (trim s))" using assms by (metis hd_append2)
qed

lemma dropWhile_none: "\<forall>x\<in>set xs. \<not> p x \<Longrightarrow> dropWhile p xs = xs"
  by (cases xs) auto

lemma trim_id: "\<forall>c\<in>set s. \<not> blank c \<Longrightarrow> trim s = s"
  by (simp add: trim_def dropWhile_none)

section \<open>Rows of an array\<close>

text \<open>
  \<open>rows.find(p)\<close> followed by \<open>rows.splice(rows.indexOf(row), 1)\<close>: the first row that
  satisfies the test, and the array without it.
\<close>

fun find_row :: "('a \<Rightarrow> bool) \<Rightarrow> 'a list \<Rightarrow> 'a option" where
  "find_row p [] = None"
| "find_row p (x # xs) = (if p x then Some x else find_row p xs)"

lemma find_row_Some: "find_row p xs = Some x \<Longrightarrow> x \<in> set xs \<and> p x"
  by (induction xs) (auto split: if_splits)

lemma find_row_SomeD [dest]:
  "find_row p xs = Some x \<Longrightarrow> x \<in> set xs"
  "find_row p xs = Some x \<Longrightarrow> p x"
  by (auto dest: find_row_Some)

lemma find_row_None [simp]: "find_row p xs = None \<longleftrightarrow> (\<forall>x\<in>set xs. \<not> p x)"
  by (induction xs) auto

lemma find_row_append:
  "find_row p (xs @ ys) = (case find_row p xs of None \<Rightarrow> find_row p ys | Some x \<Rightarrow> Some x)"
  by (induction xs) auto

lemma find_row_filter: "find_row p (filter q xs) = find_row (\<lambda>x. q x \<and> p x) xs"
  by (induction xs) auto

lemma find_row_cong:
  "(\<And>x. x \<in> set xs \<Longrightarrow> p x = q x) \<Longrightarrow> find_row p xs = find_row q xs"
  by (induction xs) auto

lemma filter_eq_ConsD: "filter p xs = y # ys \<Longrightarrow> y \<in> set xs \<and> p y"
  by (induction xs) (auto split: if_splits)

text \<open>Taking one occurrence of a row out, counted with multiplicity.\<close>

lemma image_mset_remove1:
  "x \<in> set xs \<Longrightarrow> add_mset (f x) (image_mset f (mset (remove1 x xs))) = image_mset f (mset xs)"
  by (metis image_mset_add_mset insert_DiffM mset_remove1 set_mset_mset)

lemma sum_list_map_remove1:
  fixes f :: "'a \<Rightarrow> 'b::comm_monoid_add"
  shows "x \<in> set xs \<Longrightarrow> f x + sum_list (map f (remove1 x xs)) = sum_list (map f xs)"
  by (rule sum_list_map_remove1 [symmetric])

lemma length_filter_remove1:
  "x \<in> set xs \<Longrightarrow> p x \<Longrightarrow> Suc (length (filter p (remove1 x xs))) = length (filter p xs)"
  by (induction xs) auto

lemma length_filter_remove1_neg:
  "\<not> p x \<Longrightarrow> length (filter p (remove1 x xs)) = length (filter p xs)"
  by (induction xs) auto

lemma distinct_subset_mset:
  assumes "distinct ys" "set ys \<subseteq> set xs"
  shows "mset ys \<subseteq># mset xs"
proof (rule mset_subset_eqI)
  fix y
  show "count (mset ys) y \<le> count (mset xs) y"
    using assms by (cases "y \<in> set ys") (auto simp: distinct_count_atmost_1 Suc_le_eq
        count_greater_zero_iff not_in_iff [THEN iffD1])
qed

lemma filter_partition_mset: "mset (filter p xs) + mset (filter (\<lambda>x. \<not> p x) xs) = mset xs"
  by (induction xs) auto

section \<open>Walking a list and stopping at the first refusal\<close>

fun walk :: "('a \<Rightarrow> 's \<Rightarrow> 'e + 's) \<Rightarrow> 'a list \<Rightarrow> 's \<Rightarrow> 'e + 's" where
  "walk f [] s = Inr s"
| "walk f (x # xs) s = (case f x s of Inl e \<Rightarrow> Inl e | Inr s' \<Rightarrow> walk f xs s')"

lemma walk_invariant:
  assumes "\<And>x s s'. x \<in> set xs \<Longrightarrow> P s \<Longrightarrow> f x s = Inr s' \<Longrightarrow> P s'"
    and "P s" and "walk f xs s = Inr s'"
  shows "P s'"
  using assms
proof (induction xs arbitrary: s)
  case (Cons x xs)
  from Cons.prems(3) obtain u where u: "f x s = Inr u" "walk f xs u = Inr s'"
    by (auto split: sum.splits)
  have "P u" using Cons.prems(1) [of x s u] Cons.prems(2) u(1) by simp
  then show ?case using Cons.IH [of u] Cons.prems(1) u(2) by (meson list.set_intros(2))
qed simp

section \<open>Sums over a roster\<close>

definition total_over :: "'k list \<Rightarrow> ('k \<Rightarrow> 'v option) \<Rightarrow> ('v \<Rightarrow> 'm::comm_monoid_add) \<Rightarrow> 'm" where
  "total_over ks m f = (\<Sum>k\<leftarrow>ks. case m k of None \<Rightarrow> 0 | Some v \<Rightarrow> f v)"

lemma total_over_Nil [simp]: "total_over [] m f = 0"
  by (simp add: total_over_def)

lemma total_over_Cons [simp]:
  "total_over (k # ks) m f = (case m k of None \<Rightarrow> 0 | Some v \<Rightarrow> f v) + total_over ks m f"
  by (simp add: total_over_def)

lemma total_over_cong:
  "(\<And>k. k \<in> set ks \<Longrightarrow> m k = m' k) \<Longrightarrow> total_over ks m f = total_over ks m' f"
  by (induction ks) auto

lemma total_over_notin: "k \<notin> set ks \<Longrightarrow> total_over ks (m(k := x)) f = total_over ks m f"
  by (rule total_over_cong) auto

text \<open>Writing one row of the roster exchanges its contribution and no other.\<close>

lemma total_over_update:
  assumes "distinct ks" and "k \<in> set ks" and "m k = Some old"
  shows "total_over ks (m(k \<mapsto> new)) f + f old = total_over ks m f + f new"
  using assms
proof (induction ks)
  case (Cons j ks)
  show ?case
  proof (cases "j = k")
    case True
    with Cons.prems have "total_over ks (m(k \<mapsto> new)) f = total_over ks m f"
      by (simp add: total_over_notin del: fun_upd_apply)
    with True Cons.prems show ?thesis by (simp add: fun_upd_def ac_simps)
  next
    case False
    with Cons show ?thesis by (simp add: add.assoc)
  qed
qed simp

section \<open>A keyed store\<close>

text \<open>
  Accounts, matches and queue entries are all kept in a map that is read and written a row
  at a time. The interface the clients of such a store rely on, and what one and two writes
  do to a total over a roster of keys.
\<close>

locale keyed_store =
  fixes look :: "'s \<Rightarrow> 'k \<Rightarrow> 'v option"
    and put :: "'k \<Rightarrow> 'v \<Rightarrow> 's \<Rightarrow> 's"
  assumes look_put: "look (put k v s) = (look s)(k \<mapsto> v)"
begin

lemma look_put_same: "look (put k v s) k = Some v"
  by (simp add: look_put)

lemma look_put_other: "j \<noteq> k \<Longrightarrow> look (put k v s) j = look s j"
  by (simp add: look_put)

lemma put_total:
  assumes "distinct ks" "k \<in> set ks" "look s k = Some old"
  shows "total_over ks (look (put k new s)) f + f old = total_over ks (look s) f + f new"
  using total_over_update [of ks k "look s" old new f] assms by (simp add: look_put)

lemma put_two_total:
  fixes f :: "'v \<Rightarrow> 'm::cancel_comm_monoid_add"
  assumes d: "distinct ks" and k: "j \<in> set ks" "k \<in> set ks" "j \<noteq> k"
    and old: "look s j = Some a" "look s k = Some b"
  shows "total_over ks (look (put k b' (put j a' s))) f + (f a + f b)
       = total_over ks (look s) f + (f a' + f b')"
proof -
  have "look (put j a' s) k = Some b"
    using k(3) old(2) by (simp add: look_put_other)
  from put_total [OF d k(2) this, of b' f] put_total [OF d k(1) old(1), of a' f]
  show ?thesis
    by (metis (no_types, opaque_lifting) add.assoc add.commute)
qed

end

section \<open>Transition systems\<close>

text \<open>
  The other interface: a step relation and a predicate every step keeps. What is proved once
  here is that the predicate holds after any sequence of steps, and that a quantity no step
  changes is the same at both ends of one.
\<close>

locale invariant_system =
  fixes step :: "'s \<Rightarrow> 's \<Rightarrow> bool"
    and inv :: "'s \<Rightarrow> bool"
  assumes step_inv: "step s t \<Longrightarrow> inv s \<Longrightarrow> inv t"
begin

lemma steps_inv: "step\<^sup>*\<^sup>* s t \<Longrightarrow> inv s \<Longrightarrow> inv t"
  by (induction rule: rtranclp_induct) (auto intro: step_inv)

lemma steps_relate:
  assumes "step\<^sup>*\<^sup>* s t" and "inv s"
    and refl: "R s s"
    and trans: "\<And>t u. inv t \<Longrightarrow> R s t \<Longrightarrow> step t u \<Longrightarrow> R s u"
  shows "R s t"
  using assms(1)
proof (induction rule: rtranclp_induct)
  case base
  show ?case by (rule refl)
next
  case (step t u)
  then show ?case using assms(2) steps_inv trans by blast
qed

end

locale conserving_system = invariant_system step inv
  for step :: "'s \<Rightarrow> 's \<Rightarrow> bool" and inv :: "'s \<Rightarrow> bool" +
  fixes quantity :: "'s \<Rightarrow> 'q"
  assumes step_conserves: "step s t \<Longrightarrow> inv s \<Longrightarrow> quantity t = quantity s"
begin

lemma steps_conserve: "step\<^sup>*\<^sup>* s t \<Longrightarrow> inv s \<Longrightarrow> quantity t = quantity s"
  by (erule steps_relate [where R = "\<lambda>s t. quantity t = quantity s"]) (auto dest: step_conserves)

end

end
