(* ===== verification/Accounts.thy ===== *)
theory Accounts
  imports Prelude
begin

text \<open>
  The rows an account is made of, as \<open>src/src/accounts.js\<close> stores them and the rest of the
  server reads them, the counting of storage (\<open>inventory-space.js\<close>), the reading of a
  restriction (\<open>restrictions.js\<close>), and the store of accounts with the two writes the
  economy makes: one account, or two on one transaction.

  A column that may be null or missing is an option; a moment is its milliseconds. The values
  inside a row are the ones the column's type gives, so \<open>Number(row.id)\<close> is the id.
\<close>

section \<open>Rows\<close>

record item =
  it_id :: int
  it_account_id :: int
  it_item_id :: int
  it_power :: "int option"
  it_avatar_id :: "int option"
  it_avatar_slot :: "int option"
  it_is_new :: int
  it_requiredlevel :: "int option"
  it_rarity :: "int option"
  it_modifier1 :: "int option"
  it_modifier2 :: "int option"
  it_legendarymodifier :: "int option"
  it_created :: "int option"

record listing =
  li_id :: int
  li_item_id :: int
  li_price :: int
  li_listed_at :: "int option"
  li_sold_to :: "int option"
  li_sold_at :: "int option"
  li_tax :: "int option"
  li_proceeds :: "int option"
  li_power :: "int option"
  li_requiredlevel :: "int option"
  li_rarity :: "int option"
  li_modifier1 :: "int option"
  li_modifier2 :: "int option"
  li_legendarymodifier :: "int option"
  li_created :: "int option"

record chest =
  ch_id :: int
  ch_chest_id :: int

record stackable =
  st_id :: int
  st_account_id :: int
  st_stack_id :: int
  st_count :: int
  st_is_new :: int

record avatar =
  av_id :: int
  av_hero :: int
  av_experience :: int
  av_consumable1_id :: int
  av_consumable1_count :: int
  av_consumable2_id :: int
  av_consumable2_count :: int

text \<open>
  \<open>{ until, reason, by, at }\<close>: \<open>until\<close> is null (indefinitely), missing, a text no date can be
  read from, or a moment.
\<close>

datatype until = Indefinite | Missing | Unreadable | Until int

record restriction =
  rs_until :: until
  rs_reason :: string
  rs_by :: "int option"
  rs_at :: int

text \<open>The sheet of \<open>sanctions.js\<close>, kept on the account beside its restriction.\<close>

record sheet =
  sh_step :: int
  sh_strikes :: "int list"
  sh_until :: int
  sh_last :: int

record account =
  ac_id :: int
  ac_name :: string
  ac_gold :: int
  ac_items :: "item list"
  ac_chests :: "chest list"
  ac_listings :: "listing list"
  ac_avatars :: "avatar list"
  ac_stackables :: "stackable list"
  ac_buckets_weapon :: int
  ac_market_barred :: bool
  ac_restriction :: "restriction option"
  ac_sanctions :: "sheet option"
  ac_basic_keys :: int
  ac_uncommon_keys :: int
  ac_rare_keys :: int
  ac_legendary_keys :: int

text \<open>A column read as a truth value: null and zero are false.\<close>

fun truthy :: "int option \<Rightarrow> bool" where
  "truthy None = False"
| "truthy (Some n) = (n \<noteq> 0)"

section \<open>Storage, counted the client's way\<close>

definition equipped :: "item \<Rightarrow> bool" where
  "equipped it = truthy (it_avatar_id it)"

definition unequipped_weapons :: "account \<Rightarrow> nat" where
  "unequipped_weapons a = length (filter (\<lambda>it. \<not> equipped it) (ac_items a))"

definition held_chests :: "account \<Rightarrow> nat" where
  "held_chests a = length (ac_chests a)"

definition occupied_slots :: "account \<Rightarrow> nat" where
  "occupied_slots a = unequipped_weapons a + held_chests a"

definition storage_limit :: "account \<Rightarrow> int" where
  "storage_limit a = ac_buckets_weapon a"

definition within_storage :: "account \<Rightarrow> bool" where
  "within_storage a = (int (occupied_slots a) \<le> storage_limit a)"

section \<open>Restrictions\<close>

definition restriction_of :: "account \<Rightarrow> int \<Rightarrow> restriction option" where
  "restriction_of a now =
     (case ac_restriction a of
        None \<Rightarrow> None
      | Some r \<Rightarrow>
          (case rs_until r of
             Indefinite \<Rightarrow> Some r
           | Missing \<Rightarrow> Some r
           | Unreadable \<Rightarrow> Some r
           | Until ends \<Rightarrow> if ends > now then Some r else None))"

definition is_restricted :: "account \<Rightarrow> int \<Rightarrow> bool" where
  "is_restricted a now = (restriction_of a now \<noteq> None)"

text \<open>A restriction that has run out never comes back in force by waiting.\<close>

lemma restriction_over_stays_over:
  "restriction_of a now = None \<Longrightarrow> now \<le> later \<Longrightarrow> restriction_of a later = None"
  by (auto simp: restriction_of_def split: option.splits until.splits if_splits)

section \<open>The store of accounts\<close>

text \<open>
  What the account layer answers with: the stored accounts, who is in a dungeon
  (\<open>accountInPlay\<close>), whose loaded object would be a working copy of one on another match
  worker (\<open>isRemoteAccountCopy\<close>), and the population in the order \<open>listAccountIds\<close> gives.
  Loading an id nobody has makes the account: what it starts with is a template file of the
  deployment, so it is a parameter.
\<close>

record store =
  sr_ids :: "int list"
  sr_accounts :: "int \<Rightarrow> account option"
  sr_in_play :: "int \<Rightarrow> bool"
  sr_remote :: "int \<Rightarrow> bool"

definition load_account :: "(int \<Rightarrow> account) \<Rightarrow> store \<Rightarrow> int \<Rightarrow> account" where
  "load_account fresh s i = (case sr_accounts s i of Some a \<Rightarrow> a | None \<Rightarrow> fresh i)"

definition put_account :: "int \<Rightarrow> account \<Rightarrow> store \<Rightarrow> store" where
  "put_account i a s = s\<lparr>sr_accounts := (sr_accounts s)(i \<mapsto> a)\<rparr>"

definition save_account :: "account \<Rightarrow> store \<Rightarrow> store" where
  "save_account a s = put_account (ac_id a) a s"

definition save_accounts :: "account \<Rightarrow> account \<Rightarrow> store \<Rightarrow> store" where
  "save_accounts a b s = put_account (ac_id b) b (put_account (ac_id a) a s)"

interpretation accts: keyed_store sr_accounts put_account
  by unfold_locales (simp add: put_account_def)

lemma put_account_fields [simp]:
  "sr_ids (put_account i a s) = sr_ids s"
  "sr_in_play (put_account i a s) = sr_in_play s"
  "sr_remote (put_account i a s) = sr_remote s"
  by (simp_all add: put_account_def)

lemma load_account_known [simp]: "sr_accounts s i = Some a \<Longrightarrow> load_account fresh s i = a"
  by (simp add: load_account_def)

text \<open>
  The population is closed: every id of the roster has its account, filed under its own id,
  and no id is listed twice.
\<close>

definition well_filed :: "store \<Rightarrow> bool" where
  "well_filed s \<longleftrightarrow> distinct (sr_ids s)
     \<and> (\<forall>i\<in>set (sr_ids s). \<exists>a. sr_accounts s i = Some a \<and> ac_id a = i)"

lemma well_filed_get:
  assumes "well_filed s" "i \<in> set (sr_ids s)"
  obtains a where "sr_accounts s i = Some a" "ac_id a = i" "load_account fresh s i = a"
  using assms by (auto simp: well_filed_def)

lemma well_filed_distinct: "well_filed s \<Longrightarrow> distinct (sr_ids s)"
  by (simp add: well_filed_def)

lemma well_filed_put:
  "well_filed s \<Longrightarrow> ac_id a = i \<Longrightarrow> well_filed (put_account i a s)"
  by (auto simp: well_filed_def accts.look_put)

text \<open>What holds of every account of the roster, after one write and after two.\<close>

definition all_accounts :: "(account \<Rightarrow> bool) \<Rightarrow> store \<Rightarrow> bool" where
  "all_accounts P s \<longleftrightarrow> (\<forall>i\<in>set (sr_ids s). \<forall>a. sr_accounts s i = Some a \<longrightarrow> P a)"

lemma all_accountsD: "all_accounts P s \<Longrightarrow> i \<in> set (sr_ids s) \<Longrightarrow> sr_accounts s i = Some a \<Longrightarrow> P a"
  by (auto simp: all_accounts_def)

lemma all_accounts_put: "all_accounts P s \<Longrightarrow> P a \<Longrightarrow> all_accounts P (put_account i a s)"
  by (auto simp: all_accounts_def accts.look_put)

lemma well_filed_save: "well_filed s \<Longrightarrow> well_filed (save_account a s)"
  by (simp add: save_account_def well_filed_put)

lemma well_filed_saves: "well_filed s \<Longrightarrow> well_filed (save_accounts a b s)"
  by (simp add: save_accounts_def well_filed_put)

lemma all_accounts_save: "all_accounts P s \<Longrightarrow> P a \<Longrightarrow> all_accounts P (save_account a s)"
  by (simp add: save_account_def all_accounts_put)

lemma all_accounts_saves:
  "all_accounts P s \<Longrightarrow> P a \<Longrightarrow> P b \<Longrightarrow> all_accounts P (save_accounts a b s)"
  by (simp add: save_accounts_def all_accounts_put)

lemma save_fields [simp]:
  "sr_ids (save_account a s) = sr_ids s" "sr_ids (save_accounts a b s) = sr_ids s"
  by (simp_all add: save_account_def save_accounts_def)

lemma save_total:
  assumes "well_filed s" "sr_accounts s (ac_id a) = Some old" "ac_id a \<in> set (sr_ids s)"
  shows "total_over (sr_ids s) (sr_accounts (save_account a s)) f + f old
       = total_over (sr_ids s) (sr_accounts s) f + f a"
  unfolding save_account_def
  by (rule accts.put_total [OF well_filed_distinct [OF assms(1)] assms(3,2)])

lemma saves_total:
  fixes f :: "account \<Rightarrow> 'm::cancel_comm_monoid_add"
  assumes "well_filed s" "ac_id a \<in> set (sr_ids s)" "ac_id b \<in> set (sr_ids s)" "ac_id a \<noteq> ac_id b"
    and "sr_accounts s (ac_id a) = Some a0" "sr_accounts s (ac_id b) = Some b0"
  shows "total_over (sr_ids s) (sr_accounts (save_accounts a b s)) f + (f a0 + f b0)
       = total_over (sr_ids s) (sr_accounts s) f + (f a + f b)"
  unfolding save_accounts_def
  by (rule accts.put_two_total [OF well_filed_distinct [OF assms(1)] assms(2-6)])

section \<open>Weapons\<close>

text \<open>
  The columns that make a weapon the weapon it is, wherever it lies: everything but whose bag
  it is in, which hand holds it and the badge of a new arrival.
\<close>

record weapon =
  we_id :: int
  we_item_id :: int
  we_power :: "int option"
  we_requiredlevel :: "int option"
  we_rarity :: "int option"
  we_modifiers :: "int option \<times> int option \<times> int option"
  we_created :: "int option"

definition weapon_of_item :: "item \<Rightarrow> weapon" where
  "weapon_of_item it = \<lparr>we_id = it_id it, we_item_id = it_item_id it, we_power = it_power it,
     we_requiredlevel = it_requiredlevel it, we_rarity = it_rarity it,
     we_modifiers = (it_modifier1 it, it_modifier2 it, it_legendarymodifier it),
     we_created = it_created it\<rparr>"

definition weapon_of_listing :: "listing \<Rightarrow> weapon" where
  "weapon_of_listing l = \<lparr>we_id = li_id l, we_item_id = li_item_id l, we_power = li_power l,
     we_requiredlevel = li_requiredlevel l, we_rarity = li_rarity l,
     we_modifiers = (li_modifier1 l, li_modifier2 l, li_legendarymodifier l),
     we_created = li_created l\<rparr>"

lemma add_item_counts:
  "ac_items a' = ac_items a @ [it] \<Longrightarrow> ac_chests a' = ac_chests a \<Longrightarrow> \<not> equipped it \<Longrightarrow>
   occupied_slots a' = Suc (occupied_slots a)"
  by (simp add: occupied_slots_def unequipped_weapons_def held_chests_def)

lemma drop_item_counts:
  "ac_items a' = remove1 it (ac_items a) \<Longrightarrow> ac_chests a' = ac_chests a \<Longrightarrow> it \<in> set (ac_items a) \<Longrightarrow>
   \<not> equipped it \<Longrightarrow> Suc (occupied_slots a') = occupied_slots a"
  by (simp add: occupied_slots_def unequipped_weapons_def held_chests_def length_filter_remove1
      flip: add_Suc)

end
