(* ===== verification/Market.thy ===== *)
theory Market
  imports Accounts
begin

text \<open>
  The player market: \<open>src/src/market.js\<close>, the rules of \<open>market-rules.js\<close>, the shop value
  they are measured against (\<open>store.js\<close>) and the sale record of \<open>market-history.js\<close>.

  Each of the four writes is modelled as the code runs it: the checks made before the lock,
  then the section under the account lock, which decides. A purchase looks its seller up
  before it takes the two locks, so the locked section is a definition of its own that takes
  whichever seller an earlier look found; the step relation of the economy runs it from any
  state, which covers every interleaving of two purchases.
\<close>

section \<open>What the shop would pay\<close>

record rarity_row =
  ra_id :: int
  ra_key_offer :: int
  ra_number_of_modifiers :: int
  ra_level_weight :: real
  ra_modifier_weight :: real
  ra_max_sell :: real
  ra_min_sell :: real

record offer_row =
  of_id :: int
  of_price :: "int option"
  of_coin_offer :: "int option"

record modifier_row =
  mo_id :: int
  mo_level :: int

record game_master =
  gm_rarity :: "rarity_row list"
  gm_offers :: "offer_row list"
  gm_modifiers :: "modifier_row list"

definition rarity_base_price :: "game_master \<Rightarrow> rarity_row \<Rightarrow> int" where
  "rarity_base_price gm r =
     (case find_row (\<lambda>row. of_id row = ra_key_offer r) (gm_offers gm) of
        None \<Rightarrow> 0
      | Some offer \<Rightarrow>
          let coin = (if truthy (of_coin_offer offer)
                      then find_row (\<lambda>row. Some (of_id row) = of_coin_offer offer) (gm_offers gm)
                      else None);
              chosen = (case coin of Some c \<Rightarrow> c | None \<Rightarrow> offer)
          in (case of_price chosen of Some p \<Rightarrow> p | None \<Rightarrow> 0))"

definition modifier_level :: "game_master \<Rightarrow> int option \<Rightarrow> int" where
  "modifier_level gm m =
     (if truthy m
      then (case find_row (\<lambda>row. Some (mo_id row) = m) (gm_modifiers gm) of
              Some row \<Rightarrow> mo_level row | None \<Rightarrow> 0)
      else 0)"

definition weapon_sale_value :: "game_master \<Rightarrow> item \<Rightarrow> int" where
  "weapon_sale_value gm it =
     (case find_row (\<lambda>row. Some (ra_id row) = it_rarity it) (gm_rarity gm) of
        None \<Rightarrow> 0
      | Some r \<Rightarrow>
          let modified = ra_number_of_modifiers r > 0;
              weight = (if modified then ra_number_of_modifiers r * 3 else 1);
              levels = (if modified
                        then modifier_level gm (it_modifier1 it) + modifier_level gm (it_modifier2 it)
                        else 0);
              required = (case it_requiredlevel it of Some n \<Rightarrow> n | None \<Rightarrow> 0);
              slide = of_int required / 100 * ra_level_weight r
                      + of_int levels / of_int weight * ra_modifier_weight r;
              value = ((ra_max_sell r - ra_min_sell r) * slide + ra_min_sell r)
                      * of_int (rarity_base_price gm r)
          in max 0 (js_round value))"

section \<open>The rules\<close>

record market_config =
  mc_tax_rate :: real
  mc_listing_delay_seconds :: int
  mc_slots_per_hero :: int
  mc_price_ceiling_multiple :: real
  mc_min_ceiling :: int

text \<open>What \<open>config.js\<close> makes of the settings: a tax between nothing and nine tenths, no
  negative delay, at least one slot a hero, a ceiling of at least one sale.\<close>

definition valid_market_config :: "market_config \<Rightarrow> bool" where
  "valid_market_config c \<longleftrightarrow> 0 \<le> mc_tax_rate c \<and> mc_tax_rate c \<le> 9 / 10
     \<and> 0 \<le> mc_listing_delay_seconds c \<and> 1 \<le> mc_slots_per_hero c
     \<and> 1 \<le> mc_price_ceiling_multiple c \<and> 0 \<le> mc_min_ceiling c"

definition ceiling_for :: "market_config \<Rightarrow> game_master \<Rightarrow> item \<Rightarrow> real" where
  "ceiling_for c gm it =
     max (of_int (mc_min_ceiling c)) (of_int (weapon_sale_value gm it) * mc_price_ceiling_multiple c)"

definition slots_for :: "market_config \<Rightarrow> account \<Rightarrow> int" where
  "slots_for c a = max 1 (int (length (ac_avatars a))) * mc_slots_per_hero c"

definition share_of :: "market_config \<Rightarrow> int \<Rightarrow> int \<times> int" where
  "share_of c price =
     (let tax = js_round (of_int price * mc_tax_rate c) in (tax, price - tax))"

definition is_barred :: "account \<Rightarrow> bool" where
  "is_barred a = ac_market_barred a"

section \<open>Refusals and the numbers a caller names\<close>

datatype market_refusal =
    Bad_Account | Bad_Price | Bad_Listing | In_Dungeon | Barred | Restricted
  | Not_Owned | Equipped | No_Slots | Over_Ceiling | Gone | Own_Listing | Busy
  | Not_Enough_Gold | No_Room | Already_Sold

definition account_id_of :: "js_number \<Rightarrow> market_refusal + int" where
  "account_id_of v = (case v of
       Whole i \<Rightarrow> if is_safe_integer v \<and> 0 < i \<and> i \<le> 0xffffffff then Inr i else Inl Bad_Account
     | NotWhole \<Rightarrow> Inl Bad_Account)"

definition max_price :: int where
  "max_price = 2000000000"

definition price_of :: "js_number \<Rightarrow> market_refusal + int" where
  "price_of v = (case v of
       Whole i \<Rightarrow> if is_safe_integer v \<and> 1 \<le> i \<and> i \<le> max_price then Inr i else Inl Bad_Price
     | NotWhole \<Rightarrow> Inl Bad_Price)"

definition listing_id_of :: "js_number \<Rightarrow> market_refusal + int" where
  "listing_id_of v = (case v of
       Whole i \<Rightarrow> if is_safe_integer v \<and> 0 < i then Inr i else Inl Bad_Listing
     | NotWhole \<Rightarrow> Inl Bad_Listing)"

section \<open>Listings\<close>

definition sold :: "listing \<Rightarrow> bool" where
  "sold l = truthy (li_sold_to l)"

definition open_listings :: "account \<Rightarrow> listing list" where
  "open_listings a = filter (\<lambda>l. \<not> sold l) (ac_listings a)"

definition sold_listings :: "account \<Rightarrow> listing list" where
  "sold_listings a = filter sold (ac_listings a)"

definition listing_named :: "account \<Rightarrow> int \<Rightarrow> listing option" where
  "listing_named a i =
     (let rows = filter (\<lambda>l. li_id l = i) (ac_listings a) in
      case find_row (\<lambda>l. \<not> sold l) rows of
        Some l \<Rightarrow> Some l
      | None \<Rightarrow> (case rows of [] \<Rightarrow> None | l # _ \<Rightarrow> Some l))"

definition up_at :: "market_config \<Rightarrow> listing \<Rightarrow> int" where
  "up_at c l = (case li_listed_at l of
       None \<Rightarrow> 0
     | Some listed \<Rightarrow> listed + max 0 (mc_listing_delay_seconds c) * 1000)"

definition is_up :: "market_config \<Rightarrow> int \<Rightarrow> listing \<Rightarrow> bool" where
  "is_up c now l = (up_at c l \<le> now)"

definition as_listing :: "int \<Rightarrow> item \<Rightarrow> int \<Rightarrow> listing" where
  "as_listing now it price = \<lparr>
     li_id = it_id it, li_item_id = it_item_id it, li_price = price, li_listed_at = Some now,
     li_sold_to = None, li_sold_at = None, li_tax = None, li_proceeds = None,
     li_power = it_power it, li_requiredlevel = it_requiredlevel it, li_rarity = it_rarity it,
     li_modifier1 = it_modifier1 it, li_modifier2 = it_modifier2 it,
     li_legendarymodifier = it_legendarymodifier it, li_created = it_created it\<rparr>"

definition as_item :: "listing \<Rightarrow> int \<Rightarrow> item" where
  "as_item l account_id = \<lparr>
     it_id = li_id l, it_account_id = account_id, it_item_id = li_item_id l,
     it_power = li_power l, it_avatar_id = None, it_avatar_slot = None, it_is_new = 1,
     it_requiredlevel = li_requiredlevel l, it_rarity = li_rarity l,
     it_modifier1 = li_modifier1 l, it_modifier2 = li_modifier2 l,
     it_legendarymodifier = li_legendarymodifier l, it_created = li_created l\<rparr>"

record view =
  vi_id :: int
  vi_seller_id :: int
  vi_seller_name :: string
  vi_item_id :: int
  vi_price :: int
  vi_listed_at :: "int option"
  vi_up_at :: "int option"
  vi_weapon :: weapon

definition as_view :: "market_config \<Rightarrow> listing \<Rightarrow> int \<Rightarrow> string \<Rightarrow> view" where
  "as_view c l seller_id seller_name = \<lparr>
     vi_id = li_id l, vi_seller_id = seller_id, vi_seller_name = seller_name,
     vi_item_id = li_item_id l, vi_price = li_price l, vi_listed_at = li_listed_at l,
     vi_up_at = (if up_at c l \<noteq> 0 then Some (up_at c l) else li_listed_at l),
     vi_weapon = weapon_of_listing l\<rparr>"

definition room_for_one :: "account \<Rightarrow> bool" where
  "room_for_one a = (\<not> int (occupied_slots a + 1) > storage_limit a)"

section \<open>Putting a weapon up\<close>

text \<open>The section under the seller's lock, after the second look at whether they play.\<close>

definition list_locked ::
  "market_config \<Rightarrow> game_master \<Rightarrow> int \<Rightarrow> int \<Rightarrow> int \<Rightarrow> account \<Rightarrow> market_refusal + account" where
  "list_locked c gm now wanted asking a =
     (if is_barred a then Inl Barred
      else if is_restricted a now then Inl Restricted
      else case find_row (\<lambda>row. it_id row = wanted) (ac_items a) of
        None \<Rightarrow> Inl Not_Owned
      | Some it \<Rightarrow>
          if equipped it then Inl Equipped
          else if int (length (open_listings a)) \<ge> slots_for c a then Inl No_Slots
          else if of_int asking > ceiling_for c gm it then Inl Over_Ceiling
          else Inr (a\<lparr>ac_items := remove1 it (ac_items a),
                     ac_listings := ac_listings a @ [as_listing now it asking]\<rparr>))"

definition list_for_sale ::
  "(int \<Rightarrow> account) \<Rightarrow> market_config \<Rightarrow> game_master \<Rightarrow> int \<Rightarrow>
   js_number \<Rightarrow> js_number \<Rightarrow> js_number \<Rightarrow> store \<Rightarrow> market_refusal + store \<times> view option" where
  "list_for_sale fresh c gm now seller_id item_id price s =
     (case account_id_of seller_id of Inl e \<Rightarrow> Inl e | Inr seller \<Rightarrow>
      case price_of price of Inl e \<Rightarrow> Inl e | Inr asking \<Rightarrow>
      case listing_id_of item_id of Inl e \<Rightarrow> Inl e | Inr wanted \<Rightarrow>
      if sr_in_play s seller then Inl In_Dungeon
      else case list_locked c gm now wanted asking (load_account fresh s seller) of
        Inl e \<Rightarrow> Inl e
      | Inr a \<Rightarrow> Inr (save_account a s,
                   map_option (\<lambda>l. as_view c l seller (ac_name a)) (listing_named a wanted)))"

section \<open>Buying one\<close>

text \<open>The scan of the population for the account that has the listing up.\<close>

fun scan_for :: "(int \<Rightarrow> account option) \<Rightarrow> int \<Rightarrow> int list \<Rightarrow> int option" where
  "scan_for accounts wanted [] = None"
| "scan_for accounts wanted (i # is) =
     (case accounts i of
        None \<Rightarrow> scan_for accounts wanted is
      | Some a \<Rightarrow>
          (case listing_named a wanted of
             None \<Rightarrow> scan_for accounts wanted is
           | Some l \<Rightarrow> if sold l then scan_for accounts wanted is else Some i))"

definition seller_holding :: "store \<Rightarrow> int \<Rightarrow> int option" where
  "seller_holding s wanted = scan_for (sr_accounts s) wanted (sr_ids s)"

fun replace_row :: "'a \<Rightarrow> 'a \<Rightarrow> 'a list \<Rightarrow> 'a list" where
  "replace_row old new [] = []"
| "replace_row old new (x # xs) = (if x = old then new # xs else x # replace_row old new xs)"

definition mark_sold :: "market_config \<Rightarrow> int \<Rightarrow> int \<Rightarrow> listing \<Rightarrow> listing" where
  "mark_sold c now buyer l =
     (let (tax, proceeds) = share_of c (li_price l)
      in l\<lparr>li_sold_to := Some buyer, li_sold_at := Some now,
           li_tax := Some tax, li_proceeds := Some proceeds\<rparr>)"

text \<open>
  The exchange itself, on the two loaded accounts: what is refused, and the two accounts as
  they are saved together.
\<close>

definition buy_exchange ::
  "market_config \<Rightarrow> int \<Rightarrow> int \<Rightarrow> account \<Rightarrow> account \<Rightarrow> market_refusal + account \<times> account \<times> listing" where
  "buy_exchange c now wanted seller buyer =
     (if is_barred buyer then Inl Barred
      else if is_restricted buyer now then Inl Restricted
      else if is_restricted seller now then Inl Gone
      else case listing_named seller wanted of
        None \<Rightarrow> Inl Gone
      | Some l \<Rightarrow>
          if sold l then Inl Gone
          else if \<not> is_up c now l then Inl Gone
          else if li_price l > ac_gold buyer then Inl Not_Enough_Gold
          else if \<not> room_for_one buyer then Inl No_Room
          else let marked = mark_sold c now (ac_id buyer) l in
            Inr (seller\<lparr>ac_listings := replace_row l marked (ac_listings seller)\<rparr>,
                 buyer\<lparr>ac_gold := ac_gold buyer - li_price l,
                       ac_items := ac_items buyer @ [as_item l (ac_id buyer)]\<rparr>,
                 marked))"

text \<open>One completed sale, as it is written down for good.\<close>

record sale =
  sa_listing_id :: int
  sa_at :: "int option"
  sa_seller_id :: int
  sa_seller_name :: string
  sa_buyer_id :: int
  sa_buyer_name :: string
  sa_item_id :: int
  sa_rarity :: "int option"
  sa_power :: "int option"
  sa_requiredlevel :: "int option"
  sa_modifier1 :: "int option"
  sa_modifier2 :: "int option"
  sa_legendarymodifier :: "int option"
  sa_price :: int
  sa_tax :: int
  sa_proceeds :: int
  sa_listed_at :: "int option"

definition nonzero :: "int option \<Rightarrow> int option" where
  "nonzero v = (if truthy v then v else None)"

definition sale_record :: "listing \<Rightarrow> account \<Rightarrow> account \<Rightarrow> sale" where
  "sale_record l seller buyer = \<lparr>
     sa_listing_id = li_id l, sa_at = li_sold_at l,
     sa_seller_id = ac_id seller, sa_seller_name = ac_name seller,
     sa_buyer_id = ac_id buyer, sa_buyer_name = ac_name buyer,
     sa_item_id = li_item_id l, sa_rarity = li_rarity l, sa_power = li_power l,
     sa_requiredlevel = li_requiredlevel l,
     sa_modifier1 = nonzero (li_modifier1 l), sa_modifier2 = nonzero (li_modifier2 l),
     sa_legendarymodifier = nonzero (li_legendarymodifier l),
     sa_price = li_price l,
     sa_tax = (case li_tax l of Some t \<Rightarrow> t | None \<Rightarrow> 0),
     sa_proceeds = (case li_proceeds l of Some p \<Rightarrow> p | None \<Rightarrow> li_price l),
     sa_listed_at = li_listed_at l\<rparr>"

definition buy_locked ::
  "(int \<Rightarrow> account) \<Rightarrow> market_config \<Rightarrow> int \<Rightarrow> int \<Rightarrow> int \<Rightarrow> int \<Rightarrow> store \<Rightarrow>
   market_refusal + store \<times> sale" where
  "buy_locked fresh c now seller buyer wanted s =
     (if sr_in_play s buyer then Inl In_Dungeon
      else if sr_remote s buyer then Inl In_Dungeon
      else if sr_remote s seller then Inl Busy
      else case buy_exchange c now wanted (load_account fresh s seller) (load_account fresh s buyer) of
        Inl e \<Rightarrow> Inl e
      | Inr (seller', buyer', l) \<Rightarrow>
          Inr (save_accounts seller' buyer' s, sale_record l seller' buyer'))"

definition buy_listing ::
  "(int \<Rightarrow> account) \<Rightarrow> market_config \<Rightarrow> int \<Rightarrow> js_number \<Rightarrow> js_number \<Rightarrow> store \<Rightarrow>
   market_refusal + store \<times> sale" where
  "buy_listing fresh c now listing_id buyer_id s =
     (case listing_id_of listing_id of Inl e \<Rightarrow> Inl e | Inr wanted \<Rightarrow>
      case account_id_of buyer_id of Inl e \<Rightarrow> Inl e | Inr buyer \<Rightarrow>
      if sr_in_play s buyer then Inl In_Dungeon
      else case seller_holding s wanted of
        None \<Rightarrow> Inl Gone
      | Some seller \<Rightarrow>
          if seller = buyer then Inl Own_Listing
          else buy_locked fresh c now seller buyer wanted s)"

section \<open>Taking one down, collecting what sold\<close>

definition cancel_locked :: "int \<Rightarrow> account \<Rightarrow> market_refusal + account" where
  "cancel_locked wanted a =
     (case listing_named a wanted of
        None \<Rightarrow> Inl Gone
      | Some l \<Rightarrow>
          if sold l then Inl Already_Sold
          else if \<not> room_for_one a then Inl No_Room
          else Inr (a\<lparr>ac_listings := remove1 l (ac_listings a),
                     ac_items := ac_items a @ [as_item l (ac_id a)]\<rparr>))"

definition cancel_listing ::
  "(int \<Rightarrow> account) \<Rightarrow> js_number \<Rightarrow> js_number \<Rightarrow> store \<Rightarrow> market_refusal + store" where
  "cancel_listing fresh listing_id seller_id s =
     (case listing_id_of listing_id of Inl e \<Rightarrow> Inl e | Inr wanted \<Rightarrow>
      case account_id_of seller_id of Inl e \<Rightarrow> Inl e | Inr seller \<Rightarrow>
      if sr_in_play s seller then Inl In_Dungeon
      else case cancel_locked wanted (load_account fresh s seller) of
        Inl e \<Rightarrow> Inl e
      | Inr a \<Rightarrow> Inr (save_account a s))"

definition owed_for :: "listing \<Rightarrow> int" where
  "owed_for l = (case li_proceeds l of Some p \<Rightarrow> p | None \<Rightarrow> li_price l)"

definition owed :: "account \<Rightarrow> int" where
  "owed a = (\<Sum>l\<leftarrow>sold_listings a. owed_for l)"

text \<open>Nothing sold answers zero and writes nothing.\<close>

definition claim_locked :: "account \<Rightarrow> account \<times> int" where
  "claim_locked a =
     (if sold_listings a = [] then (a, 0)
      else (a\<lparr>ac_gold := ac_gold a + owed a, ac_listings := open_listings a\<rparr>, owed a))"

definition claim_proceeds ::
  "(int \<Rightarrow> account) \<Rightarrow> js_number \<Rightarrow> store \<Rightarrow> market_refusal + store \<times> int" where
  "claim_proceeds fresh seller_id s =
     (case account_id_of seller_id of Inl e \<Rightarrow> Inl e | Inr seller \<Rightarrow>
      if sr_in_play s seller then Inl In_Dungeon
      else let a = load_account fresh s seller; (a', claimed) = claim_locked a
           in Inr (if sold_listings a = [] then s else save_account a' s, claimed))"

section \<open>Browsing\<close>

text \<open>
  Everything that is up, newest first: ISO texts compare as their moments do, and a listing
  with no date (the text \<open>null\<close>) sorts above them all. The rows a list was built from are
  kept for two seconds.
\<close>

definition browse_found :: "market_config \<Rightarrow> int \<Rightarrow> store \<Rightarrow> view list" where
  "browse_found c now s = concat (map (\<lambda>i. case sr_accounts s i of
       None \<Rightarrow> []
     | Some a \<Rightarrow> if is_restricted a now then []
                 else map (\<lambda>l. as_view c l i (ac_name a)) (filter (is_up c now) (open_listings a)))
     (sr_ids s))"

definition newest_first :: "view list \<Rightarrow> view list" where
  "newest_first vs = filter (\<lambda>v. vi_listed_at v = None) vs
     @ sort_key (\<lambda>v. - the (vi_listed_at v)) (filter (\<lambda>v. vi_listed_at v \<noteq> None) vs)"

definition browse_cache_ms :: int where
  "browse_cache_ms = 2000"

fun browse_all ::
  "market_config \<Rightarrow> int \<Rightarrow> store \<Rightarrow> (int \<times> view list) option \<Rightarrow>
   view list \<times> (int \<times> view list) option" where
  "browse_all c now s (Some (built, rows)) =
     (if now - built < browse_cache_ms then (rows, Some (built, rows))
      else let fresh = newest_first (browse_found c now s) in (fresh, Some (now, fresh)))"
| "browse_all c now s None =
     (let fresh = newest_first (browse_found c now s) in (fresh, Some (now, fresh)))"

record stall =
  sl_account_id :: int
  sl_listed :: "view list"
  sl_sold :: "listing list"
  sl_owed :: int

definition stall_for ::
  "(int \<Rightarrow> account) \<Rightarrow> market_config \<Rightarrow> js_number \<Rightarrow> store \<Rightarrow> market_refusal + stall" where
  "stall_for fresh c seller_id s =
     (case account_id_of seller_id of Inl e \<Rightarrow> Inl e | Inr seller \<Rightarrow>
      let a = load_account fresh s seller in
      Inr \<lparr>sl_account_id = seller,
           sl_listed = map (\<lambda>l. as_view c l seller (ac_name a)) (open_listings a),
           sl_sold = sold_listings a, sl_owed = owed a\<rparr>)"

section \<open>What each write does to the weapons and the gold\<close>

lemmas numbers_read = account_id_of_def price_of_def listing_id_of_def

lemma account_id_of_Inr:
  "account_id_of v = Inr i \<longleftrightarrow> v = Whole i \<and> 0 < i \<and> i \<le> 0xffffffff"
  by (auto simp: account_id_of_def max_safe_integer_def split: js_number.splits if_splits)

lemma price_of_Inr: "price_of v = Inr i \<longleftrightarrow> v = Whole i \<and> 1 \<le> i \<and> i \<le> max_price"
  by (auto simp: price_of_def max_price_def max_safe_integer_def split: js_number.splits if_splits)

lemma listing_id_of_Inr: "listing_id_of v = Inr i \<Longrightarrow> v = Whole i \<and> 0 < i"
  by (auto simp: listing_id_of_def split: js_number.splits if_splits)

lemma weapon_as_listing [simp, core_simps]: "weapon_of_listing (as_listing now it p) = weapon_of_item it"
  by (simp add: weapon_of_listing_def weapon_of_item_def as_listing_def)

lemma weapon_as_item [simp, core_simps]: "weapon_of_item (as_item l i) = weapon_of_listing l"
  by (simp add: weapon_of_listing_def weapon_of_item_def as_item_def)

lemma as_item_unequipped [simp]: "\<not> equipped (as_item l i)"
  by (simp add: equipped_def as_item_def)

lemma as_listing_open [simp]: "\<not> sold (as_listing now it p)" "li_id (as_listing now it p) = it_id it"
  "li_price (as_listing now it p) = p"
  by (simp_all add: sold_def as_listing_def)

definition account_weapons :: "account \<Rightarrow> weapon multiset" where
  "account_weapons a = image_mset weapon_of_item (mset (ac_items a))
     + image_mset weapon_of_listing (mset (open_listings a))"

definition account_wealth :: "account \<Rightarrow> int" where
  "account_wealth a = ac_gold a + owed a"

lemma listing_named_set:
  assumes "listing_named a i = Some l"
  shows "l \<in> set (ac_listings a) \<and> li_id l = i"
proof -
  let ?rows = "filter (\<lambda>l. li_id l = i) (ac_listings a)"
  have "l \<in> set ?rows"
    using assms by (auto simp: listing_named_def Let_def split: option.splits list.splits
        dest: find_row_Some filter_eq_ConsD)
  then show ?thesis by simp
qed

lemma listing_named_open:
  assumes "listing_named a i = Some l" "\<not> sold l"
  shows "l \<in> set (ac_listings a)" "li_id l = i" "l \<in> set (open_listings a)"
  using listing_named_set [OF assms(1)] assms(2) by (auto simp: open_listings_def)

lemma listing_named_prefers_open:
  "l \<in> set (open_listings a) \<Longrightarrow> li_id l = i \<Longrightarrow> \<exists>l'. listing_named a i = Some l' \<and> \<not> sold l'"
  by (auto simp: listing_named_def open_listings_def Let_def split: option.splits dest: find_row_Some)

subsection \<open>Listing\<close>

lemma list_locked_Inr:
  assumes "list_locked c gm now wanted asking a = Inr a'"
  obtains it where "it \<in> set (ac_items a)" "it_id it = wanted" "\<not> equipped it"
    "int (length (open_listings a)) < slots_for c a" "of_int asking \<le> ceiling_for c gm it"
    "\<not> is_barred a" "\<not> is_restricted a now"
    "a' = a\<lparr>ac_items := remove1 it (ac_items a),
            ac_listings := ac_listings a @ [as_listing now it asking]\<rparr>"
  using assms by (auto simp: list_locked_def not_le not_less split: if_splits option.splits
      dest!: find_row_Some)

lemma list_locked_keeps:
  assumes "list_locked c gm now wanted asking a = Inr a'"
  shows "account_weapons a' = account_weapons a" "account_wealth a' = account_wealth a"
    "ac_id a' = ac_id a" "ac_gold a' = ac_gold a" "Suc (occupied_slots a') = occupied_slots a"
    "int (length (open_listings a')) \<le> slots_for c a'"
proof -
  from assms obtain it where it: "it \<in> set (ac_items a)" "\<not> equipped it"
    "int (length (open_listings a)) < slots_for c a"
    "a' = a\<lparr>ac_items := remove1 it (ac_items a),
            ac_listings := ac_listings a @ [as_listing now it asking]\<rparr>"
    by (rule list_locked_Inr)
  have opn: "open_listings a' = open_listings a @ [as_listing now it asking]"
    "sold_listings a' = sold_listings a"
    by (simp_all add: it(4) open_listings_def sold_listings_def)
  show "account_weapons a' = account_weapons a"
    using image_mset_remove1 [OF it(1), of weapon_of_item]
    by (simp add: account_weapons_def opn) (simp add: it(4))
  show "account_wealth a' = account_wealth a"
    by (simp add: account_wealth_def owed_def opn) (simp add: it(4))
  show "Suc (occupied_slots a') = occupied_slots a"
    by (rule drop_item_counts [OF _ _ it(1,2)]) (simp_all add: it(4))
  show "int (length (open_listings a')) \<le> slots_for c a'"
    using it(3) by (simp add: opn) (simp add: it(4) slots_for_def)
qed (use assms in \<open>auto elim!: list_locked_Inr\<close>)

subsection \<open>Buying\<close>

lemma replace_row_filter_gone:
  "old \<in> set xs \<Longrightarrow> p old \<Longrightarrow> \<not> p new \<Longrightarrow> filter p (replace_row old new xs) = remove1 old (filter p xs)"
  by (induction xs) auto

lemma replace_row_sum:
  fixes f :: "'a \<Rightarrow> int"
  shows "old \<in> set xs \<Longrightarrow> \<not> p old \<Longrightarrow> p new \<Longrightarrow>
    (\<Sum>x\<leftarrow>filter p (replace_row old new xs). f x) = f new + (\<Sum>x\<leftarrow>filter p xs. f x)"
  by (induction xs) auto

lemma set_replace_row: "set (replace_row old new xs) \<subseteq> insert new (set xs)"
  by (induction xs) auto

lemma share_of_adds_up: "fst (share_of c p) + snd (share_of c p) = p"
  by (simp add: share_of_def Let_def)

lemma share_of_bounds:
  assumes "valid_market_config c" "0 \<le> p"
  shows "0 \<le> fst (share_of c p)" "fst (share_of c p) \<le> p"
proof -
  have r: "0 \<le> mc_tax_rate c" "mc_tax_rate c \<le> 1"
    using assms(1) by (auto simp: valid_market_config_def)
  show "0 \<le> fst (share_of c p)"
    using assms(2) r(1) by (simp add: share_of_def Let_def js_round_nonneg)
  have "of_int p * mc_tax_rate c \<le> of_int p * 1"
    using assms(2) r(2) by (intro mult_left_mono) auto
  then show "fst (share_of c p) \<le> p"
    by (simp add: share_of_def Let_def js_round_le_int)
qed

lemma mark_sold_fields [simp]:
  "sold (mark_sold c now b l) = (b \<noteq> 0)" "li_id (mark_sold c now b l) = li_id l"
  "li_price (mark_sold c now b l) = li_price l"
  "owed_for (mark_sold c now b l) = snd (share_of c (li_price l))"
  "li_tax (mark_sold c now b l) = Some (fst (share_of c (li_price l)))"
  by (auto simp: mark_sold_def sold_def owed_for_def Let_def case_prod_beta)

lemma buy_exchange_Inr:
  assumes "buy_exchange c now wanted a b = Inr (a', b', m)"
  obtains l where "listing_named a wanted = Some l" "\<not> sold l" "is_up c now l"
    "li_price l \<le> ac_gold b" "room_for_one b"
    "\<not> is_barred b" "\<not> is_restricted b now" "\<not> is_restricted a now"
    "m = mark_sold c now (ac_id b) l"
    "a' = a\<lparr>ac_listings := replace_row l m (ac_listings a)\<rparr>"
    "b' = b\<lparr>ac_gold := ac_gold b - li_price l, ac_items := ac_items b @ [as_item l (ac_id b)]\<rparr>"
  using assms by (auto simp: buy_exchange_def not_less Let_def split: if_splits option.splits)

lemma buy_exchange_keeps:
  assumes "buy_exchange c now wanted a b = Inr (a', b', m)" and "ac_id b \<noteq> 0"
  shows "account_weapons a' + account_weapons b' = account_weapons a + account_weapons b"
    and "account_wealth a' + account_wealth b' + the (li_tax m) = account_wealth a + account_wealth b"
    and "ac_id a' = ac_id a" "ac_id b' = ac_id b"
    and "ac_gold a' = ac_gold a" "0 \<le> ac_gold b'"
    and "occupied_slots a' = occupied_slots a" "within_storage b'"
    and "length (open_listings a') < length (open_listings a)"
    and "open_listings b' = open_listings b"
proof -
  from assms(1) obtain l where l: "listing_named a wanted = Some l" "\<not> sold l"
    "li_price l \<le> ac_gold b" "room_for_one b" "m = mark_sold c now (ac_id b) l"
    "a' = a\<lparr>ac_listings := replace_row l m (ac_listings a)\<rparr>"
    "b' = b\<lparr>ac_gold := ac_gold b - li_price l, ac_items := ac_items b @ [as_item l (ac_id b)]\<rparr>"
    by (rule buy_exchange_Inr)
  note mem = listing_named_open [OF l(1,2)]
  have sold_m: "sold m" using l(5) assms(2) by simp
  have opn: "open_listings a' = remove1 l (open_listings a)"
    using l(2,6) sold_m mem(1) by (simp add: open_listings_def replace_row_filter_gone)
  have owe: "owed a' = snd (share_of c (li_price l)) + owed a"
    using l(2,5,6) sold_m mem(1) by (simp add: owed_def sold_listings_def replace_row_sum)
  have lst: "open_listings b' = open_listings b" "sold_listings b' = sold_listings b"
    by (simp_all add: l(7) open_listings_def sold_listings_def)
  show "account_weapons a' + account_weapons b' = account_weapons a + account_weapons b"
    using image_mset_remove1 [OF mem(3), of weapon_of_listing]
    by (simp add: account_weapons_def opn lst) (simp add: l(6,7) ac_simps)
  show "account_wealth a' + account_wealth b' + the (li_tax m) = account_wealth a + account_wealth b"
    using share_of_adds_up [of c "li_price l"] owe lst
    by (simp add: account_wealth_def owed_def l(5,6,7))
  show "length (open_listings a') < length (open_listings a)"
    using mem(3) length_pos_if_in_set [OF mem(3)] by (simp add: opn length_remove1)
  show "within_storage b'"
    using l(4) add_item_counts [of b' b "as_item l (ac_id b)"]
    by (simp add: l(7) within_storage_def room_for_one_def storage_limit_def)
  show "occupied_slots a' = occupied_slots a"
    by (simp add: l(6) occupied_slots_def unequipped_weapons_def held_chests_def)
qed (use assms(1) in \<open>auto elim!: buy_exchange_Inr simp: open_listings_def\<close>)

subsection \<open>Withdrawing and claiming\<close>

lemma cancel_locked_Inr:
  assumes "cancel_locked wanted a = Inr a'"
  obtains l where "listing_named a wanted = Some l" "\<not> sold l" "room_for_one a"
    "a' = a\<lparr>ac_listings := remove1 l (ac_listings a), ac_items := ac_items a @ [as_item l (ac_id a)]\<rparr>"
  using assms by (auto simp: cancel_locked_def split: if_splits option.splits)

lemma cancel_locked_keeps:
  assumes "cancel_locked wanted a = Inr a'"
  shows "account_weapons a' = account_weapons a" "account_wealth a' = account_wealth a"
    "ac_id a' = ac_id a" "ac_gold a' = ac_gold a" "within_storage a'"
    "length (open_listings a') < length (open_listings a)"
proof -
  from assms obtain l where l: "listing_named a wanted = Some l" "\<not> sold l" "room_for_one a"
    "a' = a\<lparr>ac_listings := remove1 l (ac_listings a), ac_items := ac_items a @ [as_item l (ac_id a)]\<rparr>"
    by (rule cancel_locked_Inr)
  note mem = listing_named_open [OF l(1,2)]
  have opn: "open_listings a' = remove1 l (open_listings a)"
    using l(2) by (simp add: l(4) open_listings_def filter_remove1)
  have sld: "sold_listings a' = sold_listings a"
    using l(2) by (simp add: l(4) sold_listings_def filter_remove1 remove1_idem)
  show "account_weapons a' = account_weapons a"
    using image_mset_remove1 [OF mem(3), of weapon_of_listing]
    by (simp add: account_weapons_def opn) (simp add: l(4))
  show "account_wealth a' = account_wealth a"
    by (simp add: account_wealth_def owed_def sld) (simp add: l(4))
  show "within_storage a'"
    using l(3) add_item_counts [of a' a "as_item l (ac_id a)"]
    by (simp add: l(4) within_storage_def room_for_one_def storage_limit_def)
  show "length (open_listings a') < length (open_listings a)"
    using mem(3) length_pos_if_in_set [OF mem(3)] by (simp add: opn length_remove1)
qed (use assms in \<open>auto elim!: cancel_locked_Inr\<close>)

lemma claim_locked_listings:
  "open_listings (fst (claim_locked a)) = open_listings a"
  "sold_listings (fst (claim_locked a)) = []"
  by (auto simp: claim_locked_def open_listings_def sold_listings_def)

lemma claim_locked_keeps:
  "account_weapons (fst (claim_locked a)) = account_weapons a"
  "account_wealth (fst (claim_locked a)) = account_wealth a"
  "ac_id (fst (claim_locked a)) = ac_id a"
  "occupied_slots (fst (claim_locked a)) = occupied_slots a"
  "ac_gold (fst (claim_locked a)) = ac_gold a + owed a"
  using claim_locked_listings [of a]
  by (auto simp: claim_locked_def account_weapons_def account_wealth_def owed_def
      occupied_slots_def unequipped_weapons_def held_chests_def)

end
