(* ===== verification/Trade.thy ===== *)
theory Trade
  imports Accounts
begin

text \<open>
  The settling of a trade, \<open>src/src/trade.js\<close>: two parties, each offering gold and weapons,
  and the exchange that happens whole or not at all. What each side offers is checked against
  what it holds before either account is touched, in the order the code checks it.
\<close>

datatype trade_refusal =
    TR_Bad_Account | TR_Bad_Offer | TR_Not_Enough_Gold | TR_Not_Owned | TR_Equipped
  | TR_No_Room | TR_In_Dungeon

text \<open>
  A party as it arrives: the account it names, the gold (missing is nothing), and the items,
  \<open>None\<close> when they are not a list; a missing list is the empty one.
\<close>

record party =
  pa_account :: js_number
  pa_gold :: "js_number option"
  pa_items :: "js_number list option"

definition trade_account_id :: "js_number \<Rightarrow> trade_refusal + int" where
  "trade_account_id v = (case v of
       Whole i \<Rightarrow> if is_safe_integer v \<and> 0 < i \<and> i \<le> 0xffffffff then Inr i else Inl TR_Bad_Account
     | NotWhole \<Rightarrow> Inl TR_Bad_Account)"

section \<open>What one side gives\<close>

definition gather_gold :: "account \<Rightarrow> party \<Rightarrow> trade_refusal + int" where
  "gather_gold a p = (case pa_gold p of
       None \<Rightarrow> if 0 > ac_gold a then Inl TR_Not_Enough_Gold else Inr 0
     | Some v \<Rightarrow> (case v of
         NotWhole \<Rightarrow> Inl TR_Bad_Offer
       | Whole g \<Rightarrow>
           if \<not> is_safe_integer v \<or> g < 0 then Inl TR_Bad_Offer
           else if g > ac_gold a then Inl TR_Not_Enough_Gold
           else Inr g))"

text \<open>The loop over the named items: \<open>seen\<close> and \<open>found\<close> are its two collections.\<close>

fun gather_items ::
  "account \<Rightarrow> js_number list \<Rightarrow> js_number list \<Rightarrow> item list \<Rightarrow> trade_refusal + item list" where
  "gather_items a [] seen found = Inr found"
| "gather_items a (v # vs) seen found =
     (if v \<in> set seen then Inl TR_Bad_Offer
      else case (case v of NotWhole \<Rightarrow> None
                 | Whole i \<Rightarrow> find_row (\<lambda>row. it_id row = i) (ac_items a)) of
        None \<Rightarrow> Inl TR_Not_Owned
      | Some it \<Rightarrow>
          if equipped it then Inl TR_Equipped
          else gather_items a vs (v # seen) (found @ [it]))"

definition gather :: "account \<Rightarrow> party \<Rightarrow> trade_refusal + int \<times> item list" where
  "gather a p =
     (case gather_gold a p of Inl e \<Rightarrow> Inl e | Inr gold \<Rightarrow>
      case pa_items p of None \<Rightarrow> Inl TR_Bad_Offer | Some vs \<Rightarrow>
      case gather_items a vs [] [] of Inl e \<Rightarrow> Inl e | Inr items \<Rightarrow> Inr (gold, items))"

text \<open>Room after the whole exchange, not before it.\<close>

definition room_for :: "account \<Rightarrow> item list \<Rightarrow> item list \<Rightarrow> bool" where
  "room_for a giving receiving =
     (\<not> int (occupied_slots a) - int (length giving) + int (length receiving) > storage_limit a)"

section \<open>The exchange\<close>

definition received :: "int \<Rightarrow> item \<Rightarrow> item" where
  "received to it = it\<lparr>it_account_id := to, it_avatar_id := None, it_avatar_slot := None, it_is_new := 1\<rparr>"

fun hand_items :: "int \<Rightarrow> item list \<Rightarrow> item list \<Rightarrow> item list \<Rightarrow> item list \<times> item list" where
  "hand_items to [] mine theirs = (mine, theirs)"
| "hand_items to (it # its) mine theirs = hand_items to its (remove1 it mine) (theirs @ [received to it])"

definition hand :: "account \<Rightarrow> account \<Rightarrow> int \<times> item list \<Rightarrow> account \<times> account" where
  "hand giver taker taken =
     (let (mine, theirs) = hand_items (ac_id taker) (snd taken) (ac_items giver) (ac_items taker)
      in (giver\<lparr>ac_gold := ac_gold giver - fst taken, ac_items := mine\<rparr>,
          taker\<lparr>ac_gold := ac_gold taker + fst taken, ac_items := theirs\<rparr>))"

definition settle_exchange ::
  "party \<Rightarrow> party \<Rightarrow> account \<Rightarrow> account \<Rightarrow> trade_refusal + account \<times> account" where
  "settle_exchange p q first second =
     (case gather first p of Inl e \<Rightarrow> Inl e | Inr from_first \<Rightarrow>
      case gather second q of Inl e \<Rightarrow> Inl e | Inr from_second \<Rightarrow>
      if \<not> room_for first (snd from_first) (snd from_second) then Inl TR_No_Room
      else if \<not> room_for second (snd from_second) (snd from_first) then Inl TR_No_Room
      else let (first', second') = hand first second from_first;
               (second'', first'') = hand second' first' from_second
           in Inr (first'', second''))"

definition settle_trade ::
  "(int \<Rightarrow> account) \<Rightarrow> party list \<Rightarrow> store \<Rightarrow> trade_refusal + store" where
  "settle_trade fresh parties s =
     (case parties of
        [p, q] \<Rightarrow>
          (case trade_account_id (pa_account p) of Inl e \<Rightarrow> Inl e | Inr i \<Rightarrow>
           case trade_account_id (pa_account q) of Inl e \<Rightarrow> Inl e | Inr j \<Rightarrow>
           if i = j then Inl TR_Bad_Offer
           else if sr_in_play s i \<or> sr_in_play s j then Inl TR_In_Dungeon
           else case settle_exchange p q (load_account fresh s i) (load_account fresh s j) of
             Inl e \<Rightarrow> Inl e
           | Inr (a, b) \<Rightarrow> Inr (save_accounts a b s))
      | _ \<Rightarrow> Inl TR_Bad_Offer)"

section \<open>What was gathered\<close>

text \<open>
  The items gathered are distinct rows of the bag, none of them in a hand: ids already named
  are refused, and two rows that differ in their id are different rows.
\<close>

lemma gather_items_Inr:
  assumes "gather_items a vs seen found = Inr items"
    and "\<forall>it\<in>set found. Whole (it_id it) \<in> set seen"
    and "distinct found" "set found \<subseteq> set (ac_items a)" "\<forall>it\<in>set found. \<not> equipped it"
  shows "distinct items \<and> set items \<subseteq> set (ac_items a) \<and> (\<forall>it\<in>set items. \<not> equipped it)"
  using assms
proof (induction a vs seen found rule: gather_items.induct)
  case (2 a v vs seen found)
  from "2.prems"(1) obtain i it where v: "v = Whole i" "v \<notin> set seen"
    and it: "find_row (\<lambda>row. it_id row = i) (ac_items a) = Some it" "\<not> equipped it"
    and rest: "gather_items a vs (v # seen) (found @ [it]) = Inr items"
    by (auto split: if_splits option.splits js_number.splits)
  from it(1) have row: "it \<in> set (ac_items a)" "it_id it = i" by (auto dest: find_row_Some)
  have new: "it \<notin> set found" using "2.prems"(2) v row(2) by auto
  show ?case
    using "2.IH" [OF v(2)] it rest v row new "2.prems"(2-5) by auto
qed auto

lemma gather_Inr:
  assumes "gather a p = Inr (gold, items)"
  shows "0 \<le> gold" "gold \<le> ac_gold a" "distinct items" "set items \<subseteq> set (ac_items a)"
    "\<forall>it\<in>set items. \<not> equipped it"
  using assms gather_items_Inr [of a "the (pa_items p)" "[]" "[]" items]
  by (auto simp: gather_def gather_gold_def split: sum.splits option.splits js_number.splits if_splits)

section \<open>What the exchange does\<close>

lemma hand_items_result:
  "hand_items to its mine theirs = (foldl (\<lambda>xs it. remove1 it xs) mine its, theirs @ map (received to) its)"
  by (induction its arbitrary: mine theirs) auto

lemma foldl_remove1_mset: "mset (foldl (\<lambda>xs it. remove1 it xs) mine its) = mset mine - mset its"
  by (induction its arbitrary: mine) (auto simp: diff_diff_add)

lemma received_weapon [simp]: "weapon_of_item (received to it) = weapon_of_item it" "\<not> equipped (received to it)"
  by (simp_all add: received_def weapon_of_item_def equipped_def)

definition bag_weapons :: "account \<Rightarrow> weapon multiset" where
  "bag_weapons a = image_mset weapon_of_item (mset (ac_items a))"

text \<open>Counting unequipped weapons is counting them in the multiset of rows.\<close>

definition loose :: "item multiset \<Rightarrow> nat" where
  "loose M = size (filter_mset (\<lambda>it. \<not> equipped it) M)"

lemma unequipped_loose: "unequipped_weapons a = loose (mset (ac_items a))"
  by (simp add: unequipped_weapons_def loose_def flip: mset_filter size_mset)

lemma loose_add [simp]: "loose (M + N) = loose M + loose N"
  by (simp add: loose_def)

lemma loose_diff: "N \<subseteq># M \<Longrightarrow> loose (M - N) + loose N = loose M"
  by (metis loose_add subset_mset.diff_add)

lemma loose_all: "\<forall>it\<in>set its. \<not> equipped it \<Longrightarrow> loose (mset its) = length its"
  by (simp add: loose_def flip: mset_filter)

text \<open>One account after the exchange: without what it gave, with what it received.\<close>

definition exchanged :: "account \<Rightarrow> account \<Rightarrow> int \<times> item list \<Rightarrow> int \<times> item list \<Rightarrow> bool" where
  "exchanged a a' gave got \<longleftrightarrow>
     ac_gold a' = ac_gold a - fst gave + fst got
     \<and> mset (ac_items a') = mset (ac_items a) - mset (snd gave) + mset (map (received (ac_id a)) (snd got))
     \<and> a' = a\<lparr>ac_gold := ac_gold a', ac_items := ac_items a'\<rparr>"

lemma hand_back_mset:
  fixes bag added gone :: "item multiset"
  shows "gone \<subseteq># bag \<Longrightarrow> bag + added - gone = bag - gone + added"
  by (metis subset_mset.add_diff_assoc2)

lemma hand_fst: "fst (hand g t k) = g\<lparr>ac_gold := ac_gold g - fst k,
    ac_items := foldl (\<lambda>xs it. remove1 it xs) (ac_items g) (snd k)\<rparr>"
  by (simp add: hand_def hand_items_result)

lemma hand_snd: "snd (hand g t k) = t\<lparr>ac_gold := ac_gold t + fst k,
    ac_items := ac_items t @ map (received (ac_id t)) (snd k)\<rparr>"
  by (simp add: hand_def hand_items_result)

lemma hands_exchange:
  fixes a b :: account and x y :: "int \<times> item list"
  defines "one \<equiv> hand a b x"
  defines "two \<equiv> hand (snd one) (fst one) y"
  assumes "mset (snd y) \<subseteq># mset (ac_items b)"
  shows "exchanged a (snd two) x y" "exchanged b (fst two) y x"
proof -
  have a2: "snd two = a\<lparr>ac_gold := ac_gold a - fst x + fst y,
      ac_items := foldl (\<lambda>xs it. remove1 it xs) (ac_items a) (snd x) @ map (received (ac_id a)) (snd y)\<rparr>"
    by (simp add: two_def one_def hand_fst hand_snd)
  have b2: "fst two = b\<lparr>ac_gold := ac_gold b + fst x - fst y,
      ac_items := foldl (\<lambda>xs it. remove1 it xs) (ac_items b @ map (received (ac_id b)) (snd x)) (snd y)\<rparr>"
    by (simp add: two_def one_def hand_fst hand_snd)
  show "exchanged a (snd two) x y"
    by (simp add: a2 exchanged_def foldl_remove1_mset)
  show "exchanged b (fst two) y x"
    using hand_back_mset [OF assms(3), of "image_mset (received (ac_id b)) (mset (snd x))"]
    by (simp add: b2 exchanged_def foldl_remove1_mset)
qed

lemma settle_exchange_Inr:
  assumes "settle_exchange p q a b = Inr (a', b')"
  obtains x y where "gather a p = Inr x" "gather b q = Inr y"
    "room_for a (snd x) (snd y)" "room_for b (snd y) (snd x)"
    "exchanged a a' x y" "exchanged b b' y x"
proof -
  from assms obtain x where x: "gather a p = Inr x"
    by (auto simp: settle_exchange_def split: sum.splits)
  with assms obtain y where y: "gather b q = Inr y"
    by (auto simp: settle_exchange_def split: sum.splits)
  from assms x y have r: "room_for a (snd x) (snd y)" "room_for b (snd y) (snd x)"
    by (auto simp: settle_exchange_def split: if_splits)
  with assms x y have h: "a' = snd (hand (snd (hand a b x)) (fst (hand a b x)) y)"
      "b' = fst (hand (snd (hand a b x)) (fst (hand a b x)) y)"
    by (simp_all add: settle_exchange_def Let_def case_prod_beta)
  have "mset (snd y) \<subseteq># mset (ac_items b)"
    using gather_Inr [of b q "fst y" "snd y"] y by (simp add: distinct_subset_mset)
  from hands_exchange [OF this, of a x] show ?thesis
    by (intro that [OF x y r]) (simp_all add: h)
qed

text \<open>What an exchange keeps of one side, given what was gathered from it.\<close>

lemma exchanged_side:
  assumes ex: "exchanged a a' gave got"
    and given: "gather a p = Inr gave" and taken: "gather b q = Inr got"
    and room: "room_for a (snd gave) (snd got)"
  shows "0 \<le> ac_gold a'" "within_storage a'" "ac_id a' = ac_id a"
    "ac_listings a' = ac_listings a"
    "bag_weapons a' + image_mset weapon_of_item (mset (snd gave))
       = bag_weapons a + image_mset weapon_of_item (mset (snd got))"
proof -
  note g = gather_Inr [of a p "fst gave" "snd gave", simplified, OF given]
  note t = gather_Inr [of b q "fst got" "snd got", simplified, OF taken]
  have sub: "mset (snd gave) \<subseteq># mset (ac_items a)" using g(3,4) by (rule distinct_subset_mset)
  have m: "mset (ac_items a') = mset (ac_items a) - mset (snd gave) + mset (map (received (ac_id a)) (snd got))"
    using ex by (simp add: exchanged_def)
  have a': "a' = a\<lparr>ac_gold := ac_gold a', ac_items := ac_items a'\<rparr>" using ex unfolding exchanged_def by blast
  show "ac_id a' = ac_id a" "ac_listings a' = ac_listings a" by (subst a', simp)+
  show "0 \<le> ac_gold a'" using ex g(2) t(1) by (simp add: exchanged_def)
  have "loose (mset (ac_items a')) + length (snd gave) = loose (mset (ac_items a)) + length (snd got)"
    using loose_diff [OF sub] loose_all [OF g(5)]
      loose_all [of "map (received (ac_id a)) (snd got)"] by (simp add: m)
  moreover have "ac_chests a' = ac_chests a" "ac_buckets_weapon a' = ac_buckets_weapon a"
    by (subst a', simp)+
  ultimately show "within_storage a'"
    using room by (simp add: within_storage_def room_for_def storage_limit_def occupied_slots_def
        unequipped_loose held_chests_def)
  have split: "image_mset weapon_of_item (mset (ac_items a) - mset (snd gave))
      + image_mset weapon_of_item (mset (snd gave)) = bag_weapons a"
    unfolding bag_weapons_def using sub
    by (metis image_mset_union subset_mset.diff_add)
  then show "bag_weapons a' + image_mset weapon_of_item (mset (snd gave))
       = bag_weapons a + image_mset weapon_of_item (mset (snd got))"
    by (simp add: bag_weapons_def m image_mset.compositionality comp_def ac_simps)
qed

end
