(* ===== verification/Economy.thy ===== *)
theory Economy
  imports Market Trade
begin

text \<open>
  The market and the trades together, as one transition system over the store of accounts:
  every write of \<open>market.js\<close> and \<open>trade.js\<close> is a step, and so is anybody walking into or
  out of a dungeon. A purchase is run with whichever seller some earlier look found, so a run
  holds every interleaving of the scan for a seller with the writes of others.

  Shown: no weapon is made, lost or doubled; gold is never made, and a sale takes exactly its
  tax out; nobody goes below nothing, over their storage or over their listing slots.
\<close>

section \<open>Steps\<close>

text \<open>Every account a step names is one that exists (\<open>sr_ids\<close>).\<close>

inductive economy_step ::
  "(int \<Rightarrow> account) \<Rightarrow> market_config \<Rightarrow> game_master \<Rightarrow> store \<Rightarrow> store \<Rightarrow> bool"
  for fresh :: "int \<Rightarrow> account" and c :: market_config and gm :: game_master where
  step_list: "i \<in> set (sr_ids s) \<Longrightarrow>
     list_for_sale fresh c gm now (Whole i) item_no price s = Inr (t, v) \<Longrightarrow> economy_step fresh c gm s t"
| step_buy: "i \<in> set (sr_ids s) \<Longrightarrow> j \<in> set (sr_ids s) \<Longrightarrow> i \<noteq> j \<Longrightarrow> account_id_of (Whole j) = Inr j \<Longrightarrow>
     buy_locked fresh c now i j wanted s = Inr (t, sl) \<Longrightarrow> economy_step fresh c gm s t"
| step_cancel: "i \<in> set (sr_ids s) \<Longrightarrow>
     cancel_listing fresh listing_no (Whole i) s = Inr t \<Longrightarrow> economy_step fresh c gm s t"
| step_claim: "i \<in> set (sr_ids s) \<Longrightarrow>
     claim_proceeds fresh (Whole i) s = Inr (t, n) \<Longrightarrow> economy_step fresh c gm s t"
| step_trade: "pa_account p = Whole i \<Longrightarrow> pa_account q = Whole j \<Longrightarrow>
     i \<in> set (sr_ids s) \<Longrightarrow> j \<in> set (sr_ids s) \<Longrightarrow>
     settle_trade fresh [p, q] s = Inr t \<Longrightarrow> economy_step fresh c gm s t"
| step_play: "economy_step fresh c gm s (s\<lparr>sr_in_play := f, sr_remote := g\<rparr>)"

text \<open>
  Every write is one account saved or two saved together, and which ones is all the rest needs
  to know of it.
\<close>

inductive account_write :: "market_config \<Rightarrow> account \<Rightarrow> account \<Rightarrow> bool" for c :: market_config where
  write_list: "list_locked c gm now wanted asking a = Inr a' \<Longrightarrow> 1 \<le> asking \<Longrightarrow> account_write c a a'"
| write_cancel: "cancel_locked wanted a = Inr a' \<Longrightarrow> account_write c a a'"
| write_claim: "claim_locked a = (a', n) \<Longrightarrow> account_write c a a'"

inductive pair_write :: "market_config \<Rightarrow> account \<times> account \<Rightarrow> account \<times> account \<Rightarrow> bool"
  for c :: market_config where
  write_buy: "buy_exchange c now wanted a b = Inr (a', b', m) \<Longrightarrow> ac_id b \<noteq> 0 \<Longrightarrow>
     pair_write c (a, b) (a', b')"
| write_trade: "settle_exchange p q a b = Inr (a', b') \<Longrightarrow> pair_write c (a, b) (a', b')"

lemma economy_step_shape:
  assumes "economy_step fresh c gm s t" and "well_filed s"
  obtains (one) a a' where "sr_accounts s (ac_id a) = Some a" "ac_id a \<in> set (sr_ids s)"
      "account_write c a a'" "t = save_account a' s"
  | (two) a b a' b' where "sr_accounts s (ac_id a) = Some a" "sr_accounts s (ac_id b) = Some b"
      "ac_id a \<in> set (sr_ids s)" "ac_id b \<in> set (sr_ids s)" "ac_id a \<noteq> ac_id b"
      "pair_write c (a, b) (a', b')" "t = save_accounts a' b' s"
  | (same) "sr_ids t = sr_ids s" "sr_accounts t = sr_accounts s"
  using assms(1)
proof cases
  case (step_list i now item_no price v)
  obtain a where a: "sr_accounts s i = Some a" "ac_id a = i" "load_account fresh s i = a"
    using assms(2) step_list(1) by (rule well_filed_get)
  from step_list(2) obtain wanted asking a' where
    "price_of price = Inr asking" "list_locked c gm now wanted asking a = Inr a'" "t = save_account a' s"
    by (auto simp: list_for_sale_def a(3) account_id_of_Inr split: sum.splits if_splits)
  then show thesis using one [of a a'] a step_list(1) write_list by (auto simp: price_of_Inr)
next
  case (step_buy i j now wanted sl)
  obtain a where a: "sr_accounts s i = Some a" "ac_id a = i" "load_account fresh s i = a"
    using assms(2) step_buy(1) by (rule well_filed_get)
  obtain b where b: "sr_accounts s j = Some b" "ac_id b = j" "load_account fresh s j = b"
    using assms(2) step_buy(2) by (rule well_filed_get)
  from step_buy(5) obtain a' b' m where
    "buy_exchange c now wanted a b = Inr (a', b', m)" "t = save_accounts a' b' s"
    by (auto simp: buy_locked_def a(3) b(3) split: sum.splits if_splits)
  moreover from this have "pair_write c (a, b) (a', b')"
    using b(2) step_buy(4) by (intro write_buy) (auto simp: account_id_of_Inr)
  ultimately show thesis
    using two [of a b a' b'] a b step_buy(1-3) by simp
next
  case (step_cancel i listing_no)
  obtain a where a: "sr_accounts s i = Some a" "ac_id a = i" "load_account fresh s i = a"
    using assms(2) step_cancel(1) by (rule well_filed_get)
  from step_cancel(2) obtain wanted a' where
    "cancel_locked wanted a = Inr a'" "t = save_account a' s"
    by (auto simp: cancel_listing_def a(3) account_id_of_Inr split: sum.splits if_splits)
  then show thesis using one [of a a'] a step_cancel(1) write_cancel by auto
next
  case (step_claim i n)
  obtain a where a: "sr_accounts s i = Some a" "ac_id a = i" "load_account fresh s i = a"
    using assms(2) step_claim(1) by (rule well_filed_get)
  from step_claim(2) have "t = s \<or> t = save_account (fst (claim_locked a)) s"
    by (auto simp: claim_proceeds_def a(3) account_id_of_Inr Let_def case_prod_beta
        split: sum.splits if_splits)
  moreover have "account_write c a (fst (claim_locked a))"
    by (rule write_claim) (rule prod.collapse [symmetric])
  ultimately show thesis using one [of a] same a step_claim(1) by blast
next
  case (step_trade p i q j)
  obtain a where a: "sr_accounts s i = Some a" "ac_id a = i" "load_account fresh s i = a"
    using assms(2) step_trade(3) by (rule well_filed_get)
  obtain b where b: "sr_accounts s j = Some b" "ac_id b = j" "load_account fresh s j = b"
    using assms(2) step_trade(4) by (rule well_filed_get)
  from step_trade(5) obtain a' b' where
    "i \<noteq> j" "settle_exchange p q a b = Inr (a', b')" "t = save_accounts a' b' s"
    by (auto simp: settle_trade_def step_trade(1,2) a(3) b(3) trade_account_id_def
        split: sum.splits if_splits)
  then show thesis
    using two [of a b a' b'] a b step_trade(3,4) by (auto intro: write_trade)
next
  case step_play
  then show thesis by (intro same) simp_all
qed

section \<open>What a write keeps of the accounts it touches\<close>

definition sound_account :: "market_config \<Rightarrow> account \<Rightarrow> bool" where
  "sound_account c a \<longleftrightarrow> 0 \<le> ac_gold a \<and> within_storage a
     \<and> int (length (open_listings a)) \<le> slots_for c a
     \<and> (\<forall>l\<in>set (ac_listings a). 0 \<le> li_price l \<and> 0 \<le> owed_for l)"

lemma sound_owed: "sound_account c a \<Longrightarrow> 0 \<le> owed a"
  by (auto simp: sound_account_def owed_def sold_listings_def intro!: sum_list_nonneg)

lemma account_write_keeps:
  assumes "account_write c a a'"
  shows "account_weapons a' = account_weapons a" "account_wealth a' = account_wealth a" "ac_id a' = ac_id a"
  using assms by (cases; use list_locked_keeps cancel_locked_keeps claim_locked_keeps [of a] in auto)+

lemma account_write_sound:
  assumes "account_write c a a'" "sound_account c a"
  shows "sound_account c a'"
  using assms(1)
proof cases
  case (write_list gm now wanted asking)
  note k = list_locked_keeps [OF write_list(1)]
  from write_list(1) obtain it where
    "a' = a\<lparr>ac_items := remove1 it (ac_items a), ac_listings := ac_listings a @ [as_listing now it asking]\<rparr>"
    by (rule list_locked_Inr)
  then have l: "ac_listings a' = ac_listings a @ [as_listing now it asking]"
    "storage_limit a' = storage_limit a" by (simp_all add: storage_limit_def)
  moreover have "owed_for (as_listing now it asking) = asking"
    by (simp add: owed_for_def as_listing_def)
  ultimately show ?thesis
    using assms(2) k write_list(2) by (auto simp: sound_account_def within_storage_def)
next
  case (write_cancel wanted)
  note k = cancel_locked_keeps [OF write_cancel]
  from write_cancel obtain l where
    "a' = a\<lparr>ac_listings := remove1 l (ac_listings a), ac_items := ac_items a @ [as_item l (ac_id a)]\<rparr>"
    by (rule cancel_locked_Inr)
  then have "set (ac_listings a') \<subseteq> set (ac_listings a)" "slots_for c a' = slots_for c a"
    using set_remove1_subset [of l "ac_listings a"] by (auto simp: slots_for_def)
  then show ?thesis using assms(2) k by (auto simp: sound_account_def)
next
  case (write_claim n)
  have "set (ac_listings a') \<subseteq> set (ac_listings a)" "slots_for c a' = slots_for c a"
    "storage_limit a' = storage_limit a"
    using write_claim by (auto simp: claim_locked_def open_listings_def slots_for_def storage_limit_def
        split: if_splits)
  then show ?thesis
    using assms(2) sound_owed [OF assms(2)] claim_locked_keeps [of a] claim_locked_listings [of a] write_claim
    by (auto simp: sound_account_def within_storage_def)
qed

lemma trade_keeps:
  assumes "settle_exchange p q a b = Inr (a', b')"
  shows "account_weapons a' + account_weapons b' = account_weapons a + account_weapons b"
    and "account_wealth a' + account_wealth b' = account_wealth a + account_wealth b"
    and "ac_id a' = ac_id a" "ac_id b' = ac_id b"
    and "0 \<le> ac_gold a'" "0 \<le> ac_gold b'" "within_storage a'" "within_storage b'"
    and "ac_listings a' = ac_listings a" "ac_listings b' = ac_listings b"
    and "ac_avatars a' = ac_avatars a" "ac_avatars b' = ac_avatars b"
proof -
  from assms obtain x y where xy: "gather a p = Inr x" "gather b q = Inr y"
    "room_for a (snd x) (snd y)" "room_for b (snd y) (snd x)"
    "exchanged a a' x y" "exchanged b b' y x"
    by (rule settle_exchange_Inr)
  note ea = exchanged_side [OF xy(5,1,2,3)] and eb = exchanged_side [OF xy(6,2,1,4)]
  show "ac_id a' = ac_id a" "ac_id b' = ac_id b" "0 \<le> ac_gold a'" "0 \<le> ac_gold b'"
    "within_storage a'" "within_storage b'"
    "ac_listings a' = ac_listings a" "ac_listings b' = ac_listings b"
    using ea eb by simp_all
  show "ac_avatars a' = ac_avatars a" "ac_avatars b' = ac_avatars b"
    using xy(5,6) unfolding exchanged_def
    by (metis account.ext_inject account.surjective account.update_convs(3) account.update_convs(4))+
  have lists: "account_weapons a' = bag_weapons a' + image_mset weapon_of_listing (mset (open_listings a))"
    "account_weapons b' = bag_weapons b' + image_mset weapon_of_listing (mset (open_listings b))"
    by (simp_all add: account_weapons_def bag_weapons_def open_listings_def ea(4) eb(4))
  have "bag_weapons a' + bag_weapons b' = bag_weapons a + bag_weapons b"
    using arg_cong2 [OF ea(5) eb(5), of "(+)"] by (simp add: ac_simps)
  then show "account_weapons a' + account_weapons b' = account_weapons a + account_weapons b"
    by (simp add: lists) (simp add: account_weapons_def bag_weapons_def ac_simps add.left_commute)
  have "owed a' = owed a" "owed b' = owed b"
    by (simp_all add: owed_def sold_listings_def ea(4) eb(4))
  then show "account_wealth a' + account_wealth b' = account_wealth a + account_wealth b"
    using xy(5,6) by (simp add: exchanged_def account_wealth_def)
qed

lemma pair_write_keeps:
  assumes "pair_write c (a, b) (a', b')"
  shows "account_weapons a' + account_weapons b' = account_weapons a + account_weapons b
    \<and> ac_id a' = ac_id a \<and> ac_id b' = ac_id b"
  using assms by cases (auto simp: buy_exchange_keeps trade_keeps)

lemma pair_write_wealth:
  assumes "pair_write c (a, b) (a', b')" "valid_market_config c" "sound_account c a"
  shows "account_wealth a' + account_wealth b' \<le> account_wealth a + account_wealth b"
  using assms(1)
proof cases
  case (write_buy now wanted m)
  from write_buy(1) obtain l where l: "listing_named a wanted = Some l"
    "m = mark_sold c now (ac_id b) l" by (rule buy_exchange_Inr)
  have "0 \<le> li_price l"
    using listing_named_set [OF l(1)] assms(3) by (auto simp: sound_account_def)
  then show ?thesis
    using buy_exchange_keeps(2) [OF write_buy] share_of_bounds(1) [OF assms(2), of "li_price l"] l(2) by simp
next
  case (write_trade p q)
  then show ?thesis by (simp add: trade_keeps)
qed

lemma buy_exchange_sound:
  assumes "buy_exchange c now wanted a b = Inr (a', b', m)" "ac_id b \<noteq> 0"
    and "valid_market_config c" "sound_account c a" "sound_account c b"
  shows "sound_account c a' \<and> sound_account c b'"
proof -
  from assms(1) obtain l where l: "listing_named a wanted = Some l" "m = mark_sold c now (ac_id b) l"
    "a' = a\<lparr>ac_listings := replace_row l m (ac_listings a)\<rparr>"
    "b' = b\<lparr>ac_gold := ac_gold b - li_price l, ac_items := ac_items b @ [as_item l (ac_id b)]\<rparr>"
    by (rule buy_exchange_Inr)
  note k = buy_exchange_keeps [OF assms(1,2)]
  have price: "0 \<le> li_price l"
    using listing_named_set [OF l(1)] assms(4) by (auto simp: sound_account_def)
  then have "0 \<le> owed_for m" "0 \<le> li_price m"
    using share_of_adds_up [of c "li_price l"] share_of_bounds(2) [OF assms(3) price] l(2) by simp_all
  then have "\<forall>x\<in>set (ac_listings a'). 0 \<le> li_price x \<and> 0 \<le> owed_for x"
    using set_replace_row [of l m "ac_listings a"] assms(4) by (auto simp: l(3) sound_account_def)
  moreover have "slots_for c a' = slots_for c a" "storage_limit a' = storage_limit a"
    "slots_for c b' = slots_for c b" "ac_listings b' = ac_listings b"
    by (simp_all add: l(3,4) slots_for_def storage_limit_def)
  ultimately show ?thesis
    using k assms(4,5) by (auto simp: sound_account_def within_storage_def)
qed

lemma pair_write_sound:
  assumes "pair_write c (a, b) (a', b')" "valid_market_config c" "sound_account c a" "sound_account c b"
  shows "sound_account c a' \<and> sound_account c b'"
  using assms(1)
proof cases
  case (write_buy now wanted m)
  then show ?thesis using buy_exchange_sound assms(2-4) by blast
next
  case (write_trade p q)
  then show ?thesis using assms(3,4) trade_keeps [OF write_trade]
    by (auto simp: sound_account_def open_listings_def slots_for_def)
qed

section \<open>Every run keeps them\<close>

definition economy_inv :: "market_config \<Rightarrow> store \<Rightarrow> bool" where
  "economy_inv c s \<longleftrightarrow> valid_market_config c \<and> well_filed s \<and> all_accounts (sound_account c) s"

definition all_weapons :: "store \<Rightarrow> weapon multiset" where
  "all_weapons s = total_over (sr_ids s) (sr_accounts s) account_weapons"

definition all_wealth :: "store \<Rightarrow> int" where
  "all_wealth s = total_over (sr_ids s) (sr_accounts s) account_wealth"

lemma economy_step_total:
  fixes f :: "account \<Rightarrow> 'm::cancel_comm_monoid_add"
  assumes "economy_step fresh c gm s t" "well_filed s"
    and one: "\<And>a a'. account_write c a a' \<Longrightarrow> f a' = f a"
    and two: "\<And>a b a' b'. pair_write c (a, b) (a', b') \<Longrightarrow> f a' + f b' = f a + f b"
  shows "total_over (sr_ids t) (sr_accounts t) f = total_over (sr_ids s) (sr_accounts s) f"
  using assms(1,2)
proof (cases rule: economy_step_shape)
  case (one a a')
  then show ?thesis
    using save_total [of s a' a f] assms(2) assms(3) [OF one(3)] account_write_keeps(3) [OF one(3)]
    by simp
next
  case (two a b a' b')
  then show ?thesis
    using saves_total [of s a' b' a b f] assms(2) assms(4) [OF two(6)] pair_write_keeps [OF two(6)]
    by simp
qed simp

lemma economy_step_wealth:
  assumes "economy_step fresh c gm s t" "economy_inv c s"
  shows "all_wealth t \<le> all_wealth s"
proof -
  have inv: "well_filed s" "valid_market_config c" "all_accounts (sound_account c) s"
    using assms(2) by (simp_all add: economy_inv_def)
  show ?thesis
    using assms(1) inv(1)
  proof (cases rule: economy_step_shape)
    case (one a a')
    then show ?thesis
      using save_total [of s a' a account_wealth] inv(1) account_write_keeps(2,3) [OF one(3)]
      by (simp add: all_wealth_def)
  next
    case (two a b a' b')
    have "sound_account c a" using inv(3) two(3,1) by (rule all_accountsD)
    then show ?thesis
      using saves_total [of s a' b' a b account_wealth] two inv(1)
        pair_write_keeps [OF two(6)] pair_write_wealth [OF two(6) inv(2)]
      by (simp add: all_wealth_def)
  qed (simp add: all_wealth_def)
qed

lemma economy_step_inv:
  assumes "economy_step fresh c gm s t" "economy_inv c s"
  shows "economy_inv c t"
proof -
  have inv: "well_filed s" "valid_market_config c" "all_accounts (sound_account c) s"
    using assms(2) by (simp_all add: economy_inv_def)
  show ?thesis
    using assms(1) inv(1)
  proof (cases rule: economy_step_shape)
    case (one a a')
    have "sound_account c a'"
      using account_write_sound [OF one(3)] all_accountsD [OF inv(3) one(2,1)] by simp
    then show ?thesis using inv by (simp add: economy_inv_def one(4) well_filed_save all_accounts_save)
  next
    case (two a b a' b')
    have "sound_account c a' \<and> sound_account c b'"
      using pair_write_sound [OF two(6) inv(2)] all_accountsD [OF inv(3)] two(1-4) by blast
    then show ?thesis using inv by (simp add: economy_inv_def two(7) well_filed_saves all_accounts_saves)
  next
    case same
    then show ?thesis using inv by (simp add: economy_inv_def well_filed_def all_accounts_def)
  qed
qed

interpretation econ: conserving_system "economy_step fresh c gm" "economy_inv c" all_weapons
  for fresh c gm
proof
  fix s t assume st: "economy_step fresh c gm s t" "economy_inv c s"
  show "economy_inv c t" using st by (rule economy_step_inv)
  show "all_weapons t = all_weapons s"
    unfolding all_weapons_def
    by (rule economy_step_total [OF st(1)])
      (use st(2) account_write_keeps(1) pair_write_keeps in \<open>auto simp: economy_inv_def\<close>)
qed

lemma economy_steps_wealth:
  "(economy_step fresh c gm)\<^sup>*\<^sup>* s t \<Longrightarrow> economy_inv c s \<Longrightarrow> all_wealth t \<le> all_wealth s"
  by (erule econ.steps_relate) (auto dest: economy_step_wealth intro: order_trans)

section \<open>One account putting up, selling and taking back\<close>


lemma listing_named_gone:
  "\<forall>l\<in>set (open_listings a). li_id l \<noteq> i \<Longrightarrow> listing_named a i = Some l \<Longrightarrow> sold l"
  using listing_named_open by blast

lemma list_then_named:
  assumes "list_locked c gm now wanted asking a = Inr a'"
    and "\<forall>l\<in>set (open_listings a). li_id l \<noteq> wanted"
  obtains it where "it \<in> set (ac_items a)" "it_id it = wanted"
    "listing_named a' wanted = Some (as_listing now it asking)"
    "as_listing now it asking \<notin> set (ac_listings a)"
    "a' = a\<lparr>ac_items := remove1 it (ac_items a),
            ac_listings := ac_listings a @ [as_listing now it asking]\<rparr>"
proof -
  from assms(1) obtain it where it: "it \<in> set (ac_items a)" "it_id it = wanted"
    "a' = a\<lparr>ac_items := remove1 it (ac_items a), ac_listings := ac_listings a @ [as_listing now it asking]\<rparr>"
    by (rule list_locked_Inr)
  let ?l = "as_listing now it asking"
  have "?l \<notin> set (ac_listings a)" using assms(2) it(2) by (auto simp: open_listings_def)
  moreover have "listing_named a' wanted = Some ?l"
    using assms(2) it(2)
    by (auto simp: listing_named_def it(3) open_listings_def find_row_append find_row_filter
        split: option.splits dest!: find_row_Some)
  ultimately show thesis using that it by blast
qed

lemma exchange_takes_it_down:
  assumes "buy_exchange c now wanted a b = Inr (a', b', m)" "ac_id b \<noteq> 0"
    and "distinct (map li_id (open_listings a))"
  shows "\<forall>l\<in>set (open_listings a'). li_id l \<noteq> wanted"
proof -
  from assms(1) obtain l where l: "listing_named a wanted = Some l" "\<not> sold l"
    "m = mark_sold c now (ac_id b) l" "a' = a\<lparr>ac_listings := replace_row l m (ac_listings a)\<rparr>"
    by (rule buy_exchange_Inr)
  note mem = listing_named_open [OF l(1,2)]
  have "open_listings a' = remove1 l (open_listings a)"
    using l(2) assms(2) mem(1) by (simp add: l(3,4) open_listings_def replace_row_filter_gone)
  moreover have "distinct (open_listings a)" using assms(3) by (rule distinct_map [THEN iffD1, THEN conjunct1])
  ultimately show ?thesis using mem assms(3) by (auto simp: distinct_map inj_on_def)
qed


section \<open>Properties\<close>

text \<open>A seller with a weapon up at a hundred, and a buyer with two hundred and an empty bag.\<close>

definition demo_config :: market_config where
  "demo_config = \<lparr>mc_tax_rate = 1 / 10, mc_listing_delay_seconds = 180, mc_slots_per_hero = 5,
     mc_price_ceiling_multiple = 50, mc_min_ceiling = 1000\<rparr>"

definition demo_item :: item where
  "demo_item = \<lparr>it_id = 70, it_account_id = 1, it_item_id = 5, it_power = Some 9, it_avatar_id = None,
     it_avatar_slot = None, it_is_new = 0, it_requiredlevel = Some 3, it_rarity = None,
     it_modifier1 = None, it_modifier2 = None, it_legendarymodifier = None, it_created = None\<rparr>"

definition demo_account :: "int \<Rightarrow> int \<Rightarrow> item list \<Rightarrow> listing list \<Rightarrow> account" where
  "demo_account i gold items listings = \<lparr>ac_id = i, ac_name = ''p'', ac_gold = gold, ac_items = items,
     ac_chests = [], ac_listings = listings, ac_avatars = [], ac_stackables = [], ac_buckets_weapon = 4,
     ac_market_barred = False, ac_restriction = None, ac_sanctions = None, ac_basic_keys = 1,
     ac_uncommon_keys = 0, ac_rare_keys = 0, ac_legendary_keys = 0\<rparr>"

definition demo_store :: "account \<Rightarrow> account \<Rightarrow> store" where
  "demo_store a b = \<lparr>sr_ids = [1, 2], sr_accounts = [1 \<mapsto> a, 2 \<mapsto> b],
     sr_in_play = (\<lambda>_. False), sr_remote = (\<lambda>_. False)\<rparr>"

definition demo_gm :: game_master where
  "demo_gm = \<lparr>gm_rarity = [], gm_offers = [], gm_modifiers = []\<rparr>"

abbreviation demo_listing :: listing where
  "demo_listing \<equiv> as_listing 0 demo_item 100"

abbreviation demo_seller :: account where
  "demo_seller \<equiv> demo_account 1 0 [] [demo_listing]"

abbreviation demo_buyer :: account where
  "demo_buyer \<equiv> demo_account 2 200 [] []"

lemmas demo_defs = demo_config_def demo_item_def demo_account_def demo_store_def demo_gm_def

lemma demo_valid [simp]: "valid_market_config demo_config"
  by (simp add: valid_market_config_def demo_config_def)

lemma demo_inv: "economy_inv demo_config (demo_store demo_seller demo_buyer)"
  by (simp add: economy_inv_def valid_market_config_def well_filed_def all_accounts_def
      sound_account_def demo_defs
      within_storage_def occupied_slots_def unequipped_weapons_def held_chests_def storage_limit_def
      open_listings_def slots_for_def as_listing_def sold_def owed_for_def)

definition demo_sold :: listing where
  "demo_sold = demo_listing\<lparr>li_sold_to := Some 2, li_sold_at := Some 200000,
     li_tax := Some 10, li_proceeds := Some 90\<rparr>"

definition demo_seller_after :: account where
  "demo_seller_after = demo_account 1 0 [] [demo_sold]"

definition demo_buyer_after :: account where
  "demo_buyer_after = demo_account 2 100 [as_item demo_listing 2] []"

lemma demo_exchange:
  "buy_exchange demo_config 200000 70 demo_seller demo_buyer
     = Inr (demo_seller_after, demo_buyer_after, demo_sold)"
  by (simp add: buy_exchange_def is_barred_def is_restricted_def restriction_of_def listing_named_def
      demo_sold_def demo_seller_after_def demo_buyer_after_def demo_defs as_listing_def sold_def
      is_up_def up_at_def room_for_one_def occupied_slots_def unequipped_weapons_def held_chests_def
      storage_limit_def mark_sold_def share_of_def js_round_def as_item_def Let_def)

lemma demo_step:
  "economy_step fresh demo_config demo_gm (demo_store demo_seller demo_buyer)
     (save_accounts demo_seller_after demo_buyer_after (demo_store demo_seller demo_buyer))"
  by (rule step_buy [where i = 1 and j = 2 and wanted = 70 and now = 200000
        and sl = "sale_record demo_sold demo_seller_after demo_buyer_after"])
    (simp_all add: demo_store_def account_id_of_Inr buy_locked_def load_account_def demo_exchange)

lemma demo_run:
  "(economy_step fresh demo_config demo_gm)\<^sup>*\<^sup>* (demo_store demo_seller demo_buyer)
     (save_accounts demo_seller_after demo_buyer_after (demo_store demo_seller demo_buyer))"
  by (rule r_into_rtranclp, rule demo_step)

text \<open>C1: Over every run of market writes and trades, in any interleaving and with any of the
  accounts going in and out of dungeons, the multiset of all weapons in bags and on open listings
  stays exactly what it was: none is lost, made or doubled.\<close>

theorem economy_conserves_weapons:
  assumes "(economy_step fresh c gm)\<^sup>*\<^sup>* s t" and "economy_inv c s"
  shows "all_weapons t = all_weapons s"
  using assms by (rule econ.steps_conserve)

theorem economy_conserves_weapons_witness:
  "all_weapons (save_accounts demo_seller_after demo_buyer_after (demo_store demo_seller demo_buyer))
     = all_weapons (demo_store demo_seller demo_buyer)"
  by (rule economy_conserves_weapons [OF demo_run [of undefined] demo_inv])

text \<open>C2: Over every such run nobody's gold goes below nothing, nobody holds more than their
  storage, nobody has more listings up than their slots, and the gold in purses and owed to sellers
  never grows.\<close>

theorem economy_stays_sound:
  assumes "(economy_step fresh c gm)\<^sup>*\<^sup>* s t" and "economy_inv c s"
  shows "all_wealth t \<le> all_wealth s
    \<and> (\<forall>i\<in>set (sr_ids t). \<forall>a. sr_accounts t i = Some a \<longrightarrow>
      0 \<le> ac_gold a \<and> within_storage a \<and> int (length (open_listings a)) \<le> slots_for c a)"
proof -
  have "economy_inv c t" using assms by (rule econ.steps_inv)
  then show ?thesis
    using economy_steps_wealth [OF assms]
    by (auto simp: economy_inv_def all_accounts_def sound_account_def)
qed

theorem economy_stays_sound_witness:
  "all_wealth (save_accounts demo_seller_after demo_buyer_after (demo_store demo_seller demo_buyer))
     \<le> all_wealth (demo_store demo_seller demo_buyer)
   \<and> 0 \<le> ac_gold demo_buyer_after \<and> within_storage demo_buyer_after"
  using economy_stays_sound [OF demo_run [of undefined] demo_inv]
  by (simp add: demo_store_def accts.look_put save_accounts_def demo_buyer_after_def demo_seller_after_def
      demo_account_def)

text \<open>C3: A completed purchase, exactly: the buyer pays the price and receives the very weapon that
  was up, unequipped and badged as new; the seller's purse is untouched and is owed the price less the
  tax; and the tax and the proceeds add back to the price, each between nothing and all of it.\<close>

theorem purchase_accounting:
  assumes "buy_exchange c now wanted a b = Inr (a', b', m)"
    and "valid_market_config c" "ac_id b \<noteq> 0" "sound_account c a"
  shows "\<exists>l tax proceeds. listing_named a wanted = Some l \<and> \<not> sold l
      \<and> li_tax m = Some tax \<and> li_proceeds m = Some proceeds
      \<and> tax + proceeds = li_price l \<and> 0 \<le> tax \<and> 0 \<le> proceeds
      \<and> ac_gold b' = ac_gold b - li_price l \<and> 0 \<le> ac_gold b'
      \<and> ac_gold a' = ac_gold a \<and> owed a' = owed a + proceeds
      \<and> ac_items b' = ac_items b @ [as_item l (ac_id b)]
      \<and> weapon_of_item (as_item l (ac_id b)) = weapon_of_listing l
      \<and> li_sold_to m = Some (ac_id b) \<and> ac_items a' = ac_items a"
proof -
  from assms(1) obtain l where l: "listing_named a wanted = Some l" "\<not> sold l"
    "m = mark_sold c now (ac_id b) l" "a' = a\<lparr>ac_listings := replace_row l m (ac_listings a)\<rparr>"
    "b' = b\<lparr>ac_gold := ac_gold b - li_price l, ac_items := ac_items b @ [as_item l (ac_id b)]\<rparr>"
    by (rule buy_exchange_Inr)
  have mem: "l \<in> set (ac_listings a)" using listing_named_set [OF l(1)] by simp
  have p: "0 \<le> li_price l" using mem assms(4) by (auto simp: sound_account_def)
  have "owed a' = snd (share_of c (li_price l)) + owed a"
    using l(2,3,4) assms(3) mem by (simp add: owed_def sold_listings_def replace_row_sum)
  moreover have "li_tax m = Some (fst (share_of c (li_price l)))"
    "li_proceeds m = Some (snd (share_of c (li_price l)))" "li_sold_to m = Some (ac_id b)"
    by (simp_all add: l(3) mark_sold_def Let_def case_prod_beta)
  ultimately show ?thesis
    using l share_of_adds_up [of c "li_price l"] share_of_bounds [OF assms(2) p]
      buy_exchange_keeps(6) [OF assms(1,3)]
    by (intro exI [of _ l]) auto
qed

lemma demo_sound: "sound_account demo_config demo_seller" "sound_account demo_config demo_buyer"
  using demo_inv by (auto simp: economy_inv_def all_accounts_def demo_store_def)

theorem purchase_accounting_witness:
  "\<exists>tax proceeds. li_tax demo_sold = Some tax \<and> li_proceeds demo_sold = Some proceeds
     \<and> tax + proceeds = 100 \<and> owed demo_seller_after = owed demo_seller + proceeds"
  using purchase_accounting [OF demo_exchange demo_valid _ demo_sound(1)]
  by (auto simp: demo_account_def listing_named_def as_listing_def demo_item_def sold_def Let_def)

text \<open>A listing sells once: when a purchase of it has gone through, no second purchase of it can,
  whoever makes it and whenever, however early it found the seller.\<close>

theorem listing_sells_once:
  assumes "buy_exchange c now wanted a b = Inr (a', b', m)" and "ac_id b \<noteq> 0"
    and "distinct (map li_id (open_listings a))"
  shows "\<exists>e. buy_exchange c later wanted a' d = Inl e"
proof (cases "buy_exchange c later wanted a' d")
  case (Inr r)
  obtain a2 b2 m2 where "r = (a2, b2, m2)" by (cases r)
  with Inr obtain l where "listing_named a' wanted = Some l" "\<not> sold l"
    by (auto elim: buy_exchange_Inr)
  with exchange_takes_it_down [OF assms] listing_named_gone show ?thesis by blast
qed blast

theorem listing_sells_once_witness:
  "\<exists>e. buy_exchange demo_config 200001 70 demo_seller_after (demo_account 3 900 [] []) = Inl e"
  by (rule listing_sells_once [OF demo_exchange])
    (simp_all add: demo_account_def open_listings_def)

text \<open>Putting a weapon up and taking it down again gives the weapon back, unequipped and badged as
  new, and leaves the listings and everything else of the account as they were, as long as the bag
  was within its storage and no other listing went by that id.\<close>

lemma list_cancel_roundtrip:
  assumes "list_locked c gm now wanted asking a = Inr a'" and "within_storage a"
    and "\<forall>l\<in>set (open_listings a). li_id l \<noteq> wanted"
  shows "\<exists>it. it \<in> set (ac_items a) \<and> it_id it = wanted
      \<and> cancel_locked wanted a'
        = Inr (a\<lparr>ac_items := remove1 it (ac_items a) @ [as_item (as_listing now it asking) (ac_id a)]\<rparr>)
      \<and> weapon_of_item (as_item (as_listing now it asking) (ac_id a)) = weapon_of_item it"
proof -
  from assms(1,3) obtain it where it: "it \<in> set (ac_items a)" "it_id it = wanted"
    "listing_named a' wanted = Some (as_listing now it asking)"
    "as_listing now it asking \<notin> set (ac_listings a)"
    "a' = a\<lparr>ac_items := remove1 it (ac_items a), ac_listings := ac_listings a @ [as_listing now it asking]\<rparr>"
    by (rule list_then_named)
  have "storage_limit a' = storage_limit a" by (simp add: it(5) storage_limit_def)
  then have "room_for_one a'"
    using assms(2) list_locked_keeps(5) [OF assms(1)] by (simp add: room_for_one_def within_storage_def)
  then have "cancel_locked wanted a'
        = Inr (a\<lparr>ac_items := remove1 it (ac_items a) @ [as_item (as_listing now it asking) (ac_id a)]\<rparr>)"
    using it(3,4) by (simp add: cancel_locked_def) (simp add: it(5) remove1_append)
  then show ?thesis using it(1,2) by auto
qed

lemma list_cancel_roundtrip_witness:
  "\<exists>a'. list_locked demo_config demo_gm 5 70 100 (demo_account 1 0 [demo_item] []) = Inr a'
     \<and> (\<exists>it a''. cancel_locked 70 a' = Inr a'' \<and> ac_listings a'' = []
          \<and> map weapon_of_item (ac_items a'') = [weapon_of_item it])"
proof -
  let ?a = "demo_account 1 0 [demo_item] []"
  have l: "list_locked demo_config demo_gm 5 70 100 ?a
      = Inr (?a\<lparr>ac_items := [], ac_listings := [as_listing 5 demo_item 100]\<rparr>)"
    by (simp add: list_locked_def is_barred_def is_restricted_def restriction_of_def demo_defs
        equipped_def open_listings_def slots_for_def ceiling_for_def)
  have w: "within_storage ?a"
    by (simp add: demo_defs within_storage_def occupied_slots_def unequipped_weapons_def
        held_chests_def storage_limit_def)
  let ?a' = "?a\<lparr>ac_items := [], ac_listings := [as_listing 5 demo_item 100]\<rparr>"
  have d: "\<forall>l\<in>set (open_listings ?a). li_id l \<noteq> 70"
    by (simp add: open_listings_def demo_account_def)
  from list_cancel_roundtrip [OF l w d] obtain it where it:
    "cancel_locked 70 ?a' = Inr (?a\<lparr>ac_items := remove1 it (ac_items ?a)
         @ [as_item (as_listing 5 it 100) (ac_id ?a)]\<rparr>)" "it \<in> set (ac_items ?a)"
    by blast
  have "it = demo_item" using it(2) by (simp add: demo_account_def)
  with l it(1) show ?thesis
    by (intro exI [of _ ?a'] conjI exI [of _ demo_item] exI) (assumption | simp add: demo_account_def)+
qed





end
