(* ===== verification/Queue.thy ===== *)
theory Queue
  imports Prelude "HOL-Library.AList"
begin

text \<open>
  The ranked queue (\<open>src/modes/ranked/queue.js\<close>): who waits for a race, who is paired with
  whom, and how long somebody who cancelled has to stay away. A JavaScript \<open>Map\<close> whose order
  is read is an association list in insertion order (\<open>AList.update\<close> writes a key in place or
  at the end, as \<open>Map.set\<close> does); the cooldowns, whose order nothing reads, are a map. Times
  are milliseconds.
\<close>

section \<open>The policy\<close>

datatype reach = Within real | Anybody

fun in_reach :: "real \<Rightarrow> reach \<Rightarrow> bool" where
  "in_reach gap (Within w) = (gap \<le> w)"
| "in_reach gap Anybody = True"

fun wider :: "reach \<Rightarrow> reach \<Rightarrow> reach" where
  "wider (Within v) (Within w) = Within (max v w)"
| "wider _ _ = Anybody"

lemma in_reach_wider [simp]:
  "in_reach gap (wider v w) \<longleftrightarrow> in_reach gap v \<or> in_reach gap w"
  by (cases v; cases w) (auto simp: le_max_iff_disj)

definition seconds :: "int \<Rightarrow> int" where
  "seconds s = s * 1000"

definition rating_window :: "int \<Rightarrow> reach" where
  "rating_window waited =
     (if waited < seconds 30 then Within 150
      else if waited < seconds 60 then Within 300
      else if waited < seconds 90 then Within 600
      else Anybody)"

definition cooldown_base :: int where "cooldown_base = seconds 60"
definition cooldown_ceiling :: int where "cooldown_ceiling = seconds (30 * 60)"
definition cooldown_forgotten :: int where "cooldown_forgotten = seconds (24 * 60 * 60)"
definition opponents_kept :: nat where "opponents_kept = 4096"

section \<open>The state\<close>

record queue_entry =
  qe_account :: int
  qe_rating :: real
  qe_joined :: int
  qe_ready :: bool

record cooldown =
  cd_streak :: nat
  cd_until :: int

record ranked_queue =
  q_entries :: "queue_entry list"
  q_last :: "(int \<times> int) list"
  q_cooling :: "int \<Rightarrow> cooldown option"

definition empty_queue :: ranked_queue where
  "empty_queue = \<lparr>q_entries = [], q_last = [], q_cooling = (\<lambda>_. None)\<rparr>"

definition queued :: "ranked_queue \<Rightarrow> int \<Rightarrow> queue_entry option" where
  "queued q a = find_row (\<lambda>e. qe_account e = a) (q_entries q)"

section \<open>Operations\<close>

datatype join_answer = Cooling int | Queued queue_entry

fun rerate :: "int \<Rightarrow> (queue_entry \<Rightarrow> queue_entry) \<Rightarrow> queue_entry list \<Rightarrow> queue_entry list" where
  "rerate a f [] = []"
| "rerate a f (e # es) = (if qe_account e = a then f e # es else e # rerate a f es)"

definition enqueue :: "int \<Rightarrow> real \<Rightarrow> int \<Rightarrow> ranked_queue \<Rightarrow> join_answer \<times> ranked_queue" where
  "enqueue a rating now q =
     (case queued q a of
        Some e \<Rightarrow>
          (Queued (e\<lparr>qe_rating := rating\<rparr>),
           q\<lparr>q_entries := rerate a (qe_rating_update (\<lambda>_. rating)) (q_entries q)\<rparr>)
      | None \<Rightarrow>
          let e = \<lparr>qe_account = a, qe_rating = rating, qe_joined = now, qe_ready = False\<rparr>
          in (Queued e, q\<lparr>q_entries := q_entries q @ [e]\<rparr>))"

definition join :: "int \<Rightarrow> real \<Rightarrow> int \<Rightarrow> ranked_queue \<Rightarrow> join_answer \<times> ranked_queue" where
  "join a rating now q =
     (case q_cooling q a of
        Some c \<Rightarrow> if now < cd_until c then (Cooling (cd_until c), q) else enqueue a rating now q
      | None \<Rightarrow> enqueue a rating now q)"

definition leave :: "int \<Rightarrow> ranked_queue \<Rightarrow> bool \<times> ranked_queue" where
  "leave a q = (queued q a \<noteq> None, q\<lparr>q_entries := filter (\<lambda>e. qe_account e \<noteq> a) (q_entries q)\<rparr>)"

definition set_ready :: "int \<Rightarrow> bool \<Rightarrow> ranked_queue \<Rightarrow> bool \<times> ranked_queue" where
  "set_ready a ready q =
     (queued q a \<noteq> None, q\<lparr>q_entries := rerate a (qe_ready_update (\<lambda>_. ready)) (q_entries q)\<rparr>)"

fun drop_oldest :: "(int \<times> int) list \<Rightarrow> (int \<times> int) list" where
  "drop_oldest [] = []"
| "drop_oldest (p # ps) = (if opponents_kept < length (p # ps) then drop_oldest ps else p # ps)"

definition remember_one :: "int \<Rightarrow> int \<Rightarrow> (int \<times> int) list \<Rightarrow> (int \<times> int) list" where
  "remember_one a b met = AList.update a b (AList.delete a met)"

definition remember_opponents :: "int \<Rightarrow> int \<Rightarrow> ranked_queue \<Rightarrow> ranked_queue" where
  "remember_opponents a b q =
     q\<lparr>q_last := drop_oldest (remember_one b a (remember_one a b (q_last q)))\<rparr>"

definition still_remembered :: "int \<Rightarrow> (int \<Rightarrow> cooldown option) \<Rightarrow> int \<Rightarrow> cooldown option" where
  "still_remembered now cs a =
     (case cs a of
        Some c \<Rightarrow> if cooldown_forgotten \<le> now - cd_until c then None else Some c
      | None \<Rightarrow> None)"

definition penalty_length :: "nat \<Rightarrow> int" where
  "penalty_length streak = min cooldown_ceiling (cooldown_base * 2 ^ (streak - 1))"

definition penalise :: "int \<Rightarrow> int \<Rightarrow> ranked_queue \<Rightarrow> ranked_queue" where
  "penalise a now q =
     (let cs = still_remembered now (q_cooling q);
          streak = (case cs a of Some c \<Rightarrow> cd_streak c | None \<Rightarrow> 0) + 1
      in q\<lparr>q_cooling := cs(a \<mapsto> \<lparr>cd_streak = streak, cd_until = now + penalty_length streak\<rparr>)\<rparr>)"

definition forgive :: "int \<Rightarrow> ranked_queue \<Rightarrow> ranked_queue" where
  "forgive a q = q\<lparr>q_cooling := (q_cooling q)(a := None)\<rparr>"

definition counts :: "ranked_queue \<Rightarrow> nat \<times> nat" where
  "counts q = (length (q_entries q), length (filter qe_ready (q_entries q)))"

subsection \<open>Pairing\<close>

definition ready_in_line :: "ranked_queue \<Rightarrow> queue_entry list" where
  "ready_in_line q = sort_key qe_joined (filter qe_ready (q_entries q))"

definition gap :: "queue_entry \<Rightarrow> queue_entry \<Rightarrow> real" where
  "gap e f = \<bar>qe_rating e - qe_rating f\<bar>"

text \<open>
  The three \<open>continue\<close>s of the inner loop, but for the one about who is already taken:
  somebody else, no immediate rematch unless nobody else is ready, and a rating in reach of
  whichever of the two has waited longer.
\<close>

definition may_meet :: "(int \<times> int) list \<Rightarrow> bool \<Rightarrow> int \<Rightarrow> queue_entry \<Rightarrow> queue_entry \<Rightarrow> bool" where
  "may_meet met only_two now first second \<longleftrightarrow>
     qe_account second \<noteq> qe_account first
   \<and> (only_two \<or> map_of met (qe_account first) \<noteq> Some (qe_account second))
   \<and> in_reach (gap first second)
       (wider (rating_window (now - qe_joined first)) (rating_window (now - qe_joined second)))"

fun best_for :: "(queue_entry \<Rightarrow> bool) \<Rightarrow> queue_entry \<Rightarrow> queue_entry list
                   \<Rightarrow> queue_entry option \<Rightarrow> queue_entry option" where
  "best_for ok first [] best = best"
| "best_for ok first (second # rest) best =
     best_for ok first rest
       (if ok second \<and> (case best of None \<Rightarrow> True | Some b \<Rightarrow> gap first second < gap first b)
        then Some second else best)"

type_synonym pairing = "(queue_entry \<times> queue_entry) list"

fun pair_walk :: "(queue_entry \<Rightarrow> queue_entry \<Rightarrow> bool) \<Rightarrow> queue_entry list \<Rightarrow> queue_entry list
                    \<Rightarrow> int list \<Rightarrow> pairing \<Rightarrow> int list \<times> pairing" where
  "pair_walk ok ready [] taken pairs = (taken, pairs)"
| "pair_walk ok ready (first # rest) taken pairs =
     (if qe_account first \<in> set taken then pair_walk ok ready rest taken pairs
      else case best_for (\<lambda>e. qe_account e \<notin> set taken \<and> ok first e) first ready None of
             None \<Rightarrow> pair_walk ok ready rest taken pairs
           | Some e \<Rightarrow> pair_walk ok ready rest (qe_account e # qe_account first # taken)
                        (pairs @ [(first, e)]))"

definition pairs_made :: "int \<Rightarrow> ranked_queue \<Rightarrow> int list \<times> pairing" where
  "pairs_made now q =
     (let ready = ready_in_line q
      in pair_walk (may_meet (q_last q) (length ready = 2) now) ready ready [] [])"

fun take_out :: "pairing \<Rightarrow> queue_entry list \<Rightarrow> queue_entry list" where
  "take_out [] es = es"
| "take_out ((e, f) # pairs) es =
     take_out pairs (filter (\<lambda>g. qe_account g \<noteq> qe_account e \<and> qe_account g \<noteq> qe_account f) es)"

definition pair_up :: "int \<Rightarrow> ranked_queue \<Rightarrow> pairing \<times> ranked_queue" where
  "pair_up now q =
     (let pairs = snd (pairs_made now q)
      in (pairs, q\<lparr>q_entries := take_out pairs (q_entries q)\<rparr>))"

section \<open>The rows of the queue\<close>

lemma rerate_accounts [simp]:
  assumes "\<And>e. qe_account (f e) = qe_account e"
  shows "map qe_account (rerate a f es) = map qe_account es"
  by (induction es) (auto simp: assms)

lemma rerate_absent: "\<forall>e\<in>set es. qe_account e \<noteq> a \<Longrightarrow> rerate a f es = es"
  by (induction es) auto

lemma queued_Some: "queued q a = Some e \<Longrightarrow> e \<in> set (q_entries q) \<and> qe_account e = a"
  by (auto simp: queued_def dest: find_row_Some)

lemma queued_None: "queued q a = None \<longleftrightarrow> a \<notin> qe_account ` set (q_entries q)"
  by (auto simp: queued_def)

lemma find_row_rerate_other:
  assumes "\<And>e. qe_account (f e) = qe_account e" and "b \<noteq> a"
  shows "find_row (\<lambda>e. qe_account e = b) (rerate a f es) = find_row (\<lambda>e. qe_account e = b) es"
  using assms(2) by (induction es) (auto simp: assms(1))

lemma find_row_rerate_same:
  assumes "\<And>e. qe_account (f e) = qe_account e"
  shows "find_row (\<lambda>e. qe_account e = a) (rerate a f es)
       = map_option f (find_row (\<lambda>e. qe_account e = a) es)"
  by (induction es) (auto simp: assms)

lemma drop_oldest_drop: "drop_oldest ps = drop (length ps - opponents_kept) ps"
  by (induction ps) (auto simp: Suc_diff_le)

lemma length_drop_oldest: "length (drop_oldest ps) \<le> opponents_kept"
  by (simp add: drop_oldest_drop)

lemma distinct_drop_oldest: "distinct (map fst ps) \<Longrightarrow> distinct (map fst (drop_oldest ps))"
  by (simp add: drop_oldest_drop drop_map [symmetric])

lemma remember_one_append: "remember_one a b met = AList.delete a met @ [(a, b)]"
proof -
  have "AList.update a b ps = ps @ [(a, b)]" if "a \<notin> fst ` set ps" for ps :: "(int \<times> int) list"
    using that by (induction ps) auto
  moreover have "a \<notin> fst ` set (AList.delete a met)"
    by (rule delete_notin_dom)
  ultimately show ?thesis by (simp add: remember_one_def)
qed

lemma distinct_remember_one:
  "distinct (map fst met) \<Longrightarrow> distinct (map fst (remember_one a b met))"
  by (simp add: remember_one_def distinct_update distinct_delete)

section \<open>What pairing does\<close>

lemma best_for_Some:
  "best_for ok first es best = Some e \<Longrightarrow> (e \<in> set es \<and> ok e) \<or> best = Some e"
  by (induction es arbitrary: best) (auto split: if_splits)


lemma best_for_closest:
  "best_for ok first es best = Some e
    \<Longrightarrow> (\<forall>g\<in>set es. ok g \<longrightarrow> gap first e \<le> gap first g)
      \<and> (\<forall>b. best = Some b \<longrightarrow> gap first e \<le> gap first b)"
proof (induction es arbitrary: best)
  case (Cons s es)
  let ?better = "ok s \<and> (case best of None \<Rightarrow> True | Some b \<Rightarrow> gap first s < gap first b)"
  let ?next = "if ?better then Some s else best"
  from Cons.prems have "best_for ok first es ?next = Some e" by simp
  note ih = Cons.IH [OF this]
  show ?case
    using ih by (cases best) (auto split: if_splits)
qed simp

definition paired_accounts :: "pairing \<Rightarrow> int list" where
  "paired_accounts pairs = concat (map (\<lambda>(e, f). [qe_account e, qe_account f]) pairs)"

lemma paired_accounts_simps [simp]:
  "paired_accounts [] = []"
  "paired_accounts (pairs @ [(e, f)]) = paired_accounts pairs @ [qe_account e, qe_account f]"
  "paired_accounts ((e, f) # pairs) = qe_account e # qe_account f # paired_accounts pairs"
  by (simp_all add: paired_accounts_def)

lemma take_out_filter:
  "take_out pairs es = filter (\<lambda>e. qe_account e \<notin> set (paired_accounts pairs)) es"
  by (induction pairs es rule: take_out.induct) (auto intro: filter_cong)

text \<open>
  What the walk keeps: those taken are those paired, nobody is paired twice, every pair is two
  people in line who may meet, and each took the closest rating still free when their turn came.
\<close>

definition well_paired :: "(queue_entry \<Rightarrow> queue_entry \<Rightarrow> bool) \<Rightarrow> queue_entry list \<Rightarrow> pairing \<Rightarrow> bool" where
  "well_paired ok ready pairs \<longleftrightarrow>
     distinct (paired_accounts pairs)
   \<and> (\<forall>(e, f)\<in>set pairs. e \<in> set ready \<and> f \<in> set ready \<and> ok e f)
   \<and> (\<forall>i<length pairs. \<forall>g\<in>set ready.
        qe_account g \<notin> set (paired_accounts (take i pairs)) \<and> ok (fst (pairs ! i)) g
        \<longrightarrow> gap (fst (pairs ! i)) (snd (pairs ! i)) \<le> gap (fst (pairs ! i)) g)"

lemma well_paired_snoc:
  assumes w: "well_paired ok ready pairs"
    and free: "qe_account e \<notin> set (paired_accounts pairs)" "e \<in> set ready"
    and best: "best_for (\<lambda>g. qe_account g \<notin> set (paired_accounts pairs) \<and> ok e g) e ready None = Some f"
    and other: "ok e f \<Longrightarrow> qe_account f \<noteq> qe_account e"
  shows "well_paired ok ready (pairs @ [(e, f)])"
proof -
  from best_for_Some [OF best]
  have f: "f \<in> set ready" "qe_account f \<notin> set (paired_accounts pairs)" "ok e f" by auto
  from best_for_closest [OF best]
  have close: "\<forall>g\<in>set ready. qe_account g \<notin> set (paired_accounts pairs) \<and> ok e g \<longrightarrow> gap e f \<le> gap e g"
    by simp
  show ?thesis
    unfolding well_paired_def
  proof (intro conjI allI impI ballI)
    show "distinct (paired_accounts (pairs @ [(e, f)]))"
      using w free f other by (auto simp: well_paired_def)
  next
    fix p assume "p \<in> set (pairs @ [(e, f)])"
    then show "case p of (e, f) \<Rightarrow> e \<in> set ready \<and> f \<in> set ready \<and> ok e f"
      using w free f by (auto simp: well_paired_def)
  next
    fix i g
    assume i: "i < length (pairs @ [(e, f)])" and g: "g \<in> set ready"
      and c: "qe_account g \<notin> set (paired_accounts (take i (pairs @ [(e, f)])))
              \<and> ok (fst ((pairs @ [(e, f)]) ! i)) g"
    show "gap (fst ((pairs @ [(e, f)]) ! i)) (snd ((pairs @ [(e, f)]) ! i))
          \<le> gap (fst ((pairs @ [(e, f)]) ! i)) g"
    proof (cases "i < length pairs")
      case True
      then show ?thesis using w g c by (auto simp: well_paired_def nth_append)
    next
      case False
      with i have "i = length pairs" by simp
      then show ?thesis using close g c by simp
    qed
  qed
qed

lemma pair_walk_well_paired:
  assumes other: "\<And>e f. ok e f \<Longrightarrow> qe_account f \<noteq> qe_account e"
  shows "set rest \<subseteq> set ready \<Longrightarrow> well_paired ok ready pairs
    \<Longrightarrow> set taken = set (paired_accounts pairs)
    \<Longrightarrow> pair_walk ok ready rest taken pairs = (taken', pairs')
    \<Longrightarrow> well_paired ok ready pairs' \<and> set taken' = set (paired_accounts pairs')"
proof (induction rest arbitrary: taken pairs)
  case (Cons first rest)
  note prems = Cons.prems
  have rest: "set rest \<subseteq> set ready" "first \<in> set ready" using prems(1) by auto
  show ?case
  proof (cases "qe_account first \<in> set taken")
    case True
    show ?thesis by (rule Cons.IH [OF rest(1) prems(2,3)]) (use prems(4) True in simp)
  next
    case free: False
    show ?thesis
    proof (cases "best_for (\<lambda>e. qe_account e \<notin> set taken \<and> ok first e) first ready None")
      case None
      show ?thesis by (rule Cons.IH [OF rest(1) prems(2,3)]) (use prems(4) None free in simp)
    next
      case (Some e)
      have "well_paired ok ready (pairs @ [(first, e)])"
        by (rule well_paired_snoc [OF prems(2) _ rest(2)]) (use free Some prems(3) other in auto)
      moreover have "set (qe_account e # qe_account first # taken)
          = set (paired_accounts (pairs @ [(first, e)]))"
        using prems(3) by auto
      ultimately show ?thesis
        by (rule Cons.IH [OF rest(1)]) (use prems(4) free Some in simp)
    qed
  qed
qed simp



lemma set_ready_in_line [simp]: "set (ready_in_line q) = {e \<in> set (q_entries q). qe_ready e}"
  by (auto simp: ready_in_line_def)

abbreviation pair_rule :: "int \<Rightarrow> ranked_queue \<Rightarrow> queue_entry \<Rightarrow> queue_entry \<Rightarrow> bool" where
  "pair_rule now q \<equiv> may_meet (q_last q) (length (ready_in_line q) = 2) now"

lemma pairs_made_well_paired:
  "well_paired (pair_rule now q) (ready_in_line q) (snd (pairs_made now q))
   \<and> set (fst (pairs_made now q)) = set (paired_accounts (snd (pairs_made now q)))"
proof -
  have "well_paired (pair_rule now q) (ready_in_line q) []" by (simp add: well_paired_def)
  moreover have "pair_walk (pair_rule now q) (ready_in_line q) (ready_in_line q) [] []
      = (fst (pairs_made now q), snd (pairs_made now q))"
    by (simp add: pairs_made_def Let_def)
  ultimately show ?thesis
    by (intro pair_walk_well_paired [where rest = "ready_in_line q" and taken = "[]" and pairs = "[]"])
       (auto simp: may_meet_def)
qed

lemma pair_up_entries:
  "q_entries (snd (pair_up now q))
   = filter (\<lambda>e. qe_account e \<notin> set (paired_accounts (fst (pair_up now q)))) (q_entries q)"
  by (simp add: pair_up_def take_out_filter Let_def)

text \<open>The same, said of the queue that is left.\<close>

lemma pairing_facts:
  "distinct (paired_accounts (fst (pair_up now q)))
   \<and> (\<forall>(e, f)\<in>set (fst (pair_up now q)). e \<in> set (q_entries q) \<and> f \<in> set (q_entries q))
   \<and> q_entries (snd (pair_up now q))
     = filter (\<lambda>e. qe_account e \<notin> set (paired_accounts (fst (pair_up now q)))) (q_entries q)"
  using pairs_made_well_paired [where now = now and q = q] pair_up_entries [of now q]
  by (auto simp: well_paired_def pair_up_def Let_def)

section \<open>Cooldowns\<close>

lemma penalty_length_bounds:
  "cooldown_base \<le> penalty_length n" "penalty_length n \<le> cooldown_ceiling"
  by (simp_all add: penalty_length_def cooldown_base_def cooldown_ceiling_def seconds_def)

lemma penalty_length_doubles:
  "penalty_length (Suc (Suc n)) = min cooldown_ceiling (2 * penalty_length (Suc n))"
  by (simp add: penalty_length_def cooldown_base_def cooldown_ceiling_def seconds_def min_def)

definition streak_at :: "int \<Rightarrow> int \<Rightarrow> ranked_queue \<Rightarrow> nat" where
  "streak_at now a q = (case still_remembered now (q_cooling q) a of Some c \<Rightarrow> cd_streak c | None \<Rightarrow> 0)"

lemma penalise_cooling:
  "q_cooling (penalise a now q) b =
     (if b = a then Some \<lparr>cd_streak = Suc (streak_at now a q),
                          cd_until = now + penalty_length (Suc (streak_at now a q))\<rparr>
      else still_remembered now (q_cooling q) b)"
  by (simp add: penalise_def streak_at_def Let_def)

section \<open>Steps and the invariant\<close>

inductive queue_step :: "ranked_queue \<Rightarrow> ranked_queue \<Rightarrow> bool" where
  step_join: "queue_step q (snd (join a rating now q))"
| step_leave: "queue_step q (snd (leave a q))"
| step_ready: "queue_step q (snd (set_ready a yes q))"
| step_remember: "queue_step q (remember_opponents a b q)"
| step_penalise: "queue_step q (penalise a now q)"
| step_forgive: "queue_step q (forgive a q)"
| step_pair: "queue_step q (snd (pair_up now q))"

inductive_cases queue_stepE: "queue_step q q'"

definition queue_ok :: "ranked_queue \<Rightarrow> bool" where
  "queue_ok q \<longleftrightarrow>
     distinct (map qe_account (q_entries q))
   \<and> distinct (map fst (q_last q)) \<and> length (q_last q) \<le> opponents_kept
   \<and> (\<forall>a c. q_cooling q a = Some c \<longrightarrow> 1 \<le> cd_streak c)"

lemma enqueue_entries:
  "map qe_account (q_entries (snd (enqueue a rating now q)))
   = map qe_account (q_entries q) @ (if queued q a = None then [a] else [])"
  by (auto simp: enqueue_def Let_def split: option.splits)

lemma enqueue_rest [simp]:
  "q_last (snd (enqueue a rating now q)) = q_last q"
  "q_cooling (snd (enqueue a rating now q)) = q_cooling q"
  by (simp_all add: enqueue_def Let_def split: option.splits)

lemma enqueue_ok: "queue_ok q \<Longrightarrow> queue_ok (snd (enqueue a rating now q))"
  by (auto simp: queue_ok_def enqueue_entries queued_None)

lemma join_ok: "queue_ok q \<Longrightarrow> queue_ok (snd (join a rating now q))"
  by (auto simp: join_def enqueue_ok split: option.splits)

lemma queue_ok_subset:
  "queue_ok q \<Longrightarrow> queue_ok (q\<lparr>q_entries := filter p (q_entries q)\<rparr>)"
  by (simp add: queue_ok_def distinct_map_filter)

lemma pair_up_ok: "queue_ok q \<Longrightarrow> queue_ok (snd (pair_up now q))"
  by (simp add: pair_up_def take_out_filter queue_ok_subset Let_def)

lemma remember_ok: "queue_ok q \<Longrightarrow> queue_ok (remember_opponents a b q)"
  by (simp add: queue_ok_def remember_opponents_def length_drop_oldest distinct_drop_oldest
      distinct_remember_one)

lemma penalise_ok: "queue_ok q \<Longrightarrow> queue_ok (penalise a now q)"
  by (auto simp: queue_ok_def penalise_cooling still_remembered_def split: option.splits if_splits)
     (auto simp: penalise_def Let_def)

lemma queue_step_ok: "queue_step q q' \<Longrightarrow> queue_ok q \<Longrightarrow> queue_ok q'"
proof (induction rule: queue_step.induct)
  case (step_ready q a yes)
  then show ?case by (simp add: set_ready_def queue_ok_def)
next
  case (step_forgive q a)
  then show ?case by (simp add: forgive_def queue_ok_def)
qed (simp_all add: join_ok leave_def queue_ok_subset remember_ok penalise_ok pair_up_ok)

interpretation rq: invariant_system queue_step queue_ok
  by unfold_locales (rule queue_step_ok)

section \<open>Properties\<close>


definition amy :: queue_entry where
  "amy = \<lparr>qe_account = 1, qe_rating = 1000, qe_joined = 0, qe_ready = True\<rparr>"
definition bob :: queue_entry where
  "bob = \<lparr>qe_account = 2, qe_rating = 1100, qe_joined = 1000, qe_ready = True\<rparr>"
definition cat :: queue_entry where
  "cat = \<lparr>qe_account = 3, qe_rating = 1010, qe_joined = 2000, qe_ready = True\<rparr>"
definition dan :: queue_entry where
  "dan = \<lparr>qe_account = 4, qe_rating = 1000, qe_joined = 3000, qe_ready = False\<rparr>"
definition demo_line :: ranked_queue where
  "demo_line = \<lparr>q_entries = [amy, bob, cat, dan], q_last = [(1, 4)], q_cooling = (\<lambda>_. None)\<rparr>"

lemmas demo_queue = demo_line_def amy_def bob_def cat_def dan_def



text \<open>No waiting for ever. When exactly two players are ready, the queue pairs them as soon as
  one of them has waited a minute and a half, whatever their ratings are and even if they have
  just met.\<close>
theorem two_ready_are_paired:
  assumes "ready_in_line q = [e, f]" and "qe_account e \<noteq> qe_account f"
    and "seconds 90 \<le> now - qe_joined e \<or> seconds 90 \<le> now - qe_joined f"
  shows "fst (pair_up now q) = [(e, f)]"
proof -
  have "rating_window (now - qe_joined e) = Anybody \<or> rating_window (now - qe_joined f) = Anybody"
    using assms(3) by (auto simp: rating_window_def seconds_def)
  then have "may_meet (q_last q) True now e f"
    using assms(2) by (auto simp: may_meet_def)
  then show ?thesis
    using assms(1,2) by (simp add: pair_up_def pairs_made_def Let_def) (simp add: may_meet_def)
qed

lemma two_ready_are_paired_witness:
  "fst (pair_up 95000 \<lparr>q_entries = [dan, amy\<lparr>qe_rating := 2600\<rparr>, bob], q_last = [(1, 2), (2, 1)],
      q_cooling = (\<lambda>_. None)\<rparr>) = [(amy\<lparr>qe_rating := 2600\<rparr>, bob)]"
  by (rule two_ready_are_paired) (simp_all add: ready_in_line_def demo_queue seconds_def)

text \<open>A penalty keeps its player out for exactly its length, which is between a minute and
  half an hour and doubles with each penalty in a row; it leaves the others' cooldowns alone
  but for those a day over, and forgiving ends it and the run.\<close>
lemma penalty_keeps_out:
  "let q' = penalise a now q; n = streak_at now a q; over = now + penalty_length (Suc n)
   in join a rating later q' = (if later < over then (Cooling over, q') else enqueue a rating later q')
    \<and> seconds 60 \<le> over - now \<and> over - now \<le> seconds 1800
    \<and> penalty_length (Suc (Suc n)) = min (seconds 1800) (2 * penalty_length (Suc n))
    \<and> (streak_at later a q' = (if later < over + seconds 86400 then Suc n else 0))
    \<and> join a rating later (forgive a q') = enqueue a rating later (forgive a q')
    \<and> streak_at later a (forgive a q') = 0
    \<and> q_entries q' = q_entries q"
proof -
  let ?over = "now + penalty_length (Suc (streak_at now a q))"
  have "q_cooling (penalise a now q) a
      = Some \<lparr>cd_streak = Suc (streak_at now a q), cd_until = ?over\<rparr>"
    by (simp add: penalise_cooling)
  then show ?thesis
    using penalty_length_bounds [of "Suc (streak_at now a q)"]
    by (auto simp: Let_def join_def streak_at_def still_remembered_def forgive_def penalty_length_doubles
        cooldown_base_def cooldown_ceiling_def cooldown_forgotten_def seconds_def penalise_def)
qed

text \<open>Whatever players do, in any order, the queue holds nobody twice, remembers one last
  opponent per player and at most 4096 of them, and every cooldown it keeps is of at least one
  penalty.\<close>
theorem queue_stays_sound:
  assumes "queue_step\<^sup>*\<^sup>* empty_queue q"
  shows "distinct (map qe_account (q_entries q)) \<and> distinct (map fst (q_last q))
       \<and> length (q_last q) \<le> 4096 \<and> (\<forall>a c. q_cooling q a = Some c \<longrightarrow> 1 \<le> cd_streak c)"
  using rq.steps_inv [OF assms] by (simp add: queue_ok_def empty_queue_def opponents_kept_def)

lemma queue_stays_sound_witness:
  "distinct (map qe_account (q_entries (snd (join 7 1000 5 (penalise 8 0 empty_queue)))))"
proof -
  have "queue_step\<^sup>*\<^sup>* empty_queue (penalise 8 0 empty_queue)"
    by (rule r_into_rtranclp, rule step_penalise)
  then have "queue_step\<^sup>*\<^sup>* empty_queue (snd (join 7 1000 5 (penalise 8 0 empty_queue)))"
    by (rule rtranclp.rtrancl_into_rtrancl) (rule step_join)
  from queue_stays_sound [OF this] show ?thesis by simp
qed

end
