(* ===== verification/Race.thy ===== *)
theory Race
  imports Prelude
begin

text \<open>
  One ranked race (\<open>src/modes/ranked/race.js\<close>), from the pairing to its result: the state
  machine, the two racers' clocks, and every rule that decides. Times are milliseconds of the
  clock the race is handed. \<open>undefined\<close> fields are \<open>None\<close>; a comparison with one
  (NaN in the source) is false.
\<close>

section \<open>State\<close>

datatype race_state = Paired | Loading | Running | Finished | Cancelled | Void
datatype loss_cause = Left | Dropped | Failed
datatype race_reason = OpponentLost | BothLost | Faster | SameTime | TimeUp | Agreed
  | LoadTimeout | Caused loss_cause | Given string

record race_result =
  rr_state :: race_state
  rr_winner :: "int option"
  rr_at :: int
  rr_reason :: race_reason
  rr_blame :: "int option"
  rr_forfeit :: "int option"

datatype timeline_type = WasPaired | WasLoading | WasStarted | WasRunning | Noted string string
  | FinishedIn "int option" | WasLost loss_cause | DrawOffered | Decided race_result

record timeline_event =
  te_at :: int
  te_player :: "int option"
  te_type :: timeline_type

record race_rules =
  draw_window :: int
  forfeit_window :: int
  max_duration :: int
  load_timeout :: int

record racer =
  started_at :: "int option"
  finished_at :: "int option"
  elapsed :: "int option"
  lost_at :: "int option"
  loss_of :: "loss_cause option"
  draw_offered_at :: "int option"

record race =
  rc_first :: int
  rc_second :: int
  rc_rules :: race_rules
  rc_state :: race_state
  rc_paired_at :: int
  rc_loading_at :: "int option"
  rc_result :: "race_result option"
  rc_timeline :: "timeline_event list"
  rc_racer :: "int \<Rightarrow> racer option"
  rc_pending :: "(int \<times> int) option"

datatype race_error = NotTwoPlayers | NotInRace | UnknownCause

definition fresh_racer :: racer where
  "fresh_racer = \<lparr>started_at = None, finished_at = None, elapsed = None, lost_at = None,
                  loss_of = None, draw_offered_at = None\<rparr>"

definition note_down :: "int \<Rightarrow> int option \<Rightarrow> timeline_type \<Rightarrow> race \<Rightarrow> race" where
  "note_down now player what r =
     r\<lparr>rc_timeline := rc_timeline r @ [\<lparr>te_at = now, te_player = player, te_type = what\<rparr>]\<rparr>"

definition new_race :: "int list \<Rightarrow> race_rules \<Rightarrow> int \<Rightarrow> race_error + race" where
  "new_race players rules now =
     (case players of
        [a, b] \<Rightarrow>
          if a = b then Inl NotTwoPlayers
          else Inr (note_down now None WasPaired
                 \<lparr>rc_first = a, rc_second = b, rc_rules = rules, rc_state = Paired, rc_paired_at = now,
                  rc_loading_at = None, rc_result = None, rc_timeline = [],
                  rc_racer = [a \<mapsto> fresh_racer, b \<mapsto> fresh_racer], rc_pending = None\<rparr>)
      | _ \<Rightarrow> Inl NotTwoPlayers)"

definition ids :: "race \<Rightarrow> int list" where
  "ids r = [rc_first r, rc_second r]"

definition opponent_of :: "race \<Rightarrow> int \<Rightarrow> int" where
  "opponent_of r p = (if rc_first r = p then rc_second r else rc_first r)"

definition decided :: "race \<Rightarrow> bool" where
  "decided r \<longleftrightarrow> rc_state r \<in> {Finished, Cancelled, Void}"

text \<open>The entry of somebody known to be in the race.\<close>

definition racer_of :: "race \<Rightarrow> int \<Rightarrow> racer" where
  "racer_of r p = (case rc_racer r p of Some e \<Rightarrow> e | None \<Rightarrow> fresh_racer)"

definition set_racer :: "int \<Rightarrow> racer \<Rightarrow> race \<Rightarrow> race" where
  "set_racer p e r = r\<lparr>rc_racer := (rc_racer r)(p \<mapsto> e)\<rparr>"

definition decide :: "int \<Rightarrow> race_state \<Rightarrow> int option \<Rightarrow> race_reason \<Rightarrow> int option \<Rightarrow> int option \<Rightarrow> race \<Rightarrow> race" where
  "decide now s winner reason blame forfeit r =
     (let result = \<lparr>rr_state = s, rr_winner = winner, rr_at = now, rr_reason = reason,
                    rr_blame = blame, rr_forfeit = forfeit\<rparr>
      in note_down now None (Decided result) (r\<lparr>rc_state := s, rc_result := Some result\<rparr>))"

section \<open>Decisions\<close>

text \<open>\<open>{ forfeit: player }\<close> when they lost inside the forfeit window of their own clock.\<close>

definition forfeit_of :: "race \<Rightarrow> int \<Rightarrow> int option" where
  "forfeit_of r p =
     (case (lost_at (racer_of r p), started_at (racer_of r p)) of
        (Some l, Some s) \<Rightarrow> if l - s < forfeit_window (rc_rules r) then Some p else None
      | _ \<Rightarrow> None)"

definition both :: "race \<Rightarrow> (racer \<Rightarrow> bool) \<Rightarrow> bool" where
  "both r P \<longleftrightarrow> P (racer_of r (rc_first r)) \<and> P (racer_of r (rc_second r))"

definition ran_for :: "int \<Rightarrow> int \<Rightarrow> racer \<Rightarrow> bool" where
  "ran_for now limit e = (case started_at e of Some s \<Rightarrow> limit \<le> now - s | None \<Rightarrow> False)"

definition compare_times :: "int \<Rightarrow> race \<Rightarrow> race" where
  "compare_times now r =
     (let a = rc_first r; b = rc_second r in
      case (elapsed (racer_of r a), elapsed (racer_of r b)) of
        (Some s, Some t) \<Rightarrow>
          if s = t then decide now Finished None SameTime None None r
          else decide now Finished (Some (if s < t then a else b)) Faster None None r
      | _ \<Rightarrow> decide now Finished (Some b) Faster None None r)"

definition load_expired :: "int \<Rightarrow> race \<Rightarrow> race" where
  "load_expired now r =
     (let limit = load_timeout (rc_rules r);
          early = (case rc_loading_at r of Some since \<Rightarrow> now - since < limit | None \<Rightarrow> False) in
      if \<not> 0 < limit \<or> early then r
      else case filter (\<lambda>p. started_at (racer_of r p) = None) (ids r) of
             [p] \<Rightarrow> decide now Cancelled None LoadTimeout (Some p) None r
           | _ \<Rightarrow> decide now Void None LoadTimeout None None r)"

definition tick_running :: "int \<Rightarrow> race \<Rightarrow> race" where
  "tick_running now r =
     (case rc_pending r of
        Some (loser, since) \<Rightarrow>
          if draw_window (rc_rules r) \<le> now - since
          then decide now Finished (Some (opponent_of r loser)) OpponentLost None (forfeit_of r loser) r
          else r
      | None \<Rightarrow>
          (case filter (\<lambda>p. finished_at (racer_of r p) \<noteq> None) (ids r) of
             [p] \<Rightarrow>
               (case elapsed (racer_of r p) of
                  Some t \<Rightarrow> if ran_for now t (racer_of r (opponent_of r p))
                            then decide now Finished (Some p) Faster None None r else r
                | None \<Rightarrow> r)
           | [] \<Rightarrow> if both r (ran_for now (max_duration (rc_rules r)))
                   then decide now Finished None TimeUp None None r else r
           | _ \<Rightarrow> r))"

definition tick :: "int \<Rightarrow> race \<Rightarrow> race" where
  "tick now r =
     (if rc_state r = Loading then load_expired now r
      else if rc_state r \<noteq> Running then r
      else tick_running now r)"

section \<open>Operations\<close>

definition loading :: "int \<Rightarrow> race \<Rightarrow> race" where
  "loading now r =
     (if rc_state r \<noteq> Paired then r
      else note_down now None WasLoading (r\<lparr>rc_state := Loading, rc_loading_at := Some now\<rparr>))"

definition start_clock :: "int \<Rightarrow> int \<Rightarrow> racer \<Rightarrow> race \<Rightarrow> race" where
  "start_clock p now e r =
     (let r' = note_down now (Some p) WasStarted (set_racer p (e\<lparr>started_at := Some now\<rparr>) r)
      in if both r' (\<lambda>e. started_at e \<noteq> None)
         then note_down now None WasRunning (r'\<lparr>rc_state := Running\<rparr>) else r')"

definition started :: "int \<Rightarrow> int \<Rightarrow> race \<Rightarrow> race_error + race" where
  "started p now r =
     (case rc_racer r p of
        None \<Rightarrow> Inl NotInRace
      | Some e \<Rightarrow> Inr (if decided r \<or> started_at e \<noteq> None then r else start_clock p now e r))"

definition remark :: "int option \<Rightarrow> string \<Rightarrow> string \<Rightarrow> int \<Rightarrow> race \<Rightarrow> race_error + race" where
  "remark player what detail now r =
     (case player of
        None \<Rightarrow> Inr (note_down now None (Noted what detail) r)
      | Some p \<Rightarrow> if rc_racer r p = None then Inl NotInRace
                  else Inr (note_down now (Some p) (Noted what detail) r))"

definition cross_line :: "int \<Rightarrow> int \<Rightarrow> racer \<Rightarrow> race \<Rightarrow> race" where
  "cross_line p now e r =
     (let time = map_option (\<lambda>s. now - s) (started_at e);
          r' = note_down now (Some p) (FinishedIn time)
                 (set_racer p (e\<lparr>finished_at := Some now, elapsed := time\<rparr>) r);
          other = racer_of r' (opponent_of r' p) in
      if lost_at other \<noteq> None
      then decide now Finished (Some p) OpponentLost None (forfeit_of r' (opponent_of r' p)) r'
      else if finished_at other \<noteq> None then compare_times now r'
      else tick now r')"

definition finished :: "int \<Rightarrow> int \<Rightarrow> race \<Rightarrow> race_error + race" where
  "finished p now r =
     (case rc_racer r p of
        None \<Rightarrow> Inl NotInRace
      | Some e \<Rightarrow>
          Inr (if rc_state r \<noteq> Running \<or> finished_at e \<noteq> None \<or> lost_at e \<noteq> None then r
               else cross_line p now e r))"

fun loss_cause_of :: "string \<Rightarrow> loss_cause option" where
  "loss_cause_of c =
     (if c = ''left'' then Some Left else if c = ''dropped'' then Some Dropped
      else if c = ''failed'' then Some Failed else None)"

definition drop_out :: "int \<Rightarrow> int \<Rightarrow> loss_cause \<Rightarrow> racer \<Rightarrow> race \<Rightarrow> race" where
  "drop_out p now cause e r =
     (let r' = note_down now (Some p) (WasLost cause)
                 (set_racer p (e\<lparr>lost_at := Some now, loss_of := Some cause\<rparr>) r);
          opponent = opponent_of r' p in
      if rc_state r' \<noteq> Running then decide now Cancelled None (Caused cause) (Some p) None r'
      else if finished_at (racer_of r' opponent) \<noteq> None
      then decide now Finished (Some opponent) OpponentLost None (forfeit_of r' p) r'
      else case rc_pending r' of
             Some (_, since) \<Rightarrow>
               if now - since \<le> draw_window (rc_rules r')
               then decide now Finished None BothLost None None r' else r'
           | None \<Rightarrow> r'\<lparr>rc_pending := Some (p, now)\<rparr>)"

definition lost :: "int \<Rightarrow> int \<Rightarrow> string \<Rightarrow> race \<Rightarrow> race_error + race" where
  "lost p now cause r =
     (case loss_cause_of cause of
        None \<Rightarrow> Inl UnknownCause
      | Some c \<Rightarrow>
          (case rc_racer r p of
             None \<Rightarrow> Inl NotInRace
           | Some e \<Rightarrow>
               Inr (if decided r \<or> lost_at e \<noteq> None \<or> finished_at e \<noteq> None then r
                    else drop_out p now c e r)))"

definition offer_draw :: "int \<Rightarrow> int \<Rightarrow> race \<Rightarrow> race_error + (bool \<times> race)" where
  "offer_draw p now r =
     (case rc_racer r p of
        None \<Rightarrow> Inl NotInRace
      | Some e \<Rightarrow>
          Inr (if decided r \<or> draw_offered_at e \<noteq> None then (False, r)
               else let r' = note_down now (Some p) DrawOffered
                               (set_racer p (e\<lparr>draw_offered_at := Some now\<rparr>) r)
                    in if both r' (\<lambda>e. draw_offered_at e \<noteq> None)
                       then (True, decide now Void None Agreed None None r') else (False, r')))"

definition voided :: "int \<Rightarrow> string \<Rightarrow> race \<Rightarrow> race" where
  "voided now reason r = (if decided r then r else decide now Void None (Given reason) None None r)"

section \<open>Steps and the invariant\<close>

inductive race_step :: "race \<Rightarrow> race \<Rightarrow> bool" where
  step_loading: "race_step r (loading now r)"
| step_started: "started p now r = Inr r' \<Longrightarrow> race_step r r'"
| step_remark: "remark who what detail now r = Inr r' \<Longrightarrow> race_step r r'"
| step_finished: "finished p now r = Inr r' \<Longrightarrow> race_step r r'"
| step_lost: "lost p now cause r = Inr r' \<Longrightarrow> race_step r r'"
| step_draw: "offer_draw p now r = Inr (agreed, r') \<Longrightarrow> race_step r r'"
| step_voided: "race_step r (voided now reason r)"
| step_tick: "race_step r (tick now r)"

definition racer_ok :: "racer \<Rightarrow> bool" where
  "racer_ok e \<longleftrightarrow> (\<forall>f. finished_at e = Some f
     \<longrightarrow> (\<exists>s. started_at e = Some s \<and> elapsed e = Some (f - s)) \<and> lost_at e = None)"

text \<open>
  What entitles a race to its result. A winner by time finished, and the other has not been
  lost and has used up as much time (or finished in more); a winner by loss did not lose, or
  lost only after the draw window was over; a draw is the same time, two losses inside the
  window, or both clocks run out; a forfeit is the loser, inside the forfeit window; a
  cancelled race was never under way and blames one racer; a void one blames and rates nobody.
\<close>

definition won_by_time :: "race \<Rightarrow> race_result \<Rightarrow> int \<Rightarrow> bool" where
  "won_by_time r res w \<longleftrightarrow>
     (\<exists>t. elapsed (racer_of r w) = Some t \<and> finished_at (racer_of r w) \<noteq> None
        \<and> lost_at (racer_of r (opponent_of r w)) = None
        \<and> (case elapsed (racer_of r (opponent_of r w)) of
             Some u \<Rightarrow> t < u
           | None \<Rightarrow> ran_for (rr_at res) t (racer_of r (opponent_of r w))))"

definition won_by_loss :: "race \<Rightarrow> race_result \<Rightarrow> int \<Rightarrow> bool" where
  "won_by_loss r res w \<longleftrightarrow>
     (\<exists>l. lost_at (racer_of r (opponent_of r w)) = Some l
        \<and> (finished_at (racer_of r w) \<noteq> None \<or> draw_window (rc_rules r) \<le> rr_at res - l)
        \<and> (\<forall>u. lost_at (racer_of r w) = Some u \<longrightarrow> draw_window (rc_rules r) < u - l))"

fun drawn_fairly :: "race \<Rightarrow> race_result \<Rightarrow> race_reason \<Rightarrow> bool" where
  "drawn_fairly r res SameTime =
     (\<exists>t. both r (\<lambda>e. finished_at e \<noteq> None \<and> elapsed e = Some t))"
| "drawn_fairly r res BothLost =
     (\<exists>p\<in>set (ids r). \<exists>s t. lost_at (racer_of r p) = Some s \<and> lost_at (racer_of r (opponent_of r p)) = Some t
        \<and> t - s \<le> draw_window (rc_rules r))"
| "drawn_fairly r res TimeUp =
     both r (\<lambda>e. finished_at e = None \<and> lost_at e = None \<and> ran_for (rr_at res) (max_duration (rc_rules r)) e)"
| "drawn_fairly r res _ = False"

definition finished_justly :: "race \<Rightarrow> race_result \<Rightarrow> bool" where
  "finished_justly r res \<longleftrightarrow>
     rr_blame res = None
   \<and> (case rr_winner res of
        None \<Rightarrow> rr_forfeit res = None \<and> drawn_fairly r res (rr_reason res)
      | Some w \<Rightarrow> w \<in> set (ids r)
          \<and> (rr_reason res = Faster \<and> rr_forfeit res = None \<and> won_by_time r res w
           \<or> rr_reason res = OpponentLost \<and> won_by_loss r res w
             \<and> rr_forfeit res = forfeit_of r (opponent_of r w)))"

definition cancelled_justly :: "race \<Rightarrow> race_result \<Rightarrow> bool" where
  "cancelled_justly r res \<longleftrightarrow>
     rr_winner res = None \<and> rr_forfeit res = None \<and> \<not> both r (\<lambda>e. started_at e \<noteq> None)
   \<and> (\<exists>p\<in>set (ids r). rr_blame res = Some p
        \<and> (rr_reason res = LoadTimeout \<and> started_at (racer_of r p) = None
             \<and> started_at (racer_of r (opponent_of r p)) \<noteq> None
           \<or> (\<exists>c. rr_reason res = Caused c \<and> loss_of (racer_of r p) = Some c)))"

definition voided_justly :: "race \<Rightarrow> race_result \<Rightarrow> bool" where
  "voided_justly r res \<longleftrightarrow>
     rr_winner res = None \<and> rr_forfeit res = None \<and> rr_blame res = None
   \<and> (rr_reason res = Agreed \<longrightarrow> both r (\<lambda>e. draw_offered_at e \<noteq> None))"

definition just :: "race \<Rightarrow> race_result \<Rightarrow> bool" where
  "just r res \<longleftrightarrow> rr_state res = rc_state r
     \<and> (rc_state r = Finished \<longrightarrow> finished_justly r res)
     \<and> (rc_state r = Cancelled \<longrightarrow> cancelled_justly r res)
     \<and> (rc_state r = Void \<longrightarrow> voided_justly r res)"

definition waiting_ok :: "race \<Rightarrow> bool" where
  "waiting_ok r \<longleftrightarrow> rc_pending r = None \<and> both r (\<lambda>e. finished_at e = None \<and> lost_at e = None)
     \<and> \<not> both r (\<lambda>e. started_at e \<noteq> None)"

definition running_ok :: "race \<Rightarrow> bool" where
  "running_ok r \<longleftrightarrow> both r (\<lambda>e. started_at e \<noteq> None) \<and> \<not> both r (\<lambda>e. finished_at e \<noteq> None)
     \<and> (case rc_pending r of
          None \<Rightarrow> both r (\<lambda>e. lost_at e = None)
        | Some (p, t) \<Rightarrow> p \<in> set (ids r) \<and> lost_at (racer_of r p) = Some t
            \<and> both r (\<lambda>e. finished_at e = None)
            \<and> (\<forall>u. lost_at (racer_of r (opponent_of r p)) = Some u \<longrightarrow> draw_window (rc_rules r) < u - t))"

definition race_shape :: "race \<Rightarrow> bool" where
  "race_shape r \<longleftrightarrow>
     rc_first r \<noteq> rc_second r \<and> dom (rc_racer r) = set (ids r) \<and> both r racer_ok
   \<and> both r (\<lambda>e. finished_at e = None \<longrightarrow> elapsed e = None)"

definition race_ok :: "race \<Rightarrow> bool" where
  "race_ok r \<longleftrightarrow> race_shape r
   \<and> (rc_state r = Loading \<longrightarrow> rc_loading_at r \<noteq> None)
   \<and> (case rc_state r of
        Running \<Rightarrow> running_ok r \<and> rc_result r = None
      | Paired \<Rightarrow> waiting_ok r \<and> rc_result r = None
      | Loading \<Rightarrow> waiting_ok r \<and> rc_result r = None
      | _ \<Rightarrow> (\<exists>res. rc_result r = Some res \<and> just r res))"

section \<open>How the operations read\<close>

lemma note_down_simps [simp]:
  "rc_first (note_down n p w r) = rc_first r" "rc_second (note_down n p w r) = rc_second r"
  "rc_rules (note_down n p w r) = rc_rules r" "rc_state (note_down n p w r) = rc_state r"
  "rc_loading_at (note_down n p w r) = rc_loading_at r" "rc_result (note_down n p w r) = rc_result r"
  "rc_racer (note_down n p w r) = rc_racer r" "rc_pending (note_down n p w r) = rc_pending r"
  "rc_paired_at (note_down n p w r) = rc_paired_at r"
  by (simp_all add: note_down_def)

lemma decide_simps [simp]:
  "rc_first (decide n s w y b f r) = rc_first r" "rc_second (decide n s w y b f r) = rc_second r"
  "rc_rules (decide n s w y b f r) = rc_rules r" "rc_state (decide n s w y b f r) = s"
  "rc_loading_at (decide n s w y b f r) = rc_loading_at r"
  "rc_result (decide n s w y b f r) = Some \<lparr>rr_state = s, rr_winner = w, rr_at = n, rr_reason = y,
     rr_blame = b, rr_forfeit = f\<rparr>"
  "rc_racer (decide n s w y b f r) = rc_racer r" "rc_pending (decide n s w y b f r) = rc_pending r"
  by (simp_all add: decide_def Let_def)

lemma set_racer_simps [simp]:
  "rc_first (set_racer p e r) = rc_first r" "rc_second (set_racer p e r) = rc_second r"
  "rc_rules (set_racer p e r) = rc_rules r" "rc_state (set_racer p e r) = rc_state r"
  "rc_loading_at (set_racer p e r) = rc_loading_at r" "rc_result (set_racer p e r) = rc_result r"
  "rc_racer (set_racer p e r) = (rc_racer r)(p \<mapsto> e)" "rc_pending (set_racer p e r) = rc_pending r"
  by (simp_all add: set_racer_def)

lemma racer_of_simps [simp]:
  "racer_of (note_down n q w r) = racer_of r"
  "racer_of (decide n s v y b f r) = racer_of r"
  "racer_of (set_racer p e r) = (racer_of r)(p := e)"
  "racer_of (r\<lparr>rc_state := s\<rparr>) = racer_of r"
  "racer_of (r\<lparr>rc_loading_at := l\<rparr>) = racer_of r"
  "racer_of (r\<lparr>rc_pending := pd\<rparr>) = racer_of r"
  by (auto simp: racer_of_def fun_eq_iff)

lemma racer_of_Some: "rc_racer r p = Some e \<Longrightarrow> racer_of r p = e"
  by (simp add: racer_of_def)

lemma race_views [simp]:
  "ids (note_down n q w r) = ids r" "ids (decide n s v y b f r) = ids r"
  "ids (set_racer p e r) = ids r" "ids (r\<lparr>rc_state := s\<rparr>) = ids r"
  "ids (r\<lparr>rc_loading_at := l\<rparr>) = ids r" "ids (r\<lparr>rc_pending := pd\<rparr>) = ids r"
  "opponent_of (note_down n q w r) = opponent_of r" "opponent_of (decide n s v y b f r) = opponent_of r"
  "opponent_of (set_racer p e r) = opponent_of r" "opponent_of (r\<lparr>rc_state := s\<rparr>) = opponent_of r"
  "opponent_of (r\<lparr>rc_loading_at := l\<rparr>) = opponent_of r" "opponent_of (r\<lparr>rc_pending := pd\<rparr>) = opponent_of r"
  by (simp_all add: ids_def opponent_of_def fun_eq_iff)

lemma forfeit_of_views [simp]:
  "forfeit_of (note_down n q w r) = forfeit_of r" "forfeit_of (decide n s v y b f r) = forfeit_of r"
  by (auto simp: forfeit_of_def fun_eq_iff split: option.splits)

lemma both_views [simp]:
  "both (note_down n q w r) P = both r P" "both (decide n s v y b f r) P = both r P"
  "both (r\<lparr>rc_state := s\<rparr>) P = both r P" "both (r\<lparr>rc_loading_at := l\<rparr>) P = both r P"
  "both (r\<lparr>rc_pending := pd\<rparr>) P = both r P"
  by (simp_all add: both_def)

text \<open>What a result rests on is the racers and the rules, and not where the race stands.\<close>

lemma justly_views [simp]:
  "finished_justly (decide n s v y b f r) res = finished_justly r res"
  "cancelled_justly (decide n s v y b f r) res = cancelled_justly r res"
  "voided_justly (decide n s v y b f r) res = voided_justly r res"
  by (simp_all add: finished_justly_def cancelled_justly_def voided_justly_def won_by_time_def won_by_loss_def
      split: option.splits) (cases "rr_reason res"; auto)

lemma justly_noted [simp]:
  "finished_justly (note_down n q w r) res = finished_justly r res"
  "cancelled_justly (note_down n q w r) res = cancelled_justly r res"
  "voided_justly (note_down n q w r) res = voided_justly r res"
  by (simp_all add: finished_justly_def cancelled_justly_def voided_justly_def won_by_time_def won_by_loss_def
      split: option.splits) (cases "rr_reason res"; auto)

lemma shape_views [simp]:
  "race_shape (decide n s v y b f r) = race_shape r" "race_shape (note_down n q w r) = race_shape r"
  "race_shape (r\<lparr>rc_state := s\<rparr>) = race_shape r" "race_shape (r\<lparr>rc_loading_at := l\<rparr>) = race_shape r"
  "race_shape (r\<lparr>rc_pending := pd\<rparr>) = race_shape r"
  by (simp_all add: race_shape_def)

lemma race_ok_noted [simp]: "race_ok (note_down n q w r) = race_ok r"
  by (cases "rc_state r"; cases "rc_pending r")
     (auto simp: race_ok_def waiting_ok_def running_ok_def just_def)

lemma note_down_state: "(note_down n p w r)\<lparr>rc_state := s\<rparr> = note_down n p w (r\<lparr>rc_state := s\<rparr>)"
  by (simp add: note_down_def)

lemma decide_finished_ok:
  "race_shape r \<Longrightarrow> finished_justly r \<lparr>rr_state = Finished, rr_winner = w, rr_at = n, rr_reason = y,
     rr_blame = None, rr_forfeit = f\<rparr> \<Longrightarrow> race_ok (decide n Finished w y None f r)"
  by (simp add: race_ok_def just_def)

lemma decide_cancelled_ok:
  "race_shape r \<Longrightarrow> cancelled_justly r \<lparr>rr_state = Cancelled, rr_winner = None, rr_at = n, rr_reason = y,
     rr_blame = b, rr_forfeit = None\<rparr> \<Longrightarrow> race_ok (decide n Cancelled None y b None r)"
  by (simp add: race_ok_def just_def)

lemma decide_void_ok:
  "race_shape r \<Longrightarrow> voided_justly r \<lparr>rr_state = Void, rr_winner = None, rr_at = n, rr_reason = y,
     rr_blame = None, rr_forfeit = None\<rparr> \<Longrightarrow> race_ok (decide n Void None y None None r)"
  by (simp add: race_ok_def just_def)

lemma shape_ids:
  assumes "race_shape r" "rc_racer r p = Some e"
  shows "p \<in> set (ids r)" "racer_of r p = e"
  using assms by (auto simp: race_shape_def racer_of_def)

text \<open>By symmetry a racer is one of two; the other is their opponent.\<close>

lemma both_opponent:
  "p \<in> set (ids r) \<Longrightarrow> both r P \<longleftrightarrow> P (racer_of r p) \<and> P (racer_of r (opponent_of r p))"
  by (auto simp: both_def ids_def opponent_of_def)

lemma opponent_facts:
  assumes "race_shape r" "p \<in> set (ids r)"
  shows "opponent_of r p \<in> set (ids r)" "opponent_of r p \<noteq> p" "opponent_of r (opponent_of r p) = p"
  using assms by (auto simp: race_shape_def ids_def opponent_of_def)

lemma both_set_racer:
  assumes "race_shape r" "p \<in> set (ids r)"
  shows "both (set_racer p e r) P \<longleftrightarrow> P e \<and> P (racer_of r (opponent_of r p))"
  using assms opponent_facts [OF assms] by (simp add: both_opponent [of p])

lemma shape_set_racer:
  assumes "race_shape r" "p \<in> set (ids r)" "racer_ok e" "finished_at e = None \<longrightarrow> elapsed e = None"
  shows "race_shape (set_racer p e r)"
proof -
  have "dom (rc_racer (set_racer p e r)) = set (ids (set_racer p e r))"
    using assms(1,2) by (auto simp: race_shape_def)
  moreover have "both (set_racer p e r) racer_ok"
    "both (set_racer p e r) (\<lambda>e. finished_at e = None \<longrightarrow> elapsed e = None)"
    using assms(1,3,4) unfolding both_set_racer [OF assms(1,2)]
    by (simp_all add: race_shape_def both_opponent [OF assms(2)])
  ultimately show ?thesis using assms(1) by (simp add: race_shape_def)
qed

section \<open>Every operation keeps the invariant\<close>

lemma race_okD:
  assumes "race_ok r"
  shows "race_shape r"
    and "rc_state r = Running \<Longrightarrow> running_ok r \<and> rc_result r = None"
    and "\<not> decided r \<Longrightarrow> rc_state r \<noteq> Running \<Longrightarrow> waiting_ok r \<and> rc_result r = None"
  using assms by (auto simp: race_ok_def decided_def split: race_state.splits)

lemma running_racers:
  assumes "running_ok r" "p \<in> set (ids r)"
  shows "\<exists>s. started_at (racer_of r p) = Some s"
  using assms by (auto simp: running_ok_def both_opponent [OF assms(2)])

lemma loser_loses:
  assumes "race_shape r" "running_ok r" "rc_pending r = Some (p, t)" "draw_window (rc_rules r) \<le> n - t"
  shows "race_ok (decide n Finished (Some (opponent_of r p)) OpponentLost None (forfeit_of r p) r)"
proof (rule decide_finished_ok [OF assms(1)])
  have p: "p \<in> set (ids r)" using assms(2,3) by (simp add: running_ok_def)
  with assms opponent_facts [OF assms(1) p] show "finished_justly r \<lparr>rr_state = Finished,
      rr_winner = Some (opponent_of r p), rr_at = n, rr_reason = OpponentLost, rr_blame = None,
      rr_forfeit = forfeit_of r p\<rparr>"
    by (simp add: finished_justly_def won_by_loss_def running_ok_def)
qed

lemma one_finisher:
  assumes "race_shape r" "filter (\<lambda>p. finished_at (racer_of r p) \<noteq> None) (ids r) = [p]"
  shows "p \<in> set (ids r)" "finished_at (racer_of r p) \<noteq> None"
    "finished_at (racer_of r (opponent_of r p)) = None" "elapsed (racer_of r (opponent_of r p)) = None"
proof -
  show fin: "p \<in> set (ids r)" "finished_at (racer_of r p) \<noteq> None"
    "finished_at (racer_of r (opponent_of r p)) = None"
    using assms by (auto simp: ids_def opponent_of_def race_shape_def split: if_splits)
  then show "elapsed (racer_of r (opponent_of r p)) = None"
    using assms(1) both_opponent [OF fin(1)] by (simp add: race_shape_def)
qed

lemma finisher_beats_the_clock:
  assumes "race_shape r" "running_ok r" "rc_pending r = None"
    and one: "filter (\<lambda>p. finished_at (racer_of r p) \<noteq> None) (ids r) = [p]"
    and t: "elapsed (racer_of r p) = Some t" and ran: "ran_for n t (racer_of r (opponent_of r p))"
  shows "race_ok (decide n Finished (Some p) Faster None None r)"
proof (rule decide_finished_ok [OF assms(1)])
  note fin = one_finisher [OF assms(1) one]
  have "both r (\<lambda>e. lost_at e = None)" using assms(2,3) by (simp add: running_ok_def)
  with fin t ran show "finished_justly r \<lparr>rr_state = Finished, rr_winner = Some p, rr_at = n,
      rr_reason = Faster, rr_blame = None, rr_forfeit = None\<rparr>"
    by (auto simp: finished_justly_def won_by_time_def both_opponent [OF fin(1)])
qed

lemma time_up:
  assumes "race_shape r" "running_ok r" "rc_pending r = None"
    and none: "filter (\<lambda>p. finished_at (racer_of r p) \<noteq> None) (ids r) = []"
    and ran: "both r (ran_for n (max_duration (rc_rules r)))"
  shows "race_ok (decide n Finished None TimeUp None None r)"
proof (rule decide_finished_ok [OF assms(1)])
  show "finished_justly r \<lparr>rr_state = Finished, rr_winner = None, rr_at = n,
      rr_reason = TimeUp, rr_blame = None, rr_forfeit = None\<rparr>"
    using assms by (auto simp: finished_justly_def both_def ids_def running_ok_def split: if_splits)
qed

lemma tick_running_ok:
  assumes "race_ok r" "rc_state r = Running"
  shows "race_ok (tick_running now r)"
proof -
  note shape = race_okD(1) [OF assms(1)] and run = race_okD(2) [OF assms, THEN conjunct1]
  show ?thesis
  proof (cases "rc_pending r")
    case None
    let ?fin = "filter (\<lambda>p. finished_at (racer_of r p) \<noteq> None) (ids r)"
    consider "?fin = []" | p where "?fin = [p]" | p q ps where "?fin = p # q # ps"
      by (metis neq_Nil_conv)
    then show ?thesis
    proof cases
      case 1
      then show ?thesis using None time_up [OF shape run None 1] assms(1)
        by (simp add: tick_running_def)
    next
      case (2 p)
      then show ?thesis using None finisher_beats_the_clock [OF shape run None 2] assms(1)
        by (auto simp: tick_running_def split: option.splits)
    next
      case (3 p q ps)
      then show ?thesis using None assms(1) by (simp add: tick_running_def)
    qed
  next
    case (Some pt)
    then obtain p t where "rc_pending r = Some (p, t)" by (cases pt) simp
    then show ?thesis using loser_loses [OF shape run] assms(1) by (simp add: tick_running_def)
  qed
qed

lemma load_expired_ok:
  assumes "race_ok r" "rc_state r = Loading"
  shows "race_ok (load_expired now r)"
proof -
  note shape = race_okD(1) [OF assms(1)]
  have wait: "waiting_ok r" using race_okD(3) [OF assms(1)] assms(2) by (simp add: decided_def)
  let ?stuck = "filter (\<lambda>p. started_at (racer_of r p) = None) (ids r)"
  have one: "race_ok (decide now Cancelled None LoadTimeout (Some p) None r)" if "?stuck = [p]" for p
  proof (rule decide_cancelled_ok [OF shape])
    show "cancelled_justly r \<lparr>rr_state = Cancelled, rr_winner = None, rr_at = now,
        rr_reason = LoadTimeout, rr_blame = Some p, rr_forfeit = None\<rparr>"
      using that wait shape
      by (auto simp: cancelled_justly_def waiting_ok_def ids_def opponent_of_def race_shape_def both_def
          split: if_splits)
  qed
  have other: "race_ok (decide now Void None LoadTimeout None None r)"
    by (rule decide_void_ok [OF shape]) (simp add: voided_justly_def)
  show ?thesis
    using one other assms(1) by (auto simp: load_expired_def Let_def split: list.splits)
qed

lemma tick_ok: "race_ok r \<Longrightarrow> race_ok (tick now r)"
  by (simp add: tick_def tick_running_ok load_expired_ok)

lemma loading_ok: "race_ok r \<Longrightarrow> race_ok (loading now r)"
  by (auto simp: loading_def race_ok_def waiting_ok_def)

lemma voided_ok: "race_ok r \<Longrightarrow> race_ok (voided now reason r)"
  unfolding voided_def by (auto intro!: decide_void_ok dest: race_okD(1) simp: voided_justly_def)

lemma remark_ok: "remark who what detail now r = Inr r' \<Longrightarrow> race_ok r \<Longrightarrow> race_ok r'"
  by (auto simp: remark_def split: option.splits if_splits)

lemma race_ok_waiting:
  "race_shape r \<Longrightarrow> waiting_ok r \<Longrightarrow> rc_result r = None \<Longrightarrow> rc_state r = Paired \<or> rc_state r = Loading
    \<Longrightarrow> (rc_state r = Loading \<longrightarrow> rc_loading_at r \<noteq> None) \<Longrightarrow> race_ok r"
  by (auto simp: race_ok_def)

lemma race_ok_running:
  "race_shape r \<Longrightarrow> running_ok r \<Longrightarrow> rc_result r = None \<Longrightarrow> rc_state r = Running \<Longrightarrow> race_ok r"
  by (auto simp: race_ok_def)

lemma loading_time: "race_ok r \<Longrightarrow> rc_state r = Loading \<Longrightarrow> rc_loading_at r \<noteq> None"
  by (simp add: race_ok_def)

lemma start_clock_ok:
  assumes ok: "race_ok r" and live: "\<not> decided r" and e: "rc_racer r p = Some e" "started_at e = None"
  shows "race_ok (start_clock p now e r)"
proof -
  note shape = race_okD(1) [OF ok]
  note p = shape_ids [OF shape e(1)]
  have "rc_state r \<noteq> Running"
    using running_racers [of r p] race_okD(2) [OF ok] p e(2) by auto
  with race_okD(3) [OF ok live] live have wait: "waiting_ok r" "rc_result r = None"
    and state: "rc_state r = Paired \<or> rc_state r = Loading"
    by (cases "rc_state r"; simp add: decided_def)+
  let ?r = "set_racer p (e\<lparr>started_at := Some now\<rparr>) r"
  have e': "finished_at e = None" "lost_at e = None"
    using wait(1) p by (auto simp: waiting_ok_def both_opponent)
  then have shape': "race_shape ?r"
    using shape p by (auto intro!: shape_set_racer simp: racer_ok_def race_shape_def both_opponent)
  have still: "both ?r (\<lambda>e. finished_at e = None \<and> lost_at e = None)" "rc_pending r = None"
    using wait(1) e' p(1) by (simp_all add: waiting_ok_def both_set_racer [OF shape] both_opponent)
  show ?thesis
  proof (cases "both ?r (\<lambda>e. started_at e \<noteq> None)")
    case True
    with still have "running_ok (?r\<lparr>rc_state := Running\<rparr>)"
      by (auto simp: running_ok_def both_def)
    with True shape' wait(2) show ?thesis
      by (auto simp: start_clock_def Let_def note_down_state intro!: race_ok_running)
  next
    case False
    with still have "waiting_ok ?r" by (auto simp: waiting_ok_def both_def)
    with False shape' wait(2) state loading_time [OF ok] show ?thesis
      by (auto simp: start_clock_def Let_def intro!: race_ok_waiting)
  qed
qed

lemma started_ok: "started p now r = Inr r' \<Longrightarrow> race_ok r \<Longrightarrow> race_ok r'"
  by (auto simp: started_def start_clock_ok split: option.splits if_splits)

lemma compare_times_ok:
  assumes "race_shape r" "both r (\<lambda>e. finished_at e \<noteq> None)"
  shows "race_ok (compare_times now r)"
proof -
  obtain s t where st: "elapsed (racer_of r (rc_first r)) = Some s" "elapsed (racer_of r (rc_second r)) = Some t"
    and lost: "lost_at (racer_of r (rc_first r)) = None" "lost_at (racer_of r (rc_second r)) = None"
    using assms by (auto simp: race_shape_def both_def racer_ok_def)
  have one: "rc_first r \<noteq> rc_second r" using assms(1) by (simp add: race_shape_def)
  have "finished_justly r \<lparr>rr_state = Finished,
      rr_winner = (if s = t then None else Some (if s < t then rc_first r else rc_second r)), rr_at = now,
      rr_reason = (if s = t then SameTime else Faster), rr_blame = None, rr_forfeit = None\<rparr>"
    using st lost one assms(2)
    by (auto simp: finished_justly_def won_by_time_def ids_def opponent_of_def both_def)
  then show ?thesis
    using decide_finished_ok [OF assms(1)] st by (simp add: compare_times_def Let_def split: if_splits)
qed

lemma cross_line_ok:
  assumes ok: "race_ok r" and run: "rc_state r = Running" and e: "rc_racer r p = Some e"
    and fresh: "finished_at e = None" "lost_at e = None"
  shows "race_ok (cross_line p now e r)"
proof -
  note shape = race_okD(1) [OF ok]
  note p = shape_ids [OF shape e]
  note opp = opponent_facts [OF shape p(1)]
  have running: "running_ok r" "rc_result r = None" using race_okD(2) [OF ok run] by auto
  from running_racers [OF running(1) p(1)] p(2) obtain s where s: "started_at e = Some s" by auto
  let ?q = "opponent_of r p"
  define r' where "r' = note_down now (Some p) (FinishedIn (map_option (\<lambda>s. now - s) (started_at e)))
      (set_racer p (e\<lparr>finished_at := Some now, elapsed := map_option (\<lambda>s. now - s) (started_at e)\<rparr>) r)"
  have shape': "race_shape r'"
    unfolding r'_def using shape p s fresh by (simp add: shape_set_racer racer_ok_def)
  have q': "racer_of r' ?q = racer_of r ?q" "opponent_of r' = opponent_of r" "ids r' = ids r"
    using opp(2) by (simp_all add: r'_def)
  have p': "racer_of r' p = e\<lparr>finished_at := Some now, elapsed := Some (now - s)\<rparr>"
    by (simp add: r'_def s)
  have cross: "cross_line p now e r =
      (if lost_at (racer_of r' ?q) \<noteq> None
       then decide now Finished (Some p) OpponentLost None (forfeit_of r' ?q) r'
       else if finished_at (racer_of r' ?q) \<noteq> None then compare_times now r' else tick now r')"
    by (simp add: cross_line_def Let_def r'_def)
  consider l where "lost_at (racer_of r' ?q) = Some l"
    | "lost_at (racer_of r' ?q) = None" "finished_at (racer_of r' ?q) \<noteq> None"
    | "lost_at (racer_of r' ?q) = None" "finished_at (racer_of r' ?q) = None"
    by (cases "lost_at (racer_of r' ?q)") auto
  then show ?thesis
  proof cases
    case (1 l)
    have "finished_justly r' \<lparr>rr_state = Finished, rr_winner = Some p, rr_at = now,
        rr_reason = OpponentLost, rr_blame = None, rr_forfeit = forfeit_of r' ?q\<rparr>"
      using 1 p(1) p' q' fresh by (simp add: finished_justly_def won_by_loss_def)
    then show ?thesis using 1 cross decide_finished_ok [OF shape'] by simp
  next
    case 2
    then have "both r' (\<lambda>e. finished_at e \<noteq> None)"
      using p(1) p' q' by (simp add: both_opponent [of p])
    then show ?thesis using 2 cross compare_times_ok [OF shape'] by simp
  next
    case 3
    have pend: "rc_pending r = None"
    proof (rule ccontr)
      assume "rc_pending r \<noteq> None"
      then obtain a t where "rc_pending r = Some (a, t)" by auto
      with running(1) have "a \<in> set (ids r)" "lost_at (racer_of r a) = Some t"
        by (auto simp: running_ok_def)
      with fresh p 3 q' show False by (auto simp: ids_def opponent_of_def split: if_splits)
    qed
    have "running_ok r'"
      unfolding running_ok_def both_opponent [of p r', unfolded q', OF p(1)]
      using running(1) pend p p' q' s 3 fresh both_opponent [OF p(1)] by (simp add: r'_def running_ok_def)
    then have "race_ok r'"
      by (rule race_ok_running [OF shape']) (simp_all add: r'_def run running(2))
    then show ?thesis using 3 cross by (simp add: tick_ok)
  qed
qed

lemma finished_ok: "finished p now r = Inr r' \<Longrightarrow> race_ok r \<Longrightarrow> race_ok r'"
  by (auto simp: finished_def cross_line_ok split: option.splits if_splits)

lemma drop_out_ok:
  assumes ok: "race_ok r" and live: "\<not> decided r" and e: "rc_racer r p = Some e"
    and fresh: "lost_at e = None" "finished_at e = None"
  shows "race_ok (drop_out p now c e r)"
proof -
  note shape = race_okD(1) [OF ok]
  note p = shape_ids [OF shape e]
  note opp = opponent_facts [OF shape p(1)]
  let ?q = "opponent_of r p"
  define r' where "r' = note_down now (Some p) (WasLost c)
      (set_racer p (e\<lparr>lost_at := Some now, loss_of := Some c\<rparr>) r)"
  have "elapsed e = None"
    using shape fresh p by (simp add: race_shape_def both_opponent)
  then have shape': "race_shape r'"
    unfolding r'_def using shape p fresh by (simp add: shape_set_racer racer_ok_def)
  have q': "racer_of r' ?q = racer_of r ?q" "opponent_of r' = opponent_of r" "ids r' = ids r"
    "rc_rules r' = rc_rules r" "rc_state r' = rc_state r" "rc_pending r' = rc_pending r"
    using opp(2) by (simp_all add: r'_def)
  have p': "racer_of r' p = e\<lparr>lost_at := Some now, loss_of := Some c\<rparr>"
    by (simp add: r'_def)
  have out: "drop_out p now c e r =
     (if rc_state r \<noteq> Running then decide now Cancelled None (Caused c) (Some p) None r'
      else if finished_at (racer_of r ?q) \<noteq> None
      then decide now Finished (Some ?q) OpponentLost None (forfeit_of r' p) r'
      else case rc_pending r of
             Some (_, since) \<Rightarrow>
               if now - since \<le> draw_window (rc_rules r)
               then decide now Finished None BothLost None None r' else r'
           | None \<Rightarrow> r'\<lparr>rc_pending := Some (p, now)\<rparr>)"
    unfolding drop_out_def Let_def r'_def [symmetric] q' ..
  show ?thesis
  proof (cases "rc_state r = Running")
    case False
    have "waiting_ok r" using race_okD(3) [OF ok live False] by simp
    then have "\<not> both r' (\<lambda>e. started_at e \<noteq> None)"
      using p p' q' by (simp add: waiting_ok_def both_opponent [of p])
    then have "cancelled_justly r' \<lparr>rr_state = Cancelled, rr_winner = None, rr_at = now,
        rr_reason = Caused c, rr_blame = Some p, rr_forfeit = None\<rparr>"
      using p(1) p' q' by (auto simp: cancelled_justly_def)
    then show ?thesis using False out decide_cancelled_ok [OF shape'] by simp
  next
    case run: True
    have running: "running_ok r" "rc_result r = None" using race_okD(2) [OF ok run] by auto
    note parts = running(1) [unfolded running_ok_def both_opponent [OF p(1)]]
    show ?thesis
    proof (cases "finished_at (racer_of r ?q) = None")
      case False
      then have "lost_at (racer_of r ?q) = None"
        using shape p(1) by (auto simp: race_shape_def both_opponent [of p] racer_ok_def)
      with False p(1) p' q' opp have "finished_justly r' \<lparr>rr_state = Finished, rr_winner = Some ?q, rr_at = now,
          rr_reason = OpponentLost, rr_blame = None, rr_forfeit = forfeit_of r' p\<rparr>"
        by (simp add: finished_justly_def won_by_loss_def)
      then show ?thesis using False run out decide_finished_ok [OF shape'] by simp
    next
      case unfinished: True
      show ?thesis
      proof (cases "rc_pending r")
        case None
        with parts p p' q' fresh unfinished have "running_ok (r'\<lparr>rc_pending := Some (p, now)\<rparr>)"
          unfolding running_ok_def by (simp add: both_opponent [of p])
        then have "race_ok (r'\<lparr>rc_pending := Some (p, now)\<rparr>)"
          by (rule race_ok_running [rotated]) (use shape' run running(2) in \<open>simp_all add: r'_def\<close>)
        then show ?thesis using None run unfinished out by simp
      next
        case (Some pt)
        then obtain a t where at: "rc_pending r = Some (a, t)" by (cases pt) simp
        with parts have a: "a \<in> set (ids r)" "lost_at (racer_of r a) = Some t" by auto
        with fresh p have aq: "a = ?q" by (auto simp: ids_def opponent_of_def split: if_splits)
        show ?thesis
        proof (cases "now - t \<le> draw_window (rc_rules r)")
          case True
          have "drawn_fairly r' res BothLost" for res
            using a aq True p' q' opp by (auto simp: drawn_fairly.simps intro!: bexI [of _ ?q])
          then have "finished_justly r' \<lparr>rr_state = Finished, rr_winner = None, rr_at = now,
              rr_reason = BothLost, rr_blame = None, rr_forfeit = None\<rparr>"
            by (simp add: finished_justly_def del: drawn_fairly.simps)
          then show ?thesis using True at run unfinished out decide_finished_ok [OF shape'] by simp
        next
          case False
          with parts at a aq p p' q' fresh unfinished opp have "running_ok r'"
            unfolding running_ok_def by (simp add: both_opponent [of p])
          then have "race_ok r'"
            by (rule race_ok_running [OF shape']) (simp_all add: r'_def run running(2))
          then show ?thesis using False at run unfinished out by simp
        qed
      qed
    qed
  qed
qed

lemma lost_ok: "lost p now cause r = Inr r' \<Longrightarrow> race_ok r \<Longrightarrow> race_ok r'"
  by (auto simp: lost_def drop_out_ok simp del: loss_cause_of.simps split: option.splits if_splits)

lemma progress_cong:
  assumes "rc_first d = rc_first r" "rc_second d = rc_second r" "rc_pending d = rc_pending r"
    "rc_rules d = rc_rules r" "\<And>p. started_at (racer_of d p) = started_at (racer_of r p)"
    "\<And>p. finished_at (racer_of d p) = finished_at (racer_of r p)"
    "\<And>p. lost_at (racer_of d p) = lost_at (racer_of r p)"
  shows "running_ok d = running_ok r" "waiting_ok d = waiting_ok r"
proof -
  have "ids d = ids r" "opponent_of d = opponent_of r"
    using assms(1,2) by (simp_all add: ids_def opponent_of_def fun_eq_iff)
  then show "running_ok d = running_ok r" "waiting_ok d = waiting_ok r"
    using assms by (simp_all add: running_ok_def waiting_ok_def both_def split: option.splits)
qed

lemma offer_draw_ok: "offer_draw p now r = Inr (yes, r') \<Longrightarrow> race_ok r \<Longrightarrow> race_ok r'"
proof -
  assume offer: "offer_draw p now r = Inr (yes, r')" and ok: "race_ok r"
  note shape = race_okD(1) [OF ok]
  from offer obtain e where e: "rc_racer r p = Some e" by (auto simp: offer_draw_def split: option.splits)
  note p = shape_ids [OF shape e]
  note opp = opponent_facts [OF shape p(1)]
  define d where "d = note_down now (Some p) DrawOffered (set_racer p (e\<lparr>draw_offered_at := Some now\<rparr>) r)"
  have shape': "race_shape d"
    unfolding d_def using shape p by (auto intro!: shape_set_racer simp: race_shape_def both_opponent racer_ok_def)
  have same: "running_ok d = running_ok r" "waiting_ok d = waiting_ok r"
    using p by (intro progress_cong; simp add: d_def)+
  have "race_ok d" if "\<not> decided r"
  proof (cases "rc_state r = Running")
    case True
    with race_okD(2) [OF ok] have "running_ok d" "rc_result r = None" by (simp_all add: same)
    then show ?thesis by (intro race_ok_running [OF shape']) (simp_all add: d_def True)
  next
    case False
    with race_okD(3) [OF ok that] have wait: "waiting_ok d" "rc_result r = None" by (simp_all add: same)
    have "rc_state d = Paired \<or> rc_state d = Loading"
      using False that by (cases "rc_state r") (simp_all add: d_def decided_def)
    with wait show ?thesis
      using loading_time [OF ok] by (intro race_ok_waiting [OF shape']) (simp_all add: d_def)
  qed
  moreover have "race_ok (decide now Void None Agreed None None d)" if "both d (\<lambda>e. draw_offered_at e \<noteq> None)"
    by (rule decide_void_ok [OF shape']) (use that in \<open>simp add: voided_justly_def\<close>)
  ultimately show ?thesis
    using offer ok e by (auto simp: offer_draw_def d_def [symmetric] Let_def split: if_splits)
qed

lemma race_step_ok: "race_step r r' \<Longrightarrow> race_ok r \<Longrightarrow> race_ok r'"
  by (induction rule: race_step.induct)
     (auto intro: loading_ok started_ok remark_ok finished_ok lost_ok offer_draw_ok voided_ok tick_ok)

lemma new_race_ok: "new_race players rules now = Inr r \<Longrightarrow> race_ok r"
  by (auto simp: new_race_def race_ok_def race_shape_def waiting_ok_def both_def racer_of_def ids_def
      racer_ok_def fresh_racer_def split: list.splits if_splits)

interpretation a_race: invariant_system race_step race_ok
  by unfold_locales (rule race_step_ok)

section \<open>Who races\<close>

lemma tick_players [simp]:
  "rc_first (tick now r) = rc_first r" "rc_second (tick now r) = rc_second r"
  by (simp_all add: tick_def tick_running_def load_expired_def Let_def split: option.splits list.splits)

lemma compare_times_players [simp]:
  "rc_first (compare_times now r) = rc_first r" "rc_second (compare_times now r) = rc_second r"
  by (simp_all add: compare_times_def Let_def split: option.splits)

lemma cross_line_players [simp]:
  "rc_first (cross_line p now e r) = rc_first r" "rc_second (cross_line p now e r) = rc_second r"
  by (simp_all add: cross_line_def Let_def)

lemma drop_out_players [simp]:
  "rc_first (drop_out p now c e r) = rc_first r" "rc_second (drop_out p now c e r) = rc_second r"
  by (simp_all add: drop_out_def Let_def split: option.splits)

lemma start_clock_players [simp]:
  "rc_first (start_clock p now e r) = rc_first r" "rc_second (start_clock p now e r) = rc_second r"
  by (simp_all add: start_clock_def Let_def)

lemma loading_players [simp]:
  "rc_first (loading now r) = rc_first r" "rc_second (loading now r) = rc_second r"
  by (simp_all add: loading_def)

lemma voided_players [simp]:
  "rc_first (voided now w r) = rc_first r" "rc_second (voided now w r) = rc_second r"
  by (simp_all add: voided_def)

lemma race_step_players:
  "race_step r r' \<Longrightarrow> rc_first r' = rc_first r \<and> rc_second r' = rc_second r"
  by (induction rule: race_step.induct)
     (auto simp: started_def remark_def finished_def lost_def offer_draw_def Let_def
      simp del: loss_cause_of.simps split: option.splits if_splits)

section \<open>A race on which the properties are applied\<close>

definition demo_rules :: race_rules where
  "demo_rules = \<lparr>draw_window = 5000, forfeit_window = 60000, max_duration = 3600000, load_timeout = 120000\<rparr>"

definition demo_paired :: race where "demo_paired = projr (new_race [1, 2] demo_rules 0)"
definition demo_loading :: race where "demo_loading = loading 10000 demo_paired"
definition demo_half :: race where "demo_half = projr (started 1 20000 demo_loading)"
definition demo_running :: race where "demo_running = projr (started 2 21000 demo_half)"
definition demo_ahead :: race where "demo_ahead = projr (finished 1 50000 demo_running)"
definition demo_won :: race where "demo_won = tick 51000 demo_ahead"

lemmas race_ops = new_race_def loading_def started_def start_clock_def finished_def cross_line_def tick_def
  tick_running_def note_down_def set_racer_def racer_of_def decided_def both_def ids_def opponent_of_def
  ran_for_def decide_def fresh_racer_def demo_rules_def Let_def

lemma demo_paired_eq: "new_race [1, 2] demo_rules 0 = Inr demo_paired"
  by (simp add: demo_paired_def new_race_def)

lemma demo_half_eq: "started 1 20000 demo_loading = Inr demo_half"
  by (simp add: demo_half_def demo_loading_def demo_paired_def race_ops)

lemma demo_running_eq: "started 2 21000 demo_half = Inr demo_running"
  by (simp add: demo_running_def demo_half_def demo_loading_def demo_paired_def race_ops)

lemma demo_ahead_eq: "finished 1 50000 demo_running = Inr demo_ahead"
  by (simp add: demo_ahead_def demo_running_def demo_half_def demo_loading_def demo_paired_def race_ops)

lemmas demo_race = demo_won_def demo_ahead_def demo_running_def demo_half_def demo_loading_def
  demo_paired_def race_ops

lemma demo_ahead_state:
  "rc_state demo_ahead = Running" "rc_pending demo_ahead = None" "rc_rules demo_ahead = demo_rules"
  "started_at (racer_of demo_ahead p) = (if p = 1 then Some 20000 else if p = 2 then Some 21000 else None)"
  "elapsed (racer_of demo_ahead p) = (if p = 1 then Some 30000 else None)"
  by (simp_all add: demo_race)

lemma demo_won_result:
  "rc_state demo_won = Finished"
  "rc_result demo_won = Some \<lparr>rr_state = Finished, rr_winner = Some 1, rr_at = 51000, rr_reason = Faster,
     rr_blame = None, rr_forfeit = None\<rparr>"
  by (simp_all add: demo_race)

lemma demo_to_ahead: "race_step\<^sup>*\<^sup>* demo_paired demo_ahead"
proof -
  have "race_step demo_paired demo_loading" unfolding demo_loading_def by (rule step_loading)
  moreover note step_started [OF demo_half_eq] step_started [OF demo_running_eq] step_finished [OF demo_ahead_eq]
  ultimately show ?thesis by (meson rtranclp.rtrancl_refl rtranclp.rtrancl_into_rtrancl)
qed

lemma demo_to_won: "race_step\<^sup>*\<^sup>* demo_paired demo_won"
  unfolding demo_won_def by (rule rtranclp.rtrancl_into_rtrancl [OF demo_to_ahead step_tick])

section \<open>Properties\<close>

lemma just_result:
  "race_ok r \<Longrightarrow> decided r \<Longrightarrow> \<exists>res. rc_result r = Some res \<and> just r res"
  by (auto simp: race_ok_def decided_def split: race_state.splits)

text \<open>C9: Every decided race was decided justly. However the events of two racers and the
  clock interleave, a race that has been decided has a result that its racers' clocks bear out:
  a winner by time finished, in less than the other did or than the other's clock had already
  used; a winner by the other's loss had finished, or saw the draw window out, and had not
  itself lost inside that window; a draw is equal times, two losses inside the window or both
  clocks run out; whoever forfeits is the loser, out inside the forfeit window; a cancelled race
  was never under way and blames exactly one racer; a void one names nobody.\<close>
theorem race_decided_justly:
  assumes "new_race players rules now = Inr r\<^sub>0" and "race_step\<^sup>*\<^sup>* r\<^sub>0 r" and "decided r"
  shows "\<exists>res. rc_result r = Some res \<and> rr_state res = rc_state r
    \<and> (rc_state r = Finished \<longrightarrow> finished_justly r res)
    \<and> (rc_state r = Cancelled \<longrightarrow> cancelled_justly r res)
    \<and> (rc_state r = Void \<longrightarrow> voided_justly r res)"
  using just_result [OF a_race.steps_inv [OF assms(2) new_race_ok [OF assms(1)]] assms(3)]
  by (simp add: just_def)

lemma race_decided_justly_witness:
  "rc_state demo_won = Finished \<and> finished_justly demo_won
     \<lparr>rr_state = Finished, rr_winner = Some 1, rr_at = 51000, rr_reason = Faster,
      rr_blame = None, rr_forfeit = None\<rparr>"
  using race_decided_justly [OF demo_paired_eq demo_to_won] demo_won_result by (simp add: decided_def)

text \<open>A decided race only has remarks added to its timeline.\<close>

definition only_noted :: "race \<Rightarrow> race \<Rightarrow> bool" where
  "only_noted r r' \<longleftrightarrow> (\<exists>es. r' = r\<lparr>rc_timeline := rc_timeline r @ es\<rparr>)"

lemma only_noted_refl [simp]: "only_noted r r"
  by (auto simp: only_noted_def intro: exI [of _ "[]"])

lemma only_noted_down: "only_noted r (note_down now p w r)"
  by (auto simp: only_noted_def note_down_def)

lemma only_noted_trans: "only_noted r s \<Longrightarrow> only_noted s u \<Longrightarrow> only_noted r u"
  unfolding only_noted_def by force

lemma decided_step: "race_step r r' \<Longrightarrow> decided r \<Longrightarrow> only_noted r r'"
proof (induction rule: race_step.induct)
  case (step_loading r now)
  then show ?case by (auto simp: loading_def decided_def)
next
  case (step_tick r now)
  then show ?case by (auto simp: tick_def decided_def)
next
  case (step_finished p now r r')
  then show ?case by (auto simp: finished_def decided_def split: option.splits)
qed (auto simp: started_def remark_def lost_def offer_draw_def voided_def only_noted_down
    simp del: loss_cause_of.simps split: option.splits if_splits)

lemma only_noted_decided: "only_noted r r' \<Longrightarrow> decided r' = decided r"
  by (auto simp: only_noted_def decided_def)

text \<open>A decision is final: whatever is reported after it, in any order, the race keeps its
  state, its result and both racers' clocks; only remarks are added to its timeline.\<close>
lemma race_decision_final:
  assumes "race_step\<^sup>*\<^sup>* r r'" and "decided r"
  shows "\<exists>remarks. r' = r\<lparr>rc_timeline := rc_timeline r @ remarks\<rparr>"
proof -
  have "only_noted r r'"
    using assms(1)
  proof (induction rule: rtranclp_induct)
    case (step s u)
    then show ?case
      using decided_step only_noted_decided only_noted_trans assms(2) by blast
  qed simp
  then show ?thesis by (simp add: only_noted_def)
qed

lemma race_decision_final_witness:
  "\<exists>remarks. tick 99000 (voided 60000 ''server_stopped'' demo_won)
     = demo_won\<lparr>rc_timeline := rc_timeline demo_won @ remarks\<rparr>"
proof (rule race_decision_final)
  show "race_step\<^sup>*\<^sup>* demo_won (tick 99000 (voided 60000 ''server_stopped'' demo_won))"
    by (rule rtranclp.rtrancl_into_rtrancl, rule r_into_rtranclp, rule step_voided, rule step_tick)
  show "decided demo_won" by (simp add: decided_def demo_won_result)
qed

text \<open>The tick that decides a running race.\<close>

lemma running_tick_decides:
  assumes ok: "race_ok r" and run: "rc_state r = Running"
    and pending: "\<forall>p t. rc_pending r = Some (p, t) \<longrightarrow> t + draw_window (rc_rules r) \<le> now"
    and clocks: "\<forall>p s. started_at (racer_of r p) = Some s \<longrightarrow> s + max_duration (rc_rules r) \<le> now
           \<and> (\<forall>q t. elapsed (racer_of r q) = Some t \<longrightarrow> s + t \<le> now)"
  shows "decided (tick now r)"
proof (cases "rc_pending r")
  case (Some pt)
  then obtain p t where "rc_pending r = Some (p, t)" by (cases pt) simp
  with pending run show ?thesis by (auto simp: tick_def tick_running_def decided_def)
next
  case None
  note shape = race_okD(1) [OF ok]
  note running = race_okD(2) [OF ok run, THEN conjunct1]
  have started: "\<exists>s. started_at (racer_of r p) = Some s" if "p \<in> set (ids r)" for p
    using running_racers [OF running that] .
  let ?fin = "filter (\<lambda>p. finished_at (racer_of r p) \<noteq> None) (ids r)"
  have both_ran: "both r (ran_for now (max_duration (rc_rules r)))"
    using started clocks by (fastforce simp: both_def ids_def ran_for_def)
  consider "?fin = []" | p where "?fin = [p]" | "?fin = [rc_first r, rc_second r]"
    by (cases "finished_at (racer_of r (rc_first r))"; cases "finished_at (racer_of r (rc_second r))") (auto simp: ids_def)
  then show ?thesis
  proof cases
    case 1
    then show ?thesis using None run both_ran by (simp add: tick_def tick_running_def decided_def)
  next
    case (2 p)
    note fin = one_finisher [OF shape 2]
    obtain t where t: "elapsed (racer_of r p) = Some t"
      using fin shape by (auto simp: race_shape_def both_opponent racer_ok_def)
    obtain s where "started_at (racer_of r (opponent_of r p)) = Some s"
      using started opponent_facts(1) [OF shape fin(1)] by blast
    with t clocks have "ran_for now t (racer_of r (opponent_of r p))" by (auto simp: ran_for_def algebra_simps)
    then show ?thesis using None run 2 t by (simp add: tick_def tick_running_def decided_def)
  next
    case 3
    then have "both r (\<lambda>e. finished_at e \<noteq> None)" by (auto simp: ids_def both_def split: if_splits)
    with running show ?thesis by (simp add: running_ok_def)
  qed
qed

text \<open>C10: A race cannot hang. At a tick that comes after the load limit of a race still loading
  (where the rules set one), or after the draw window of a pending loss, or, with nobody lost,
  after both clocks have used up the time limit and the time of whoever has finished, the race
  is decided.\<close>
theorem race_tick_decides:
  assumes "new_race players rules was = Inr r\<^sub>0" and "race_step\<^sup>*\<^sup>* r\<^sub>0 r"
    and "rc_state r = Loading \<or> rc_state r = Running"
    and "rc_state r = Loading \<longrightarrow> 0 < load_timeout (rc_rules r)
           \<and> (\<forall>l. rc_loading_at r = Some l \<longrightarrow> l + load_timeout (rc_rules r) \<le> now)"
    and "\<forall>p t. rc_pending r = Some (p, t) \<longrightarrow> t + draw_window (rc_rules r) \<le> now"
    and "\<forall>p s. started_at (racer_of r p) = Some s \<longrightarrow> s + max_duration (rc_rules r) \<le> now
           \<and> (\<forall>q t. elapsed (racer_of r q) = Some t \<longrightarrow> s + t \<le> now)"
  shows "decided (tick now r)"
proof -
  have ok: "race_ok r" by (rule a_race.steps_inv [OF assms(2) new_race_ok [OF assms(1)]])
  show ?thesis
  proof (cases "rc_state r = Loading")
    case True
    with loading_time [OF ok] obtain l where "rc_loading_at r = Some l" by auto
    with True assms(4) show ?thesis
      by (auto simp: tick_def load_expired_def Let_def decided_def split: list.splits)
  next
    case False
    with assms(3) show ?thesis using running_tick_decides [OF ok _ assms(5,6)] by simp
  qed
qed

lemma race_tick_decides_witness: "decided (tick 3621000 demo_ahead)"
proof (rule race_tick_decides [OF demo_paired_eq demo_to_ahead])
  show "\<forall>p s. started_at (racer_of demo_ahead p) = Some s \<longrightarrow> s + max_duration (rc_rules demo_ahead) \<le> 3621000
      \<and> (\<forall>q t. elapsed (racer_of demo_ahead q) = Some t \<longrightarrow> s + t \<le> 3621000)"
    by (simp add: demo_ahead_state demo_rules_def)
qed (simp_all add: demo_ahead_state)

lemma compare_times_state: "rc_state (compare_times now r) = Finished"
  by (simp add: compare_times_def Let_def split: option.splits)

lemma tick_running_state: "rc_state (tick_running now r) = rc_state r \<or> rc_state (tick_running now r) = Finished"
  by (auto simp: tick_running_def split: option.splits list.splits)

lemma load_expired_state:
  "rc_state (load_expired now r) = rc_state r \<or> rc_state (load_expired now r) = Cancelled
   \<or> rc_state (load_expired now r) = Void"
  by (auto simp: load_expired_def Let_def split: option.splits list.splits)

lemma tick_state:
  "rc_state (tick now r) = rc_state r \<or> rc_state r = Running \<and> rc_state (tick now r) = Finished
   \<or> rc_state r = Loading \<and> (rc_state (tick now r) = Cancelled \<or> rc_state (tick now r) = Void)"
  using tick_running_state [of now r] load_expired_state [of now r] by (auto simp: tick_def)

lemma cross_line_state:
  "rc_state r = Running \<Longrightarrow> rc_state (cross_line p now e r) \<in> {Running, Finished}"
  unfolding cross_line_def Let_def
  by (auto simp: compare_times_state dest: tick_state [THEN disjE])
     (metis note_down_simps(4) race_state.distinct set_racer_simps(4) tick_state)

lemma drop_out_state:
  "rc_state (drop_out p now c e r) \<in>
     (if rc_state r = Running then {Running, Finished} else {Cancelled})"
  by (auto simp: drop_out_def Let_def split: option.splits)

text \<open>Races follow the diagram of the module: a step leaves the state, or goes from paired to
  loading, from either to running, from running to finished, or from any of the three to
  cancelled or void, and a running race is never cancelled.\<close>
theorem race_follows_diagram:
  assumes "race_step r r'"
  shows "rc_state r' = rc_state r
       \<or> (rc_state r, rc_state r') \<in> {(Paired, Loading), (Paired, Running), (Loading, Running),
            (Running, Finished), (Paired, Cancelled), (Loading, Cancelled),
            (Paired, Void), (Loading, Void), (Running, Void)}"
  using assms
proof cases
  case (step_finished p now)
  then show ?thesis
    using cross_line_state [of r p now] by (auto simp: finished_def split: option.splits if_splits)
next
  case (step_lost p now cause)
  then show ?thesis
    using drop_out_state [of p now _ _ r]
    by (cases "rc_state r")
       (auto simp: lost_def decided_def simp del: loss_cause_of.simps split: option.splits if_splits)
next
  case (step_tick now)
  then show ?thesis using tick_state [of now r] by auto
next
  case (step_draw p now agreed)
  then show ?thesis
    by (cases "rc_state r") (auto simp: offer_draw_def Let_def decided_def split: option.splits if_splits)
next
  case (step_started p now)
  then show ?thesis
    by (cases "rc_state r") (auto simp: started_def start_clock_def Let_def decided_def split: option.splits if_splits)
next
  case (step_voided now reason)
  then show ?thesis by (cases "rc_state r") (auto simp: voided_def decided_def)
next
  case (step_loading now)
  show ?thesis unfolding step_loading by (simp add: loading_def)
next
  case (step_remark who what detail now)
  then have "rc_state r' = rc_state r" by (auto simp: remark_def split: option.splits if_splits)
  then show ?thesis ..
qed

lemma race_follows_diagram_witness:
  "(rc_state demo_ahead, rc_state demo_won) = (Running, Finished)
   \<and> (rc_state demo_won = rc_state demo_ahead
       \<or> (rc_state demo_ahead, rc_state demo_won) \<in> {(Paired, Loading), (Paired, Running), (Loading, Running),
            (Running, Finished), (Paired, Cancelled), (Loading, Cancelled),
            (Paired, Void), (Loading, Void), (Running, Void)})"
  using race_follows_diagram [OF step_tick [of demo_ahead 51000]] demo_ahead_state demo_won_result
  by (simp add: demo_won_def)

end
