(* ===== verification/Rating.thy ===== *)
theory Rating
  imports Race "HOL-Library.AList" "HOL-Library.Product_Lexorder"
begin

text \<open>
  Ranked ratings, leagues and standings (\<open>src/modes/ranked/rating.js\<close>, \<open>leagues.js\<close>,
  \<open>standing.js\<close>): the Elo step, the replay of the match log into ratings, the board sorted
  from them, and the leagues laid over it. Ratings are real numbers: a whole-number step is
  exact in a double, and what the model leaves out is the rounding inside the power function.
\<close>

section \<open>The scale\<close>

datatype js_real = Finite real | NonFinite

fun is_finite :: "js_real \<Rightarrow> bool" where
  "is_finite (Finite x) = True"
| "is_finite NonFinite = False"

fun real_of_js :: "js_real \<Rightarrow> real" where
  "real_of_js (Finite x) = x"
| "real_of_js NonFinite = 0"

definition default_k :: real where "default_k = 40"
definition default_start :: real where "default_start = 1000"
definition default_floor :: real where "default_floor = 100"

record rating_scale =
  rs_start :: real
  rs_k :: real
  rs_floor :: real

datatype rating_error = NotNumbers | KNotPositive | FloorAboveStart

definition given :: "real \<Rightarrow> js_real option \<Rightarrow> js_real" where
  "given d x = (case x of None \<Rightarrow> Finite d | Some v \<Rightarrow> v)"

definition rating_rules ::
  "js_real option \<Rightarrow> js_real option \<Rightarrow> js_real option \<Rightarrow> rating_error + rating_scale" where
  "rating_rules start k bottom =
     (let s = given default_start start; c = given default_k k; f = given default_floor bottom in
      if \<not> (is_finite s \<and> is_finite c \<and> is_finite f) then Inl NotNumbers
      else if \<not> 0 < real_of_js c then Inl KNotPositive
      else if real_of_js s < real_of_js f then Inl FloorAboveStart
      else Inr \<lparr>rs_start = real_of_js s, rs_k = real_of_js c, rs_floor = real_of_js f\<rparr>)"

definition scale_ok :: "rating_scale \<Rightarrow> bool" where
  "scale_ok rs \<longleftrightarrow> 0 < rs_k rs \<and> rs_floor rs \<le> rs_start rs"

lemma rating_rules_ok: "rating_rules s k f = Inr rs \<Longrightarrow> scale_ok rs"
  by (auto simp: rating_rules_def scale_ok_def Let_def split: if_splits)

section \<open>One race\<close>

definition expected_score :: "real \<Rightarrow> real \<Rightarrow> real" where
  "expected_score rating opponent = 1 / (1 + 10 powr ((opponent - rating) / 400))"

definition rating_step :: "rating_scale \<Rightarrow> real \<Rightarrow> real \<Rightarrow> real \<Rightarrow> int" where
  "rating_step rs first second score = js_round (rs_k rs * (score - expected_score first second))"

definition rate_match :: "rating_scale \<Rightarrow> real \<Rightarrow> real \<Rightarrow> real \<Rightarrow> real \<times> real" where
  "rate_match rs first second score =
     (let step = of_int (rating_step rs first second score)
      in (max (rs_floor rs) (first + step), max (rs_floor rs) (second - step)))"

section \<open>The log, replayed\<close>

record match_record =
  mr_race :: nat
  mr_state :: race_state
  mr_first :: int
  mr_second :: int
  mr_winner :: "int option"
  mr_reason :: race_reason
  mr_blame :: "int option"
  mr_forfeit :: "int option"
  mr_paired_at :: int
  mr_decided_at :: int

record rated =
  rd_rating :: real
  rd_games :: nat

type_synonym ratings = "(int \<times> rated) list"

definition new_player :: "rating_scale \<Rightarrow> rated" where
  "new_player rs = \<lparr>rd_rating = rs_start rs, rd_games = 0\<rparr>"

definition rated_of :: "rating_scale \<Rightarrow> ratings \<Rightarrow> int \<Rightarrow> rated" where
  "rated_of rs m a = (case map_of m a of Some r \<Rightarrow> r | None \<Rightarrow> new_player rs)"

definition score_of :: "int option \<Rightarrow> int \<Rightarrow> real" where
  "score_of winner a = (case winner of None \<Rightarrow> 1 / 2 | Some w \<Rightarrow> if w = a then 1 else 0)"

definition rerate_pair :: "rating_scale \<Rightarrow> ratings \<Rightarrow> int \<Rightarrow> int \<Rightarrow> int option \<Rightarrow> ratings" where
  "rerate_pair rs m a b winner =
     (let x = rated_of rs m a; y = rated_of rs m b;
          (x', y') = rate_match rs (rd_rating x) (rd_rating y) (score_of winner a)
      in AList.update b \<lparr>rd_rating = y', rd_games = rd_games y + 1\<rparr>
           (AList.update a \<lparr>rd_rating = x', rd_games = rd_games x + 1\<rparr> m))"

definition replay_one :: "rating_scale \<Rightarrow> ratings \<Rightarrow> match_record \<Rightarrow> ratings" where
  "replay_one rs m g =
     (if mr_state g \<noteq> Finished then m
      else rerate_pair rs m (mr_first g) (mr_second g) (mr_winner g))"

definition replay :: "rating_scale \<Rightarrow> match_record list \<Rightarrow> ratings" where
  "replay rs games = foldl (replay_one rs) [] games"

lemma replay_Nil [simp]: "replay rs [] = []"
  by (simp add: replay_def)

lemma replay_snoc [simp]: "replay rs (games @ [g]) = replay_one rs (replay rs games) g"
  by (simp add: replay_def)

section \<open>What one race does to two ratings\<close>

lemma expected_score_bounds: "0 < expected_score r p" "expected_score r p < 1"
  by (simp_all add: expected_score_def add_pos_pos)

lemma expected_score_sum: "expected_score r p + expected_score p r = 1"
proof -
  define x where "x = (10::real) powr ((p - r) / 400)"
  have "x > 0" by (simp add: x_def)
  then have sum: "1 / (1 + x) + 1 / (1 + 1 / x) = 1" by (simp add: field_simps)
  have other: "(10::real) powr ((r - p) / 400) = 1 / x"
    using powr_minus_divide [of "10::real" "(p - r) / 400"] by (simp add: x_def minus_divide_left)
  show ?thesis
    unfolding expected_score_def other x_def [symmetric] by (rule sum)
qed

lemma expected_score_equals [simp]: "expected_score r r = 1 / 2"
  by (simp add: expected_score_def)

lemma expected_score_antimono: "p \<le> q \<Longrightarrow> expected_score r q \<le> expected_score r p"
  unfolding expected_score_def by (intro divide_left_mono add_left_mono powr_mono) (auto simp: add_pos_pos)

lemma rating_step_win: "0 < rs_k rs \<Longrightarrow> 0 \<le> rating_step rs r p 1"
  using expected_score_bounds [of r p] unfolding rating_step_def
  by (intro js_round_nonneg mult_nonneg_nonneg) auto

lemma rating_step_loss: "0 < rs_k rs \<Longrightarrow> rating_step rs r p 0 \<le> 0"
  using expected_score_bounds [of r p] unfolding rating_step_def
  by (intro js_round_le_int) (auto simp: mult_nonneg_nonneg)

lemma rating_step_bound:
  assumes "0 < rs_k rs" "0 \<le> s" "s \<le> 1"
  shows "\<bar>rating_step rs r p s\<bar> \<le> \<lceil>rs_k rs\<rceil>"
proof -
  let ?x = "rs_k rs * (s - expected_score r p)"
  have "s - expected_score r p \<le> 1" "- 1 \<le> s - expected_score r p"
    using expected_score_bounds [of r p] assms by linarith+
  with assms(1) have "?x \<le> rs_k rs * 1" "rs_k rs * (- 1) \<le> ?x"
    by (simp_all only: mult_le_cancel_left_pos)
  then have "?x \<le> of_int \<lceil>rs_k rs\<rceil>" "of_int (- \<lceil>rs_k rs\<rceil>) \<le> ?x"
    using le_of_int_ceiling [of "rs_k rs"] by linarith+
  then have "rating_step rs r p s \<le> \<lceil>rs_k rs\<rceil>" "- \<lceil>rs_k rs\<rceil> \<le> rating_step rs r p s"
    unfolding rating_step_def by (blast intro: js_round_le_int js_round_ge_int)+
  then show ?thesis by linarith
qed

text \<open>C13: One race moves two ratings fairly. With the rules checked and both players at or above
  the floor, nobody leaves a race below it; neither rating moves by more than K (rounded up);
  a winner never loses rating and a loser never gains any; what one gains the other gives, unless
  the floor catches one of them, when the race gives more than it takes; and beating a stronger
  opponent is never worth less.\<close>
theorem race_moves_ratings:
  assumes "rating_rules start k bottom = Inr rs"
    and "rs_floor rs \<le> first" and "rs_floor rs \<le> second" and "score \<in> {0, 1 / 2, 1}"
    and "rate_match rs first second score = (first', second')"
  shows "rs_floor rs \<le> first' \<and> rs_floor rs \<le> second'
    \<and> \<bar>first' - first\<bar> \<le> of_int \<lceil>rs_k rs\<rceil> \<and> \<bar>second' - second\<bar> \<le> of_int \<lceil>rs_k rs\<rceil>
    \<and> (score = 1 \<longrightarrow> first \<le> first' \<and> second' \<le> second)
    \<and> (score = 0 \<longrightarrow> first' \<le> first \<and> second \<le> second')
    \<and> first + second \<le> first' + second'
    \<and> (rs_floor rs < first' \<and> rs_floor rs < second' \<longrightarrow> first' + second' = first + second)
    \<and> (\<forall>stronger \<ge> second. rating_step rs first second 1 \<le> rating_step rs first stronger 1)"
proof -
  have k: "0 < rs_k rs" using rating_rules_ok [OF assms(1)] by (simp add: scale_ok_def)
  let ?s = "rating_step rs first second score"
  have bound: "\<bar>?s\<bar> \<le> \<lceil>rs_k rs\<rceil>"
    using assms(4) by (intro rating_step_bound [OF k]) auto
  then have real_bound: "\<bar>real_of_int ?s\<bar> \<le> of_int \<lceil>rs_k rs\<rceil>"
    by (metis of_int_abs of_int_le_iff)
  have eqs: "first' = max (rs_floor rs) (first + of_int ?s)" "second' = max (rs_floor rs) (second - of_int ?s)"
    using assms(5) by (simp_all add: rate_match_def Let_def)
  have signs: "score = 1 \<Longrightarrow> 0 \<le> real_of_int ?s" "score = 0 \<Longrightarrow> real_of_int ?s \<le> 0"
    using rating_step_win [OF k] rating_step_loss [OF k] by simp_all
  have mono: "rating_step rs first second 1 \<le> rating_step rs first p 1" if "second \<le> p" for p
    using expected_score_antimono [OF that, of first] k unfolding rating_step_def
    by (intro js_round_mono mult_left_mono) auto
  show ?thesis
  proof (intro conjI)
    show "\<bar>first' - first\<bar> \<le> of_int \<lceil>rs_k rs\<rceil>" "\<bar>second' - second\<bar> \<le> of_int \<lceil>rs_k rs\<rceil>"
      using real_bound assms(2,3) unfolding eqs by linarith+
    show "score = 1 \<longrightarrow> first \<le> first' \<and> second' \<le> second"
      "score = 0 \<longrightarrow> first' \<le> first \<and> second \<le> second'"
      using signs assms(2,3) unfolding eqs by auto
  qed (use mono in \<open>auto simp: eqs\<close>)
qed

lemma race_moves_ratings_witness:
  "rate_match \<lparr>rs_start = 1000, rs_k = 40, rs_floor = 100\<rparr> 1000 1000 1 = (1020, 980)
   \<and> (1020::real) + 980 = 1000 + 1000
   \<and> rating_step \<lparr>rs_start = 1000, rs_k = 40, rs_floor = 100\<rparr> 1000 1000 1
       \<le> rating_step \<lparr>rs_start = 1000, rs_k = 40, rs_floor = 100\<rparr> 1000 1400 1"
proof -
  let ?rs = "\<lparr>rs_start = 1000, rs_k = 40, rs_floor = 100\<rparr>"
  have rules: "rating_rules None None None = Inr ?rs"
    by (simp add: rating_rules_def given_def default_k_def default_start_def default_floor_def)
  have step: "rating_step ?rs 1000 1000 1 = 20"
    using js_round_of_int [of 20] by (simp add: rating_step_def)
  then have moved: "rate_match ?rs 1000 1000 1 = (1020, 980)"
    by (simp add: rate_match_def)
  from race_moves_ratings [OF rules _ _ _ moved] show ?thesis using moved by simp
qed

section \<open>What the replay gives\<close>

definition rated_matches :: "int \<Rightarrow> match_record list \<Rightarrow> nat" where
  "rated_matches a games =
     length (filter (\<lambda>g. mr_state g = Finished \<and> (mr_first g = a \<or> mr_second g = a)) games)"

definition well_logged :: "match_record list \<Rightarrow> bool" where
  "well_logged games \<longleftrightarrow> (\<forall>g\<in>set games. mr_first g \<noteq> mr_second g
     \<and> (\<forall>w. mr_winner g = Some w \<longrightarrow> w = mr_first g \<or> w = mr_second g))"

lemma well_logged_snoc [simp]:
  "well_logged (games @ [g]) \<longleftrightarrow> well_logged games \<and> mr_first g \<noteq> mr_second g
     \<and> (\<forall>w. mr_winner g = Some w \<longrightarrow> w = mr_first g \<or> w = mr_second g)"
  by (auto simp: well_logged_def)

lemma map_of_rerate_pair:
  "map_of (rerate_pair rs m a b w) c =
     (let x = rated_of rs m a; y = rated_of rs m b;
          (x', y') = rate_match rs (rd_rating x) (rd_rating y) (score_of w a)
      in if c = b then Some \<lparr>rd_rating = y', rd_games = rd_games y + 1\<rparr>
         else if c = a then Some \<lparr>rd_rating = x', rd_games = rd_games x + 1\<rparr>
         else map_of m c)"
  by (simp add: rerate_pair_def Let_def update_conv' split: prod.splits)

lemma rated_matches_snoc [simp]:
  "rated_matches a (games @ [g]) = rated_matches a games
     + (if mr_state g = Finished \<and> (mr_first g = a \<or> mr_second g = a) then 1 else 0)"
  by (simp add: rated_matches_def)

lemma replay_games:
  assumes "well_logged games"
  shows "rd_games (rated_of rs (replay rs games) a) = rated_matches a games
       \<and> (map_of (replay rs games) a \<noteq> None \<longleftrightarrow> 0 < rated_matches a games)"
  using assms
proof (induction games rule: rev_induct)
  case Nil
  then show ?case by (simp add: rated_of_def new_player_def rated_matches_def)
next
  case (snoc g games)
  then show ?case
    by (auto simp: replay_one_def rated_of_def map_of_rerate_pair Let_def new_player_def
        split: option.splits prod.splits)
qed

lemma replay_floor:
  assumes "scale_ok rs"
  shows "rs_floor rs \<le> rd_rating (rated_of rs (replay rs games) a)"
proof (induction games rule: rev_induct)
  case Nil
  then show ?case using assms by (simp add: rated_of_def new_player_def scale_ok_def)
next
  case (snoc g games)
  then show ?case
    by (auto simp: replay_one_def rated_of_def map_of_rerate_pair Let_def rate_match_def
        split: option.splits prod.splits)
qed

lemma replay_distinct: "distinct (map fst (replay rs games))"
  by (induction games rule: rev_induct)
     (simp_all add: replay_one_def rerate_pair_def Let_def distinct_update split: prod.splits)

lemma replay_only_finished:
  "replay rs (filter (\<lambda>g. mr_state g = Finished) games) = replay rs games"
  by (induction games rule: rev_induct) (simp_all add: replay_one_def)

end
