(* ===== verification/Standing.thy ===== *)
theory Standing
  imports Rating
begin

text \<open>
  Leagues (\<open>src/modes/ranked/leagues.js\<close>) and standings (\<open>standing.js\<close>): the leagues a
  configuration names, which of them a rating and a place on the board are in, and the board
  read from the match log with each player's place and record.
\<close>

section \<open>Leagues\<close>

datatype edge = From real | Top real

record league =
  lg_name :: string
  lg_edge :: edge
  lg_color :: string
  lg_mark :: "int list option"

text \<open>
  A league as a configuration gives it. \<open>None\<close> for a name or colour that is not a string;
  a mark is a list of code points, absent, or not a string; \<open>NonFinite\<close> covers every
  number field that is missing, not a number or not finite.
\<close>

datatype raw_mark = NoMark | NotAString | Mark "int list"

record raw_league =
  rl_name :: "string option"
  rl_from :: js_real
  rl_top :: "js_real option"
  rl_color :: "string option"
  rl_mark :: raw_mark

datatype league_error = NoLeagues | BadName | BadColour | BadMark | MisplacedShare | BadShare
  | NoStart | NotAbove

definition letter :: "char \<Rightarrow> bool" where
  "letter c \<longleftrightarrow> (of_char c :: nat) \<in> {65..90} \<union> {97..122}"

definition hex_digit :: "char \<Rightarrow> bool" where
  "hex_digit c \<longleftrightarrow> (of_char c :: nat) \<in> {48..57} \<union> {65..70} \<union> {97..102}"

definition white :: "int \<Rightarrow> bool" where
  "white c \<longleftrightarrow> c \<in> {9..13} \<union> {32, 160, 5760} \<union> {8192..8202} \<union> {8232, 8233, 8239, 8287, 12288, 65279}"

fun name_ok :: "string \<Rightarrow> bool" where
  "name_ok [] = False"
| "name_ok (c # cs) = (letter c \<and> length cs \<le> 15 \<and> list_all (\<lambda>d. letter d \<or> d = CHR '' '') cs)"

fun colour_ok :: "string \<Rightarrow> bool" where
  "colour_ok [] = False"
| "colour_ok (c # cs) = (c = CHR ''#'' \<and> length cs = 6 \<and> list_all hex_digit cs)"

definition mark_ok :: "int list \<Rightarrow> bool" where
  "mark_ok m \<longleftrightarrow> length m \<in> {1, 2} \<and> list_all (\<lambda>c. \<not> white c) m"

fun not_above :: "js_real \<Rightarrow> js_real \<Rightarrow> bool" where
  "not_above (Finite x) (Finite y) = (x \<le> y)"
| "not_above _ _ = False"

definition parse_edge :: "js_real option \<Rightarrow> bool \<Rightarrow> raw_league \<Rightarrow> league_error + edge" where
  "parse_edge before last_one r =
     (case rl_top r of
        Some share \<Rightarrow>
          if \<not> last_one \<or> before = None then Inl MisplacedShare
          else (case share of
                  Finite t \<Rightarrow> if 0 < t \<and> t < 1 then Inr (Top t) else Inl BadShare
                | NonFinite \<Rightarrow> Inl BadShare)
      | None \<Rightarrow>
          (case rl_from r of
             NonFinite \<Rightarrow> Inl NoStart
           | Finite f \<Rightarrow>
               (case before of
                  Some b \<Rightarrow> if not_above (Finite f) b then Inl NotAbove else Inr (From f)
                | None \<Rightarrow> Inr (From f))))"

definition parse_league :: "js_real option \<Rightarrow> bool \<Rightarrow> raw_league \<Rightarrow> league_error + league" where
  "parse_league before last_one r =
     (case rl_name r of
        None \<Rightarrow> Inl BadName
      | Some name \<Rightarrow>
          if \<not> name_ok name then Inl BadName
          else case rl_color r of
             None \<Rightarrow> Inl BadColour
           | Some color \<Rightarrow>
               if \<not> colour_ok color then Inl BadColour
               else if (case rl_mark r of NoMark \<Rightarrow> False | NotAString \<Rightarrow> True | Mark m \<Rightarrow> \<not> mark_ok m)
               then Inl BadMark
               else case parse_edge before last_one r of
                  Inl e \<Rightarrow> Inl e
                | Inr edge \<Rightarrow>
                    Inr \<lparr>lg_name = name, lg_edge = edge, lg_color = color,
                         lg_mark = (case rl_mark r of Mark m \<Rightarrow> Some m | _ \<Rightarrow> None)\<rparr>)"

fun parse_each :: "js_real option \<Rightarrow> raw_league list \<Rightarrow> league_error + league list" where
  "parse_each before [] = Inr []"
| "parse_each before (r # rs) =
     (case parse_league before (rs = []) r of
        Inl e \<Rightarrow> Inl e
      | Inr l \<Rightarrow> (case parse_each (Some (rl_from r)) rs of Inl e \<Rightarrow> Inl e | Inr ls \<Rightarrow> Inr (l # ls)))"

definition parse_leagues :: "raw_league list option \<Rightarrow> league_error + league list" where
  "parse_leagues input =
     (case input of None \<Rightarrow> Inl NoLeagues | Some [] \<Rightarrow> Inl NoLeagues | Some rs \<Rightarrow> parse_each None rs)"

definition band_of :: "edge \<Rightarrow> real option" where
  "band_of e = (case e of From f \<Rightarrow> Some f | Top _ \<Rightarrow> None)"

definition bands_of :: "league list \<Rightarrow> league list" where
  "bands_of ls = filter (\<lambda>l. band_of (lg_edge l) \<noteq> None) ls"

definition reached :: "real \<Rightarrow> league \<Rightarrow> bool" where
  "reached rating l = (case lg_edge l of From f \<Rightarrow> f \<le> rating | Top _ \<Rightarrow> False)"

definition league_of :: "real \<Rightarrow> league list \<Rightarrow> league" where
  "league_of rating ls =
     (let bands = bands_of ls in
      case find_row (reached rating) (rev bands) of Some l \<Rightarrow> l | None \<Rightarrow> hd bands)"

definition places_in :: "real \<Rightarrow> nat \<Rightarrow> int" where
  "places_in share among = js_round (real among * share)"

text \<open>\<open>place\<close> is \<open>None\<close> for somebody not on the board.\<close>

definition league_at :: "real \<Rightarrow> nat option \<Rightarrow> nat \<Rightarrow> league list \<Rightarrow> league" where
  "league_at rating place among ls =
     (let band = league_of rating ls in
      case (lg_edge (last ls), place) of
        (Top t, Some p) \<Rightarrow>
          if p \<noteq> 0 \<and> int p \<le> places_in t among \<and> 2 \<le> length ls \<and> band = ls ! (length ls - 2)
          then last ls else band
      | _ \<Rightarrow> band)"

fun league_rank :: "league \<Rightarrow> league list \<Rightarrow> int" where
  "league_rank l [] = -1"
| "league_rank l (m # ms) =
     (if m = l then 0 else let i = league_rank l ms in if i = -1 then -1 else i + 1)"

definition next_league :: "real \<Rightarrow> nat option \<Rightarrow> nat \<Rightarrow> league list \<Rightarrow> (string \<times> edge) option" where
  "next_league rating place among ls =
     (let i = nat (league_rank (league_at rating place among ls) ls + 1) in
      if i < length ls then Some (lg_name (ls ! i), lg_edge (ls ! i)) else None)"

section \<open>The board\<close>

record board_row =
  br_account :: int
  br_games :: nat
  br_rating :: int
  br_league :: league

definition standing_key :: "int \<times> rated \<Rightarrow> real \<times> int \<times> int" where
  "standing_key r = (- rd_rating (snd r), - int (rd_games (snd r)), fst r)"

definition by_standing :: "ratings \<Rightarrow> ratings" where
  "by_standing rows = sort_key standing_key (filter (\<lambda>r. 0 < rd_games (snd r)) rows)"

definition shown_row :: "league list \<Rightarrow> nat \<Rightarrow> nat \<Rightarrow> int \<times> rated \<Rightarrow> board_row" where
  "shown_row ls place among r =
     \<lparr>br_account = fst r, br_games = rd_games (snd r),
      br_rating = js_round (rd_rating (snd r)),
      br_league = league_at (of_int (js_round (rd_rating (snd r)))) (Some place) among ls\<rparr>"

definition board_of :: "league list \<Rightarrow> rating_scale \<Rightarrow> match_record list \<Rightarrow> board_row list" where
  "board_of ls rs games =
     (let rows = by_standing (replay rs games)
      in map (\<lambda>(i, r). shown_row ls (i + 1) (length rows) r) (enumerate 0 rows))"

record tally =
  ta_won :: nat
  ta_lost :: nat
  ta_drawn :: nat

definition no_tally :: tally where
  "no_tally = \<lparr>ta_won = 0, ta_lost = 0, ta_drawn = 0\<rparr>"

definition count_for :: "int option \<Rightarrow> int \<Rightarrow> tally \<Rightarrow> tally" where
  "count_for winner a t =
     (case winner of
        None \<Rightarrow> t\<lparr>ta_drawn := ta_drawn t + 1\<rparr>
      | Some w \<Rightarrow> if w = a then t\<lparr>ta_won := ta_won t + 1\<rparr> else t\<lparr>ta_lost := ta_lost t + 1\<rparr>)"

definition tally_one :: "(int \<Rightarrow> tally) \<Rightarrow> match_record \<Rightarrow> int \<Rightarrow> tally" where
  "tally_one m g =
     (if mr_state g \<noteq> Finished then m
      else let m' = m(mr_first g := count_for (mr_winner g) (mr_first g) (m (mr_first g)))
           in m'(mr_second g := count_for (mr_winner g) (mr_second g) (m' (mr_second g))))"

definition tallies :: "match_record list \<Rightarrow> int \<Rightarrow> tally" where
  "tallies games = foldl tally_one (\<lambda>_. no_tally) games"

record standing =
  sg_row :: board_row
  sg_place :: "nat option"
  sg_of :: nat
  sg_tally :: tally

definition standing_of :: "league list \<Rightarrow> rating_scale \<Rightarrow> match_record list \<Rightarrow> int \<Rightarrow> standing" where
  "standing_of ls rs games a =
     (let board = board_of ls rs games in
      case find_row (\<lambda>(i, r). br_account r = a) (enumerate 0 board) of
        Some (i, r) \<Rightarrow> \<lparr>sg_row = r, sg_place = Some (i + 1), sg_of = length board, sg_tally = tallies games a\<rparr>
      | None \<Rightarrow>
          \<lparr>sg_row = \<lparr>br_account = a, br_games = 0, br_rating = js_round (rs_start rs),
                     br_league = league_at (of_int (js_round (rs_start rs))) None (length board) ls\<rparr>,
           sg_place = None, sg_of = length board, sg_tally = tallies games a\<rparr>)"

section \<open>What parsing promises\<close>

definition start_of :: "league \<Rightarrow> real" where
  "start_of l = (case lg_edge l of From f \<Rightarrow> f | Top _ \<Rightarrow> 0)"

text \<open>Bands first, each starting above the one before; then at most one share between 0 and 1.\<close>

fun climbing :: "real option \<Rightarrow> league list \<Rightarrow> bool" where
  "climbing before [] = True"
| "climbing before (l # ls) =
     (case lg_edge l of
        From f \<Rightarrow> (case before of None \<Rightarrow> True | Some b \<Rightarrow> b < f) \<and> climbing (Some f) ls
      | Top t \<Rightarrow> before \<noteq> None \<and> ls = [] \<and> 0 < t \<and> t < 1)"

definition league_ok :: "league \<Rightarrow> bool" where
  "league_ok l \<longleftrightarrow> name_ok (lg_name l) \<and> colour_ok (lg_color l)
     \<and> (\<forall>m. lg_mark l = Some m \<longrightarrow> mark_ok m)"

lemma parse_league_ok:
  assumes "parse_league before last_one r = Inr l"
  shows "league_ok l" "parse_edge before last_one r = Inr (lg_edge l)"
  using assms by (auto simp: parse_league_def league_ok_def split: option.splits if_splits sum.splits raw_mark.splits)

lemma parse_edge_From:
  "parse_edge before last_one r = Inr (From f)
    \<Longrightarrow> rl_from r = Finite f \<and> rl_top r = None \<and> (\<forall>b. before = Some (Finite b) \<longrightarrow> b < f)"
  by (auto simp: parse_edge_def split: option.splits if_splits js_real.splits)

lemma parse_edge_Top:
  "parse_edge before last_one r = Inr (Top t)
    \<Longrightarrow> last_one \<and> before \<noteq> None \<and> 0 < t \<and> t < 1"
  by (auto simp: parse_edge_def split: option.splits if_splits js_real.splits)

lemma parse_each_ok:
  assumes "parse_each before rs = Inr ls" and "before = map_option Finite b"
  shows "climbing b ls \<and> length ls = length rs \<and> list_all league_ok ls"
  using assms
proof (induction before rs arbitrary: ls b rule: parse_each.induct)
  case (2 before r rs)
  from 2(2) obtain l ls' where l: "parse_league before (rs = []) r = Inr l"
    and ls': "parse_each (Some (rl_from r)) rs = Inr ls'" and ls: "ls = l # ls'"
    by (auto split: sum.splits)
  note le = parse_league_ok [OF l]
  show ?case
  proof (cases "lg_edge l")
    case (From f)
    with le(2) parse_edge_From have f: "rl_from r = Finite f" "\<forall>v. before = Some (Finite v) \<longrightarrow> v < f"
      by metis+
    have "climbing (Some f) ls' \<and> length ls' = length rs \<and> list_all league_ok ls'"
      by (rule 2(1) [OF l ls']) (simp add: f(1))
    then show ?thesis using From f(2) 2(3) le(1) ls by (cases b) auto
  next
    case (Top t)
    with le(2) parse_edge_Top have t: "rs = []" "before \<noteq> None" "0 < t" "t < 1" by metis+
    then show ?thesis using Top 2(3) le(1) ls ls' by (cases b) auto
  qed
qed simp

lemma climbing_share:
  "climbing b (ls @ [l, m]) \<Longrightarrow> (\<exists>f. lg_edge l = From f)"
  by (induction b ls rule: climbing.induct) (auto split: edge.splits)

lemma climbing_sorted:
  "climbing b ls \<Longrightarrow> sorted_wrt (<) (map start_of (bands_of ls))
     \<and> (\<forall>l\<in>set (bands_of ls). \<forall>c. b = Some c \<longrightarrow> c < start_of l)"
proof (induction b ls rule: climbing.induct)
  case (2 before l ls)
  show ?case
  proof (cases "lg_edge l")
    case (From f)
    with 2 have ih: "sorted_wrt (<) (map start_of (bands_of ls))" "\<forall>m\<in>set (bands_of ls). f < start_of m"
      by auto
    from From have "bands_of (l # ls) = l # bands_of ls" by (simp add: bands_of_def band_of_def)
    moreover from From have "start_of l = f" by (simp add: start_of_def)
    ultimately show ?thesis using From ih 2(2) by (cases before) force+
  next
    case (Top t)
    with 2(2) have "bands_of (l # ls) = []" by (simp add: bands_of_def band_of_def)
    then show ?thesis by simp
  qed
qed (simp add: bands_of_def)

lemma reached_start: "l \<in> set (bands_of ls) \<Longrightarrow> reached r l \<longleftrightarrow> start_of l \<le> r"
  by (auto simp: bands_of_def band_of_def reached_def start_of_def split: edge.splits)

text \<open>The last row that satisfies a test, in an array read backwards.\<close>

lemma find_row_rev:
  assumes "find_row p (rev xs) = Some x"
  shows "\<exists>i<length xs. xs ! i = x \<and> p x \<and> (\<forall>j<length xs. i < j \<longrightarrow> \<not> p (xs ! j))"
  using assms
proof (induction xs rule: rev_induct)
  case (snoc y xs)
  show ?case
  proof (cases "p y")
    case True
    with snoc.prems have "x = y" by simp
    with True show ?thesis by (intro exI [of _ "length xs"]) auto
  next
    case False
    with snoc.prems have "find_row p (rev xs) = Some x" by simp
    from snoc.IH [OF this] obtain i where "i < length xs" "xs ! i = x" "p x"
      "\<forall>j<length xs. i < j \<longrightarrow> \<not> p (xs ! j)" by blast
    with False show ?thesis
      by (intro exI [of _ i]) (auto simp: nth_append less_Suc_eq)
  qed
qed simp

lemma parse_leagues_ok:
  assumes "parse_leagues input = Inr ls"
  shows "climbing None ls" "ls \<noteq> []" "list_all league_ok ls" "bands_of ls \<noteq> []"
proof -
  from assms obtain r rs where rs: "parse_each None (r # rs) = Inr ls"
    by (auto simp: parse_leagues_def split: option.splits list.splits)
  from parse_each_ok [OF rs, of None] show c: "climbing None ls" "ls \<noteq> []" "list_all league_ok ls" by auto
  then show "bands_of ls \<noteq> []"
    by (cases ls) (auto simp: bands_of_def band_of_def split: edge.splits)
qed

text \<open>The leagues a configuration is accepted with partition the ratings. Every accepted list
  has well-formed leagues, starts with a band, has its bands in strictly rising order and at
  most one share league, the last; and the league of a rating is a band that the rating has
  reached and whose next band it has not, or the first band when it has reached none.\<close>
lemma leagues_partition_ratings:
  assumes "parse_leagues input = Inr ls"
  shows "list_all league_ok ls \<and> climbing None ls \<and> sorted_wrt (<) (map start_of (bands_of ls))
    \<and> (\<exists>i<length (bands_of ls). league_of rating ls = bands_of ls ! i
         \<and> (i = 0 \<or> start_of (bands_of ls ! i) \<le> rating)
         \<and> (\<forall>j<length (bands_of ls). i < j \<longrightarrow> rating < start_of (bands_of ls ! j)))"
proof -
  note ok = parse_leagues_ok [OF assms]
  let ?bs = "bands_of ls"
  have band: "\<exists>i<length ?bs. league_of rating ls = ?bs ! i \<and> (i = 0 \<or> start_of (?bs ! i) \<le> rating)
         \<and> (\<forall>j<length ?bs. i < j \<longrightarrow> rating < start_of (?bs ! j))"
  proof (cases "find_row (reached rating) (rev ?bs)")
    case None
    then have "\<forall>j<length ?bs. rating < start_of (?bs ! j)"
      using reached_start [of _ ls rating] by (fastforce simp: not_le [symmetric])
    with None ok(4) show ?thesis
      by (intro exI [of _ 0]) (simp add: league_of_def Let_def hd_conv_nth del: find_row_None)
  next
    case (Some l)
    from find_row_rev [OF Some] obtain i where i: "i < length ?bs" "?bs ! i = l" "reached rating l"
      "\<forall>j<length ?bs. i < j \<longrightarrow> \<not> reached rating (?bs ! j)" by blast
    with Some show ?thesis
      by (intro exI [of _ i]) (auto simp: league_of_def Let_def not_le [symmetric] reached_start [OF nth_mem])
  qed
  show ?thesis using ok(1,3) climbing_sorted [OF ok(1)] band by blast
qed

definition demo_leagues :: "raw_league list" where
  "demo_leagues =
     [\<lparr>rl_name = Some ''Wooden'', rl_from = Finite 0, rl_top = None, rl_color = Some ''#A0703C'', rl_mark = NoMark\<rparr>,
      \<lparr>rl_name = Some ''Silver'', rl_from = Finite 1050, rl_top = None, rl_color = Some ''#5B8FD9'', rl_mark = NoMark\<rparr>,
      \<lparr>rl_name = Some ''Dragon'', rl_from = NonFinite, rl_top = Some (Finite (1 / 2)), rl_color = Some ''#9B59D0'',
       rl_mark = Mark [9733]\<rparr>]"

definition wooden :: league where
  "wooden = \<lparr>lg_name = ''Wooden'', lg_edge = From 0, lg_color = ''#A0703C'', lg_mark = None\<rparr>"
definition silver :: league where
  "silver = \<lparr>lg_name = ''Silver'', lg_edge = From 1050, lg_color = ''#5B8FD9'', lg_mark = None\<rparr>"
definition dragon :: league where
  "dragon = \<lparr>lg_name = ''Dragon'', lg_edge = Top (1 / 2), lg_color = ''#9B59D0'', lg_mark = Some [9733]\<rparr>"

lemma demo_leagues_parse: "parse_leagues (Some demo_leagues) = Inr [wooden, silver, dragon]"
  by (simp add: demo_leagues_def parse_leagues_def parse_league_def parse_edge_def wooden_def silver_def
      dragon_def letter_def hex_digit_def mark_ok_def white_def)

lemma leagues_partition_ratings_witness:
  "climbing None [wooden, silver, dragon] \<and> league_of 1100 [wooden, silver, dragon] = silver"
  using leagues_partition_ratings [OF demo_leagues_parse, of 1100]
  by (simp add: league_of_def bands_of_def band_of_def reached_def wooden_def silver_def dragon_def)

section \<open>What the board shows\<close>

lemma length_board: "length (board_of ls rs games) = length (by_standing (replay rs games))"
  by (simp add: board_of_def Let_def)

lemma board_nth:
  "i < length (board_of ls rs games) \<Longrightarrow> board_of ls rs games ! i
     = shown_row ls (i + 1) (length (board_of ls rs games)) (by_standing (replay rs games) ! i)"
  by (simp add: board_of_def Let_def nth_enumerate_eq)

lemma board_accounts: "map br_account (board_of ls rs games) = map fst (by_standing (replay rs games))"
  by (rule nth_equalityI) (simp_all add: length_board board_nth shown_row_def)

lemma board_games: "map br_games (board_of ls rs games) = map (rd_games \<circ> snd) (by_standing (replay rs games))"
  by (rule nth_equalityI) (simp_all add: length_board board_nth shown_row_def)

lemma by_standing_distinct: "distinct (map fst m) \<Longrightarrow> distinct (map fst (by_standing m))"
proof -
  assume d: "distinct (map fst m)"
  have "mset (map fst (by_standing m)) = mset (map fst (filter (\<lambda>r. 0 < rd_games (snd r)) m))"
    by (simp add: by_standing_def)
  then show ?thesis using distinct_map_filter [OF d] mset_eq_imp_distinct_iff by blast
qed

lemma by_standing_set: "set (by_standing m) = {r \<in> set m. 0 < rd_games (snd r)}"
  by (auto simp: by_standing_def)

lemma by_standing_sorted:
  "sorted_wrt (\<lambda>r s. rd_rating (snd s) \<le> rd_rating (snd r)) (by_standing m)"
proof -
  have "sorted_wrt (\<lambda>r s. standing_key r \<le> standing_key s) (by_standing m)"
    using sorted_sort_key [of standing_key] by (simp add: by_standing_def sorted_map)
  then show ?thesis
    by (rule sorted_wrt_mono_rel [rotated]) (auto simp: standing_key_def less_eq_prod_def)
qed

lemma board_row_games:
  assumes "well_logged games" "r \<in> set (board_of ls rs games)"
  shows "br_games r = rated_matches (br_account r) games" "0 < rated_matches (br_account r) games"
proof -
  from assms(2) obtain i where i: "i < length (board_of ls rs games)" "board_of ls rs games ! i = r"
    by (auto simp: in_set_conv_nth)
  let ?p = "by_standing (replay rs games) ! i"
  have r: "br_account r = fst ?p" "br_games r = rd_games (snd ?p)"
    using board_nth [OF i(1)] by (simp_all add: i(2) shown_row_def)
  have "?p \<in> set (replay rs games)" "0 < rd_games (snd ?p)"
    using i(1) nth_mem [of i "by_standing (replay rs games)"] by (simp_all add: length_board by_standing_set)
  then have "map_of (replay rs games) (fst ?p) = Some (snd ?p)" "0 < rd_games (snd ?p)"
    using replay_distinct [of rs games] by (simp_all add: map_of_eq_Some_iff)
  with replay_games [OF assms(1), of rs "fst ?p"] r
  show "br_games r = rated_matches (br_account r) games" "0 < rated_matches (br_account r) games"
    by (simp_all add: rated_of_def)
qed

lemma board_has:
  assumes "well_logged games"
  shows "a \<in> br_account ` set (board_of ls rs games) \<longleftrightarrow> 0 < rated_matches a games"
proof
  assume "a \<in> br_account ` set (board_of ls rs games)"
  then show "0 < rated_matches a games" using board_row_games(2) [OF assms] by blast
next
  assume played: "0 < rated_matches a games"
  with replay_games [OF assms, of rs a] obtain x where x: "map_of (replay rs games) a = Some x"
    "rd_games x = rated_matches a games"
    by (auto simp: rated_of_def)
  then have "(a, x) \<in> set (by_standing (replay rs games))"
    using played by (auto simp: by_standing_set dest: map_of_SomeD)
  then have "a \<in> set (map fst (by_standing (replay rs games)))" by force
  then show "a \<in> br_account ` set (board_of ls rs games)"
    by (simp flip: board_accounts [of ls])
qed

lemma tallies_snoc: "tallies (games @ [g]) = tally_one (tallies games) g"
  by (simp add: tallies_def)

lemma tallies_count:
  assumes "well_logged games"
  shows "ta_won (tallies games a) + ta_lost (tallies games a) + ta_drawn (tallies games a)
       = rated_matches a games"
  using assms
proof (induction games rule: rev_induct)
  case Nil
  then show ?case by (simp add: tallies_def no_tally_def rated_matches_def)
next
  case (snoc g games)
  then show ?case
    by (auto simp: tallies_snoc tally_one_def count_for_def Let_def split: option.splits)
qed

text \<open>The board reads the log. For every log of matches between two different players, the
  board shows exactly those with a finished match, once each, with the number of them; ratings
  never rise from one place to the next; and wherever somebody stands, their wins, losses and
  draws add up to their matches.\<close>
lemma board_reads_the_log:
  assumes "well_logged games"
  shows "distinct (map br_account (board_of ls rs games))
    \<and> br_account ` set (board_of ls rs games) = {a. 0 < rated_matches a games}
    \<and> (\<forall>r\<in>set (board_of ls rs games). br_games r = rated_matches (br_account r) games)
    \<and> sorted_wrt (\<lambda>r s. br_rating s \<le> br_rating r) (board_of ls rs games)
    \<and> (let s = standing_of ls rs games a; t = sg_tally s in
         ta_won t + ta_lost t + ta_drawn t = br_games (sg_row s)
       \<and> br_account (sg_row s) = a
       \<and> (case sg_place s of Some p \<Rightarrow> 0 < p \<and> p \<le> sg_of s \<and> board_of ls rs games ! (p - 1) = sg_row s
          | None \<Rightarrow> rated_matches a games = 0))"
proof -
  let ?b = "board_of ls rs games"
  have sorted: "sorted_wrt (\<lambda>r s. br_rating s \<le> br_rating r) ?b"
    using by_standing_sorted [of "replay rs games"]
    by (auto simp: sorted_wrt_iff_nth_less length_board board_nth shown_row_def intro!: js_round_mono)
  have stand: "let s = standing_of ls rs games a; t = sg_tally s in
         ta_won t + ta_lost t + ta_drawn t = br_games (sg_row s) \<and> br_account (sg_row s) = a
       \<and> (case sg_place s of Some p \<Rightarrow> 0 < p \<and> p \<le> sg_of s \<and> ?b ! (p - 1) = sg_row s
          | None \<Rightarrow> rated_matches a games = 0)"
  proof (cases "find_row (\<lambda>(i, r). br_account r = a) (enumerate 0 ?b)")
    case None
    then have "\<forall>r\<in>set ?b. br_account r \<noteq> a"
      by (fastforce simp: in_set_conv_nth [of _ ?b] in_set_enumerate_eq)
    then have "rated_matches a games = 0" using board_has [OF assms, of a ls rs] by auto
    with None tallies_count [OF assms, of a] show ?thesis
      by (simp add: standing_of_def Let_def del: find_row_None)
  next
    case (Some ir)
    then obtain i r where ir: "find_row (\<lambda>(i, r). br_account r = a) (enumerate 0 ?b) = Some (i, r)"
      by (cases ir) simp
    from find_row_Some [OF this] have r: "i < length ?b" "?b ! i = r" "br_account r = a"
      by (auto simp: in_set_enumerate_eq)
    then have "br_games r = rated_matches a games"
      using board_row_games(1) [OF assms, of r ls rs] nth_mem by fastforce
    with ir r tallies_count [OF assms, of a] show ?thesis
      by (simp add: standing_of_def Let_def)
  qed
  show ?thesis
    using sorted stand board_has [OF assms, of _ ls rs] board_row_games(1) [OF assms]
      by_standing_distinct [OF replay_distinct [of rs games]]
    by (auto simp: board_accounts)
qed

definition demo_game :: match_record where
  "demo_game = \<lparr>mr_race = 0, mr_state = Finished, mr_first = 7, mr_second = 9, mr_winner = Some 9,
     mr_reason = Faster, mr_blame = None, mr_forfeit = None, mr_paired_at = 0, mr_decided_at = 60000\<rparr>"

definition demo_scale :: rating_scale where
  "demo_scale = \<lparr>rs_start = 1000, rs_k = 40, rs_floor = 100\<rparr>"

lemma demo_replay: "replay demo_scale [demo_game]
  = [(7, \<lparr>rd_rating = 980, rd_games = 1\<rparr>), (9, \<lparr>rd_rating = 1020, rd_games = 1\<rparr>)]"
proof -
  have "rating_step demo_scale 1000 1000 0 = -20"
    using js_round_of_int [of "-20"] by (simp add: rating_step_def demo_scale_def)
  then show ?thesis
    by (simp add: replay_def replay_one_def demo_game_def rerate_pair_def rated_of_def new_player_def
        demo_scale_def rate_match_def score_of_def)
qed

lemma demo_board:
  "map br_account (board_of [wooden, silver, dragon] demo_scale [demo_game]) = [9, 7]"
  by (simp add: board_accounts demo_replay by_standing_def standing_key_def)

lemma board_reads_the_log_witness:
  "map br_account (board_of [wooden, silver, dragon] demo_scale [demo_game]) = [9, 7]
   \<and> (let s = standing_of [wooden, silver, dragon] demo_scale [demo_game] 9; t = sg_tally s in
        ta_won t + ta_lost t + ta_drawn t = br_games (sg_row s) \<and> br_account (sg_row s) = 9)"
proof -
  have "well_logged [demo_game]" by (simp add: well_logged_def demo_game_def)
  from board_reads_the_log [OF this, of "[wooden, silver, dragon]" demo_scale 9] demo_board
  show ?thesis by (simp add: Let_def)
qed

text \<open>The top league stays scarce: where the last league is a share of the board, no more
  players of the board are in it than its share of the players, rounded, and whoever is in it
  stands among that many first places.\<close>
theorem share_league_is_scarce:
  assumes "parse_leagues input = Inr ls" and "lg_edge (last ls) = Top t"
  shows "int (length (filter (\<lambda>r. br_league r = last ls) (board_of ls rs games)))
       \<le> max 0 (places_in t (length (board_of ls rs games)))"
proof -
  let ?b = "board_of ls rs games"
  let ?n = "nat (max 0 (places_in t (length ?b)))"
  note ok = parse_leagues_ok [OF assms(1)]
  have band: "league_of x ls \<noteq> last ls" for x
  proof -
    have "league_of x ls \<in> set (bands_of ls)"
      using ok(4) by (auto simp: league_of_def Let_def split: option.splits dest: find_row_Some)
    then show ?thesis using assms(2) by (auto simp: bands_of_def band_of_def)
  qed
  have place: "i < ?n" if "i < length ?b" "br_league (?b ! i) = last ls" for i
    using that band assms(2)
    by (auto simp: board_nth shown_row_def league_at_def Let_def split: if_splits)
  have "length (filter (\<lambda>r. br_league r = last ls) ?b)
      = card {i. i < length ?b \<and> br_league (?b ! i) = last ls}"
    by (rule length_filter_conv_card)
  also have "\<dots> \<le> card {..<?n}"
    by (rule card_mono) (auto simp: place)
  finally show ?thesis by simp
qed

lemma share_league_is_scarce_witness:
  "int (length (filter (\<lambda>r. br_league r = dragon) (board_of [wooden, silver, dragon] demo_scale [demo_game]))) \<le> 1"
proof -
  have "length (board_of [wooden, silver, dragon] demo_scale [demo_game]) = 2"
    using demo_board by (metis length_map length_Cons list.size(3) numeral_2_eq_2)
  then show ?thesis
    using share_league_is_scarce [OF demo_leagues_parse, of "1 / 2" demo_scale "[demo_game]"]
      js_round_of_int [of 1]
    by (simp add: dragon_def places_in_def)
qed

end
