(* ===== verification/Ranked.thy ===== *)
theory Ranked
  imports Queue Standing
begin

text \<open>
  The ranked service (\<open>src/modes/ranked/index.js\<close>), which wires the queue, the races, the
  ratings and the match log together. An event of the source that runs without awaiting is one
  function here; where it awaits (the start of a race, the append of a record) the part before
  and the part after are separate steps, so that other events come between. The log's answer
  (\<open>records.append\<close>) and the failure of a start are arguments of those steps. What players are
  told (\<open>tell\<close>) is output only and is left out, and so is the race spec, which the service
  only hands on. A race id is a number never given before, for \<open>randomUUID\<close>.
\<close>

section \<open>State\<close>

record race_entry =
  re_race :: race
  re_countdown :: int
  re_first_joined :: int
  re_second_joined :: int

datatype log_write = Keep match_record | WriteHeld

record service =
  sv_queue :: ranked_queue
  sv_ratings :: ratings
  sv_races :: "(nat \<times> race_entry) list"
  sv_race_of :: "int \<Rightarrow> nat option"
  sv_next :: nat
  sv_writes :: "log_write list"
  sv_unwritten :: "match_record list"
  sv_log :: "match_record list"

record service_config =
  sc_scale :: rating_scale
  sc_rules :: race_rules
  sc_countdown :: int

text \<open>\<open>load\<close>: what the service starts from is the log and nothing else.\<close>

definition load :: "service_config \<Rightarrow> match_record list \<Rightarrow> nat \<Rightarrow> service" where
  "load c games next_id =
     \<lparr>sv_queue = empty_queue, sv_ratings = replay (sc_scale c) games, sv_races = [],
      sv_race_of = (\<lambda>_. None), sv_next = next_id, sv_writes = [], sv_unwritten = [], sv_log = games\<rparr>"

section \<open>Entry port\<close>

datatype service_join = InRace | Answered join_answer

definition service_join :: "service_config \<Rightarrow> int \<Rightarrow> int \<Rightarrow> service \<Rightarrow> service_join \<times> service" where
  "service_join c a now s =
     (if sv_race_of s a \<noteq> None then (InRace, s)
      else let (answer, q) = join a (rd_rating (rated_of (sc_scale c) (sv_ratings s) a)) now (sv_queue s)
           in (Answered answer, s\<lparr>sv_queue := q\<rparr>))"

definition service_leave :: "int \<Rightarrow> service \<Rightarrow> bool \<times> service" where
  "service_leave a s = (let (found, q) = leave a (sv_queue s) in (found, s\<lparr>sv_queue := q\<rparr>))"

definition service_ready :: "int \<Rightarrow> bool \<Rightarrow> service \<Rightarrow> bool \<times> service" where
  "service_ready a yes s = (let (found, q) = set_ready a yes (sv_queue s) in (found, s\<lparr>sv_queue := q\<rparr>))"

section \<open>Results\<close>

definition record_of :: "nat \<Rightarrow> race \<Rightarrow> race_result \<Rightarrow> match_record" where
  "record_of i r res =
     \<lparr>mr_race = i, mr_state = rr_state res, mr_first = rc_first r, mr_second = rc_second r,
      mr_winner = rr_winner res, mr_reason = rr_reason res, mr_blame = rr_blame res,
      mr_forfeit = rr_forfeit res, mr_paired_at = rc_paired_at r, mr_decided_at = rr_at res\<rparr>"

definition rate_result :: "service_config \<Rightarrow> race \<Rightarrow> race_result \<Rightarrow> ratings \<Rightarrow> ratings" where
  "rate_result c r res m =
     (if rr_state res = Finished then rerate_pair (sc_scale c) m (rc_first r) (rc_second r) (rr_winner res)
      else m)"

fun when_some :: "'a option \<Rightarrow> ('a \<Rightarrow> 's \<Rightarrow> 's) \<Rightarrow> 's \<Rightarrow> 's" where
  "when_some (Some x) f s = f x s"
| "when_some None f s = s"

definition penalties :: "race \<Rightarrow> race_result \<Rightarrow> int \<Rightarrow> ranked_queue \<Rightarrow> ranked_queue" where
  "penalties r res now q =
     (let q1 = (if rr_state res = Cancelled then when_some (rr_blame res) (\<lambda>a. penalise a now) q else q);
          q2 = when_some (rr_forfeit res) (\<lambda>a. penalise a now) q1
      in if rr_state res = Finished
         then foldl (\<lambda>q a. if Some a = rr_forfeit res then q else forgive a q) q2 (ids r) else q2)"

definition never_loaded :: "race \<Rightarrow> bool" where
  "never_loaded r \<longleftrightarrow> list_all (\<lambda>e. te_type e \<noteq> WasLoading) (rc_timeline r)"

definition queued_at :: "race_entry \<Rightarrow> int \<Rightarrow> int" where
  "queued_at e a = (if a = rc_first (re_race e) then re_first_joined e else re_second_joined e)"

definition goes_back :: "race \<Rightarrow> race_result \<Rightarrow> int \<Rightarrow> bool" where
  "goes_back r res a \<longleftrightarrow> rr_state res = Cancelled \<and> Some a \<noteq> rr_blame res \<and> never_loaded r"

definition requeue_one :: "service_config \<Rightarrow> ratings \<Rightarrow> race_entry \<Rightarrow> race_result \<Rightarrow> int \<Rightarrow> ranked_queue \<Rightarrow> ranked_queue" where
  "requeue_one c m e res a q =
     (if goes_back (re_race e) res a
      then snd (join a (rd_rating (rated_of (sc_scale c) m a)) (queued_at e a) q) else q)"

definition requeue :: "service_config \<Rightarrow> ratings \<Rightarrow> race_entry \<Rightarrow> race_result \<Rightarrow> ranked_queue \<Rightarrow> ranked_queue" where
  "requeue c m e res q = foldl (\<lambda>q a. requeue_one c m e res a q) q (ids (re_race e))"

definition settle_result :: "service_config \<Rightarrow> nat \<Rightarrow> race_entry \<Rightarrow> race_result \<Rightarrow> int \<Rightarrow> service \<Rightarrow> service" where
  "settle_result c i e res now s =
     (let r = re_race e;
          m = rate_result c r res (sv_ratings s) in
      s\<lparr>sv_races := AList.delete i (sv_races s),
        sv_race_of := (sv_race_of s)(rc_first r := None, rc_second r := None),
        sv_ratings := m,
        sv_queue := requeue c m e res (penalties r res now (sv_queue s)),
        sv_writes := sv_writes s @ [Keep (record_of i r res)]\<rparr>)"

definition settle :: "service_config \<Rightarrow> nat \<Rightarrow> int \<Rightarrow> service \<Rightarrow> service" where
  "settle c i now s =
     (case map_of (sv_races s) i of
        None \<Rightarrow> s
      | Some e \<Rightarrow> if decided (re_race e) then when_some (rc_result (re_race e)) (\<lambda>res. settle_result c i e res now) s
                  else s)"

section \<open>Time\<close>

definition pair_two :: "service_config \<Rightarrow> int \<Rightarrow> queue_entry \<times> queue_entry \<Rightarrow> service \<Rightarrow> service" where
  "pair_two c now p s =
     (case (p, new_race [qe_account (fst p), qe_account (snd p)] (sc_rules c) now) of
        ((first, second), Inr r) \<Rightarrow>
          s\<lparr>sv_races := AList.update (sv_next s)
                 \<lparr>re_race = r, re_countdown = now + sc_countdown c,
                  re_first_joined = qe_joined first, re_second_joined = qe_joined second\<rparr> (sv_races s),
            sv_race_of := (sv_race_of s)(qe_account first \<mapsto> sv_next s, qe_account second \<mapsto> sv_next s),
            sv_next := sv_next s + 1,
            sv_queue := remember_opponents (qe_account first) (qe_account second) (sv_queue s)\<rparr>
      | (_, Inl _) \<Rightarrow> s)"

definition pair_everybody :: "service_config \<Rightarrow> int \<Rightarrow> service \<Rightarrow> service" where
  "pair_everybody c now s =
     (let (pairs, q) = pair_up now (sv_queue s)
      in foldl (\<lambda>s p. pair_two c now p s) (s\<lparr>sv_queue := q\<rparr>) pairs)"

definition put_race :: "nat \<Rightarrow> race \<Rightarrow> service \<Rightarrow> service" where
  "put_race i r s =
     (case map_of (sv_races s) i of
        None \<Rightarrow> s
      | Some e \<Rightarrow> s\<lparr>sv_races := AList.update i (e\<lparr>re_race := r\<rparr>) (sv_races s)\<rparr>)"

text \<open>
  One race of \<open>tick\<close>. The race that has counted down is put into loading and its start is
  awaited; if that fails the race is void, whatever has happened to it since.
\<close>

definition tick_race :: "service_config \<Rightarrow> nat \<Rightarrow> int \<Rightarrow> service \<Rightarrow> service" where
  "tick_race c i now s =
     (case map_of (sv_races s) i of
        None \<Rightarrow> s
      | Some e \<Rightarrow>
          if rc_state (re_race e) = Paired \<and> re_countdown e \<le> now
          then put_race i (loading now (re_race e)) s
          else settle c i now (put_race i (tick now (re_race e)) s))"

definition start_failed :: "service_config \<Rightarrow> nat \<Rightarrow> int \<Rightarrow> service \<Rightarrow> service" where
  "start_failed c i now s =
     (case map_of (sv_races s) i of
        None \<Rightarrow> s
      | Some e \<Rightarrow> settle c i now (put_race i (voided now ''start_failed'' (re_race e)) s))"

definition stop_race :: "service_config \<Rightarrow> nat \<Rightarrow> int \<Rightarrow> service \<Rightarrow> service" where
  "stop_race c i now s =
     (case map_of (sv_races s) i of
        None \<Rightarrow> s
      | Some e \<Rightarrow> settle c i now (put_race i (voided now ''server_stopped'' (re_race e)) s))"

section \<open>Run events\<close>

definition race_event :: "int \<Rightarrow> string \<Rightarrow> string \<Rightarrow> int \<Rightarrow> race \<Rightarrow> race option" where
  "race_event a type detail now r =
     (let kept = (\<lambda>res. case res of Inr r' \<Rightarrow> Some r' | Inl (_::race_error) \<Rightarrow> None) in
      if type = ''started'' then kept (started a now r)
      else if type = ''progress'' then kept (remark (Some a) ''progress'' detail now r)
      else if type = ''finished'' then kept (finished a now r)
      else if type = ''draw''
      then (case offer_draw a now r of Inr (_, r') \<Rightarrow> Some r' | Inl _ \<Rightarrow> None)
      else if type \<in> {''left'', ''dropped'', ''failed''} then kept (lost a now type r)
      else None)"

definition run_event :: "service_config \<Rightarrow> int \<Rightarrow> string \<Rightarrow> string \<Rightarrow> int \<Rightarrow> service \<Rightarrow> service" where
  "run_event c a type detail now s =
     (case sv_race_of s a of
        None \<Rightarrow> s
      | Some i \<Rightarrow>
          (case map_of (sv_races s) i of
             None \<Rightarrow> s
           | Some e \<Rightarrow>
               (case race_event a type detail now (re_race e) of
                  None \<Rightarrow> s
                | Some r \<Rightarrow> settle c i now (put_race i r s))))"

section \<open>The log\<close>

text \<open>
  Writes of the log run one after the other in the order they were asked for. A record goes to
  the log if nothing is held before it and the log takes it, and is held otherwise; held
  records are tried again oldest first for as long as the log takes them.
\<close>

fun write_held :: "bool list \<Rightarrow> match_record list \<Rightarrow> match_record list \<Rightarrow> match_record list \<times> match_record list" where
  "write_held (True # answers) (g # held) games = write_held answers held (games @ [g])"
| "write_held _ held games = (held, games)"

fun run_write :: "bool list \<Rightarrow> log_write \<Rightarrow> match_record list \<Rightarrow> match_record list
                    \<Rightarrow> match_record list \<times> match_record list" where
  "run_write answers (Keep g) held games =
     (if held \<noteq> [] then (held @ [g], games)
      else if answers \<noteq> [] \<and> hd answers then (held, games @ [g]) else (held @ [g], games))"
| "run_write answers WriteHeld held games = write_held answers held games"

definition next_write :: "bool list \<Rightarrow> service \<Rightarrow> service" where
  "next_write answers s =
     (case sv_writes s of
        [] \<Rightarrow> s
      | w # ws \<Rightarrow>
          let (held, games) = run_write answers w (sv_unwritten s) (sv_log s)
          in s\<lparr>sv_writes := ws, sv_unwritten := held, sv_log := games\<rparr>)"

definition ask_held :: "service \<Rightarrow> service" where
  "ask_held s = (if sv_unwritten s = [] then s else s\<lparr>sv_writes := sv_writes s @ [WriteHeld]\<rparr>)"

section \<open>Steps and the invariant\<close>

inductive service_step :: "service_config \<Rightarrow> service \<Rightarrow> service \<Rightarrow> bool" for c where
  sstep_join: "service_step c s (snd (service_join c a now s))"
| sstep_leave: "service_step c s (snd (service_leave a s))"
| sstep_ready: "service_step c s (snd (service_ready a yes s))"
| sstep_pair: "service_step c s (pair_everybody c now s)"
| sstep_tick: "service_step c s (tick_race c i now s)"
| sstep_failed: "service_step c s (start_failed c i now s)"
| sstep_stop: "service_step c s (stop_race c i now s)"
| sstep_event: "service_step c s (run_event c a type detail now s)"
| sstep_write: "service_step c s (next_write answers s)"
| sstep_held: "service_step c s (ask_held s)"

fun kept_of :: "log_write \<Rightarrow> match_record list" where
  "kept_of (Keep g) = [g]"
| "kept_of WriteHeld = []"

text \<open>Every match decided so far, in the order they were: in the log, held, or asked to be written.\<close>

definition decided_matches :: "service \<Rightarrow> match_record list" where
  "decided_matches s = sv_log s @ sv_unwritten s @ concat (map kept_of (sv_writes s))"

definition races_ok :: "nat set \<Rightarrow> service \<Rightarrow> bool" where
  "races_ok X s \<longleftrightarrow> distinct (map fst (sv_races s))
     \<and> (\<forall>i e. map_of (sv_races s) i = Some e \<longrightarrow> i < sv_next s \<and> race_ok (re_race e)
          \<and> (i \<notin> X \<longrightarrow> \<not> decided (re_race e)))"

definition seats_ok :: "service \<Rightarrow> bool" where
  "seats_ok s \<longleftrightarrow> (\<forall>a i. sv_race_of s a = Some i
     \<longleftrightarrow> (\<exists>e. map_of (sv_races s) i = Some e \<and> a \<in> set (ids (re_race e))))"

definition waiting_free :: "service \<Rightarrow> bool" where
  "waiting_free s \<longleftrightarrow> queue_ok (sv_queue s)
     \<and> (\<forall>e\<in>set (q_entries (sv_queue s)). sv_race_of s (qe_account e) = None)"

definition cooled :: "ranked_queue \<Rightarrow> int \<Rightarrow> int \<Rightarrow> bool" where
  "cooled q a since \<longleftrightarrow> (\<forall>c. q_cooling q a = Some c \<longrightarrow> cd_until c \<le> since)"

definition cooldowns_ok :: "service \<Rightarrow> bool" where
  "cooldowns_ok s \<longleftrightarrow>
     (\<forall>e\<in>set (q_entries (sv_queue s)). cooled (sv_queue s) (qe_account e) (qe_joined e))
   \<and> (\<forall>i e. map_of (sv_races s) i = Some e
        \<longrightarrow> (\<forall>a\<in>set (ids (re_race e)). cooled (sv_queue s) a (queued_at e a)))"

definition log_ok :: "service_config \<Rightarrow> nat \<Rightarrow> service \<Rightarrow> bool" where
  "log_ok c base s \<longleftrightarrow>
     sv_ratings s = replay (sc_scale c) (decided_matches s) \<and> well_logged (decided_matches s)
   \<and> base \<le> sv_next s \<and> distinct (map mr_race (decided_matches s))
   \<and> (\<forall>g\<in>set (decided_matches s). mr_race g < sv_next s \<and> map_of (sv_races s) (mr_race g) = None)
   \<and> (\<forall>i. base \<le> i \<and> i < sv_next s \<longrightarrow> map_of (sv_races s) i \<noteq> None \<or> i \<in> mr_race ` set (decided_matches s))"

definition service_ok :: "service_config \<Rightarrow> nat \<Rightarrow> nat set \<Rightarrow> service \<Rightarrow> bool" where
  "service_ok c base X s \<longleftrightarrow>
     races_ok X s \<and> seats_ok s \<and> waiting_free s \<and> cooldowns_ok s \<and> log_ok c base s"

lemmas service_parts = service_ok_def races_ok_def seats_ok_def waiting_free_def cooldowns_ok_def log_ok_def

section \<open>What the queue's operations leave alone\<close>

lemma join_cooled:
  assumes "cooled q a since"
  shows "cooled (snd (join b r now q)) a since"
  using assms by (auto simp: cooled_def join_def split: option.splits)

lemma join_entries:
  assumes "e \<in> set (q_entries (snd (join a r now q)))"
  shows "(\<exists>f\<in>set (q_entries q). qe_account f = qe_account e \<and> qe_joined f = qe_joined e)
       \<or> (qe_account e = a \<and> qe_joined e = now \<and> cooled q a now \<and> \<not> qe_ready e)"
proof -
  have rerated: "\<exists>f\<in>set es. qe_account f = qe_account e \<and> qe_joined f = qe_joined e"
    if "e \<in> set (rerate a (qe_rating_update (\<lambda>_. r)) es)" for es
    using that by (induction es) (auto split: if_splits)
  show ?thesis
    using assms rerated
    by (auto simp: join_def enqueue_def Let_def cooled_def split: option.splits if_splits)
qed

lemma join_cooling [simp]: "q_cooling (snd (join a r now q)) = q_cooling q"
  by (simp add: join_def split: option.splits)

lemma penalise_cooled:
  "cooled q a since \<Longrightarrow> a \<noteq> b \<Longrightarrow> cooled (penalise b now q) a since"
  by (auto simp: cooled_def penalise_cooling still_remembered_def split: option.splits if_splits)

lemma forgive_cooled: "cooled q a since \<Longrightarrow> cooled (forgive b q) a since"
  by (simp add: cooled_def forgive_def)

lemma penalise_entries [simp]: "q_entries (penalise a now q) = q_entries q"
  by (simp add: penalise_def Let_def)

lemma forgive_entries [simp]: "q_entries (forgive a q) = q_entries q"
  by (simp add: forgive_def)

lemma remember_entries [simp]:
  "q_entries (remember_opponents a b q) = q_entries q" "q_cooling (remember_opponents a b q) = q_cooling q"
  by (simp_all add: remember_opponents_def)

lemma forgive_ok: "queue_ok q \<Longrightarrow> queue_ok (forgive a q)"
  by (rule queue_step_ok [OF step_forgive])


lemma penalties_entries [simp]: "q_entries (penalties r res now q) = q_entries q"
  by (cases "rr_blame res"; cases "rr_forfeit res") (simp_all add: penalties_def ids_def Let_def)

lemma penalties_ok: "queue_ok q \<Longrightarrow> queue_ok (penalties r res now q)"
  by (cases "rr_blame res"; cases "rr_forfeit res")
     (simp_all add: penalties_def ids_def Let_def penalise_ok forgive_ok)

lemma penalties_cooled:
  assumes "cooled q a since" "rr_blame res \<noteq> Some a" "rr_forfeit res \<noteq> Some a"
  shows "cooled (penalties r res now q) a since"
  using assms
  by (cases "rr_blame res"; cases "rr_forfeit res")
     (simp_all add: penalties_def ids_def Let_def penalise_cooled forgive_cooled)

section \<open>Settling keeps the invariant\<close>

lemma forfeit_in:
  "forfeit_of r p = Some q \<Longrightarrow> q = p"
  by (auto simp: forfeit_of_def split: option.splits if_splits)

lemma result_names:
  assumes ok: "race_ok r" and dec: "decided r" and res: "rc_result r = Some res"
  shows "rr_winner res = Some p \<Longrightarrow> p \<in> set (ids r)" "rr_blame res = Some p \<Longrightarrow> p \<in> set (ids r)"
    "rr_forfeit res = Some p \<Longrightarrow> p \<in> set (ids r)"
proof -
  have j: "just r res" using just_result [OF ok dec] res by simp
  have opp: "w \<in> set (ids r) \<Longrightarrow> opponent_of r w \<in> set (ids r)" for w
    by (rule opponent_facts(1) [OF race_okD(1) [OF ok]])
  consider "rc_state r = Finished" | "rc_state r = Cancelled" | "rc_state r = Void"
    using dec by (auto simp: decided_def)
  then have "(rr_winner res = Some p \<longrightarrow> p \<in> set (ids r)) \<and> (rr_blame res = Some p \<longrightarrow> p \<in> set (ids r))
    \<and> (rr_forfeit res = Some p \<longrightarrow> p \<in> set (ids r))"
  proof cases
    case 1
    with j have "finished_justly r res" by (simp add: just_def)
    then show ?thesis using opp by (auto simp: finished_justly_def dest!: forfeit_in forfeit_in [OF sym] split: option.splits)
  next
    case 2
    with j have "cancelled_justly r res" by (simp add: just_def)
    then show ?thesis by (auto simp: cancelled_justly_def)
  next
    case 3
    with j have "voided_justly r res" by (simp add: just_def)
    then show ?thesis by (auto simp: voided_justly_def)
  qed
  then show "rr_winner res = Some p \<Longrightarrow> p \<in> set (ids r)" "rr_blame res = Some p \<Longrightarrow> p \<in> set (ids r)"
    "rr_forfeit res = Some p \<Longrightarrow> p \<in> set (ids r)" by simp_all
qed

lemma requeue_ok: "queue_ok q \<Longrightarrow> queue_ok (requeue c m e res q)"
  by (simp add: requeue_def requeue_one_def ids_def join_ok)

lemma requeue_cooling [simp]: "q_cooling (requeue c m e res q) = q_cooling q"
  by (simp add: requeue_def requeue_one_def ids_def)

lemma requeue_cooled [simp]: "cooled (requeue c m e res q) a since = cooled q a since"
  by (simp add: cooled_def)

lemma requeue_entries:
  assumes "f \<in> set (q_entries (requeue c m e res q))"
  shows "(\<exists>g\<in>set (q_entries q). qe_account g = qe_account f \<and> qe_joined g = qe_joined f)
       \<or> (qe_account f \<in> set (ids (re_race e)) \<and> qe_joined f = queued_at e (qe_account f)
            \<and> cooled q (qe_account f) (qe_joined f))"
proof -
  have one: "(\<exists>g\<in>set (q_entries q). qe_account g = qe_account f \<and> qe_joined g = qe_joined f)
       \<or> (qe_account f = a \<and> qe_joined f = queued_at e a \<and> cooled q a (queued_at e a))"
    if "f \<in> set (q_entries (requeue_one c m e res a q))" for a q f
    using that join_entries [of f a] by (auto simp: requeue_one_def split: if_splits)
  define q1 where "q1 = requeue_one c m e res (rc_first (re_race e)) q"
  have cooling: "cooled q1 = cooled q"
    by (simp add: q1_def requeue_one_def cooled_def fun_eq_iff)
  have "f \<in> set (q_entries (requeue_one c m e res (rc_second (re_race e)) q1))"
    using assms by (simp add: requeue_def ids_def q1_def)
  from one [OF this] consider g where "g \<in> set (q_entries q1)" "qe_account g = qe_account f" "qe_joined g = qe_joined f"
    | "qe_account f = rc_second (re_race e)" "qe_joined f = queued_at e (rc_second (re_race e))"
      "cooled q1 (rc_second (re_race e)) (queued_at e (rc_second (re_race e)))" by blast
  then show ?thesis
  proof cases
    case (1 g)
    from one [OF 1(1) [unfolded q1_def]] 1(2,3) show ?thesis by (auto simp: ids_def)
  next
    case 2
    then show ?thesis using cooling by (simp add: ids_def)
  qed
qed

lemma settle_result_ok:
  assumes ok: "service_ok c base {i} s" and e: "map_of (sv_races s) i = Some e"
    and dec: "decided (re_race e)" and res: "rc_result (re_race e) = Some res"
  shows "service_ok c base {} (settle_result c i e res now s)"
proof -
  let ?r = "re_race e" and ?s = "settle_result c i e res now s"
  have races: "races_ok {i} s" and seats: "seats_ok s" and free: "waiting_free s" and cool: "cooldowns_ok s"
    and logged: "log_ok c base s" using ok by (simp_all add: service_ok_def)
  have rok: "race_ok ?r" using races e by (simp add: races_ok_def)
  note names = result_names [OF rok dec res]
  have seat: "sv_race_of s a = Some i" if "a \<in> set (ids ?r)" for a
    using seats e that by (auto simp: seats_ok_def)
  have apart: "a \<notin> set (ids (re_race f))" if "map_of (sv_races s) j = Some f" "j \<noteq> i" "a \<in> set (ids ?r)" for a j f
    using seat [OF that(3)] seats that(1,2) unfolding seats_ok_def by (metis option.inject)
  have away: "qe_account f \<notin> set (ids ?r)" if "f \<in> set (q_entries (sv_queue s))" for f
    using free seat that by (fastforce simp: waiting_free_def)
  have races': "sv_races ?s = AList.delete i (sv_races s)"
    and race_of': "sv_race_of ?s = (sv_race_of s)(rc_first ?r := None, rc_second ?r := None)"
    and next': "sv_next ?s = sv_next s"
    and queue': "sv_queue ?s = requeue c (rate_result c ?r res (sv_ratings s)) e res (penalties ?r res now (sv_queue s))"
    by (simp_all add: settle_result_def Let_def)
  have decided': "decided_matches ?s = decided_matches s @ [record_of i ?r res]"
    by (simp add: decided_matches_def settle_result_def Let_def)
  have cooled': "cooled (sv_queue ?s) a since" if "cooled (sv_queue s) a since" "a \<notin> set (ids ?r)" for a since
    using that names by (auto simp: queue' intro!: penalties_cooled)
  have "races_ok {} ?s"
    using races by (auto simp: races_ok_def races' next' distinct_delete delete_conv')
  moreover have "seats_ok ?s"
    using seats apart e unfolding seats_ok_def races' race_of' delete_conv'
    by (auto simp: ids_def)
  moreover have "waiting_free ?s"
    unfolding waiting_free_def
  proof
    show "queue_ok (sv_queue ?s)" using free by (simp add: queue' waiting_free_def requeue_ok penalties_ok)
    show "\<forall>f\<in>set (q_entries (sv_queue ?s)). sv_race_of ?s (qe_account f) = None"
    proof
      fix f assume "f \<in> set (q_entries (sv_queue ?s))"
      from requeue_entries [OF this [unfolded queue']] free
      show "sv_race_of ?s (qe_account f) = None"
        by (auto simp: race_of' waiting_free_def ids_def)
    qed
  qed
  moreover have "cooldowns_ok ?s"
    unfolding cooldowns_ok_def
  proof (intro conjI ballI allI impI)
    fix f assume "f \<in> set (q_entries (sv_queue ?s))"
    from requeue_entries [OF this [unfolded queue']]
    consider g where "g \<in> set (q_entries (sv_queue s))" "qe_account g = qe_account f" "qe_joined g = qe_joined f"
      | "cooled (penalties ?r res now (sv_queue s)) (qe_account f) (qe_joined f)" by auto
    then show "cooled (sv_queue ?s) (qe_account f) (qe_joined f)"
    proof cases
      case (1 g)
      then show ?thesis using cool away [OF 1(1)] by (auto simp: cooldowns_ok_def intro!: cooled')
    next
      case 2
      then show ?thesis by (simp add: queue')
    qed
  next
    fix j f a assume "map_of (sv_races ?s) j = Some f" "a \<in> set (ids (re_race f))"
    then have j: "map_of (sv_races s) j = Some f" "j \<noteq> i"
      by (auto simp: races' delete_conv' split: if_splits)
    then show "cooled (sv_queue ?s) a (queued_at f a)"
      using cool apart \<open>a \<in> set (ids (re_race f))\<close> by (auto simp: cooldowns_ok_def intro!: cooled')
  qed
  moreover have "log_ok c base ?s"
  proof -
    have "replay_one (sc_scale c) (sv_ratings s) (record_of i ?r res) = sv_ratings ?s"
      by (simp add: replay_one_def record_of_def rate_result_def settle_result_def Let_def)
    moreover have "rc_first ?r \<noteq> rc_second ?r" using race_okD(1) [OF rok] by (simp add: race_shape_def)
    moreover have "i < sv_next s" using races e by (simp add: races_ok_def)
    ultimately show ?thesis
      using logged e names(1)
      unfolding log_ok_def decided' races' next' delete_conv'
      by (auto simp: record_of_def ids_def)
  qed
  ultimately show ?thesis by (simp add: service_ok_def)
qed

lemma races_ok_drop:
  "races_ok {i} s \<Longrightarrow> (\<And>e. map_of (sv_races s) i = Some e \<Longrightarrow> \<not> decided (re_race e)) \<Longrightarrow> races_ok {} s"
  unfolding races_ok_def by blast

lemma settle_ok:
  assumes "service_ok c base {i} s"
  shows "service_ok c base {} (settle c i now s)"
proof (cases "map_of (sv_races s) i")
  case None
  then show ?thesis using assms races_ok_drop [of i s] by (simp add: settle_def service_ok_def)
next
  case (Some e)
  then have "race_ok (re_race e)" using assms by (simp add: service_ok_def races_ok_def)
  show ?thesis
  proof (cases "decided (re_race e)")
    case True
    with just_result \<open>race_ok (re_race e)\<close> obtain res where "rc_result (re_race e) = Some res" by blast
    with True Some settle_result_ok [OF assms] show ?thesis by (simp add: settle_def)
  next
    case False
    with Some have "races_ok {} s"
      using assms by (intro races_ok_drop [of i]) (auto simp: service_ok_def)
    with False Some assms show ?thesis by (simp add: settle_def service_ok_def)
  qed
qed

lemma put_race_ok:
  assumes "service_ok c base {} s" and e: "map_of (sv_races s) i = Some e"
    and "race_ok r" and "rc_first r = rc_first (re_race e)" "rc_second r = rc_second (re_race e)"
  shows "service_ok c base {i} (put_race i r s)"
proof -
  have ids: "ids r = ids (re_race e)" using assms by (simp add: ids_def)
  have races: "sv_races (put_race i r s) = AList.update i (e\<lparr>re_race := r\<rparr>) (sv_races s)"
    and rest: "sv_race_of (put_race i r s) = sv_race_of s" "sv_queue (put_race i r s) = sv_queue s"
      "sv_next (put_race i r s) = sv_next s" "sv_ratings (put_race i r s) = sv_ratings s"
      "decided_matches (put_race i r s) = decided_matches s"
    using e by (simp_all add: put_race_def decided_matches_def)
  have same: "queued_at (e\<lparr>re_race := r\<rparr>) = queued_at e"
    using assms by (simp add: queued_at_def fun_eq_iff)
  note ok = assms(1) [unfolded service_ok_def]
  have "races_ok {i} (put_race i r s)"
    using ok assms(3) e by (auto simp: races_ok_def races rest update_conv' distinct_update)
  moreover have "seats_ok (put_race i r s)"
    using ok e by (auto simp: seats_ok_def races rest update_conv' ids)
  moreover have "waiting_free (put_race i r s)" using ok by (simp add: waiting_free_def rest)
  moreover have "cooldowns_ok (put_race i r s)"
    using ok e unfolding cooldowns_ok_def races rest update_conv' by (auto simp: ids same)
  moreover have "log_ok c base (put_race i r s)"
    using ok e by (auto simp: log_ok_def races rest update_conv')
  ultimately show ?thesis by (simp add: service_ok_def)
qed

lemma put_race_step_ok:
  assumes "service_ok c base {} s" "map_of (sv_races s) i = Some e" "race_step (re_race e) r"
  shows "service_ok c base {i} (put_race i r s)"
proof -
  have "race_ok (re_race e)" using assms(1,2) by (simp add: service_ok_def races_ok_def)
  then show ?thesis
    using put_race_ok [OF assms(1,2)] race_step_ok [OF assms(3)] race_step_players [OF assms(3)] by simp
qed

lemma put_race_undecided:
  assumes "service_ok c base {i} (put_race i r s)" "\<not> decided r" "map_of (sv_races s) i = Some e"
  shows "service_ok c base {} (put_race i r s)"
proof -
  have "races_ok {} (put_race i r s)"
    using assms by (intro races_ok_drop [of i]) (auto simp: service_ok_def put_race_def update_conv')
  then show ?thesis using assms(1) by (simp add: service_ok_def)
qed

lemma tick_race_ok:
  assumes "service_ok c base {} s"
  shows "service_ok c base {} (tick_race c i now s)"
proof (cases "map_of (sv_races s) i")
  case None
  then show ?thesis using assms by (simp add: tick_race_def)
next
  case (Some e)
  note put = put_race_step_ok [OF assms Some]
  have "service_ok c base {} (put_race i (loading now (re_race e)) s)" if "rc_state (re_race e) = Paired"
    using put_race_undecided [OF put [OF step_loading] _ Some] that by (simp add: loading_def decided_def)
  moreover have "service_ok c base {} (settle c i now (put_race i (tick now (re_race e)) s))"
    by (rule settle_ok [OF put [OF step_tick]])
  ultimately show ?thesis using Some by (simp add: tick_race_def)
qed

lemma void_race_ok:
  assumes "service_ok c base {} s"
  shows "service_ok c base {} (start_failed c i now s)" "service_ok c base {} (stop_race c i now s)"
  using assms settle_ok [OF put_race_step_ok [OF assms _ step_voided]]
  by (auto simp: start_failed_def stop_race_def split: option.splits)

lemma race_event_step:
  assumes "race_event a type detail now r = Some r'"
  shows "race_step r r'"
proof -
  consider "started a now r = Inr r'" | "remark (Some a) ''progress'' detail now r = Inr r'"
    | "finished a now r = Inr r'" | agreed where "offer_draw a now r = Inr (agreed, r')"
    | "lost a now type r = Inr r'"
    using assms by (auto simp: race_event_def Let_def simp del: loss_cause_of.simps
        split: sum.splits if_splits)
  then show ?thesis by cases (rule race_step.intros, assumption)+
qed

lemma run_event_ok:
  assumes "service_ok c base {} s"
  shows "service_ok c base {} (run_event c a type detail now s)"
  using assms settle_ok [OF put_race_step_ok [OF assms _ race_event_step]]
  by (auto simp: run_event_def split: option.splits)

lemma parts_cong:
  assumes "sv_races t = sv_races s" "sv_race_of t = sv_race_of s" "sv_next t = sv_next s"
    "sv_ratings t = sv_ratings s" "decided_matches t = decided_matches s"
  shows "races_ok X t = races_ok X s" "seats_ok t = seats_ok s" "log_ok c base t = log_ok c base s"
  by (simp_all add: races_ok_def seats_ok_def log_ok_def assms)

lemma queue_only_ok:
  assumes "service_ok c base {} s" and "queue_ok q"
    and "\<And>e. e \<in> set (q_entries q)
          \<Longrightarrow> sv_race_of s (qe_account e) = None \<and> cooled q (qe_account e) (qe_joined e)"
    and "\<And>a since. cooled (sv_queue s) a since \<Longrightarrow> cooled q a since"
  shows "service_ok c base {} (s\<lparr>sv_queue := q\<rparr>)"
proof -
  have "decided_matches (s\<lparr>sv_queue := q\<rparr>) = decided_matches s" by (simp add: decided_matches_def)
  then have "races_ok {} (s\<lparr>sv_queue := q\<rparr>)" "seats_ok (s\<lparr>sv_queue := q\<rparr>)" "log_ok c base (s\<lparr>sv_queue := q\<rparr>)"
    using assms(1) parts_cong [of "s\<lparr>sv_queue := q\<rparr>" s] by (simp_all add: service_ok_def)
  moreover have "waiting_free (s\<lparr>sv_queue := q\<rparr>)" using assms(2,3) by (simp add: waiting_free_def)
  moreover have "cooldowns_ok (s\<lparr>sv_queue := q\<rparr>)"
    using assms(1,3,4) unfolding service_ok_def cooldowns_ok_def by simp
  ultimately show ?thesis by (simp add: service_ok_def)
qed

lemma service_join_ok:
  assumes "service_ok c base {} s"
  shows "service_ok c base {} (snd (service_join c a now s))"
proof (cases "sv_race_of s a")
  case None
  let ?q = "snd (join a (rd_rating (rated_of (sc_scale c) (sv_ratings s) a)) now (sv_queue s))"
  have "service_ok c base {} (s\<lparr>sv_queue := ?q\<rparr>)"
  proof (rule queue_only_ok [OF assms])
    show "queue_ok ?q" using assms by (simp add: service_ok_def waiting_free_def join_ok)
    show "cooled ?q b since" if "cooled (sv_queue s) b since" for b since
      using that by (simp add: join_cooled)
    show "sv_race_of s (qe_account e) = None \<and> cooled ?q (qe_account e) (qe_joined e)"
      if "e \<in> set (q_entries ?q)" for e
    proof -
      have cooling: "cooled ?q = cooled (sv_queue s)" by (simp add: cooled_def fun_eq_iff)
      from join_entries [OF that] show ?thesis
        using assms None unfolding cooling service_ok_def waiting_free_def cooldowns_ok_def by auto
    qed
  qed
  with None show ?thesis by (simp add: service_join_def case_prod_beta)
qed (use assms in \<open>simp add: service_join_def\<close>)

lemma subset_queue_ok:
  assumes "service_ok c base {} s" and "queue_ok q" and "q_cooling q = q_cooling (sv_queue s)"
    and "\<And>e. e \<in> set (q_entries q) \<Longrightarrow> \<exists>f\<in>set (q_entries (sv_queue s)).
          qe_account f = qe_account e \<and> qe_joined f = qe_joined e"
  shows "service_ok c base {} (s\<lparr>sv_queue := q\<rparr>)"
proof -
  have same: "cooled q = cooled (sv_queue s)" using assms(3) by (simp add: cooled_def fun_eq_iff)
  show ?thesis
  proof (rule queue_only_ok [OF assms(1,2)])
    fix e assume "e \<in> set (q_entries q)"
    from assms(4) [OF this] obtain f where "f \<in> set (q_entries (sv_queue s))"
      "qe_account f = qe_account e" "qe_joined f = qe_joined e" by blast
    then show "sv_race_of s (qe_account e) = None \<and> cooled q (qe_account e) (qe_joined e)"
      using assms(1) unfolding same by (metis cooldowns_ok_def service_ok_def waiting_free_def)
  qed (simp add: same)
qed

lemma service_leave_ok:
  assumes "service_ok c base {} s"
  shows "service_ok c base {} (snd (service_leave a s))" "service_ok c base {} (snd (service_ready a yes s))"
proof -
  have ok: "queue_ok (snd (leave a (sv_queue s)))" "queue_ok (snd (set_ready a yes (sv_queue s)))"
    using assms queue_step_ok [OF step_leave] queue_step_ok [OF step_ready]
    by (simp_all add: service_ok_def waiting_free_def)
  have rerated: "\<exists>f\<in>set es. qe_account f = qe_account e \<and> qe_joined f = qe_joined e"
    if "e \<in> set (rerate a (qe_ready_update (\<lambda>_. yes)) es)" for e es
    using that by (induction es) (auto split: if_splits)
  show "service_ok c base {} (snd (service_leave a s))"
    using subset_queue_ok [OF assms ok(1)] by (auto simp: service_leave_def leave_def)
  show "service_ok c base {} (snd (service_ready a yes s))"
    using subset_queue_ok [OF assms ok(2)] rerated by (simp add: service_ready_def set_ready_def)
qed

section \<open>Pairing keeps the invariant\<close>

definition free_entry :: "service \<Rightarrow> queue_entry \<Rightarrow> bool" where
  "free_entry s e \<longleftrightarrow> sv_race_of s (qe_account e) = None
     \<and> (\<forall>g\<in>set (q_entries (sv_queue s)). qe_account g \<noteq> qe_account e)
     \<and> cooled (sv_queue s) (qe_account e) (qe_joined e)"

lemma pair_two_ok:
  assumes ok: "service_ok c base {} s" and f: "free_entry s e" "free_entry s f"
    and two: "qe_account e \<noteq> qe_account f"
  shows "service_ok c base {} (pair_two c now (e, f) s)"
    and "free_entry s g \<Longrightarrow> qe_account g \<notin> {qe_account e, qe_account f} \<Longrightarrow> free_entry (pair_two c now (e, f) s) g"
proof -
  let ?a = "qe_account e" and ?b = "qe_account f" and ?i = "sv_next s" and ?t = "pair_two c now (e, f) s"
  obtain r where r: "new_race [?a, ?b] (sc_rules c) now = Inr r" and players: "rc_first r = ?a" "rc_second r = ?b"
    and fresh: "\<not> decided r"
    using two by (auto simp: new_race_def decided_def)
  define en where "en = \<lparr>re_race = r, re_countdown = now + sc_countdown c,
                  re_first_joined = qe_joined e, re_second_joined = qe_joined f\<rparr>"
  have t: "?t = s\<lparr>sv_races := AList.update ?i en (sv_races s),
            sv_race_of := (sv_race_of s)(?a \<mapsto> ?i, ?b \<mapsto> ?i), sv_next := ?i + 1,
            sv_queue := remember_opponents ?a ?b (sv_queue s)\<rparr>"
    by (simp add: pair_two_def r en_def)
  note parts = ok [unfolded service_ok_def]
  have new: "map_of (sv_races s) ?i = None"
    using parts by (metis less_irrefl not_Some_eq races_ok_def)
  have unseated: "a \<notin> set (ids (re_race x))" if "map_of (sv_races s) j = Some x" "a = ?a \<or> a = ?b" for j x a
  proof
    assume "a \<in> set (ids (re_race x))"
    then have "sv_race_of s a = Some j" using parts that(1) by (auto simp: seats_ok_def)
    then show False using f that(2) by (auto simp: free_entry_def)
  qed
  have ids: "set (ids (re_race en)) = {?a, ?b}" by (simp add: en_def ids_def players)
  have "races_ok {} ?t"
    using parts fresh new_race_ok [OF r]
    by (auto simp: t races_ok_def update_conv' distinct_update en_def) (meson less_Suc_eq)+
  moreover have "seats_ok ?t"
    using parts unseated ids new unfolding seats_ok_def t by (auto simp: update_conv')
  moreover have "waiting_free ?t"
    using parts f by (auto simp: waiting_free_def t free_entry_def remember_ok)
  moreover have "cooldowns_ok ?t"
  proof -
    have same: "cooled (remember_opponents ?a ?b (sv_queue s)) = cooled (sv_queue s)"
      by (simp add: cooled_def fun_eq_iff)
    have "queued_at en ?a = qe_joined e" "queued_at en ?b = qe_joined f"
      using two by (simp_all add: queued_at_def en_def players)
    then show ?thesis
      using parts f ids unfolding cooldowns_ok_def t by (auto simp: update_conv' same free_entry_def)
  qed
  moreover have "log_ok c base ?t"
  proof -
    have "decided_matches ?t = decided_matches s" by (simp add: decided_matches_def t)
    then show ?thesis
      using parts new unfolding log_ok_def by (auto simp: t update_conv' less_Suc_eq)
  qed
  ultimately show "service_ok c base {} ?t" by (simp add: service_ok_def)
  show "free_entry ?t g" if "free_entry s g" "qe_account g \<notin> {?a, ?b}"
    using that by (simp add: free_entry_def t cooled_def)
qed

lemma pair_list_ok:
  "service_ok c base {} s \<Longrightarrow> distinct (paired_accounts pairs)
    \<Longrightarrow> \<forall>(e, f)\<in>set pairs. free_entry s e \<and> free_entry s f
    \<Longrightarrow> service_ok c base {} (foldl (\<lambda>s p. pair_two c now p s) s pairs)"
proof (induction pairs arbitrary: s)
  case (Cons p pairs)
  obtain e f where p: "p = (e, f)" by (cases p)
  note prems = Cons.prems [unfolded p]
  have later: "qe_account g \<notin> {qe_account e, qe_account f} \<and> qe_account h \<notin> {qe_account e, qe_account f}"
    if "(g, h) \<in> set pairs" for g h
  proof -
    have "qe_account g \<in> set (paired_accounts pairs)" "qe_account h \<in> set (paired_accounts pairs)"
      using that by (auto simp: paired_accounts_def)
    then show ?thesis using prems(2) by auto
  qed
  have free: "free_entry s e" "free_entry s f" and two: "qe_account e \<noteq> qe_account f"
    using prems by auto
  show ?case
    unfolding p foldl.simps
  proof (rule Cons.IH)
    show "service_ok c base {} (pair_two c now (e, f) s)"
      by (rule pair_two_ok(1) [OF prems(1) free two])
    show "distinct (paired_accounts pairs)" using prems(2) by simp
    show "\<forall>(g, h)\<in>set pairs. free_entry (pair_two c now (e, f) s) g \<and> free_entry (pair_two c now (e, f) s) h"
      using later prems(3) pair_two_ok(2) [OF prems(1) free two] by auto
  qed
qed simp

lemma pair_everybody_ok:
  assumes ok: "service_ok c base {} s"
  shows "service_ok c base {} (pair_everybody c now s)"
proof -
  obtain pairs q where pq: "pair_up now (sv_queue s) = (pairs, q)" by fastforce
  note sound = pairing_facts [of now "sv_queue s", unfolded pq fst_conv snd_conv]
  have q: "queue_ok q" "q_cooling q = q_cooling (sv_queue s)"
    using ok pair_up_ok [of "sv_queue s" now] pq
    by (auto simp: service_ok_def waiting_free_def pair_up_def Let_def)
  have left: "service_ok c base {} (s\<lparr>sv_queue := q\<rparr>)"
    by (rule subset_queue_ok [OF ok q]) (use sound in auto)
  have same: "cooled q = cooled (sv_queue s)" using q(2) by (simp add: cooled_def fun_eq_iff)
  have "free_entry (s\<lparr>sv_queue := q\<rparr>) e \<and> free_entry (s\<lparr>sv_queue := q\<rparr>) f" if "(e, f) \<in> set pairs" for e f
  proof -
    have "qe_account e \<in> set (paired_accounts pairs)" "qe_account f \<in> set (paired_accounts pairs)"
      using that by (auto simp: paired_accounts_def)
    then show ?thesis
      using that sound ok
      by (auto simp: free_entry_def same service_ok_def waiting_free_def cooldowns_ok_def)
  qed
  then have "service_ok c base {} (foldl (\<lambda>s p. pair_two c now p s) (s\<lparr>sv_queue := q\<rparr>) pairs)"
    using sound by (intro pair_list_ok [OF left]) auto
  then show ?thesis by (simp add: pair_everybody_def pq)
qed

section \<open>Writing keeps the invariant\<close>

lemma write_held_keeps:
  "write_held answers held games = (held', games')
    \<Longrightarrow> games' @ held' = games @ held \<and> (\<exists>added. games' = games @ added)"
  by (induction answers held games rule: write_held.induct) auto

lemma run_write_keeps:
  "run_write answers w held games = (held', games')
    \<Longrightarrow> games' @ held' = games @ held @ kept_of w \<and> (\<exists>added. games' = games @ added)"
  by (cases w) (auto dest: write_held_keeps split: if_splits)

lemma next_write_keeps:
  "decided_matches (next_write answers s) = decided_matches s
   \<and> (\<exists>added. sv_log (next_write answers s) = sv_log s @ added)"
proof (cases "sv_writes s")
  case (Cons w ws)
  obtain held games where rw: "run_write answers w (sv_unwritten s) (sv_log s) = (held, games)" by fastforce
  from run_write_keeps [OF rw] Cons rw show ?thesis
    by (auto simp: next_write_def decided_matches_def)
qed (simp add: next_write_def)

lemma log_only_ok:
  assumes "service_ok c base {} s" and "sv_races t = sv_races s" "sv_race_of t = sv_race_of s"
    "sv_next t = sv_next s" "sv_ratings t = sv_ratings s" "sv_queue t = sv_queue s"
    "decided_matches t = decided_matches s"
  shows "service_ok c base {} t"
  using assms parts_cong [of t s] by (simp add: service_ok_def waiting_free_def cooldowns_ok_def)

lemma next_write_ok: "service_ok c base {} s \<Longrightarrow> service_ok c base {} (next_write answers s)"
  by (erule log_only_ok) (simp_all add: next_write_keeps, simp_all add: next_write_def Let_def
      split: list.splits prod.splits)

lemma ask_held_ok: "service_ok c base {} s \<Longrightarrow> service_ok c base {} (ask_held s)"
  by (erule log_only_ok) (simp_all add: ask_held_def decided_matches_def)

lemma service_step_ok: "service_step c s t \<Longrightarrow> service_ok c base {} s \<Longrightarrow> service_ok c base {} t"
  by (induction rule: service_step.induct)
     (simp_all add: service_join_ok service_leave_ok pair_everybody_ok tick_race_ok void_race_ok
      run_event_ok next_write_ok ask_held_ok)

interpretation ranked: invariant_system "service_step c" "service_ok c base {}" for c base
  by unfold_locales (rule service_step_ok)

lemma load_ok:
  assumes "well_logged games" "distinct (map mr_race games)" "\<forall>g\<in>set games. mr_race g < base"
  shows "service_ok c base {} (load c games base)"
  using assms
  by (auto simp: service_parts load_def decided_matches_def queue_ok_def empty_queue_def)


lemma put_race_log [simp]: "sv_log (put_race i r s) = sv_log s"
  by (simp add: put_race_def split: option.splits)



section \<open>A service on which the properties are applied\<close>

definition demo_config :: service_config where
  "demo_config = \<lparr>sc_scale = demo_scale, sc_rules = demo_rules, sc_countdown = 10000\<rparr>"

definition demo_queued :: service where
  "demo_queued = (load demo_config [] 0)\<lparr>sv_queue :=
     \<lparr>q_entries = [\<lparr>qe_account = 7, qe_rating = 1000, qe_joined = 100, qe_ready = True\<rparr>,
                   \<lparr>qe_account = 9, qe_rating = 1000, qe_joined = 200, qe_ready = True\<rparr>],
      q_last = [], q_cooling = (\<lambda>_. None)\<rparr>\<rparr>"

definition demo_matched :: service where "demo_matched = pair_everybody demo_config 1000 demo_queued"

lemma demo_joined_step:
  "(service_step demo_config)\<^sup>*\<^sup>* (load demo_config [] 0) demo_queued"
proof -
  let ?step = "service_step demo_config" and ?s = "load demo_config [] 0"
  let ?a = "snd (service_join demo_config 7 100 ?s)"
  let ?b = "snd (service_join demo_config 9 200 ?a)"
  let ?c = "snd (service_ready 7 True ?b)"
  have "?step ?s ?a" "?step ?a ?b" "?step ?b ?c" "?step ?c (snd (service_ready 9 True ?c))"
    by (rule sstep_join sstep_ready)+
  then have "?step\<^sup>*\<^sup>* ?s (snd (service_ready 9 True ?c))"
    by (meson rtranclp.rtrancl_refl rtranclp.rtrancl_into_rtrancl)
  moreover have "snd (service_ready 9 True ?c) = demo_queued"
    by (simp add: demo_queued_def load_def service_join_def service_ready_def join_def enqueue_def set_ready_def
        queued_def empty_queue_def rated_of_def new_player_def demo_config_def demo_scale_def Let_def)
  ultimately show ?thesis by simp
qed

lemma demo_matched_step: "(service_step demo_config)\<^sup>*\<^sup>* (load demo_config [] 0) demo_matched"
  unfolding demo_matched_def by (rule rtranclp.rtrancl_into_rtrancl [OF demo_joined_step sstep_pair])


lemma demo_matched_race:
  "sv_race_of demo_matched 7 = Some 0" "sv_race_of demo_matched 9 = Some 0" "sv_next demo_matched = 1"
  "\<exists>e. map_of (sv_races demo_matched) 0 = Some e \<and> ids (re_race e) = [7, 9]
     \<and> rc_state (re_race e) = Paired \<and> never_loaded (re_race e) \<and> queued_at e 7 = 100"
  by (simp_all add: demo_matched_def demo_queued_def pair_everybody_def pair_up_def pairs_made_def
      ready_in_line_def may_meet_def rating_window_def seconds_def gap_def Let_def pair_two_def new_race_def
      load_def ids_def never_loaded_def note_down_def queued_at_def)

section \<open>Properties\<close>



text \<open>C7: Nobody is in two places. Over every run of the service a player who is in a race is in
  exactly one and not in the queue, both players of every race under way are known to be in it,
  and no race under way is decided.\<close>
theorem racers_in_one_place:
  assumes "well_logged games" and "distinct (map mr_race games)" and "\<forall>g\<in>set games. mr_race g < base"
    and "(service_step c)\<^sup>*\<^sup>* (load c games base) s"
  shows "(\<forall>a i. sv_race_of s a = Some i
            \<longleftrightarrow> (\<exists>e. map_of (sv_races s) i = Some e \<and> a \<in> set (ids (re_race e)) \<and> \<not> decided (re_race e)))
    \<and> (\<forall>a. queued (sv_queue s) a \<noteq> None \<longrightarrow> sv_race_of s a = None)
    \<and> distinct (map qe_account (q_entries (sv_queue s)))"
proof -
  have "service_ok c base {} s" by (rule ranked.steps_inv [OF assms(4) load_ok [OF assms(1,2,3)]])
  then show ?thesis
    by (auto simp: service_ok_def seats_ok_def races_ok_def waiting_free_def queue_ok_def dest!: queued_Some)
qed

lemma racers_in_one_place_witness:
  "\<exists>e. map_of (sv_races demo_matched) 0 = Some e \<and> 7 \<in> set (ids (re_race e)) \<and> \<not> decided (re_race e)"
  using racers_in_one_place [OF _ _ _ demo_matched_step] demo_matched_race(1)
  by (simp add: well_logged_def)

text \<open>C8: Every race is logged once. Over every run, no two decided matches have one race id, and
  each race the service ever paired is either still under way or has exactly one record among
  the logged, the held and those being written.\<close>
theorem races_logged_once:
  assumes "well_logged games" and "distinct (map mr_race games)" and "\<forall>g\<in>set games. mr_race g < base"
    and "(service_step c)\<^sup>*\<^sup>* (load c games base) s" and "base \<le> i" and "i < sv_next s"
  shows "(map_of (sv_races s) i \<noteq> None) \<noteq> (\<exists>!g. g \<in> set (decided_matches s) \<and> mr_race g = i)
    \<and> distinct (map mr_race (decided_matches s))"
proof -
  have "service_ok c base {} s" by (rule ranked.steps_inv [OF assms(4) load_ok [OF assms(1,2,3)]])
  then have l: "distinct (map mr_race (decided_matches s))"
    "\<forall>g\<in>set (decided_matches s). map_of (sv_races s) (mr_race g) = None"
    "map_of (sv_races s) i \<noteq> None \<or> i \<in> mr_race ` set (decided_matches s)"
    using assms(5,6) by (auto simp: service_ok_def log_ok_def)
  have "g = h" if "g \<in> set (decided_matches s)" "h \<in> set (decided_matches s)" "mr_race g = mr_race h" for g h
    using l(1) that by (auto simp: distinct_map inj_on_def)
  then show ?thesis using l by auto
qed

lemma races_logged_once_witness:
  "(map_of (sv_races demo_matched) 0 \<noteq> None) \<noteq> (\<exists>!g. g \<in> set (decided_matches demo_matched) \<and> mr_race g = 0)"
  using races_logged_once [OF _ _ _ demo_matched_step, of 0] demo_matched_race(3)
  by (simp add: well_logged_def)






end
