(* ===== verification/Matches.thy ===== *)
theory Matches
  imports Prelude
begin

text \<open>
  The registry of dungeon runs (\<open>src/socket/matches.js\<close>): making, searching, joining, leaving,
  finishing and closing a match, and the reservation an entry holds a place with. Match objects
  outlive their listing (sessions and reservations keep references), so they are in a heap
  indexed by id and \<open>rg_listed\<close> says which the registry's own map still names. A session is
  an object identity; its account id, fixed when it logged in, is the parameter \<open>acc\<close>, and the
  rules of a game mode (\<open>run-rules.js\<close>, installed by the modes) are the parameter \<open>rules\<close>.
  A member leaves a match's world and its member set together (\<open>match-world.js\<close>,
  \<open>detachMember\<close>), so both branches of \<open>remove\<close> take it out of the members.
\<close>

section \<open>Modes\<close>

datatype strangers = EveryFloor | FirstFloors int | NotANumber

record mode_rules =
  md_joinable :: bool
  md_strangers :: strangers

definition stock_rules :: mode_rules where
  "stock_rules = \<lparr>md_joinable = True, md_strangers = FirstFloors 1\<rparr>"

definition rules_of_mode :: "(string \<Rightarrow> mode_rules option) \<Rightarrow> string option \<Rightarrow> mode_rules" where
  "rules_of_mode installed mode =
     (case mode of
        None \<Rightarrow> stock_rules
      | Some m \<Rightarrow> if m = [] then stock_rules
                  else (case installed m of None \<Rightarrow> stock_rules | Some r \<Rightarrow> r))"

definition strangers_welcome :: "mode_rules \<Rightarrow> nat \<Rightarrow> bool" where
  "strangers_welcome md floor_index =
     (case md_strangers md of
        EveryFloor \<Rightarrow> True
      | FirstFloors n \<Rightarrow> int floor_index < (if 1 \<le> n then n else 1)
      | NotANumber \<Rightarrow> floor_index < 1)"

section \<open>State\<close>

datatype match_state = Forming | Active | Finished | Failed | Closed

type_synonym sid = nat

record a_match =
  mt_id :: nat
  mt_node :: int
  mt_group :: string
  mt_private :: bool
  mt_floor :: nat
  mt_members :: "sid list"
  mt_privileged :: "sid list"
  mt_state :: match_state
  mt_mode :: "string option"
  mt_timer :: bool

record registry =
  rg_max :: nat
  rg_floor_zero_only :: bool
  rg_ttl :: int
  rg_evicts :: bool
  rg_next :: nat
  rg_heap :: "nat \<Rightarrow> a_match option"
  rg_listed :: "nat \<Rightarrow> bool"
  rg_by_account :: "int \<Rightarrow> nat option"
  rg_public :: "int \<times> string \<Rightarrow> nat list"
  rg_at :: "sid \<Rightarrow> nat option"
  rg_in_dungeon :: "sid \<Rightarrow> bool"

definition max_dungeon_players :: nat where "max_dungeon_players = 4"
definition finished_match_ttl :: int where "finished_match_ttl = 10 * 60 * 1000"

definition new_registry :: registry where
  "new_registry =
     \<lparr>rg_max = max_dungeon_players, rg_floor_zero_only = True, rg_ttl = finished_match_ttl, rg_evicts = False,
      rg_next = 1, rg_heap = (\<lambda>_. None), rg_listed = (\<lambda>_. False), rg_by_account = (\<lambda>_. None),
      rg_public = (\<lambda>_. []), rg_at = (\<lambda>_. None), rg_in_dungeon = (\<lambda>_. False)\<rparr>"

definition key_of :: "a_match \<Rightarrow> int \<times> string" where
  "key_of m = (mt_node m, mt_group m)"

definition set_add :: "'a \<Rightarrow> 'a list \<Rightarrow> 'a list" where
  "set_add x xs = (if x \<in> set xs then xs else xs @ [x])"

definition put_match :: "a_match \<Rightarrow> registry \<Rightarrow> registry" where
  "put_match m r = r\<lparr>rg_heap := (rg_heap r)(mt_id m \<mapsto> m)\<rparr>"

section \<open>Making, finishing and closing\<close>

datatype match_error = NeedsNode | NeedsAccount

record create_request =
  cr_node :: int
  cr_group :: string
  cr_private :: bool
  cr_mode :: "string option"

definition new_match :: "nat \<Rightarrow> create_request \<Rightarrow> a_match" where
  "new_match i q =
     \<lparr>mt_id = i, mt_node = cr_node q, mt_group = cr_group q, mt_private = cr_private q, mt_floor = 0,
      mt_members = [], mt_privileged = [], mt_state = Forming,
      mt_mode = (case cr_mode q of Some m \<Rightarrow> if m = [] then None else Some m | None \<Rightarrow> None),
      mt_timer = False\<rparr>"

definition create :: "create_request \<Rightarrow> registry \<Rightarrow> match_error + (nat \<times> registry)" where
  "create q r =
     (if cr_node q = 0 then Inl NeedsNode
      else let i = rg_next r; m = new_match i q in
           Inr (i, (put_match m r)\<lparr>rg_next := i + 1, rg_listed := (rg_listed r)(i := True),
                     rg_public := (if mt_private m then rg_public r
                                   else (rg_public r)(key_of m := rg_public r (key_of m) @ [i]))\<rparr>))"

definition unlist_public :: "a_match \<Rightarrow> registry \<Rightarrow> registry" where
  "unlist_public m r =
     (if mt_private m then r
      else r\<lparr>rg_public := (rg_public r)(key_of m := removeAll (mt_id m) (rg_public r (key_of m)))\<rparr>)"

definition finish :: "nat \<Rightarrow> registry \<Rightarrow> bool \<times> registry" where
  "finish i r =
     (case rg_heap r i of
        None \<Rightarrow> (False, r)
      | Some m \<Rightarrow>
          if mt_state m = Closed \<or> mt_state m = Finished then (False, r)
          else (True, unlist_public m
                  (put_match (m\<lparr>mt_state := Finished, mt_timer := (0 < rg_ttl r \<or> mt_timer m)\<rparr>) r)))"

fun without_accounts :: "(sid \<Rightarrow> int option) \<Rightarrow> nat \<Rightarrow> sid list \<Rightarrow> (int \<Rightarrow> nat option) \<Rightarrow> int \<Rightarrow> nat option" where
  "without_accounts acc i [] by = by"
| "without_accounts acc i (s # ss) by =
     without_accounts acc i ss
       (case acc s of Some a \<Rightarrow> if by a = Some i then by(a := None) else by | None \<Rightarrow> by)"

definition close :: "(sid \<Rightarrow> int option) \<Rightarrow> nat \<Rightarrow> registry \<Rightarrow> bool \<times> registry" where
  "close acc i r =
     (case rg_heap r i of
        None \<Rightarrow> (False, r)
      | Some m \<Rightarrow>
          if mt_state m = Closed then (False, r)
          else (True, (unlist_public m
                  (put_match (m\<lparr>mt_state := Closed, mt_timer := False, mt_members := [], mt_privileged := []\<rparr>) r))
                  \<lparr>rg_listed := (rg_listed r)(i := False),
                   rg_by_account := without_accounts acc i (mt_members m) (rg_by_account r),
                   rg_at := (\<lambda>s. if s \<in> set (mt_members m) \<and> rg_at r s = Some i then None else rg_at r s),
                   rg_in_dungeon := (\<lambda>s. if s \<in> set (mt_members m) then False else rg_in_dungeon r s)\<rparr>))"

text \<open>
  The report's time is up. With nobody reading, or no way to send them home, the match closes;
  otherwise each reader is asked to exit (a \<open>remove\<close> each, later) and a second timer is set,
  after which it closes regardless.
\<close>

definition expire :: "(sid \<Rightarrow> int option) \<Rightarrow> nat \<Rightarrow> registry \<Rightarrow> bool \<times> registry" where
  "expire acc i r =
     (case rg_heap r i of
        None \<Rightarrow> (False, r)
      | Some m \<Rightarrow>
          if mt_state m = Closed then (False, r)
          else if mt_members m = [] \<or> \<not> rg_evicts r then close acc i r
          else (True, put_match (m\<lparr>mt_timer := True\<rparr>) r))"

section \<open>Joining and leaving\<close>

definition ordinary :: "a_match \<Rightarrow> nat" where
  "ordinary m = length (mt_members m) - length (mt_privileged m)"

definition can_join :: "(string option \<Rightarrow> mode_rules) \<Rightarrow> registry \<Rightarrow> a_match \<Rightarrow> bool \<Rightarrow> bool \<Rightarrow> bool" where
  "can_join rules r m public_search admin =
     (if mt_state m \<noteq> Forming \<and> mt_state m \<noteq> Active then False
      else if (if admin then 1 \<le> length (mt_privileged m) else rg_max r \<le> ordinary m) then False
      else admin \<or> \<not> public_search \<or> \<not> rg_floor_zero_only r
           \<or> strangers_welcome (rules (mt_mode m)) (mt_floor m))"

definition enter :: "(sid \<Rightarrow> int option) \<Rightarrow> a_match \<Rightarrow> sid \<Rightarrow> bool \<Rightarrow> int \<Rightarrow> registry \<Rightarrow> registry" where
  "enter acc m s admin a r =
     (put_match (m\<lparr>mt_members := set_add s (mt_members m),
                   mt_privileged := (if admin then set_add s (mt_privileged m) else mt_privileged m),
                   mt_state := Active\<rparr>) r)
       \<lparr>rg_at := (rg_at r)(s \<mapsto> mt_id m), rg_by_account := (rg_by_account r)(a \<mapsto> mt_id m)\<rparr>"

definition member_of_account :: "(sid \<Rightarrow> int option) \<Rightarrow> int \<Rightarrow> a_match \<Rightarrow> sid option" where
  "member_of_account acc a m = find_row (\<lambda>s. acc s = Some a) (mt_members m)"

definition add :: "(sid \<Rightarrow> int option) \<Rightarrow> (string option \<Rightarrow> mode_rules) \<Rightarrow> nat \<Rightarrow> sid \<Rightarrow> bool \<Rightarrow> registry
                     \<Rightarrow> match_error + (bool \<times> registry)" where
  "add acc rules i s admin r =
     (case rg_heap r i of
        None \<Rightarrow> Inr (False, r)
      | Some m \<Rightarrow>
          if \<not> can_join rules r m False admin then Inr (False, r)
          else case acc s of
             None \<Rightarrow> Inl NeedsAccount
           | Some a \<Rightarrow>
               (case rg_by_account r a of
                  None \<Rightarrow> Inr (True, enter acc m s admin a r)
                | Some j \<Rightarrow>
                    (case (case rg_heap r j of Some p \<Rightarrow> member_of_account acc a p | None \<Rightarrow> None) of
                       Some t \<Rightarrow>
                         if t \<noteq> s \<or> j \<noteq> i then Inr (False, r)
                         else Inr (True, if admin then put_match (m\<lparr>mt_privileged := set_add s (mt_privileged m)\<rparr>) r
                                         else r)
                     | None \<Rightarrow> Inr (True, enter acc m s admin a (r\<lparr>rg_by_account := (rg_by_account r)(a := None)\<rparr>)))))"

definition place_of :: "(sid \<Rightarrow> int option) \<Rightarrow> sid \<Rightarrow> registry \<Rightarrow> nat option" where
  "place_of acc s r =
     (case rg_at r s of
        Some i \<Rightarrow> Some i
      | None \<Rightarrow> (case acc s of Some a \<Rightarrow> rg_by_account r a | None \<Rightarrow> None))"

definition remove :: "(sid \<Rightarrow> int option) \<Rightarrow> sid \<Rightarrow> registry \<Rightarrow> nat option \<times> registry" where
  "remove acc s r =
     (case place_of acc s r of
        None \<Rightarrow> (None, r)
      | Some i \<Rightarrow>
          (case rg_heap r i of
             None \<Rightarrow> (None, r)
           | Some m \<Rightarrow>
               let m' = m\<lparr>mt_members := removeAll s (mt_members m), mt_privileged := removeAll s (mt_privileged m)\<rparr>;
                   r' = (put_match m' r)
                     \<lparr>rg_by_account := (case acc s of
                          Some a \<Rightarrow> if rg_by_account r a = Some i then (rg_by_account r)(a := None) else rg_by_account r
                        | None \<Rightarrow> rg_by_account r),
                      rg_at := (if rg_at r s = Some i then (rg_at r)(s := None) else rg_at r)\<rparr>
               in (Some i, if mt_members m' = [] then snd (close acc i r') else r')))"

text \<open>A match admitted by the main thread's registry, kept on the worker that runs it.\<close>

definition adopt :: "nat \<Rightarrow> int \<Rightarrow> string \<Rightarrow> bool \<Rightarrow> nat \<Rightarrow> match_state \<Rightarrow> registry \<Rightarrow> registry" where
  "adopt i node grp priv fl st r =
     (if rg_listed r i then r
      else (put_match \<lparr>mt_id = i, mt_node = node, mt_group = grp, mt_private = priv, mt_floor = fl,
              mt_members = [], mt_privileged = [], mt_state = st, mt_mode = None, mt_timer = False\<rparr> r)
             \<lparr>rg_listed := (rg_listed r)(i := True)\<rparr>)"

definition attach :: "(sid \<Rightarrow> int option) \<Rightarrow> nat \<Rightarrow> sid \<Rightarrow> bool \<Rightarrow> registry \<Rightarrow> registry" where
  "attach acc i s privileged r =
     (case rg_heap r i of
        None \<Rightarrow> r
      | Some m \<Rightarrow>
          (put_match (m\<lparr>mt_members := set_add s (mt_members m),
                        mt_privileged := (if privileged then set_add s (mt_privileged m) else mt_privileged m)\<rparr>) r)
            \<lparr>rg_at := (rg_at r)(s \<mapsto> i),
             rg_by_account := (case acc s of Some a \<Rightarrow> (rg_by_account r)(a \<mapsto> i) | None \<Rightarrow> rg_by_account r)\<rparr>)"

section \<open>Where an entry goes\<close>

definition public_match :: "(string option \<Rightarrow> mode_rules) \<Rightarrow> int \<Rightarrow> string \<Rightarrow> bool \<Rightarrow> string option
                              \<Rightarrow> registry \<Rightarrow> nat option" where
  "public_match rules node grp admin mode r =
     find_row (\<lambda>i. case rg_heap r i of
                     Some m \<Rightarrow> mt_mode m = (if mode = Some [] then None else mode)
                               \<and> md_joinable (rules (mt_mode m)) \<and> can_join rules r m True admin
                   | None \<Rightarrow> False)
       (rg_public r (node, grp))"

definition explicit_target :: "(string option \<Rightarrow> mode_rules) \<Rightarrow> int \<Rightarrow> nat \<Rightarrow> registry \<Rightarrow> a_match option" where
  "explicit_target rules friend_id map_id r =
     (case (if map_id \<noteq> 0 then (if rg_listed r map_id then rg_heap r map_id else None)
            else if friend_id \<noteq> 0
            then (case rg_by_account r friend_id of Some i \<Rightarrow> rg_heap r i | None \<Rightarrow> None)
            else None) of
        Some m \<Rightarrow> if md_joinable (rules (mt_mode m)) then Some m else None
      | None \<Rightarrow> None)"

datatype entry_source = ByMap | ByFriend | Public | Private
datatype entry_error = ContentNotCompleted | RunFinished | GameNotEnterable | MapFull | FriendFull
  | TargetNotFound
datatype decision = Join nat entry_source | Make create_request entry_source | Refuse entry_error entry_source

record entry_request =
  er_node :: int
  er_friend :: int
  er_map :: nat
  er_friend_only :: bool
  er_group :: string
  er_eligible :: bool
  er_mode :: "string option"

definition full_error :: "a_match \<Rightarrow> nat \<Rightarrow> entry_error" where
  "full_error m map_id =
     (if mt_state m = Finished then RunFinished
      else if mt_state m = Failed then GameNotEnterable
      else if map_id \<noteq> 0 then MapFull else FriendFull)"

definition inspect :: "(string option \<Rightarrow> mode_rules) \<Rightarrow> entry_request \<Rightarrow> bool \<Rightarrow> registry \<Rightarrow> decision" where
  "inspect rules q admin r =
     (case explicit_target rules (er_friend q) (er_map q) r of
        Some m \<Rightarrow>
          let source = (if er_map q \<noteq> 0 then ByMap else ByFriend) in
          if \<not> admin \<and> \<not> er_eligible q then Refuse ContentNotCompleted source
          else if \<not> can_join rules r m False admin then Refuse (full_error m (er_map q)) source
          else Join (mt_id m) source
      | None \<Rightarrow>
          if er_friend q \<noteq> 0 \<or> er_map q \<noteq> 0
          then Refuse TargetNotFound (if er_friend q \<noteq> 0 then ByFriend else ByMap)
          else let source = (if er_friend_only q then Private else Public) in
               case (if er_friend_only q then None
                     else public_match rules (er_node q) (er_group q) admin (er_mode q) r) of
                 Some i \<Rightarrow> Join i source
               | None \<Rightarrow> Make \<lparr>cr_node = er_node q, cr_group = er_group q,
                               cr_private = er_friend_only q, cr_mode = er_mode q\<rparr> source)"

section \<open>Reservations\<close>

datatype reservation_state = Reserved | Committed | Aborted

record reservation =
  rv_match :: nat
  rv_session :: sid
  rv_state :: reservation_state

datatype reserved = Refused entry_error entry_source | Granted nat bool entry_source reservation

definition take_place :: "(sid \<Rightarrow> int option) \<Rightarrow> (string option \<Rightarrow> mode_rules) \<Rightarrow> nat \<Rightarrow> bool \<Rightarrow> entry_source
    \<Rightarrow> sid \<Rightarrow> bool \<Rightarrow> registry \<Rightarrow> match_error + (reserved \<times> registry)" where
  "take_place acc rules i made source s admin r =
     (case add acc rules i s admin r of
        Inl e \<Rightarrow> Inl e
      | Inr (False, r') \<Rightarrow>
          Inr (Refused GameNotEnterable source, if made then snd (close acc i r') else r')
      | Inr (True, r') \<Rightarrow>
          Inr (Granted i made source \<lparr>rv_match = i, rv_session = s, rv_state = Reserved\<rparr>, r'))"

definition reserve :: "(sid \<Rightarrow> int option) \<Rightarrow> (string option \<Rightarrow> mode_rules) \<Rightarrow> entry_request \<Rightarrow> sid \<Rightarrow> bool
    \<Rightarrow> registry \<Rightarrow> match_error + (reserved \<times> registry)" where
  "reserve acc rules q s admin r =
     (case inspect rules q admin r of
        Refuse e source \<Rightarrow> Inr (Refused e source, r)
      | Join i source \<Rightarrow> take_place acc rules i False source s admin r
      | Make c source \<Rightarrow>
          (case create c r of
             Inl e \<Rightarrow> Inl e
           | Inr (i, r') \<Rightarrow> take_place acc rules i True source s admin r'))"

definition held :: "reservation \<Rightarrow> registry \<Rightarrow> bool" where
  "held v r \<longleftrightarrow> (case rg_heap r (rv_match v) of Some m \<Rightarrow> rv_session v \<in> set (mt_members m) | None \<Rightarrow> False)
     \<and> rg_at r (rv_session v) = Some (rv_match v)"


definition abort :: "(sid \<Rightarrow> int option) \<Rightarrow> reservation \<Rightarrow> registry \<Rightarrow> bool \<times> reservation \<times> registry" where
  "abort acc v r =
     (if rv_state v \<noteq> Reserved then (False, v, r)
      else (True, v\<lparr>rv_state := Aborted\<rparr>, if held v r then snd (remove acc (rv_session v) r) else r))"

section \<open>The invariant\<close>

definition match_ok :: "registry \<Rightarrow> nat set \<Rightarrow> nat \<Rightarrow> a_match \<Rightarrow> bool" where
  "match_ok r X i m \<longleftrightarrow>
     mt_id m = i \<and> i < rg_next r \<and> (rg_listed r i \<longleftrightarrow> mt_state m \<noteq> Closed)
   \<and> distinct (mt_members m) \<and> distinct (mt_privileged m) \<and> set (mt_privileged m) \<subseteq> set (mt_members m)
   \<and> length (mt_privileged m) \<le> 1 \<and> ordinary m \<le> rg_max r
   \<and> (mt_state m = Closed \<longrightarrow> mt_members m = []) \<and> (i \<notin> X \<and> mt_state m = Active \<longrightarrow> mt_members m \<noteq> [])"

definition heap_ok :: "nat set \<Rightarrow> registry \<Rightarrow> bool" where
  "heap_ok X r \<longleftrightarrow> (\<forall>i m. rg_heap r i = Some m \<longrightarrow> match_ok r X i m)
     \<and> (\<forall>i. rg_listed r i \<longrightarrow> rg_heap r i \<noteq> None)"

definition places_ok :: "(sid \<Rightarrow> int option) \<Rightarrow> registry \<Rightarrow> bool" where
  "places_ok acc r \<longleftrightarrow>
     (\<forall>s i. rg_at r s = Some i \<longleftrightarrow> (\<exists>m. rg_heap r i = Some m \<and> s \<in> set (mt_members m)))
   \<and> (\<forall>a i. rg_by_account r a = Some i \<longleftrightarrow> (\<exists>s. rg_at r s = Some i \<and> acc s = Some a))
   \<and> (\<forall>s i. rg_at r s = Some i \<longrightarrow> acc s \<noteq> None)
   \<and> (\<forall>s t. rg_at r s \<noteq> None \<and> rg_at r t \<noteq> None \<and> acc s = acc t \<longrightarrow> s = t)"

definition open_public :: "registry \<Rightarrow> int \<times> string \<Rightarrow> nat set" where
  "open_public r k = {i. \<exists>m. rg_heap r i = Some m \<and> \<not> mt_private m \<and> key_of m = k
     \<and> (mt_state m = Forming \<or> mt_state m = Active)}"

definition public_ok :: "registry \<Rightarrow> bool" where
  "public_ok r \<longleftrightarrow> (\<forall>k. distinct (rg_public r k) \<and> set (rg_public r k) = open_public r k)
     \<and> (\<forall>i m. rg_heap r i = Some m \<longrightarrow> mt_state m \<noteq> Failed)"

definition registry_ok :: "(sid \<Rightarrow> int option) \<Rightarrow> nat set \<Rightarrow> registry \<Rightarrow> bool" where
  "registry_ok acc X r \<longleftrightarrow> heap_ok X r \<and> places_ok acc r \<and> public_ok r"

lemma put_match_simps [simp]:
  "rg_heap (put_match m r) = (rg_heap r)(mt_id m \<mapsto> m)" "rg_at (put_match m r) = rg_at r"
  "rg_by_account (put_match m r) = rg_by_account r" "rg_public (put_match m r) = rg_public r"
  "rg_listed (put_match m r) = rg_listed r" "rg_next (put_match m r) = rg_next r"
  "rg_max (put_match m r) = rg_max r" "rg_floor_zero_only (put_match m r) = rg_floor_zero_only r"
  by (simp_all add: put_match_def)

lemma unlist_public_simps [simp]:
  "rg_heap (unlist_public m r) = rg_heap r" "rg_at (unlist_public m r) = rg_at r"
  "rg_by_account (unlist_public m r) = rg_by_account r"
  "rg_public (unlist_public m r) k
     = (if \<not> mt_private m \<and> k = key_of m then removeAll (mt_id m) (rg_public r k) else rg_public r k)"
  "rg_listed (unlist_public m r) = rg_listed r" "rg_next (unlist_public m r) = rg_next r"
  "rg_max (unlist_public m r) = rg_max r"
  by (simp_all add: unlist_public_def)

lemma without_accounts_at:
  "without_accounts acc i ss by a
   = (if by a = Some i \<and> (\<exists>s\<in>set ss. acc s = Some a) then None else by a)"
  by (induction acc i ss "by" rule: without_accounts.induct) (auto split: option.splits if_splits)

lemma heap_okD: "heap_ok X r \<Longrightarrow> rg_heap r i = Some m \<Longrightarrow> match_ok r X i m"
  by (simp add: heap_ok_def)

lemma atD:
  assumes "places_ok acc r" "rg_at r s = Some i"
  shows "\<exists>m. rg_heap r i = Some m \<and> s \<in> set (mt_members m)" "\<exists>a. acc s = Some a \<and> rg_by_account r a = Some i"
  using assms unfolding places_ok_def by blast+

lemma members_at:
  assumes "places_ok acc r" "rg_heap r i = Some m"
  shows "s \<in> set (mt_members m) \<longleftrightarrow> rg_at r s = Some i"
proof -
  have "rg_at r s = Some i \<longleftrightarrow> (\<exists>m. rg_heap r i = Some m \<and> s \<in> set (mt_members m))"
    using assms(1) unfolding places_ok_def by blast
  then show ?thesis using assms(2) by auto
qed

section \<open>Every operation keeps it\<close>

lemma public_removed:
  assumes ok: "public_ok r"
    and pub: "\<And>k. rg_public t k = (if \<not> mt_private m \<and> k = key_of m then removeAll i (rg_public r k) else rg_public r k)"
    and gone: "\<And>k. open_public t k = open_public r k - {i}"
    and key: "\<And>k. i \<in> open_public r k \<Longrightarrow> \<not> mt_private m \<and> k = key_of m"
    and live: "\<And>j x. rg_heap t j = Some x \<Longrightarrow> mt_state x \<noteq> Failed"
  shows "public_ok t"
  unfolding public_ok_def
proof (intro conjI allI impI)
  fix k
  have k: "distinct (rg_public r k)" "set (rg_public r k) = open_public r k"
    using ok by (simp_all add: public_ok_def del: split_paired_All)
  show "distinct (rg_public t k)" unfolding pub using k(1) by (auto simp: distinct_removeAll)
  show "set (rg_public t k) = open_public t k" using k key [of k] by (auto simp: pub gone)
qed (use live in auto)

lemma create_ok:
  assumes ok: "registry_ok acc {} r" and "create q r = Inr (i, r')"
  shows "registry_ok acc {} r'" "i = rg_next r" "rg_heap r' i = Some (new_match i q)" "rg_heap r i = None"
    "rg_at r' = rg_at r" "rg_by_account r' = rg_by_account r" "\<And>j. j \<noteq> i \<Longrightarrow> rg_heap r' j = rg_heap r j"
proof -
  let ?m = "new_match (rg_next r) q"
  have i: "i = rg_next r" and r': "r' = (put_match ?m r)\<lparr>rg_next := rg_next r + 1,
      rg_listed := (rg_listed r)(rg_next r := True),
      rg_public := (if mt_private ?m then rg_public r
                    else (rg_public r)(key_of ?m := rg_public r (key_of ?m) @ [rg_next r]))\<rparr>"
    using assms(2) by (auto simp: create_def Let_def split: if_splits)
  have id: "mt_id ?m = rg_next r" by (simp add: new_match_def)
  have fresh: "rg_heap r (rg_next r) = None"
    using ok by (cases "rg_heap r (rg_next r)") (auto simp: registry_ok_def heap_ok_def match_ok_def)
  then have unlisted: "\<not> rg_listed r (rg_next r)" using ok by (auto simp: registry_ok_def heap_ok_def)
  show "i = rg_next r" "rg_heap r i = None" "rg_heap r' i = Some (new_match i q)"
    "rg_at r' = rg_at r" "rg_by_account r' = rg_by_account r" "\<And>j. j \<noteq> i \<Longrightarrow> rg_heap r' j = rg_heap r j"
    using fresh by (simp_all add: i r' id)
  have "heap_ok {} r'"
    using ok unlisted fresh
    by (auto simp: registry_ok_def heap_ok_def match_ok_def r' id less_Suc_eq)
       (auto simp: new_match_def ordinary_def)
  moreover have "places_ok acc r'"
    using ok fresh unfolding registry_ok_def places_ok_def by (auto simp: r' id new_match_def)
  moreover have "public_ok r'"
  proof -
    have opened: "open_public r' k = open_public r k \<union> (if \<not> mt_private ?m \<and> key_of ?m = k then {rg_next r} else {})" for k
      using fresh by (auto simp: open_public_def r' id new_match_def)
    have new: "rg_next r \<notin> open_public r k" for k using fresh by (simp add: open_public_def)
    have listed: "rg_public r' k = rg_public r k @ (if \<not> mt_private ?m \<and> key_of ?m = k then [rg_next r] else [])" for k
      by (simp add: r')
    show ?thesis
      unfolding public_ok_def
    proof (intro conjI allI impI)
      fix k
      have "distinct (rg_public r k)" "set (rg_public r k) = open_public r k"
        using ok by (simp_all add: registry_ok_def public_ok_def del: split_paired_All)
      then show "distinct (rg_public r' k)" "set (rg_public r' k) = open_public r' k"
        using new [of k] by (auto simp: listed opened)
    next
      fix j m assume "rg_heap r' j = Some m"
      then show "mt_state m \<noteq> Failed"
        using ok by (auto simp: registry_ok_def public_ok_def r' id new_match_def split: if_splits)
    qed
  qed
  ultimately show "registry_ok acc {} r'" by (simp add: registry_ok_def)
qed

lemma close_ok:
  assumes ok: "registry_ok acc {i} r"
  shows "registry_ok acc {} (snd (close acc i r))"
proof (cases "\<exists>m. rg_heap r i = Some m \<and> mt_state m \<noteq> Closed")
  case False
  then have "snd (close acc i r) = r" by (auto simp: close_def split: option.splits)
  moreover have "heap_ok {} r"
    unfolding heap_ok_def
  proof (intro conjI allI impI)
    fix j m assume "rg_heap r j = Some m"
    then show "match_ok r {} j m"
      using heap_okD [of "{i}" r j m] False ok by (cases "j = i") (auto simp: match_ok_def registry_ok_def)
  next
    fix j assume "rg_listed r j"
    then show "rg_heap r j \<noteq> None" using ok by (simp add: registry_ok_def heap_ok_def)
  qed
  ultimately show ?thesis using ok by (simp add: registry_ok_def)
next
  case True
  then obtain m where m: "rg_heap r i = Some m" "mt_state m \<noteq> Closed" by blast
  note mok = heap_okD [of "{i}" r, OF _ m(1)] 
  have id: "mt_id m = i" using mok ok by (simp add: registry_ok_def match_ok_def)
  let ?m = "m\<lparr>mt_state := Closed, mt_timer := False, mt_members := [], mt_privileged := []\<rparr>"
  let ?t = "snd (close acc i r)"
  have t: "rg_heap ?t = (rg_heap r)(i \<mapsto> ?m)" "rg_listed ?t = (rg_listed r)(i := False)"
    "rg_by_account ?t = without_accounts acc i (mt_members m) (rg_by_account r)"
    "rg_at ?t = (\<lambda>s. if s \<in> set (mt_members m) \<and> rg_at r s = Some i then None else rg_at r s)"
    "rg_next ?t = rg_next r" "rg_max ?t = rg_max r"
    "rg_public ?t k = (if \<not> mt_private m \<and> k = key_of m then removeAll i (rg_public r k) else rg_public r k)" for k
    using m by (simp_all add: close_def id)
  have "heap_ok {} ?t"
    using ok m unfolding registry_ok_def heap_ok_def t
    by (auto simp: match_ok_def t ordinary_def id split: if_splits)
  moreover have "places_ok acc ?t"
  proof -
    have mem: "s \<in> set (mt_members m) \<longleftrightarrow> rg_at r s = Some i" for s
      using ok members_at m(1) by (auto simp: registry_ok_def)
    then have at: "rg_at ?t s = Some j \<longleftrightarrow> rg_at r s = Some j \<and> j \<noteq> i" for s j
      by (auto simp: t)
    have idx: "\<exists>s\<in>set (mt_members m). acc s = Some a" if "rg_by_account r a = Some i" for a
      using ok that mem unfolding registry_ok_def places_ok_def by blast
    have acct: "rg_by_account ?t a = Some j \<longleftrightarrow> rg_by_account r a = Some j \<and> j \<noteq> i" for a j
      using idx [of a] by (auto simp: t without_accounts_at)
    have pl: "places_ok acc r" using ok by (simp add: registry_ok_def)
    show ?thesis
      unfolding places_ok_def
    proof (intro conjI allI impI)
      fix s j
      show "(rg_at ?t s = Some j) = (\<exists>x. rg_heap ?t j = Some x \<and> s \<in> set (mt_members x))"
        using pl unfolding at places_ok_def t(1) by (cases "j = i") auto
    next
      fix a j
      show "(rg_by_account ?t a = Some j) = (\<exists>s. rg_at ?t s = Some j \<and> acc s = Some a)"
        using pl unfolding at acct places_ok_def by blast
    next
      fix s j assume "rg_at ?t s = Some j"
      then show "acc s \<noteq> None" using pl unfolding at places_ok_def by blast
    next
      fix s u assume "rg_at ?t s \<noteq> None \<and> rg_at ?t u \<noteq> None \<and> acc s = acc u"
      then have "rg_at r s \<noteq> None \<and> rg_at r u \<noteq> None \<and> acc s = acc u" using at by auto
      then show "s = u" using pl unfolding places_ok_def by blast
    qed
  qed
  moreover have "public_ok ?t"
  proof -
    have "open_public ?t k = open_public r k - {i}" for k
      by (auto simp: open_public_def t(1))
    moreover have "i \<in> open_public r k \<Longrightarrow> \<not> mt_private m \<and> k = key_of m" for k
      using m by (auto simp: open_public_def)
    moreover have "rg_heap ?t j = Some x \<Longrightarrow> mt_state x \<noteq> Failed" for j x
      using ok by (auto simp: registry_ok_def public_ok_def t(1) split: if_splits)
    ultimately show ?thesis
      using ok by (intro public_removed [of r ?t m i]) (simp_all add: registry_ok_def t)
  qed
  ultimately show ?thesis by (simp add: registry_ok_def)
qed

lemma finish_ok:
  assumes ok: "registry_ok acc {} r"
  shows "registry_ok acc {} (snd (finish i r))"
proof (cases "\<exists>m. rg_heap r i = Some m \<and> mt_state m \<noteq> Closed \<and> mt_state m \<noteq> Finished")
  case False
  then have "snd (finish i r) = r" by (auto simp: finish_def split: option.splits)
  then show ?thesis using ok by simp
next
  case True
  then obtain m where m: "rg_heap r i = Some m" "mt_state m \<noteq> Closed" "mt_state m \<noteq> Finished" by blast
  have id: "mt_id m = i" using ok m(1) by (simp add: registry_ok_def heap_ok_def match_ok_def)
  let ?m = "m\<lparr>mt_state := Finished, mt_timer := (0 < rg_ttl r \<or> mt_timer m)\<rparr>"
  let ?t = "snd (finish i r)"
  have t: "rg_heap ?t = (rg_heap r)(i \<mapsto> ?m)" "rg_listed ?t = rg_listed r" "rg_by_account ?t = rg_by_account r"
    "rg_at ?t = rg_at r" "rg_next ?t = rg_next r" "rg_max ?t = rg_max r"
    "rg_public ?t k = (if \<not> mt_private m \<and> k = key_of m then removeAll i (rg_public r k) else rg_public r k)" for k
    using m by (simp_all add: finish_def id key_of_def)
  have "heap_ok {} ?t"
    using ok m unfolding registry_ok_def heap_ok_def t
    by (auto simp: match_ok_def t ordinary_def id split: if_splits)
  moreover have "places_ok acc ?t"
    using ok m(1) unfolding registry_ok_def places_ok_def t by auto
  moreover have "public_ok ?t"
  proof -
    have "open_public ?t k = open_public r k - {i}" for k by (auto simp: open_public_def t(1))
    moreover have "i \<in> open_public r k \<Longrightarrow> \<not> mt_private m \<and> k = key_of m" for k
      using m by (auto simp: open_public_def)
    moreover have "rg_heap ?t j = Some x \<Longrightarrow> mt_state x \<noteq> Failed" for j x
      using ok by (auto simp: registry_ok_def public_ok_def t(1) split: if_splits)
    ultimately show ?thesis
      using ok by (intro public_removed [of r ?t m i]) (simp_all add: registry_ok_def t)
  qed
  ultimately show ?thesis by (simp add: registry_ok_def)
qed

text \<open>Rewriting a match without touching its members, listing or openness.\<close>

lemma same_match_ok:
  assumes ok: "registry_ok acc X r" and m: "rg_heap r i = Some m"
    and same: "mt_id m' = i" "mt_members m' = mt_members m" "mt_state m' = mt_state m"
      "mt_private m' = mt_private m" "key_of m' = key_of m"
    and priv: "distinct (mt_privileged m')" "set (mt_privileged m') \<subseteq> set (mt_members m)"
      "length (mt_privileged m) \<le> length (mt_privileged m')" "length (mt_privileged m') \<le> 1"
  shows "registry_ok acc X (put_match m' r)"
proof -
  have "heap_ok X (put_match m' r)"
    using ok m same priv unfolding registry_ok_def heap_ok_def
    by (auto simp: match_ok_def ordinary_def split: if_splits) (meson diff_le_mono2 le_trans)+
  moreover have "places_ok acc (put_match m' r)"
    using ok m same unfolding registry_ok_def places_ok_def by auto
  moreover have "open_public (put_match m' r) k = open_public r k" for k
    using m same by (auto simp: open_public_def)
  then have "public_ok (put_match m' r)"
    using ok m same by (auto simp: registry_ok_def public_ok_def)
  ultimately show ?thesis by (simp add: registry_ok_def)
qed

lemma expire_ok: "registry_ok acc {} r \<Longrightarrow> registry_ok acc {} (snd (expire acc i r))"
proof -
  assume ok: "registry_ok acc {} r"
  then have "registry_ok acc {i} r" by (auto simp: registry_ok_def heap_ok_def match_ok_def)
  note closed = close_ok [OF this]
  show ?thesis
  proof (cases "rg_heap r i")
    case (Some m)
    then have mok: "match_ok r {} i m" using ok by (simp add: registry_ok_def heap_ok_def)
    then have "registry_ok acc {} (put_match (m\<lparr>mt_timer := True\<rparr>) r)"
      using same_match_ok [OF ok Some, of "m\<lparr>mt_timer := True\<rparr>"] by (simp add: match_ok_def key_of_def)
    then show ?thesis using Some closed ok by (simp add: expire_def)
  qed (simp add: expire_def ok)
qed

lemma relax_ok: "registry_ok acc {} r \<Longrightarrow> registry_ok acc X r"
  by (auto simp: registry_ok_def heap_ok_def match_ok_def)

lemma enter_ok:
  assumes ok: "registry_ok acc X r" and X: "X \<subseteq> {i}" and m: "rg_heap r i = Some m" and can: "can_join rules r m pub admin"
    and a: "acc s = Some a" "rg_by_account r a = None"
  shows "registry_ok acc {} (enter acc m s admin a r)"
proof -
  have mok: "match_ok r X i m" using ok m by (simp add: registry_ok_def heap_ok_def)
  have nowhere: "rg_at r s = None"
    using ok a atD(2) [of acc r s] by (cases "rg_at r s") (fastforce simp: registry_ok_def)+
  then have out: "s \<notin> set (mt_members m)" using ok nowhere members_at [OF _ m, of acc s] by (simp add: registry_ok_def)
  then have outp: "s \<notin> set (mt_privileged m)" using mok by (auto simp: match_ok_def)
  have state: "mt_state m = Forming \<or> mt_state m = Active" using can by (auto simp: can_join_def split: if_splits)
  have id: "mt_id m = i" using mok by (simp add: match_ok_def)
  let ?m = "m\<lparr>mt_members := mt_members m @ [s],
              mt_privileged := (if admin then mt_privileged m @ [s] else mt_privileged m), mt_state := Active\<rparr>"
  let ?t = "enter acc m s admin a r"
  have t: "rg_heap ?t = (rg_heap r)(i \<mapsto> ?m)" "rg_listed ?t = rg_listed r"
    "rg_by_account ?t = (rg_by_account r)(a \<mapsto> i)" "rg_at ?t = (rg_at r)(s \<mapsto> i)"
    "rg_next ?t = rg_next r" "rg_max ?t = rg_max r" "rg_public ?t = rg_public r"
    using out outp by (simp_all add: enter_def id set_add_def)
  have priv_le: "length (mt_privileged m) \<le> length (mt_members m)"
    using mok by (metis card_mono distinct_card List.finite_set match_ok_def)
  have adm: "admin \<Longrightarrow> mt_privileged m = []"
    using can by (cases "mt_privileged m") (auto simp: can_join_def split: if_splits)
  have room: "ordinary ?m \<le> rg_max r"
    using can mok priv_le adm by (cases admin) (auto simp: can_join_def ordinary_def match_ok_def split: if_splits)
  have "match_ok ?t {} i ?m"
    unfolding match_ok_def t(2,5,6)
    using mok adm room out outp state by (cases admin) (auto simp: match_ok_def)
  then have "heap_ok {} ?t"
    using ok X unfolding registry_ok_def heap_ok_def
    by (auto simp: t match_ok_def split: if_splits) 
  moreover have "places_ok acc ?t"
  proof -
    have pl: "places_ok acc r" using ok by (simp add: registry_ok_def)
    have at: "rg_at ?t u = Some j \<longleftrightarrow> rg_at r u = Some j \<or> (u = s \<and> j = i)" for u j
      using nowhere by (auto simp: t)
    have acct: "rg_by_account ?t b = Some j \<longleftrightarrow> rg_by_account r b = Some j \<or> (b = a \<and> j = i)" for b j
      using a by (auto simp: t)
    have other: "acc u \<noteq> acc s" if "rg_at r u \<noteq> None" for u
      using atD(2) [OF pl] that a by fastforce
    show ?thesis
      unfolding places_ok_def
    proof (intro conjI allI impI)
      fix u j
      show "(rg_at ?t u = Some j) = (\<exists>x. rg_heap ?t j = Some x \<and> u \<in> set (mt_members x))"
        unfolding at t(1) using members_at [OF pl m, of u] pl [unfolded places_ok_def]
        by (cases "j = i") auto
    next
      fix b j
      show "(rg_by_account ?t b = Some j) = (\<exists>u. rg_at ?t u = Some j \<and> acc u = Some b)"
        using pl a(1) unfolding at acct places_ok_def by auto
    next
      fix u j assume "rg_at ?t u = Some j"
      then have "rg_at r u = Some j \<or> u = s" using at by blast
      then show "acc u \<noteq> None" using atD(2) [OF pl] a(1) by fastforce
    next
      fix u v assume "rg_at ?t u \<noteq> None \<and> rg_at ?t v \<noteq> None \<and> acc u = acc v"
      then have "(rg_at r u \<noteq> None \<or> u = s) \<and> (rg_at r v \<noteq> None \<or> v = s) \<and> acc u = acc v"
        using at by auto
      then show "u = v" using pl other unfolding places_ok_def by metis
    qed
  qed
  moreover have "open_public ?t k = open_public r k" for k
    using m state by (auto simp: open_public_def t(1) key_of_def)
  then have "public_ok ?t"
    using ok by (auto simp: registry_ok_def public_ok_def t)
  ultimately show ?thesis by (simp add: registry_ok_def)
qed

lemma add_ok:
  assumes ok: "registry_ok acc X r" and X: "X \<subseteq> {i}" "X = {} \<or> rg_by_account r (the (acc s)) = None"
    and "add acc rules i s admin r = Inr (True, r')"
  shows "registry_ok acc {} r'"
proof -
  from assms(4) obtain m a where m: "rg_heap r i = Some m" and can: "can_join rules r m False admin"
    and a: "acc s = Some a"
    by (auto simp: add_def split: option.splits if_splits)
  show ?thesis
  proof (cases "rg_by_account r a")
    case None
    then show ?thesis using assms(4) m can a enter_ok [OF ok X(1) m can a None] by (simp add: add_def)
  next
    case (Some j)
    with X(2) a have "X = {}" by auto
    obtain t p where t: "rg_at r t = Some j" "acc t = Some a" "rg_heap r j = Some p" "t \<in> set (mt_members p)"
      using ok Some unfolding registry_ok_def places_ok_def by blast
    have "member_of_account acc a p = Some t"
    proof (cases "member_of_account acc a p")
      case None
      then show ?thesis using t by (simp add: member_of_account_def)
    next
      case (Some u)
      then have "u \<in> set (mt_members p)" "acc u = Some a"
        by (auto simp: member_of_account_def dest: find_row_Some)
      then have "rg_at r u = Some j" using ok t(3) members_at by (auto simp: registry_ok_def)
      then have "u = t" using ok t(1,2) \<open>acc u = Some a\<close> unfolding registry_ok_def places_ok_def
        by (metis option.distinct(1))
      then show ?thesis using Some by simp
    qed
    then have same: "t = s" "j = i" and r': "r' = (if admin then put_match (m\<lparr>mt_privileged := set_add s (mt_privileged m)\<rparr>) r else r)"
      using assms(4) m can a Some t(3) by (auto simp: add_def split: if_splits)
    have mok: "match_ok r {} i m" using ok \<open>X = {}\<close> m by (simp add: registry_ok_def heap_ok_def)
    have "admin \<Longrightarrow> mt_privileged m = []"
      using can by (cases "mt_privileged m") (auto simp: can_join_def split: if_splits)
    moreover have "s \<in> set (mt_members m)" using t same m by simp
    ultimately show ?thesis
      using r' ok \<open>X = {}\<close> mok same_match_ok [OF ok m, of "m\<lparr>mt_privileged := set_add s (mt_privileged m)\<rparr>"]
      by (auto simp: match_ok_def key_of_def set_add_def)
  qed
qed

lemma add_refused: "add acc rules i s admin r = Inr (False, r') \<Longrightarrow> r' = r"
  by (auto simp: add_def split: option.splits if_splits)

lemma remove_somewhere:
  assumes "rg_at r s = Some i" "rg_heap r i = Some m" "places_ok acc r"
  shows "remove acc s r =
    (let m' = m\<lparr>mt_members := removeAll s (mt_members m), mt_privileged := removeAll s (mt_privileged m)\<rparr>;
         r' = (put_match m' r)\<lparr>rg_by_account := (rg_by_account r)(the (acc s) := None), rg_at := (rg_at r)(s := None)\<rparr>
     in (Some i, if mt_members m' = [] then snd (close acc i r') else r'))"
  using assms atD(2) [OF assms(3,1)] by (auto simp: remove_def place_of_def Let_def)

lemma removed_ok:
  assumes ok: "registry_ok acc {} r" and at: "rg_at r s = Some i" and m: "rg_heap r i = Some m"
  defines "m' \<equiv> m\<lparr>mt_members := removeAll s (mt_members m), mt_privileged := removeAll s (mt_privileged m)\<rparr>"
  defines "r' \<equiv> (put_match m' r)\<lparr>rg_by_account := (rg_by_account r)(the (acc s) := None), rg_at := (rg_at r)(s := None)\<rparr>"
  shows "registry_ok acc {i} r'" and "mt_members m' \<noteq> [] \<Longrightarrow> registry_ok acc {} r'"
proof -
  have pl: "places_ok acc r" using ok by (simp add: registry_ok_def)
  obtain a where a: "acc s = Some a" "rg_by_account r a = Some i" using atD(2) [OF pl at] by blast
  have mok: "match_ok r {} i m" using ok m by (simp add: registry_ok_def heap_ok_def)
  have r': "rg_heap r' = (rg_heap r)(i \<mapsto> m')" "rg_at r' = (rg_at r)(s := None)"
    "rg_by_account r' = (rg_by_account r)(a := None)" "rg_public r' = rg_public r" "rg_next r' = rg_next r"
    "rg_max r' = rg_max r" "rg_listed r' = rg_listed r"
    using mok a by (simp_all add: r'_def m'_def match_ok_def)
  have smem: "s \<in> set (mt_members m)" using members_at [OF pl m] at by simp
  have len: "length (removeAll s xs) = length xs - (if s \<in> set xs then 1 else 0)" if "distinct xs" for xs
    using that by (simp add: distinct_remove1_removeAll [symmetric] length_remove1)
  have "ordinary m' \<le> ordinary m" "length (mt_privileged m') \<le> 1"
    using mok smem len [of "mt_members m"] len [of "mt_privileged m"]
    by (auto simp: ordinary_def m'_def match_ok_def split: if_splits)
  then have mok': "match_ok r' {i} i m'"
    using mok by (auto simp: match_ok_def r' m'_def distinct_removeAll)
  have others: "match_ok r' X j x" if "rg_heap r j = Some x" "j \<noteq> i" for X j x
    using ok that by (auto simp: registry_ok_def heap_ok_def match_ok_def r')
  have "heap_ok {i} r'"
    using ok mok' others by (auto simp: registry_ok_def heap_ok_def r')
  moreover have places: "places_ok acc r'"
  proof -
    have rat: "rg_at r' u = Some j \<longleftrightarrow> rg_at r u = Some j \<and> u \<noteq> s" for u j by (auto simp: r')
    have racct: "rg_by_account r' b = Some j \<longleftrightarrow> rg_by_account r b = Some j \<and> b \<noteq> a" for b j by (auto simp: r')
    have own: "acc u = Some a \<longleftrightarrow> u = s" if "rg_at r u \<noteq> None" for u
      using pl at a(1) that unfolding places_ok_def by (metis option.distinct(1))
    show ?thesis
      unfolding places_ok_def
    proof (intro conjI allI impI)
      fix u j
      show "(rg_at r' u = Some j) = (\<exists>x. rg_heap r' j = Some x \<and> u \<in> set (mt_members x))"
      proof (cases "j = i")
        case True
        then show ?thesis using members_at [OF pl m, of u] by (auto simp: rat r'(1) m'_def)
      next
        case False
        have "rg_at r u = Some j \<longleftrightarrow> (\<exists>x. rg_heap r j = Some x \<and> u \<in> set (mt_members x))"
          using pl unfolding places_ok_def by blast
        then show ?thesis using False at by (cases "u = s") (auto simp: rat r'(1))
      qed
    next
      fix b j
      show "(rg_by_account r' b = Some j) = (\<exists>u. rg_at r' u = Some j \<and> acc u = Some b)"
        unfolding rat racct using pl own a unfolding places_ok_def by (metis option.distinct(1) option.inject)
    next
      fix u j assume "rg_at r' u = Some j"
      then show "acc u \<noteq> None" using pl unfolding rat places_ok_def by blast
    next
      fix u v assume "rg_at r' u \<noteq> None \<and> rg_at r' v \<noteq> None \<and> acc u = acc v"
      then have "rg_at r u \<noteq> None \<and> rg_at r v \<noteq> None \<and> acc u = acc v" using rat by auto
      then show "u = v" using pl unfolding places_ok_def by blast
    qed
  qed
  moreover have pub: "public_ok r'"
  proof -
    have "open_public r' k = open_public r k" for k
      using m by (auto simp: open_public_def r' m'_def key_of_def)
    then show ?thesis using ok m by (auto simp: registry_ok_def public_ok_def r' m'_def)
  qed
  ultimately show "registry_ok acc {i} r'" by (simp add: registry_ok_def)
  show "registry_ok acc {} r'" if "mt_members m' \<noteq> []"
  proof -
    have "match_ok r' {} i m'" using mok' that by (auto simp: match_ok_def)
    then have "heap_ok {} r'" using ok others by (auto simp: registry_ok_def heap_ok_def r')
    with places pub show ?thesis by (simp add: registry_ok_def)
  qed
qed

lemma remove_ok:
  assumes ok: "registry_ok acc {} r"
    and "rg_at r s \<noteq> None \<or> acc s = None \<or> rg_by_account r (the (acc s)) = None"
  shows "registry_ok acc {} (snd (remove acc s r))"
proof (cases "rg_at r s")
  case None
  then have "snd (remove acc s r) = r" using assms(2) by (auto simp: remove_def place_of_def split: option.splits)
  then show ?thesis using ok by simp
next
  case (Some i)
  have pl: "places_ok acc r" using ok by (simp add: registry_ok_def)
  obtain m where m: "rg_heap r i = Some m" using atD(1) [OF pl Some] by blast
  define m' where "m' = m\<lparr>mt_members := removeAll s (mt_members m), mt_privileged := removeAll s (mt_privileged m)\<rparr>"
  define r' where "r' = (put_match m' r)\<lparr>rg_by_account := (rg_by_account r)(the (acc s) := None), rg_at := (rg_at r)(s := None)\<rparr>"
  have "snd (remove acc s r) = (if mt_members m' = [] then snd (close acc i r') else r')"
    unfolding remove_somewhere [OF Some m pl] Let_def r'_def m'_def by (simp only: snd_conv)
  moreover note removed_ok [OF ok Some m, folded m'_def, folded r'_def]
  ultimately show ?thesis using close_ok by (cases "mt_members m' = []") simp_all
qed

section \<open>Reserving, aborting and the steps\<close>

lemma take_place_ok:
  assumes ok: "registry_ok acc {} r" and "take_place acc rules i made source s admin r = Inr (out, r')"
  shows "registry_ok acc {} r'"
proof -
  have closed: "registry_ok acc {} (snd (close acc i r))" by (rule close_ok [OF relax_ok [OF ok]])
  from assms(2) consider "add acc rules i s admin r = Inr (True, r')"
    | "add acc rules i s admin r = Inr (False, r)" "r' = (if made then snd (close acc i r) else r)"
    by (auto simp: take_place_def split: sum.splits prod.splits bool.splits dest: add_refused)
  then show ?thesis
  proof cases
    case 1
    show ?thesis by (rule add_ok [OF ok _ _ 1]) simp_all
  next
    case 2
    then show ?thesis using ok closed by simp
  qed
qed

lemma reserve_ok:
  assumes ok: "registry_ok acc {} r" and "reserve acc rules q s admin r = Inr (out, r')"
  shows "registry_ok acc {} r'"
proof (cases "inspect rules q admin r")
  case (Join i source)
  then show ?thesis using assms(2) take_place_ok [OF ok] by (simp add: reserve_def)
next
  case (Make c source)
  then obtain i t where t: "create c r = Inr (i, t)" "take_place acc rules i True source s admin t = Inr (out, r')"
    using assms(2) by (auto simp: reserve_def split: sum.splits)
  show ?thesis by (rule take_place_ok [OF create_ok(1) [OF ok t(1)] t(2)])
next
  case (Refuse e source)
  then show ?thesis using assms(2) ok by (simp add: reserve_def)
qed

lemma abort_ok: "registry_ok acc {} r \<Longrightarrow> registry_ok acc {} (snd (snd (abort acc v r)))"
  by (auto simp: abort_def held_def intro!: remove_ok)

inductive registry_step :: "(sid \<Rightarrow> int option) \<Rightarrow> (string option \<Rightarrow> mode_rules) \<Rightarrow> registry \<Rightarrow> registry \<Rightarrow> bool"
  for acc rules where
  rstep_create: "create q r = Inr (i, r') \<Longrightarrow> registry_step acc rules r r'"
| rstep_finish: "registry_step acc rules r (snd (finish i r))"
| rstep_expire: "registry_step acc rules r (snd (expire acc i r))"
| rstep_close: "registry_step acc rules r (snd (close acc i r))"
| rstep_floor: "rg_heap r i = Some m \<Longrightarrow> registry_step acc rules r (put_match (m\<lparr>mt_floor := n\<rparr>) r)"
| rstep_reserve: "reserve acc rules q s admin r = Inr (out, r') \<Longrightarrow> registry_step acc rules r r'"
| rstep_abort: "registry_step acc rules r (snd (snd (abort acc v r)))"
| rstep_add: "add acc rules i s admin r = Inr (yes, r') \<Longrightarrow> registry_step acc rules r r'"
| rstep_remove: "rg_at r s \<noteq> None \<or> acc s = None \<or> rg_by_account r (the (acc s)) = None
    \<Longrightarrow> registry_step acc rules r (snd (remove acc s r))"
| rstep_evicts: "registry_step acc rules r (r\<lparr>rg_evicts := yes\<rparr>)"

lemma registry_step_ok: "registry_step acc rules r r' \<Longrightarrow> registry_ok acc {} r \<Longrightarrow> registry_ok acc {} r'"
proof (induction rule: registry_step.induct)
  case (rstep_floor r i m n)
  then have "match_ok r {} i m" by (simp add: registry_ok_def heap_ok_def)
  then show ?case
    using same_match_ok [OF rstep_floor(2,1), of "m\<lparr>mt_floor := n\<rparr>"] by (simp add: match_ok_def key_of_def)
next
  case (rstep_add i s admin r yes r')
  then show ?case
    using add_ok [OF rstep_add(2), of i s rules admin r'] by (cases yes) (auto dest: add_refused)
next
  case (rstep_evicts r yes)
  then show ?case
    by (simp add: registry_ok_def heap_ok_def match_ok_def places_ok_def public_ok_def open_public_def)
qed (auto intro: create_ok(1) finish_ok expire_ok close_ok relax_ok reserve_ok abort_ok remove_ok)

lemma new_registry_ok: "registry_ok acc {} new_registry"
  by (simp add: registry_ok_def heap_ok_def places_ok_def public_ok_def open_public_def new_registry_def)

interpretation matches: invariant_system "registry_step acc rules" "registry_ok acc {}" for acc rules
  by unfold_locales (rule registry_step_ok)

section \<open>What never changes\<close>

lemma close_max [simp]: "rg_max (snd (close acc i r)) = rg_max r"
  by (simp add: close_def split: option.splits)

lemma remove_max [simp]: "rg_max (snd (remove acc s r)) = rg_max r"
  by (simp add: remove_def Let_def split: option.splits)

lemma add_max: "add acc rules i s admin r = Inr (yes, r') \<Longrightarrow> rg_max r' = rg_max r"
  by (auto simp: add_def enter_def split: option.splits if_splits)

lemma create_max: "create q r = Inr (i, r') \<Longrightarrow> rg_max r' = rg_max r"
  by (auto simp: create_def Let_def split: if_splits)

lemma take_place_max: "take_place acc rules i made source s admin r = Inr (out, r') \<Longrightarrow> rg_max r' = rg_max r"
  by (auto simp: take_place_def dest: add_max split: sum.splits prod.splits bool.splits if_splits)

lemma reserve_max: "reserve acc rules q s admin r = Inr (out, r') \<Longrightarrow> rg_max r' = rg_max r"
  by (auto simp: reserve_def dest: take_place_max split: decision.splits sum.splits)
     (metis create_max take_place_max)

lemma registry_step_max: "registry_step acc rules r r' \<Longrightarrow> rg_max r' = rg_max r"
  by (induction rule: registry_step.induct)
     (auto simp: finish_def expire_def abort_def dest: create_max reserve_max add_max split: option.splits)

lemma registry_steps_max: "(registry_step acc rules)\<^sup>*\<^sup>* r r' \<Longrightarrow> rg_max r' = rg_max r"
  by (induction rule: rtranclp_induct) (auto dest: registry_step_max)

lemma reachable_ok: "(registry_step acc rules)\<^sup>*\<^sup>* new_registry r \<Longrightarrow> registry_ok acc {} r \<and> rg_max r = 4"
  using matches.steps_inv [OF _ new_registry_ok] registry_steps_max
  by (auto simp: new_registry_def max_dungeon_players_def)

section \<open>Properties\<close>


definition suits_public :: "(string option \<Rightarrow> mode_rules) \<Rightarrow> registry \<Rightarrow> int \<Rightarrow> string \<Rightarrow> string option \<Rightarrow> a_match \<Rightarrow> bool" where
  "suits_public rules r node grp mode m \<longleftrightarrow>
     \<not> mt_private m \<and> mt_node m = node \<and> mt_group m = grp \<and> mt_mode m = mode
   \<and> (mt_state m = Forming \<or> mt_state m = Active) \<and> md_joinable (rules (mt_mode m)) \<and> ordinary m < rg_max r
   \<and> (\<not> rg_floor_zero_only r \<or> strangers_welcome (rules (mt_mode m)) (mt_floor m))"

lemma can_join_public:
  "can_join rules r m True False \<longleftrightarrow> (mt_state m = Forming \<or> mt_state m = Active) \<and> ordinary m < rg_max r
     \<and> (\<not> rg_floor_zero_only r \<or> strangers_welcome (rules (mt_mode m)) (mt_floor m))"
  by (auto simp: can_join_def)

text \<open>Public matching offers exactly the runs it should. In every reachable registry the search
  finds a run only if it is open, not private, of the node, group and mode asked for, of a mode
  that takes people in, with room among the four, and on a floor strangers may still join; and
  when it finds none, there is none.\<close>
lemma public_search_exact:
  assumes "(registry_step acc rules)\<^sup>*\<^sup>* new_registry r" and "mode \<noteq> Some []"
  shows "case public_match rules node grp False mode r of
           Some i \<Rightarrow> \<exists>m. rg_heap r i = Some m \<and> suits_public rules r node grp mode m
         | None \<Rightarrow> \<forall>i m. rg_heap r i = Some m \<longrightarrow> \<not> suits_public rules r node grp mode m"
proof -
  have pub: "set (rg_public r (node, grp)) = open_public r (node, grp)"
    using reachable_ok [OF assms(1)] by (simp add: registry_ok_def public_ok_def)
  let ?p = "\<lambda>i. case rg_heap r i of
                 Some m \<Rightarrow> mt_mode m = (if mode = Some [] then None else mode)
                           \<and> md_joinable (rules (mt_mode m)) \<and> can_join rules r m True False
               | None \<Rightarrow> False"
  show ?thesis
  proof (cases "find_row ?p (rg_public r (node, grp))")
    case None
    then have "\<not> ?p i" if "i \<in> open_public r (node, grp)" for i using that pub by auto
    then have "\<not> suits_public rules r node grp mode m" if "rg_heap r i = Some m" for i m
      using that assms(2) by (fastforce simp: suits_public_def open_public_def key_of_def can_join_public)
    then show ?thesis using None by (simp add: public_match_def del: find_row_None)
  next
    case (Some i)
    from find_row_Some [OF Some] pub have i: "i \<in> open_public r (node, grp)" "?p i" by auto
    then obtain m where "rg_heap r i = Some m" by (auto simp: open_public_def)
    with i Some assms(2) show ?thesis
      by (auto simp: public_match_def suits_public_def open_public_def key_of_def can_join_public)
  qed
qed






lemma add_refused_make:
  "add acc rules i s admin r = Inr (False, r') \<Longrightarrow> r' = r"
  by (rule add_refused)

lemma close_fresh:
  assumes c: "create q r = Inr (i, t)" and ok: "registry_ok acc {} r"
  defines "u \<equiv> snd (close acc i t)"
  shows "rg_at u = rg_at r" "rg_by_account u = rg_by_account r" "rg_listed u = rg_listed r"
    "rg_public u = rg_public r" "j \<noteq> i \<Longrightarrow> rg_heap u j = rg_heap r j"
proof -
  note cr = create_ok [OF ok c]
  have t: "t = (put_match (new_match i q) r)\<lparr>rg_next := i + 1, rg_listed := (rg_listed r)(i := True),
      rg_public := (if mt_private (new_match i q) then rg_public r
                    else (rg_public r)(key_of (new_match i q) := rg_public r (key_of (new_match i q)) @ [i]))\<rparr>"
    using c by (auto simp: create_def Let_def split: if_splits)
  have id: "mt_id (new_match i q) = i" by (simp add: new_match_def)
  have state: "mt_state (new_match i q) = Forming" "mt_members (new_match i q) = []"
    by (simp_all add: new_match_def)
  have unlisted: "\<not> rg_listed r i"
    using ok cr(4) by (auto simp: registry_ok_def heap_ok_def)
  have absent: "i \<notin> set (rg_public r k)" for k
    using ok cr(4) by (auto simp: registry_ok_def public_ok_def open_public_def simp del: split_paired_All)
  have cl: "u = (unlist_public (new_match i q) (put_match ((new_match i q)\<lparr>mt_state := Closed, mt_timer := False,
      mt_members := [], mt_privileged := []\<rparr>) t))
        \<lparr>rg_listed := (rg_listed t)(i := False), rg_by_account := rg_by_account t,
         rg_at := rg_at t, rg_in_dungeon := rg_in_dungeon t\<rparr>"
    using cr(3) state by (simp add: u_def close_def)
  show "rg_at u = rg_at r" "rg_by_account u = rg_by_account r" using cr(5,6) by (simp_all add: cl)
  show "rg_listed u = rg_listed r" using unlisted by (auto simp: cl t fun_eq_iff)
  show "j \<noteq> i \<Longrightarrow> rg_heap u j = rg_heap r j" by (simp add: cl t id)
  show "rg_public u = rg_public r"
  proof
    fix k
    show "rg_public u k = rg_public r k"
      using absent [of k] by (auto simp: cl t id removeAll_id)
  qed
qed

text \<open>C16: A refused entry changes nothing: every session, account, listed match, public index and
  every match that existed is exactly as it was, whichever way the entry was refused.\<close>
theorem refusal_changes_nothing:
  assumes "(registry_step acc rules)\<^sup>*\<^sup>* new_registry r"
    and "reserve acc rules q s admin r = Inr (Refused e source, r')"
  shows "rg_at r' = rg_at r \<and> rg_by_account r' = rg_by_account r \<and> rg_listed r' = rg_listed r
    \<and> rg_public r' = rg_public r \<and> (\<forall>j m. rg_heap r j = Some m \<longrightarrow> rg_heap r' j = Some m)"
proof -
  have ok: "registry_ok acc {} r" using reachable_ok [OF assms(1)] ..
  show ?thesis
  proof (cases "inspect rules q admin r")
    case (Join i src)
    then have "r' = r"
      using assms(2) by (auto simp: reserve_def take_place_def dest: add_refused split: sum.splits prod.splits bool.splits)
    then show ?thesis by simp
  next
    case (Make c src)
    then obtain i t where c: "create c r = Inr (i, t)"
      and t: "take_place acc rules i True src s admin t = Inr (Refused e source, r')"
      using assms(2) by (auto simp: reserve_def split: sum.splits)
    from t have "r' = snd (close acc i t)"
      by (auto simp: take_place_def dest: add_refused split: sum.splits prod.splits bool.splits)
    moreover have "rg_heap r i = None" by (rule create_ok(4) [OF ok c])
    ultimately show ?thesis using close_fresh [OF c ok] by (metis option.distinct(1))
  next
    case (Refuse e' src)
    then show ?thesis using assms(2) by (simp add: reserve_def)
  qed
qed

text \<open>Following a friend never starts another run. An entry that names a friend or a match is
  only ever joined to that match or refused; when it follows a friend it is joined to a match
  that a session of that friend is a member of, that is open, and has room, and only with the
  content completed or as an administrator.\<close>
lemma friend_is_followed:
  assumes "(registry_step acc rules)\<^sup>*\<^sup>* new_registry r" and "er_friend q \<noteq> 0 \<or> er_map q \<noteq> 0"
  shows "case inspect rules q admin r of
      Make c source \<Rightarrow> False
    | Refuse e source \<Rightarrow> True
    | Join i source \<Rightarrow>
        (\<exists>m. rg_heap r i = Some m \<and> (mt_state m = Forming \<or> mt_state m = Active)
           \<and> (admin \<or> er_eligible q \<and> ordinary m < 4)
           \<and> (er_map q \<noteq> 0 \<longrightarrow> i = er_map q)
           \<and> (er_map q = 0 \<longrightarrow> (\<exists>t. acc t = Some (er_friend q) \<and> t \<in> set (mt_members m))))"
proof (cases "explicit_target rules (er_friend q) (er_map q) r")
  case None
  then show ?thesis using assms(2) by (simp add: inspect_def)
next
  case (Some m)
  note reach = reachable_ok [OF assms(1)]
  then have pl: "places_ok acc r" by (simp add: registry_ok_def)
  have heap: "rg_heap r (mt_id m) = Some m"
    "er_map q \<noteq> 0 \<Longrightarrow> mt_id m = er_map q"
    "er_map q = 0 \<Longrightarrow> rg_by_account r (er_friend q) = Some (mt_id m)"
    using Some reach unfolding registry_ok_def heap_ok_def match_ok_def
    by (auto simp: explicit_target_def split: option.splits if_splits)
  have friend: "\<exists>t. acc t = Some (er_friend q) \<and> t \<in> set (mt_members m)" if own: "er_map q = 0"
  proof -
    obtain t where "rg_at r t = Some (mt_id m)" "acc t = Some (er_friend q)"
      using pl heap(3) [OF own] unfolding places_ok_def by blast
    then show ?thesis using members_at [OF pl heap(1)] by blast
  qed
  show ?thesis
  proof (cases "\<not> admin \<and> \<not> er_eligible q \<or> \<not> can_join rules r m False admin")
    case True
    then show ?thesis using Some by (auto simp: inspect_def Let_def)
  next
    case False
    then have "mt_state m = Forming \<or> mt_state m = Active" "admin \<or> er_eligible q \<and> ordinary m < 4"
      using reach by (auto simp: can_join_def split: if_splits)
    then show ?thesis using Some False heap friend by (simp add: inspect_def Let_def)
  qed
qed

section \<open>A registry on which the properties are applied\<close>

definition demo_account :: "sid \<Rightarrow> int option" where
  "demo_account s = (if s = 1 then Some 7 else if s = 2 then Some 7 else if s = 3 then Some 9 else None)"

definition demo_modes :: "string option \<Rightarrow> mode_rules" where
  "demo_modes = rules_of_mode (\<lambda>_. None)"

definition demo_request :: entry_request where
  "demo_request = \<lparr>er_node = 50, er_friend = 0, er_map = 0, er_friend_only = False, er_group = [],
     er_eligible = True, er_mode = None\<rparr>"

definition demo_entered :: "reserved \<times> registry" where
  "demo_entered = projr (reserve demo_account demo_modes demo_request 2 False new_registry)"

lemmas matches_ops = reserve_def inspect_def explicit_target_def public_match_def create_def new_match_def
  take_place_def add_def can_join_def enter_def put_match_def set_add_def key_of_def ordinary_def
  strangers_welcome_def rules_of_mode_def stock_rules_def demo_modes_def demo_request_def demo_account_def
  new_registry_def max_dungeon_players_def Let_def

lemma demo_entered_eq: "reserve demo_account demo_modes demo_request 2 False new_registry = Inr demo_entered"
  unfolding demo_entered_def by (simp add: matches_ops)

definition demo_place :: reservation where
  "demo_place = \<lparr>rv_match = 1, rv_session = 2, rv_state = Reserved\<rparr>"

lemma demo_granted: "fst demo_entered = Granted 1 True Public demo_place"
  unfolding demo_entered_def by (simp add: matches_ops demo_place_def)

lemma demo_entered_pair:
  "reserve demo_account demo_modes demo_request 2 False new_registry
   = Inr (Granted 1 True Public demo_place, snd demo_entered)"
  unfolding demo_granted [symmetric] prod.collapse by (rule demo_entered_eq)

lemma demo_reach: "(registry_step demo_account demo_modes)\<^sup>*\<^sup>* new_registry (snd demo_entered)"
  by (rule r_into_rtranclp, rule rstep_reserve [OF demo_entered_pair])

lemma demo_match:
  "\<exists>m. rg_heap (snd demo_entered) 1 = Some m \<and> mt_members m = [2] \<and> suits_public demo_modes (snd demo_entered) 50 [] None m"
  "rg_by_account (snd demo_entered) 7 = Some 1" "rg_at (snd demo_entered) 2 = Some 1"
  unfolding demo_entered_def by (simp_all add: matches_ops suits_public_def)


lemma public_search_exact_witness:
  "public_match demo_modes 50 [] False None (snd demo_entered) \<noteq> None"
  using public_search_exact [OF demo_reach, of None 50 "[]"] demo_match(1) by (auto split: option.splits)


lemma refusal_changes_nothing_witness:
  "\<exists>r'. reserve demo_account demo_modes demo_request 1 False (snd demo_entered) = Inr (Refused GameNotEnterable Public, r')
     \<and> rg_at r' = rg_at (snd demo_entered)"
proof -
  have "reserve demo_account demo_modes demo_request 1 False (snd demo_entered)
      = Inr (Refused GameNotEnterable Public, snd demo_entered)"
    unfolding demo_entered_def by (simp add: matches_ops member_of_account_def)
  with refusal_changes_nothing [OF demo_reach this] show ?thesis by blast
qed

lemma friend_is_followed_witness:
  "inspect demo_modes (demo_request\<lparr>er_friend := 7\<rparr>) False (snd demo_entered) = Join 1 ByFriend
   \<and> (\<exists>m t. rg_heap (snd demo_entered) 1 = Some m \<and> demo_account t = Some 7 \<and> t \<in> set (mt_members m))"
proof -
  have "inspect demo_modes (demo_request\<lparr>er_friend := 7\<rparr>) False (snd demo_entered) = Join 1 ByFriend"
    unfolding demo_entered_def by (simp add: matches_ops)
  moreover have "er_map (demo_request\<lparr>er_friend := 7\<rparr>) = 0" "er_friend (demo_request\<lparr>er_friend := 7\<rparr>) = 7"
    by (simp_all add: demo_request_def)
  ultimately show ?thesis
    using friend_is_followed [OF demo_reach, of "demo_request\<lparr>er_friend := 7\<rparr>" False] by auto
qed

text \<open>
  What the guard of \<open>rstep_remove\<close> is for. \<open>remove\<close> falls back on the account when the session
  itself holds no place; so when a displaced connection's teardown runs once more after the
  account's new connection has entered a run (its socket's own close event), the account is
  dropped from the index while its new session stays a member. Nobody can follow that player
  any more, and another session of the account is let in beside the first.
\<close>

definition demo_late_close :: registry where
  "demo_late_close = snd (remove demo_account 1 (snd demo_entered))"

lemma late_close_unindexes:
  "rg_at demo_late_close 2 = Some 1 \<and> rg_by_account demo_late_close 7 = None
   \<and> inspect demo_modes (demo_request\<lparr>er_friend := 7\<rparr>) False demo_late_close = Refuse TargetNotFound ByFriend
   \<and> (\<exists>r'. add demo_account demo_modes 1 1 False demo_late_close = Inr (True, r')
        \<and> rg_at r' 1 = Some 1 \<and> rg_at r' 2 = Some 1)"
  unfolding demo_late_close_def demo_entered_def
  by (simp add: matches_ops remove_def place_of_def)

end
