(* ===== verification/Framing.thy ===== *)
theory Framing
  imports Prelude "HOL-Library.Word"
begin

text \<open>
  Cutting frames off the front of a byte stream, whatever the frames are. The game packets
  (\<open>Packet\<close>) and the WebSocket frames (\<open>WebSocket\<close>) are two parsers of this interface; what is
  proved here once is that how the bytes were split on their way makes no difference.
\<close>

type_synonym byte = "8 word"

datatype 'p parsed = NeedMore | Broken nat | Got 'p "byte list"

record 'p cutting =
  ct_got :: "'p list"
  ct_rest :: "byte list"
  ct_broken :: "nat option"

fun cut_frames :: "(byte list \<Rightarrow> 'p parsed) \<Rightarrow> nat \<Rightarrow> byte list \<Rightarrow> 'p cutting" where
  "cut_frames parse 0 b = \<lparr>ct_got = [], ct_rest = b, ct_broken = None\<rparr>"
| "cut_frames parse (Suc room) b =
     (case parse b of
        NeedMore \<Rightarrow> \<lparr>ct_got = [], ct_rest = b, ct_broken = None\<rparr>
      | Broken c \<Rightarrow> \<lparr>ct_got = [], ct_rest = b, ct_broken = Some c\<rparr>
      | Got p r \<Rightarrow> (let c = cut_frames parse room r in c\<lparr>ct_got := p # ct_got c\<rparr>))"

lemma cut_room: "length (ct_got (cut_frames parse room b)) \<le> room"
  by (induction parse room b rule: cut_frames.induct) (auto simp: Let_def split: parsed.splits)

text \<open>Room that was not used up makes no difference.\<close>

lemma cut_room_enough:
  "length (ct_got (cut_frames parse n b)) < m \<Longrightarrow> m \<le> n \<Longrightarrow> cut_frames parse m b = cut_frames parse n b"
proof (induction n arbitrary: b m)
  case (Suc n)
  then obtain k where k: "m = Suc k" "k \<le> n" by (cases m) auto
  show ?case
  proof (cases "parse b")
    case (Got p r)
    with Suc.prems(1) k have "length (ct_got (cut_frames parse n r)) < k" by (simp add: Let_def)
    from Suc.IH [OF this k(2)] Got k show ?thesis by simp
  qed (simp_all add: k)
qed simp

lemma cut_rest_stops:
  "ct_broken (cut_frames parse room b) = None \<Longrightarrow> length (ct_got (cut_frames parse room b)) < room
    \<Longrightarrow> parse (ct_rest (cut_frames parse room b)) = NeedMore"
  by (induction parse room b rule: cut_frames.induct) (auto simp: Let_def split: parsed.splits)

lemma cut_all:
  assumes "\<And>p. p \<in> set ps \<Longrightarrow> \<forall>t. parse (enc p @ t) = Got p t"
    and "parse t = NeedMore" and "length ps \<le> room"
  shows "cut_frames parse room (concat (map enc ps) @ t) = \<lparr>ct_got = ps, ct_rest = t, ct_broken = None\<rparr>"
  using assms
proof (induction ps arbitrary: room)
  case Nil
  then show ?case by (cases room) simp_all
next
  case (Cons p ps)
  then obtain n where n: "room = Suc n" by (cases room) auto
  have "cut_frames parse n (concat (map enc ps) @ t) = \<lparr>ct_got = ps, ct_rest = t, ct_broken = None\<rparr>"
    using Cons.prems n by (intro Cons.IH) auto
  with Cons.prems(1) [of p] show ?case by (simp add: n Let_def)
qed

text \<open>
  The interface: a frame takes bytes off the front, and a verdict on the front of the stream is
  not changed by what comes behind it.
\<close>

locale framing =
  fixes parse :: "byte list \<Rightarrow> 'p parsed"
  assumes empty_waits: "parse [] = NeedMore"
    and got_shorter: "parse b = Got p r \<Longrightarrow> length r < length b"
    and got_stable: "parse b = Got p r \<Longrightarrow> parse (b @ later) = Got p (r @ later)"
    and broken_stable: "parse b = Broken c \<Longrightarrow> parse (b @ later) = Broken c"
begin

lemma cut_later:
  "ct_broken (cut_frames parse room b) = None \<Longrightarrow>
    cut_frames parse room (b @ later) =
      (let c = cut_frames parse room b; d = cut_frames parse (room - length (ct_got c)) (ct_rest c @ later)
       in d\<lparr>ct_got := ct_got c @ ct_got d\<rparr>)"
proof (induction room arbitrary: b)
  case (Suc room)
  show ?case
  proof (cases "parse b")
    case (Got p r)
    with Suc.prems have "ct_broken (cut_frames parse room r) = None" by (simp add: Let_def)
    from Suc.IH [OF this] Got got_stable [OF Got, of later] show ?thesis by (simp add: Let_def)
  qed (use Suc.prems in \<open>simp_all add: Let_def\<close>)
qed simp

lemma cut_broken:
  "ct_broken (cut_frames parse room b) = Some c \<Longrightarrow>
    ct_got (cut_frames parse room (b @ later)) = ct_got (cut_frames parse room b)
    \<and> ct_broken (cut_frames parse room (b @ later)) = Some c"
proof (induction room arbitrary: b)
  case (Suc room)
  then show ?case
    by (cases "parse b") (auto simp: Let_def got_stable broken_stable)
qed simp

lemma cut_enough:
  "length b \<le> room \<Longrightarrow> length b \<le> room' \<Longrightarrow> cut_frames parse room b = cut_frames parse room' b"
proof (induction room arbitrary: b room')
  case 0
  then show ?case
  proof (cases room')
    case (Suc n)
    then show ?thesis using 0 by (simp add: empty_waits)
  qed simp
next
  case (Suc room)
  show ?case
  proof (cases "parse b")
    case (Got p r)
    with got_shorter have "length r < length b" by blast
    with Suc.prems obtain n where "room' = Suc n" "length r \<le> n" "length r \<le> room" by (cases room') auto
    with Suc.IH [of r n] Got show ?thesis by simp
  next
    case NeedMore
    then show ?thesis using Suc.prems by (cases room') auto
  next
    case (Broken c)
    then show ?thesis using Suc.prems by (cases room') (auto simp: empty_waits)
  qed
qed

end

end
