(* ===== verification/Packet.thy ===== *)
theory Packet
  imports Framing
begin

text \<open>
  The wire primitives of the game socket (\<open>src/socket/packet.js\<close>): the writer and reader of
  little-endian fields, and the cutting of a byte stream into length-prefixed packets. A byte is
  a \<open>8 word\<close>. A string is taken and given as the bytes \<open>Buffer\<close> encodes it to; the 32-bit float
  is not modelled.
\<close>

section \<open>Integers as bytes\<close>

fun le_bytes :: "nat \<Rightarrow> int \<Rightarrow> byte list" where
  "le_bytes 0 v = []"
| "le_bytes (Suc n) v = word_of_int v # le_bytes n (v div 256)"

fun le_value :: "byte list \<Rightarrow> int" where
  "le_value [] = 0"
| "le_value (b # bs) = uint b + 256 * le_value bs"

definition signed_value :: "nat \<Rightarrow> int \<Rightarrow> int" where
  "signed_value n v = (if v < 2 ^ (8 * n - 1) then v else v - 2 ^ (8 * n))"

text \<open>\<open>value >>> 0\<close>: the number as an unsigned 32-bit integer.\<close>

definition to_uint32 :: "int \<Rightarrow> int" where
  "to_uint32 v = v mod 2 ^ 32"

lemma length_le_bytes [simp]: "length (le_bytes n v) = n"
  by (induction n v rule: le_bytes.induct) auto

lemma le_value_bounds: "0 \<le> le_value bs \<and> le_value bs < 256 ^ length bs"
proof (induction bs)
  case (Cons b bs)
  have "uint b < 256" using uint_lt2p [of b] by simp
  with Cons show ?case by auto
qed simp

lemma le_value_bytes: "le_value (le_bytes n v) = v mod 256 ^ n"
proof (induction n v rule: le_bytes.induct)
  case (2 n v)
  have "uint (word_of_int v :: byte) = v mod 256" by (simp add: uint_word_of_int)
  with 2 show ?case by (simp add: zmod_zmult2_eq mult.commute)
qed simp

lemma le_bytes_value: "le_bytes (length bs) (le_value bs) = bs"
proof (induction bs)
  case (Cons b bs)
  have b: "0 \<le> uint b" "uint b < 256" using uint_lt2p [of b] by simp_all
  have "word_of_int (uint b + 256 * le_value bs) = (word_of_int (uint b) :: byte)"
    unfolding word_of_int_eq_iff take_bit_eq_mod by simp
  moreover have "(uint b + 256 * le_value bs) div 256 = le_value bs"
    using b by simp
  ultimately show ?case using Cons by simp
qed simp

section \<open>The writer\<close>

datatype write_error = OutOfRange | StringTooLong | FrameTooLong

type_synonym writer = "byte list list"

definition put_u8 :: "int \<Rightarrow> writer \<Rightarrow> write_error + writer" where
  "put_u8 v w = Inr (w @ [[word_of_int v]])"

definition put_ranged :: "nat \<Rightarrow> int \<Rightarrow> int \<Rightarrow> int \<Rightarrow> writer \<Rightarrow> write_error + writer" where
  "put_ranged n low high v w = (if low \<le> v \<and> v \<le> high then Inr (w @ [le_bytes n v]) else Inl OutOfRange)"

definition put_i8 :: "int \<Rightarrow> writer \<Rightarrow> write_error + writer" where
  "put_i8 v = put_ranged 1 (- 128) 127 v"

definition put_u16 :: "int \<Rightarrow> writer \<Rightarrow> write_error + writer" where
  "put_u16 v = put_ranged 2 0 65535 (to_uint32 v)"

definition put_i16 :: "int \<Rightarrow> writer \<Rightarrow> write_error + writer" where
  "put_i16 v = put_ranged 2 (- 32768) 32767 v"

definition put_u32 :: "int \<Rightarrow> writer \<Rightarrow> write_error + writer" where
  "put_u32 v = put_ranged 4 0 4294967295 (to_uint32 v)"

definition put_i32 :: "int \<Rightarrow> writer \<Rightarrow> write_error + writer" where
  "put_i32 v = put_ranged 4 (- 2147483648) 2147483647 v"

definition put_utf :: "byte list \<Rightarrow> writer \<Rightarrow> write_error + writer" where
  "put_utf bytes w =
     (if 65535 < length bytes then Inl StringTooLong
      else case put_u16 (int (length bytes)) w of Inl e \<Rightarrow> Inl e | Inr w' \<Rightarrow> Inr (w' @ [bytes]))"

definition put_raw :: "byte list \<Rightarrow> writer \<Rightarrow> write_error + writer" where
  "put_raw bytes w = Inr (w @ [bytes])"

definition new_writer :: "int option \<Rightarrow> write_error + writer" where
  "new_writer opcode = (case opcode of None \<Rightarrow> Inr [] | Some v \<Rightarrow> put_u16 v [])"

definition body :: "writer \<Rightarrow> byte list" where
  "body w = concat w"

definition frame_of :: "writer \<Rightarrow> write_error + byte list" where
  "frame_of w =
     (if 65535 < length (body w) then Inl FrameTooLong
      else Inr (le_bytes 2 (int (length (body w))) @ body w))"

section \<open>The reader\<close>

datatype read_error = Malformed nat nat

record reader =
  rd_buf :: "byte list"
  rd_pos :: nat

definition open_reader :: "byte list \<Rightarrow> reader" where
  "open_reader bytes = \<lparr>rd_buf = bytes, rd_pos = 0\<rparr>"

definition remaining :: "reader \<Rightarrow> nat" where
  "remaining r = length (rd_buf r) - rd_pos r"

definition eof :: "reader \<Rightarrow> bool" where
  "eof r \<longleftrightarrow> length (rd_buf r) \<le> rd_pos r"

definition take_bytes :: "nat \<Rightarrow> reader \<Rightarrow> read_error + (byte list \<times> reader)" where
  "take_bytes n r =
     (if remaining r < n then Inl (Malformed n (remaining r))
      else Inr (take n (drop (rd_pos r) (rd_buf r)), r\<lparr>rd_pos := rd_pos r + n\<rparr>))"

definition get_uint :: "nat \<Rightarrow> reader \<Rightarrow> read_error + (int \<times> reader)" where
  "get_uint n r = (case take_bytes n r of Inl e \<Rightarrow> Inl e | Inr (bs, r') \<Rightarrow> Inr (le_value bs, r'))"

definition get_int :: "nat \<Rightarrow> reader \<Rightarrow> read_error + (int \<times> reader)" where
  "get_int n r =
     (case take_bytes n r of Inl e \<Rightarrow> Inl e | Inr (bs, r') \<Rightarrow> Inr (signed_value n (le_value bs), r'))"

definition get_utf :: "reader \<Rightarrow> read_error + (byte list \<times> reader)" where
  "get_utf r = (case get_uint 2 r of Inl e \<Rightarrow> Inl e | Inr (n, r') \<Rightarrow> take_bytes (nat n) r')"

definition rest :: "reader \<Rightarrow> byte list" where
  "rest r = drop (rd_pos r) (rd_buf r)"

section \<open>A field at a time\<close>

text \<open>What a packet is written and read as: the fields both sides have a method for.\<close>

datatype field = U8 int | I8 int | U16 int | U32 int | I32 int | Utf "byte list"
datatype kind = KU8 | KI8 | KU16 | KU32 | KI32 | KUtf

fun kind_of :: "field \<Rightarrow> kind" where
  "kind_of (U8 v) = KU8" | "kind_of (I8 v) = KI8" | "kind_of (U16 v) = KU16"
| "kind_of (U32 v) = KU32" | "kind_of (I32 v) = KI32" | "kind_of (Utf bs) = KUtf"

fun put_field :: "field \<Rightarrow> writer \<Rightarrow> write_error + writer" where
  "put_field (U8 v) w = put_u8 v w"
| "put_field (I8 v) w = put_i8 v w"
| "put_field (U16 v) w = put_u16 v w"
| "put_field (U32 v) w = put_u32 v w"
| "put_field (I32 v) w = put_i32 v w"
| "put_field (Utf bs) w = put_utf bs w"

definition tagged :: "('a \<Rightarrow> field) \<Rightarrow> read_error + ('a \<times> reader) \<Rightarrow> read_error + (field \<times> reader)" where
  "tagged f x = (case x of Inl e \<Rightarrow> Inl e | Inr (v, r) \<Rightarrow> Inr (f v, r))"

fun get_field :: "kind \<Rightarrow> reader \<Rightarrow> read_error + (field \<times> reader)" where
  "get_field KU8 r = tagged U8 (get_uint 1 r)"
| "get_field KI8 r = tagged I8 (get_int 1 r)"
| "get_field KU16 r = tagged U16 (get_uint 2 r)"
| "get_field KU32 r = tagged U32 (get_uint 4 r)"
| "get_field KI32 r = tagged I32 (get_int 4 r)"
| "get_field KUtf r = tagged Utf (get_utf r)"

fun put_fields :: "field list \<Rightarrow> writer \<Rightarrow> write_error + writer" where
  "put_fields [] w = Inr w"
| "put_fields (f # fs) w = (case put_field f w of Inl e \<Rightarrow> Inl e | Inr w' \<Rightarrow> put_fields fs w')"

fun get_fields :: "kind list \<Rightarrow> reader \<Rightarrow> read_error + (field list \<times> reader)" where
  "get_fields [] r = Inr ([], r)"
| "get_fields (k # ks) r =
     (case get_field k r of
        Inl e \<Rightarrow> Inl e
      | Inr (f, r') \<Rightarrow> (case get_fields ks r' of Inl e \<Rightarrow> Inl e | Inr (fs, r'') \<Rightarrow> Inr (f # fs, r'')))"

text \<open>
  What a field reads back as: the writer wraps an unsigned byte and a 32-bit value, and refuses
  to wrap the others.
\<close>

fun normal :: "field \<Rightarrow> field" where
  "normal (U8 v) = U8 (v mod 256)"
| "normal (U16 v) = U16 (to_uint32 v)"
| "normal (U32 v) = U32 (to_uint32 v)"
| "normal f = f"

section \<open>Frames\<close>

definition min_frame_bytes :: nat where "min_frame_bytes = 2"
definition max_frames_per_drain :: nat where "max_frames_per_drain = 512"

definition parse_packet :: "byte list \<Rightarrow> byte list parsed" where
  "parse_packet b =
     (if length b < 2 then NeedMore
      else let n = nat (le_value (take 2 b)) in
        if n < min_frame_bytes then Broken 0
        else if length b - 2 < n then NeedMore
        else Got (take n (drop 2 b)) (drop (2 + n) b))"

record drained =
  dr_packets :: "byte list list"
  dr_rest :: "byte list"
  dr_malformed :: bool

definition drain_frames :: "byte list \<Rightarrow> drained" where
  "drain_frames buffer =
     (let c = cut_frames parse_packet max_frames_per_drain buffer
      in \<lparr>dr_packets = ct_got c, dr_rest = ct_rest c, dr_malformed = (ct_broken c \<noteq> None)\<rparr>)"

section \<open>Reading back what was written\<close>

fun field_bytes :: "field \<Rightarrow> byte list" where
  "field_bytes (U8 v) = le_bytes 1 v"
| "field_bytes (I8 v) = le_bytes 1 v"
| "field_bytes (U16 v) = le_bytes 2 (to_uint32 v)"
| "field_bytes (U32 v) = le_bytes 4 (to_uint32 v)"
| "field_bytes (I32 v) = le_bytes 4 v"
| "field_bytes (Utf bs) = le_bytes 2 (int (length bs)) @ bs"

fun fits :: "field \<Rightarrow> bool" where
  "fits (U8 v) = True"
| "fits (I8 v) = (- 128 \<le> v \<and> v \<le> 127)"
| "fits (U16 v) = (to_uint32 v \<le> 65535)"
| "fits (U32 v) = True"
| "fits (I32 v) = (- 2147483648 \<le> v \<and> v \<le> 2147483647)"
| "fits (Utf bs) = (length bs \<le> 65535)"

lemma to_uint32_bounds [simp]: "0 \<le> to_uint32 v" "to_uint32 v \<le> 4294967295"
  using pos_mod_bound [of "2 ^ 32" v] by (simp_all add: to_uint32_def)

lemma to_uint32_small [simp]: "0 \<le> v \<Longrightarrow> v \<le> 4294967295 \<Longrightarrow> to_uint32 v = v"
  by (simp add: to_uint32_def)

lemma put_ranged_Inr [simp]:
  "put_ranged n low high v w = Inr w' \<longleftrightarrow> low \<le> v \<and> v \<le> high \<and> w' = w @ [le_bytes n v]"
  by (auto simp: put_ranged_def)

lemma put_field_body_eq: "put_field f w = Inr w' \<Longrightarrow> body w' = body w @ field_bytes f \<and> fits f"
  by (cases f) (auto simp: put_u8_def put_i8_def put_u16_def put_u32_def put_i32_def put_utf_def body_def
      simp del: le_bytes.simps split: if_splits sum.splits, simp_all)

lemma put_field_fits: "fits f \<Longrightarrow> \<exists>w'. put_field f w = Inr w'"
  by (cases f) (auto simp: put_u8_def put_i8_def put_u16_def put_u32_def put_i32_def put_utf_def put_ranged_def)

lemma put_fields_body:
  "put_fields fs w = Inr w' \<Longrightarrow> body w' = body w @ concat (map field_bytes fs) \<and> list_all fits fs"
  by (induction fs w rule: put_fields.induct) (auto dest: put_field_body_eq split: sum.splits)

lemma take_bytes_at:
  assumes "rd_buf r = pre @ bs @ post" "rd_pos r = length pre" "n = length bs"
  shows "take_bytes n r = Inr (bs, r\<lparr>rd_pos := length (pre @ bs)\<rparr>)"
  using assms by (simp add: take_bytes_def remaining_def)

lemma signed_wrap:
  assumes "0 < h" "- h \<le> v" "v < (h::int)" and m: "m = 2 * h"
  shows "(if v mod m < h then v mod m else v mod m - m) = v"
proof (cases "0 \<le> v")
  case True
  have "v mod m = v" using assms True by (intro mod_pos_pos_trivial) auto
  then show ?thesis using assms by simp
next
  case False
  have "v mod m = (v + m) mod m" by simp
  also have "\<dots> = v + m" using assms False by (intro mod_pos_pos_trivial) auto
  finally show ?thesis using assms False by simp
qed

lemma signed_bytes [simp]:
  "- 128 \<le> v \<Longrightarrow> v \<le> 127 \<Longrightarrow> signed_value (Suc 0) (v mod 256) = v"
  "- 2147483648 \<le> v \<Longrightarrow> v \<le> 2147483647 \<Longrightarrow> signed_value 4 (v mod 4294967296) = v"
  using signed_wrap [of 128 v 256] signed_wrap [of 2147483648 v 4294967296]
  by (simp_all add: signed_value_def split: if_splits)

lemma to_uint32_mod [simp]: "to_uint32 v mod 4294967296 = to_uint32 v"
  by (simp add: to_uint32_def)

lemma get_field_at:
  assumes "fits f" "rd_buf r = pre @ field_bytes f @ post" "rd_pos r = length pre"
  shows "get_field (kind_of f) r = Inr (normal f, r\<lparr>rd_pos := length (pre @ field_bytes f)\<rparr>)"
proof (cases f)
  case (Utf bs)
  have "take_bytes 2 r = Inr (le_bytes 2 (int (length bs)), r\<lparr>rd_pos := length pre + 2\<rparr>)"
    using assms Utf by (subst take_bytes_at [of r pre "le_bytes 2 (int (length bs))" "bs @ post"]) auto
  moreover have "take_bytes (length bs) (r\<lparr>rd_pos := length pre + 2\<rparr>)
      = Inr (bs, r\<lparr>rd_pos := length pre + 2 + length bs\<rparr>)"
    using assms Utf by (subst take_bytes_at [of _ "pre @ le_bytes 2 (int (length bs))" bs post]) auto
  moreover have "le_value (le_bytes 2 (int (length bs))) = int (length bs)"
    using assms(1) Utf by (simp add: le_value_bytes)
  ultimately show ?thesis using Utf by (simp add: get_utf_def get_uint_def tagged_def)
qed (use assms take_bytes_at [OF assms(2,3)] in
    \<open>simp_all add: get_uint_def get_int_def tagged_def le_value_bytes mod_pos_pos_trivial del: le_bytes.simps\<close>)

lemma get_fields_at:
  "list_all fits fs \<Longrightarrow> rd_buf r = pre @ concat (map field_bytes fs) @ post \<Longrightarrow> rd_pos r = length pre
    \<Longrightarrow> get_fields (map kind_of fs) r
      = Inr (map normal fs, r\<lparr>rd_pos := length (pre @ concat (map field_bytes fs))\<rparr>)"
proof (induction fs arbitrary: r pre)
  case (Cons f fs)
  let ?r = "r\<lparr>rd_pos := length (pre @ field_bytes f)\<rparr>"
  have "get_field (kind_of f) r = Inr (normal f, ?r)"
    using Cons.prems by (intro get_field_at [where post = "concat (map field_bytes fs) @ post"]) simp_all
  moreover have "get_fields (map kind_of fs) ?r
      = Inr (map normal fs, ?r\<lparr>rd_pos := length ((pre @ field_bytes f) @ concat (map field_bytes fs))\<rparr>)"
    using Cons.prems by (intro Cons.IH) simp_all
  ultimately show ?case by simp
qed (simp add: open_reader_def)

section \<open>Cutting a stream into packets\<close>

definition frame_bytes :: "byte list \<Rightarrow> byte list" where
  "frame_bytes p = le_bytes 2 (int (length p)) @ p"

lemma frame_of_body: "frame_of w = Inr b \<longleftrightarrow> length (body w) \<le> 65535 \<and> b = frame_bytes (body w)"
  by (auto simp: frame_of_def frame_bytes_def)

lemma le_value_frame: "length p \<le> 65535 \<Longrightarrow> le_value (le_bytes 2 (int (length p))) = int (length p)"
  by (simp add: le_value_bytes)

lemma parse_frame_bytes:
  assumes "2 \<le> length p" "length p \<le> 65535"
  shows "parse_packet (frame_bytes p @ later) = Got p later"
proof -
  have "take 2 (frame_bytes p @ later) = le_bytes 2 (int (length p))" by (simp add: frame_bytes_def)
  then have n: "nat (le_value (take 2 (frame_bytes p @ later))) = length p"
    using assms by (simp add: le_value_frame)
  have "drop 2 (frame_bytes p @ later) = p @ later" "drop (2 + length p) (frame_bytes p @ later) = later"
    "length (frame_bytes p @ later) = 2 + length p + length later"
    by (simp_all add: frame_bytes_def)
  then show ?thesis using assms unfolding parse_packet_def n Let_def by (simp add: min_frame_bytes_def)
qed

lemma parse_packet_Got:
  assumes "parse_packet b = Got p r"
  shows "b = frame_bytes p @ r" "2 \<le> length p" "length p \<le> 65535"
proof -
  let ?n = "nat (le_value (take 2 b))"
  have b: "2 \<le> length b" "2 \<le> ?n" "?n \<le> length b - 2" "p = take ?n (drop 2 b)" "r = drop (2 + ?n) b"
    using assms by (auto simp: parse_packet_def Let_def min_frame_bytes_def split: if_splits)
  have two: "length (take 2 b) = 2" using b by simp
  have len: "int (length p) = le_value (take 2 b)" "length p = ?n"
    using b le_value_bounds [of "take 2 b"] by simp_all
  then have "frame_bytes p = take 2 b @ take ?n (drop 2 b)"
    using le_bytes_value [of "take 2 b"] two b(4) by (simp add: frame_bytes_def)
  also have "\<dots> = take (2 + ?n) b" by (rule take_add [symmetric])
  finally show "b = frame_bytes p @ r" using b(5) by simp
  have "le_value (take 2 b) < 65536" using le_value_bounds [of "take 2 b"] two by simp
  then show "2 \<le> length p" "length p \<le> 65535" using b(2) len by auto
qed

lemma parse_packet_stable:
  "parse_packet b = Broken c \<Longrightarrow> parse_packet (b @ later) = Broken c"
  by (auto simp: parse_packet_def Let_def split: if_splits)

interpretation packets: framing parse_packet
proof unfold_locales
  show "parse_packet [] = NeedMore" by (simp add: parse_packet_def)
next
  fix b p r assume g: "parse_packet b = Got p r"
  from parse_packet_Got [OF g] show "length r < length b" by (metis add.commute add_lessD1 frame_bytes_def
        le_less_linear length_append length_le_bytes less_add_same_cancel1 not_numeral_le_zero trans_less_add1)
  fix later
  from parse_packet_Got [OF g] show "parse_packet (b @ later) = Got p (r @ later)"
    using parse_frame_bytes by simp
next
  fix b c later assume "parse_packet b = Broken c"
  then show "parse_packet (b @ later) = Broken c" by (rule parse_packet_stable)
qed

lemma drain_lossless:
  "concat (map frame_bytes (ct_got (cut_frames parse_packet room b))) @ ct_rest (cut_frames parse_packet room b) = b
   \<and> (\<forall>p\<in>set (ct_got (cut_frames parse_packet room b)). 2 \<le> length p \<and> length p \<le> 65535)"
proof (induction room arbitrary: b)
  case (Suc room)
  then show ?case
    by (cases "parse_packet b") (auto simp: Let_def dest: parse_packet_Got)
qed simp

lemma drain_frames_fields:
  "dr_packets (drain_frames b) = ct_got (cut_frames parse_packet 512 b)"
  "dr_rest (drain_frames b) = ct_rest (cut_frames parse_packet 512 b)"
  "dr_malformed (drain_frames b) \<longleftrightarrow> ct_broken (cut_frames parse_packet 512 b) \<noteq> None"
  by (simp_all only: drain_frames_def Let_def drained.simps max_frames_per_drain_def)

lemma drain_frames_parts:
  "concat (map frame_bytes (dr_packets (drain_frames b))) @ dr_rest (drain_frames b) = b"
  "\<not> dr_malformed (drain_frames b) \<Longrightarrow> length (dr_packets (drain_frames b)) < 512
    \<Longrightarrow> parse_packet (dr_rest (drain_frames b)) = NeedMore"
  using drain_lossless [of 512 b] cut_rest_stops [of parse_packet 512 b] by (auto simp: drain_frames_fields)

section \<open>Properties\<close>

text \<open>C17: What is written is read back. Any fields the writer accepts, in any order, framed and
  drained from the front of a stream with anything behind them, come out as one packet, and
  reading the same kinds from it gives the same values, the unsigned ones reduced to their
  width, and leaves the reader at the end.\<close>
theorem packet_roundtrip:
  assumes "put_fields fs [] = Inr w" and "frame_of w = Inr b" and "2 \<le> length (body w)"
  shows "parse_packet (b @ later) = Got (body w) later
    \<and> get_fields (map kind_of fs) (open_reader (body w))
        = Inr (map normal fs, \<lparr>rd_buf = body w, rd_pos = length (body w)\<rparr>)
    \<and> eof \<lparr>rd_buf = body w, rd_pos = length (body w)\<rparr>"
proof -
  have body: "body w = concat (map field_bytes fs)" "list_all fits fs"
    using put_fields_body [OF assms(1)] by (simp_all add: body_def)
  have "get_fields (map kind_of fs) (open_reader (body w))
      = Inr (map normal fs, (open_reader (body w))\<lparr>rd_pos := length ([] @ concat (map field_bytes fs))\<rparr>)"
    using body by (intro get_fields_at [where post = "[]"]) (simp_all add: open_reader_def)
  moreover have "parse_packet (b @ later) = Got (body w) later"
    using assms(2,3) parse_frame_bytes [of "body w" later] by (simp add: frame_of_body)
  ultimately show ?thesis using body by (simp add: open_reader_def eof_def)
qed

lemma packet_roundtrip_witness:
  "\<exists>w. put_fields [U16 24, U8 300, I32 (- 5), Utf [104, 105]] [] = Inr w
     \<and> get_fields [KU16, KU8, KI32, KUtf] (open_reader (body w))
       = Inr ([U16 24, U8 44, I32 (- 5), Utf [104, 105]], \<lparr>rd_buf = body w, rd_pos = length (body w)\<rparr>)"
proof -
  let ?fs = "[U16 24, U8 300, I32 (- 5), Utf [104, 105]]"
  obtain w where w: "put_fields ?fs [] = Inr w"
    by (simp add: put_u16_def put_u8_def put_i32_def put_utf_def put_ranged_def to_uint32_def)
  have "length (body w) = 11" using put_fields_body [OF w] by (simp add: body_def)
  moreover from this have "frame_of w = Inr (frame_bytes (body w))" by (simp add: frame_of_body)
  ultimately show ?thesis using packet_roundtrip [OF w] w by (simp add: to_uint32_def)
qed

text \<open>Draining loses nothing and is bounded. Framing the packets again and appending the rest
  gives the bytes that came; at most 512 packets come out at a time, each of at least an opcode;
  if the stream was not found malformed and fewer came out, what is left is not a whole frame;
  and where the stream was cut on its way makes no difference: draining what came first, and
  then what was left with what came after it, gives the packets that draining it all gives.\<close>
lemma draining_is_exact:
  shows "concat (map frame_bytes (dr_packets (drain_frames b))) @ dr_rest (drain_frames b) = b
    \<and> length (dr_packets (drain_frames b)) \<le> 512
    \<and> (\<forall>p\<in>set (dr_packets (drain_frames b)). 2 \<le> length p \<and> length p \<le> 65535)
    \<and> (\<not> dr_malformed (drain_frames b) \<and> length (dr_packets (drain_frames b)) < 512
         \<longrightarrow> parse_packet (dr_rest (drain_frames b)) = NeedMore)
    \<and> (\<not> dr_malformed (drain_frames b)
         \<and> length (dr_packets (drain_frames b)) + length (dr_packets (drain_frames (dr_rest (drain_frames b) @ later))) < 512
         \<longrightarrow> dr_packets (drain_frames (b @ later))
             = dr_packets (drain_frames b) @ dr_packets (drain_frames (dr_rest (drain_frames b) @ later))
           \<and> dr_rest (drain_frames (b @ later)) = dr_rest (drain_frames (dr_rest (drain_frames b) @ later)))"
proof -
  let ?c = "\<lambda>n b. cut_frames parse_packet n b"
  note d = drain_frames_fields
  have "ct_got (?c 512 (b @ later)) = ct_got (?c 512 b) @ ct_got (?c 512 (ct_rest (?c 512 b) @ later))
      \<and> ct_rest (?c 512 (b @ later)) = ct_rest (?c 512 (ct_rest (?c 512 b) @ later))"
    if "ct_broken (?c 512 b) = None"
      "length (ct_got (?c 512 b)) + length (ct_got (?c 512 (ct_rest (?c 512 b) @ later))) < 512"
  proof -
    let ?m = "512 - length (ct_got (?c 512 b))"
    let ?r = "ct_rest (?c 512 b) @ later"
    have "?c ?m ?r = ?c 512 ?r" using that(2) cut_room_enough [of parse_packet 512 ?r ?m] by simp
    with packets.cut_later [OF that(1), of later] show ?thesis by (simp add: Let_def)
  qed
  then show ?thesis
    using drain_lossless [of 512 b] cut_room [of parse_packet 512 b] cut_rest_stops [of parse_packet 512 b]
    unfolding d by blast
qed

lemma draining_is_exact_witness:
  "dr_packets (drain_frames ([3, 0, 24, 0, 7, 2, 0, 5] @ [0, 9]))
     = dr_packets (drain_frames [3, 0, 24, 0, 7, 2, 0, 5])
       @ dr_packets (drain_frames (dr_rest (drain_frames [3, 0, 24, 0, 7, 2, 0, 5]) @ [0, 9]))"
proof -
  have step: "cut_frames parse_packet 512 b = (case parse_packet b of
      NeedMore \<Rightarrow> \<lparr>ct_got = [], ct_rest = b, ct_broken = None\<rparr>
    | Broken c \<Rightarrow> \<lparr>ct_got = [], ct_rest = b, ct_broken = Some c\<rparr>
    | Got p r \<Rightarrow> (let c = cut_frames parse_packet 511 r in c\<lparr>ct_got := p # ct_got c\<rparr>))" for b
    using cut_frames.simps(2) [of parse_packet 511 b] by (simp only: eval_nat_numeral BitM.simps)
  have wait: "cut_frames parse_packet 511 b = \<lparr>ct_got = [], ct_rest = b, ct_broken = None\<rparr>" if "parse_packet b = NeedMore" for b
    using cut_frames.simps(2) [of parse_packet 510 b] that by (simp only: eval_nat_numeral BitM.simps parsed.simps)
  have "parse_packet [3, 0, 24, 0, 7, 2, 0, 5] = Got [24, 0, 7] [2, 0, 5]" "parse_packet [2, 0, 5] = NeedMore"
    "parse_packet [2, 0, 5, 0, 9] = Got [5, 0] [9]" "parse_packet [9] = NeedMore"
    by (simp_all add: parse_packet_def min_frame_bytes_def)
  then have "drain_frames [3, 0, 24, 0, 7, 2, 0, 5] = \<lparr>dr_packets = [[24, 0, 7]], dr_rest = [2, 0, 5], dr_malformed = False\<rparr>"
    "dr_packets (drain_frames [2, 0, 5, 0, 9]) = [[5, 0]]"
    by (simp_all add: drain_frames_def max_frames_per_drain_def step wait Let_def)
  with draining_is_exact [of "[3, 0, 24, 0, 7, 2, 0, 5]" "[0, 9]"] show ?thesis by simp
qed

end
