(* ===== verification/WebSocket.thy ===== *)
theory WebSocket
  imports Packet
begin

text \<open>
  The game socket for a browser (\<open>src/socket/websocket.js\<close>): the frames, the chunk queue of the
  decoder with its slabs, offsets and compaction, the stream that hands the payloads to the
  session and coalesces what it writes, and the telling apart of a browser from a desktop client
  by its first bytes. Not modelled: the text of the HTTP upgrade and its answer.
\<close>

unbundle bit_operations_syntax

section \<open>Frames\<close>

definition max_frame_bytes :: nat where "max_frame_bytes = 2 ^ 20"
definition op_continuation :: byte where "op_continuation = 0"
definition op_text :: byte where "op_text = 1"
definition op_binary :: byte where "op_binary = 2"
definition op_close :: byte where "op_close = 8"
definition op_ping :: byte where "op_ping = 9"
definition op_pong :: byte where "op_pong = 10"
definition close_normal :: nat where "close_normal = 1000"
definition close_protocol_error :: nat where "close_protocol_error = 1002"
definition close_unsupported :: nat where "close_unsupported = 1003"
definition close_policy :: nat where "close_policy = 1008"
definition close_too_big :: nat where "close_too_big = 1009"

lemmas op_defs = op_continuation_def op_text_def op_binary_def op_close_def op_ping_def op_pong_def
lemmas close_defs = close_normal_def close_protocol_error_def close_unsupported_def close_policy_def
  close_too_big_def

definition be_bytes :: "nat \<Rightarrow> int \<Rightarrow> byte list" where
  "be_bytes n v = rev (le_bytes n v)"

definition be_value :: "byte list \<Rightarrow> int" where
  "be_value bs = le_value (rev bs)"

lemma length_be_bytes [simp]: "length (be_bytes n v) = n"
  by (simp add: be_bytes_def)

lemma be_value_bytes: "be_value (be_bytes n v) = v mod 256 ^ n"
  by (simp add: be_value_def be_bytes_def le_value_bytes)

text \<open>The length as it is written, in one byte, two or eight, under a bit of its own.\<close>

definition length_field :: "byte \<Rightarrow> nat \<Rightarrow> byte list" where
  "length_field flag n =
     (if n < 126 then [flag OR of_nat n]
      else if n < 65536 then (flag OR 126) # be_bytes 2 (int n)
      else (flag OR 127) # be_bytes 8 (int n))"

definition encode_frame :: "byte \<Rightarrow> byte list \<Rightarrow> byte list" where
  "encode_frame opcode payload = (128 OR opcode) # length_field 0 (length payload) @ payload"

definition close_payload :: "nat \<Rightarrow> byte list" where
  "close_payload code = be_bytes 2 (int code)"

record ws_frame =
  fr_fin :: bool
  fr_opcode :: byte
  fr_payload :: "byte list"

text \<open>
  What the first bytes say. \<open>view n\<close> is the first \<open>n\<close> bytes, when there are as many.
\<close>

datatype header = Unknown | Fault nat | Header bool byte nat nat

definition checked :: "bool \<Rightarrow> byte \<Rightarrow> nat \<Rightarrow> nat \<Rightarrow> header" where
  "checked fin opcode hlen n =
     (if max_frame_bytes < n then Fault close_too_big
      else if 8 \<le> opcode \<and> (\<not> fin \<or> 125 < n) then Fault close_protocol_error
      else Header fin opcode hlen n)"

definition header_of :: "byte \<Rightarrow> byte \<Rightarrow> byte list option \<Rightarrow> byte list option \<Rightarrow> header" where
  "header_of first second four ten =
     (let fin = (first AND 128 \<noteq> 0); opcode = first AND 15; short = unat (second AND 127) in
      if first AND 112 \<noteq> 0 \<or> second AND 128 = 0 then Fault close_protocol_error
      else if short = 126
      then (case four of None \<Rightarrow> Unknown
            | Some h \<Rightarrow> checked fin opcode 4 (nat (be_value (drop 2 h))))
      else if short = 127
      then (case ten of None \<Rightarrow> Unknown
            | Some h \<Rightarrow> if int max_frame_bytes < be_value (drop 2 h) then Fault close_too_big
                        else checked fin opcode 10 (nat (be_value (drop 2 h))))
      else checked fin opcode 2 short)"

definition read_header :: "(nat \<Rightarrow> byte list option) \<Rightarrow> header" where
  "read_header view =
     (case view 2 of None \<Rightarrow> Unknown
      | Some start \<Rightarrow> header_of (start ! 0) (start ! 1) (view 4) (view 10))"

fun unmask_from :: "nat \<Rightarrow> byte list \<Rightarrow> byte list \<Rightarrow> byte list" where
  "unmask_from i key [] = []"
| "unmask_from i key (b # bs) = (b XOR (key ! (i mod 4))) # unmask_from (Suc i) key bs"

text \<open>The frame at the front of a byte string: what the decoder below is to find.\<close>

definition front :: "byte list \<Rightarrow> nat \<Rightarrow> byte list option" where
  "front b n = (if length b < n then None else Some (take n b))"

definition parse_ws :: "byte list \<Rightarrow> ws_frame parsed" where
  "parse_ws b =
     (case read_header (front b) of
        Unknown \<Rightarrow> NeedMore
      | Fault c \<Rightarrow> Broken c
      | Header fin opcode hlen n \<Rightarrow>
          if length b < hlen + 4 + n then NeedMore
          else Got \<lparr>fr_fin = fin, fr_opcode = opcode,
                    fr_payload = unmask_from 0 (take 4 (drop hlen b)) (take n (drop (hlen + 4) b))\<rparr>
                 (drop (hlen + 4 + n) b))"

section \<open>The chunk queue\<close>

record chunk =
  ck_data :: "byte list"
  ck_owned :: bool

record decoder =
  dc_chunks :: "chunk list"
  dc_head :: nat
  dc_offset :: nat
  dc_length :: nat

definition slab_bytes :: nat where "slab_bytes = 4 * 1024"

definition new_decoder :: decoder where
  "new_decoder = \<lparr>dc_chunks = [], dc_head = 0, dc_offset = 0, dc_length = 0\<rparr>"

text \<open>An owned chunk is a slab: its buffer holds \<open>slab_bytes\<close>, of which \<open>ck_data\<close> is written.\<close>

definition has_room :: "chunk list \<Rightarrow> bool" where
  "has_room cs \<longleftrightarrow> cs \<noteq> [] \<and> ck_owned (last cs) \<and> length (ck_data (last cs)) < slab_bytes"

function push_small :: "byte list \<Rightarrow> chunk list \<Rightarrow> chunk list" where
  "push_small src cs =
     (if src = [] then cs
      else let cs' = (if has_room cs then cs else cs @ [\<lparr>ck_data = [], ck_owned = True\<rparr>]);
               tail = last cs';
               n = min (length src) (slab_bytes - length (ck_data tail))
           in push_small (drop n src) (butlast cs' @ [tail\<lparr>ck_data := ck_data tail @ take n src\<rparr>]))"
  by pat_completeness auto
termination by (relation "measure (length \<circ> fst)") (auto simp: has_room_def slab_bytes_def)

declare push_small.simps [simp del]

definition push :: "byte list \<Rightarrow> decoder \<Rightarrow> decoder" where
  "push chunk d =
     (if chunk = [] then d
      else d\<lparr>dc_length := dc_length d + length chunk,
             dc_chunks := (if slab_bytes \<le> length chunk
                           then dc_chunks d @ [\<lparr>ck_data = chunk, ck_owned = False\<rparr>]
                           else push_small chunk (dc_chunks d))\<rparr>)"

text \<open>
  The loop \<open>peek\<close>, \<open>read\<close> and \<open>discard\<close> share: the next bytes from an offset in the first
  chunk on, with how many chunks were used up and the offset in the one after; \<open>None\<close> when it
  runs off the end.
\<close>

fun consume :: "chunk list \<Rightarrow> nat \<Rightarrow> nat \<Rightarrow> (byte list \<times> nat \<times> nat) option" where
  "consume cs off 0 = Some ([], 0, off)"
| "consume [] off (Suc n) = None"
| "consume (c # cs) off (Suc n) =
     (let got = take (Suc n) (drop off (ck_data c)); off' = off + length got in
      if off' = length (ck_data c)
      then (case consume cs 0 (Suc n - length got) of
              None \<Rightarrow> None
            | Some (bs, h, o') \<Rightarrow> Some (got @ bs, Suc h, o'))
      else Some (got, 0, off'))"

definition peek :: "decoder \<Rightarrow> nat \<Rightarrow> byte list option" where
  "peek d n =
     (if dc_length d < n then None
      else map_option fst (consume (drop (dc_head d) (dc_chunks d)) (dc_offset d) n))"

definition compact :: "decoder \<Rightarrow> decoder" where
  "compact d =
     (if dc_head d = length (dc_chunks d) then d\<lparr>dc_chunks := [], dc_head := 0\<rparr>
      else if 1024 \<le> dc_head d \<and> length (dc_chunks d) \<le> dc_head d * 2
      then d\<lparr>dc_chunks := drop (dc_head d) (dc_chunks d), dc_head := 0\<rparr>
      else d)"

definition read :: "decoder \<Rightarrow> nat \<Rightarrow> (byte list \<times> decoder) option" where
  "read d n =
     (case consume (drop (dc_head d) (dc_chunks d)) (dc_offset d) n of
        None \<Rightarrow> None
      | Some (bs, h, off) \<Rightarrow>
          Some (bs, compact (d\<lparr>dc_head := dc_head d + h, dc_offset := off, dc_length := dc_length d - length bs\<rparr>)))"

definition discard :: "decoder \<Rightarrow> nat \<Rightarrow> decoder option" where
  "discard d n = map_option snd (read d n)"

definition contents :: "decoder \<Rightarrow> byte list" where
  "contents d = drop (dc_offset d) (concat (map ck_data (drop (dc_head d) (dc_chunks d))))"



section \<open>The next frame\<close>

datatype 'q decoded = Waiting | Faulty nat | Threw | Decoded ws_frame 'q

definition next_with :: "('q \<Rightarrow> nat \<Rightarrow> byte list option) \<Rightarrow> ('q \<Rightarrow> nat \<Rightarrow> 'q option)
    \<Rightarrow> ('q \<Rightarrow> nat \<Rightarrow> (byte list \<times> 'q) option) \<Rightarrow> ('q \<Rightarrow> nat) \<Rightarrow> 'q \<Rightarrow> 'q decoded" where
  "next_with view skip get avail q =
     (case read_header (view q) of
        Unknown \<Rightarrow> Waiting
      | Fault c \<Rightarrow> Faulty c
      | Header fin opcode hlen n \<Rightarrow>
          if avail q < hlen + 4 + n then Waiting
          else (case skip q hlen of
             None \<Rightarrow> Threw
           | Some q1 \<Rightarrow>
               (case get q1 4 of
                  None \<Rightarrow> Threw
                | Some (key, q2) \<Rightarrow>
                    (case get q2 n of
                       None \<Rightarrow> Threw
                     | Some (payload, q3) \<Rightarrow>
                         Decoded \<lparr>fr_fin = fin, fr_opcode = opcode, fr_payload = unmask_from 0 key payload\<rparr> q3))))"

definition next_frame :: "decoder \<Rightarrow> decoder decoded" where
  "next_frame = next_with peek discard read dc_length"




section \<open>What the queue holds\<close>

definition at_front :: "chunk list \<Rightarrow> nat \<Rightarrow> bool" where
  "at_front cs off = (case cs of [] \<Rightarrow> off = 0 | c # _ \<Rightarrow> off < length (ck_data c))"

lemma at_front_simps [simp]:
  "at_front [] off \<longleftrightarrow> off = 0" "at_front (c # cs) off \<longleftrightarrow> off < length (ck_data c)"
  by (simp_all add: at_front_def)

definition filled :: "chunk list \<Rightarrow> bool" where
  "filled cs = list_all (\<lambda>c. ck_data c \<noteq> [] \<and> (ck_owned c \<longrightarrow> length (ck_data c) \<le> slab_bytes)) cs"

lemma filled_simps [simp]:
  "filled []" "filled (c # cs) \<longleftrightarrow> ck_data c \<noteq> [] \<and> (ck_owned c \<longrightarrow> length (ck_data c) \<le> slab_bytes) \<and> filled cs"
  "filled (as @ bs) \<longleftrightarrow> filled as \<and> filled bs"
  by (simp_all add: filled_def)

lemma filled_drop: "filled cs \<Longrightarrow> filled (drop n cs)"
  by (auto simp: filled_def list_all_iff dest: in_set_dropD)

definition bytes_in :: "chunk list \<Rightarrow> byte list" where
  "bytes_in cs = concat (map ck_data cs)"

lemma bytes_in_simps [simp]:
  "bytes_in [] = []" "bytes_in (c # cs) = ck_data c @ bytes_in cs" "bytes_in (as @ bs) = bytes_in as @ bytes_in bs"
  by (simp_all add: bytes_in_def)

text \<open>Reading happens behind \<open>dc_head\<close>, and nothing is ever read of a chunk that is not there.\<close>

definition decoder_ok :: "decoder \<Rightarrow> bool" where
  "decoder_ok d \<longleftrightarrow> filled (dc_chunks d)
     \<and> (dc_chunks d = [] \<and> dc_head d = 0 \<or> dc_head d < length (dc_chunks d))
     \<and> at_front (drop (dc_head d) (dc_chunks d)) (dc_offset d)
     \<and> dc_length d = length (contents d)"

lemma contents_alt: "contents d = drop (dc_offset d) (bytes_in (drop (dc_head d) (dc_chunks d)))"
  by (simp add: contents_def bytes_in_def)

lemma new_decoder_ok [simp]: "decoder_ok new_decoder" "contents new_decoder = []"
  by (simp_all add: decoder_ok_def new_decoder_def contents_def)

lemma push_small_step:
  assumes "src \<noteq> []"
  obtains us t n where "push_small src cs = push_small (drop n src) (us @ [t\<lparr>ck_data := ck_data t @ take n src\<rparr>])"
    "0 < n" "n \<le> length src" "ck_owned t" "length (ck_data t) + n \<le> slab_bytes"
    "cs = us @ [t] \<or> us = cs \<and> ck_data t = []"
proof -
  define cs' where "cs' = (if has_room cs then cs else cs @ [\<lparr>ck_data = [], ck_owned = True\<rparr>])"
  define n where "n = min (length src) (slab_bytes - length (ck_data (last cs')))"
  have step: "push_small src cs = push_small (drop n src)
      (butlast cs' @ [(last cs')\<lparr>ck_data := ck_data (last cs') @ take n src\<rparr>])"
    using assms by (simp add: push_small.simps [of src] n_def cs'_def Let_def)
  have room: "ck_owned (last cs') \<and> length (ck_data (last cs')) < slab_bytes"
    by (simp add: cs'_def has_room_def slab_bytes_def)
  have "cs = butlast cs' @ [last cs'] \<or> butlast cs' = cs \<and> ck_data (last cs') = []"
    by (auto simp: cs'_def has_room_def)
  with step room assms show ?thesis by (intro that [of n "butlast cs'" "last cs'"]) (auto simp: n_def)
qed

lemma push_small_bytes:
  "filled cs \<Longrightarrow> filled (push_small src cs) \<and> bytes_in (push_small src cs) = bytes_in cs @ src"
proof (induction "length src" arbitrary: src cs rule: less_induct)
  case less
  show ?case
  proof (cases "src = []")
    case False
    from False obtain us t n where s: "push_small src cs = push_small (drop n src) (us @ [t\<lparr>ck_data := ck_data t @ take n src\<rparr>])"
      "0 < n" "n \<le> length src" "ck_owned t" "length (ck_data t) + n \<le> slab_bytes"
      "cs = us @ [t] \<or> us = cs \<and> ck_data t = []"
      by (rule push_small_step)
    let ?cs = "us @ [t\<lparr>ck_data := ck_data t @ take n src\<rparr>]"
    have "filled ?cs" using s less.prems False by auto
    moreover have "bytes_in ?cs @ drop n src = bytes_in cs @ src" using s(6) by auto
    ultimately show ?thesis using less.hyps [of "drop n src" ?cs] s(1,2,3) by simp
  qed (simp add: push_small.simps less.prems)
qed

lemma drop_push_small: "h < length cs \<Longrightarrow> drop h (push_small src cs) = push_small src (drop h cs)"
proof (induction "length src" arbitrary: src cs rule: less_induct)
  case less
  show ?case
  proof (cases "src = []")
    case False
    have room: "has_room (drop h cs) = has_room cs" using less.prems by (auto simp: has_room_def last_drop)
    define cs' where "cs' = (if has_room cs then cs else cs @ [\<lparr>ck_data = [], ck_owned = True\<rparr>])"
    define n where "n = min (length src) (slab_bytes - length (ck_data (last cs')))"
    define t' where "t' = (last cs')\<lparr>ck_data := ck_data (last cs') @ take n src\<rparr>"
    have cs': "h < length cs'" "drop h cs' = (if has_room (drop h cs) then drop h cs else drop h cs @ [\<lparr>ck_data = [], ck_owned = True\<rparr>])"
      using less.prems by (auto simp: cs'_def room)
    have "has_room cs' \<or> False" by (auto simp: cs'_def has_room_def slab_bytes_def)
    then have n: "0 < n" using False by (auto simp: n_def has_room_def)
    have "push_small src cs = push_small (drop n src) (butlast cs' @ [t'])"
      using False by (simp add: push_small.simps [of src cs] n_def cs'_def t'_def Let_def)
    moreover have "push_small src (drop h cs) = push_small (drop n src) (butlast (drop h cs') @ [t'])"
      using False cs' by (simp add: push_small.simps [of src "drop h cs"] n_def t'_def Let_def last_drop flip: cs'(2))
    moreover have "drop h (butlast cs' @ [t']) = butlast (drop h cs') @ [t']"
      using cs'(1) by (simp add: butlast_drop)
    moreover have "h < length (butlast cs' @ [t'])" using cs'(1) by simp
    ultimately show ?thesis using less.hyps [of "drop n src" "butlast cs' @ [t']"] n False by simp
  qed (simp add: push_small.simps)
qed

lemma push_small_head: "\<exists>c' cs'. push_small src (c # cs) = c' # cs' \<and> length (ck_data c) \<le> length (ck_data c')"
proof (induction "length src" arbitrary: src c cs rule: less_induct)
  case less
  show ?case
  proof (cases "src = []")
    case False
    from False obtain us t n where s: "push_small src (c # cs) = push_small (drop n src) (us @ [t\<lparr>ck_data := ck_data t @ take n src\<rparr>])"
      "0 < n" "n \<le> length src" "c # cs = us @ [t] \<or> us = c # cs \<and> ck_data t = []"
      by (rule push_small_step) blast
    obtain c1 cs1 where one: "us @ [t\<lparr>ck_data := ck_data t @ take n src\<rparr>] = c1 # cs1" "length (ck_data c) \<le> length (ck_data c1)"
      using s(4) by (cases us) auto
    from less.hyps [of "drop n src" c1 cs1] s(2,3) False one show ?thesis by (auto simp: s(1) intro: order_trans)
  qed (simp add: push_small.simps)
qed

lemma consume_exact:
  "filled cs \<Longrightarrow> at_front cs off \<Longrightarrow> n \<le> length (drop off (bytes_in cs))
    \<Longrightarrow> \<exists>h o'. consume cs off n = Some (take n (drop off (bytes_in cs)), h, o') \<and> h \<le> length cs
        \<and> at_front (drop h cs) o' \<and> drop o' (bytes_in (drop h cs)) = drop n (drop off (bytes_in cs))"
proof (induction cs arbitrary: off n)
  case (Cons c cs)
  show ?case
  proof (cases n)
    case 0
    then show ?thesis using Cons.prems by (auto intro!: exI [of _ 0])
  next
    case (Suc m)
    let ?got = "take n (drop off (ck_data c))"
    show ?thesis
    proof (cases "off + length ?got = length (ck_data c)")
      case all: True
      then have n: "length (ck_data c) - off \<le> n" using Cons.prems(2) by simp
      have next': "at_front cs 0" using Cons.prems(1) by (cases cs) auto
      have "n - length ?got \<le> length (drop 0 (bytes_in cs))" using Cons.prems(3) n by auto
      from Cons.IH [OF _ next' this] Cons.prems(1) obtain h o' where
        ih: "consume cs 0 (n - length ?got) = Some (take (n - length ?got) (bytes_in cs), h, o')" "h \<le> length cs"
          "at_front (drop h cs) o'" "drop o' (bytes_in (drop h cs)) = drop (n - length ?got) (bytes_in cs)" by auto
      have "consume (c # cs) off n = Some (?got @ take (n - length ?got) (bytes_in cs), Suc h, o')"
        using all ih(1) by (simp add: Suc Let_def)
      then show ?thesis using ih n Cons.prems(2) by (intro exI [of _ "Suc h"] exI [of _ o']) simp
    next
      case part: False
      then have n: "n < length (ck_data c) - off" using Cons.prems(2) by auto
      then have "consume (c # cs) off n = Some (?got, 0, off + n)" using part by (simp add: Suc Let_def)
      then show ?thesis using n by (intro exI [of _ 0] exI [of _ "off + n"]) (simp add: add.commute)
    qed
  qed
qed (auto intro!: exI [of _ 0])

text \<open>Writing to the queue adds at the end; reading takes from the front.\<close>

lemma push_exact: "decoder_ok d \<Longrightarrow> decoder_ok (push b d) \<and> contents (push b d) = contents d @ b"
proof (cases "b = []")
  case False
  assume ok: "decoder_ok d"
  define cs where "cs = (if slab_bytes \<le> length b then dc_chunks d @ [\<lparr>ck_data = b, ck_owned = False\<rparr>]
                         else push_small b (dc_chunks d))"
  have p: "push b d = d\<lparr>dc_length := dc_length d + length b, dc_chunks := cs\<rparr>"
    using False by (simp add: push_def cs_def)
  have filled: "filled cs" using ok False push_small_bytes [of "dc_chunks d" b] by (auto simp: cs_def decoder_ok_def)
  show ?thesis
  proof (cases "dc_chunks d")
    case Nil
    then have z: "dc_head d = 0" "dc_offset d = 0" using ok by (auto simp: decoder_ok_def)
    have bytes: "bytes_in cs = b" using Nil push_small_bytes [of "[]" b] by (simp add: cs_def)
    then have "cs \<noteq> []" using False by auto
    moreover from this have "at_front cs 0" using filled by (cases cs) auto
    ultimately show ?thesis using ok filled z bytes Nil by (auto simp: decoder_ok_def contents_alt p)
  next
    case (Cons c0 cs0)
    let ?cs = "drop (dc_head d) (dc_chunks d)"
    from Cons ok have h: "dc_head d < length (dc_chunks d)" by (auto simp: decoder_ok_def)
    then obtain c cr where c: "?cs = c # cr" by (cases ?cs) auto
    have f: "filled ?cs" using ok by (auto simp: decoder_ok_def intro: filled_drop)
    have d: "drop (dc_head d) cs = (if slab_bytes \<le> length b then ?cs @ [\<lparr>ck_data = b, ck_owned = False\<rparr>] else push_small b ?cs)"
      using h by (simp add: cs_def drop_push_small)
    have bytes: "bytes_in (drop (dc_head d) cs) = bytes_in ?cs @ b" using push_small_bytes [OF f, of b] by (simp add: d)
    obtain c' cr' where c': "drop (dc_head d) cs = c' # cr'" "length (ck_data c) \<le> length (ck_data c')"
      using push_small_head [of b c cr] by (cases "slab_bytes \<le> length b") (auto simp: d c)
    then have "dc_head d < length cs" by (metis drop_all linorder_not_less list.distinct(1))
    moreover have off: "dc_offset d < length (ck_data c)" using ok c by (simp add: decoder_ok_def)
    moreover have "drop (dc_offset d) (bytes_in ?cs @ b) = contents d @ b"
      using off by (simp add: contents_alt c)
    ultimately show ?thesis using ok filled c' bytes
      by (auto simp: decoder_ok_def contents_alt p)
  qed
qed (simp add: push_def)

lemma view_exact: "decoder_ok d \<Longrightarrow> peek d n = front (contents d) n"
  using consume_exact [of "drop (dc_head d) (dc_chunks d)" "dc_offset d" n] filled_drop [of "dc_chunks d" "dc_head d"]
  by (auto simp: peek_def front_def decoder_ok_def contents_alt)

lemma avail_exact: "decoder_ok d \<Longrightarrow> dc_length d = length (contents d)"
  by (simp only: decoder_ok_def)

lemma compact_exact:
  assumes "filled (dc_chunks d)" "dc_head d \<le> length (dc_chunks d)"
    "at_front (drop (dc_head d) (dc_chunks d)) (dc_offset d)" "dc_length d = length (contents d)"
  shows "decoder_ok (compact d) \<and> contents (compact d) = contents d"
  using assms by (auto simp: decoder_ok_def compact_def contents_alt filled_drop)

lemma read_exact:
  assumes "decoder_ok d" "n \<le> length (contents d)"
  shows "\<exists>d'. read d n = Some (take n (contents d), d') \<and> decoder_ok d' \<and> contents d' = drop n (contents d)"
proof -
  let ?cs = "drop (dc_head d) (dc_chunks d)"
  have f: "filled ?cs" "at_front ?cs (dc_offset d)" using assms(1) by (auto simp: decoder_ok_def intro: filled_drop)
  obtain h o' where c: "consume ?cs (dc_offset d) n = Some (take n (contents d), h, o')" "h \<le> length ?cs"
      "at_front (drop h ?cs) o'" "drop o' (bytes_in (drop h ?cs)) = drop n (contents d)"
    using consume_exact [OF f, of n] assms(2) by (auto simp: contents_alt)
  define d1 where "d1 = d\<lparr>dc_head := dc_head d + h, dc_offset := o', dc_length := dc_length d - length (take n (contents d))\<rparr>"
  have c1: "contents d1 = drop n (contents d)" using c(4) by (simp add: d1_def contents_alt add.commute)
  have "decoder_ok (compact d1) \<and> contents (compact d1) = contents d1"
  proof (rule compact_exact)
    show "filled (dc_chunks d1)" using assms(1) by (simp add: d1_def decoder_ok_def)
    show "dc_head d1 \<le> length (dc_chunks d1)" using c(2) assms(1) by (auto simp: d1_def decoder_ok_def)
    show "at_front (drop (dc_head d1) (dc_chunks d1)) (dc_offset d1)" using c(3) by (simp add: d1_def add.commute)
    show "dc_length d1 = length (contents d1)" using assms c1 by (simp add: d1_def decoder_ok_def)
  qed
  with c(1) c1 show ?thesis by (simp add: read_def d1_def)
qed

lemma discard_exact:
  "decoder_ok d \<Longrightarrow> n \<le> length (contents d) \<Longrightarrow>
    \<exists>d'. discard d n = Some d' \<and> decoder_ok d' \<and> contents d' = drop n (contents d)"
  using read_exact [of d n] by (auto simp: discard_def)



text \<open>
  The interface the reading of frames rests on: a queue that shows its first bytes and gives
  them up, whatever it keeps them in.
\<close>

locale byte_queue =
  fixes ok :: "'q \<Rightarrow> bool" and held :: "'q \<Rightarrow> byte list"
    and view :: "'q \<Rightarrow> nat \<Rightarrow> byte list option" and skip :: "'q \<Rightarrow> nat \<Rightarrow> 'q option"
    and get :: "'q \<Rightarrow> nat \<Rightarrow> (byte list \<times> 'q) option" and avail :: "'q \<Rightarrow> nat"
  assumes view_front: "ok q \<Longrightarrow> view q n = front (held q) n"
    and avail_all: "ok q \<Longrightarrow> avail q = length (held q)"
    and skip_drops: "ok q \<Longrightarrow> n \<le> length (held q) \<Longrightarrow> \<exists>q'. skip q n = Some q' \<and> ok q' \<and> held q' = drop n (held q)"
    and get_takes: "ok q \<Longrightarrow> n \<le> length (held q) \<Longrightarrow>
      \<exists>q'. get q n = Some (take n (held q), q') \<and> ok q' \<and> held q' = drop n (held q)"
begin

lemma next_reads_frame:
  assumes ok: "ok q"
  shows "case next_with view skip get avail q of
      Waiting \<Rightarrow> parse_ws (held q) = NeedMore
    | Faulty c \<Rightarrow> parse_ws (held q) = Broken c
    | Threw \<Rightarrow> False
    | Decoded f q' \<Rightarrow> ok q' \<and> parse_ws (held q) = Got f (held q')"
proof -
  have v: "view q = front (held q)" using view_front [OF ok] by blast
  show ?thesis
  proof (cases "read_header (front (held q))")
    case (Header fin opcode hlen n)
    show ?thesis
    proof (cases "length (held q) < hlen + 4 + n")
      case enough: False
      then obtain q1 where q1: "skip q hlen = Some q1" "ok q1" "held q1 = drop hlen (held q)"
        using skip_drops [OF ok, of hlen] by auto
      have "4 \<le> length (held q1)" using enough q1(3) by simp
      from get_takes [OF q1(2) this] obtain q2 where
        q2: "get q1 4 = Some (take 4 (drop hlen (held q)), q2)" "ok q2" "held q2 = drop 4 (drop hlen (held q))"
        unfolding q1(3) by blast
      have "n \<le> length (held q2)" using enough q2(3) by simp
      from get_takes [OF q2(2) this] obtain q3 where
        q3: "get q2 n = Some (take n (held q2), q3)" "ok q3" "held q3 = drop n (held q2)" by blast
      have "held q2 = drop (hlen + 4) (held q)" "held q3 = drop (hlen + 4 + n) (held q)"
        using q2(3) q3(3) by (simp_all add: ac_simps)
      with q1 q2 q3 Header enough v show ?thesis by (simp add: next_with_def parse_ws_def avail_all [OF ok])
    qed (simp add: next_with_def parse_ws_def v Header avail_all [OF ok])
  qed (simp_all add: next_with_def parse_ws_def v)
qed

end

interpretation chunks: byte_queue decoder_ok contents peek discard read dc_length
  by unfold_locales (fact view_exact avail_exact discard_exact read_exact)+

section \<open>The frames are a framing\<close>

lemma front_append: "front b n = Some s \<Longrightarrow> front (b @ later) n = Some s"
  by (auto simp: front_def split: if_splits)

lemma header_of_more:
  "header_of a b four ten \<noteq> Unknown \<Longrightarrow> (\<And>h. four = Some h \<Longrightarrow> four' = Some h)
    \<Longrightarrow> (\<And>h. ten = Some h \<Longrightarrow> ten' = Some h) \<Longrightarrow> header_of a b four' ten' = header_of a b four ten"
  unfolding header_of_def Let_def
  by (cases "a AND 112 \<noteq> 0 \<or> b AND 128 = 0"; cases "unat (b AND 127) = 126"; cases "unat (b AND 127) = 127";
      cases four; cases ten) simp_all

lemma read_header_stable:
  assumes "read_header (front b) \<noteq> Unknown"
  shows "read_header (front (b @ later)) = read_header (front b)"
proof (cases "front b 2")
  case (Some s)
  with assms header_of_more [of "s ! 0" "s ! 1" "front b 4" "front b 10" "front (b @ later) 4" "front (b @ later) 10"]
  show ?thesis by (simp add: read_header_def front_append)
qed (use assms in \<open>simp add: read_header_def\<close>)

lemma read_header_empty: "read_header (front []) = Unknown"
  by (simp add: read_header_def front_def)

interpretation ws: framing parse_ws
proof unfold_locales
  show "parse_ws [] = NeedMore" by (simp add: parse_ws_def read_header_empty)
next
  fix b f r assume "parse_ws b = Got f r"
  then show "length r < length b"
    by (auto simp: parse_ws_def split: header.splits if_splits)
next
  fix b f r later assume "parse_ws b = Got f r"
  then show "parse_ws (b @ later) = Got f (r @ later)"
    using read_header_stable [of b later] by (auto simp: parse_ws_def split: header.splits if_splits)
next
  fix b c later assume "parse_ws b = Broken c"
  then show "parse_ws (b @ later) = Broken c"
    using read_header_stable [of b later] by (auto simp: parse_ws_def split: header.splits if_splits)
qed



section \<open>What a browser sends\<close>






lemma unmask_twice [simp]: "unmask_from i key (unmask_from i key bs) = bs"
  by (induction i key bs rule: unmask_from.induct) (auto simp: xor.assoc)







lemma be_value_length [simp]:
  "n < 65536 \<Longrightarrow> be_value (be_bytes 2 (int n)) = int n"
  "n \<le> max_frame_bytes \<Longrightarrow> be_value (be_bytes 8 (int n)) = int n"
  by (simp_all add: be_value_bytes max_frame_bytes_def)


section \<open>The stream\<close>

text \<open>
  What \<open>WebSocketStream\<close> knows beside its decoder. \<open>lk_sent\<close> are the frames it gave the socket to
  write, each as \<open>encode_frame\<close> lays it out; \<open>lk_heard\<close> the payloads it emitted as \<open>data\<close>.
\<close>

record link =
  lk_closing :: bool
  lk_destroyed :: bool
  lk_ended :: bool
  lk_halted :: bool
  lk_binary :: bool
  lk_choked :: bool
  lk_paused :: bool
  lk_window :: int
  lk_control :: nat
  lk_corks :: nat
  lk_pending :: "byte list list"
  lk_pending_bytes :: nat
  lk_sent :: "(byte \<times> byte list) list"
  lk_heard :: "byte list list"

definition new_link :: "int \<Rightarrow> link" where
  "new_link now = \<lparr>lk_closing = False, lk_destroyed = False, lk_ended = False, lk_halted = False, lk_binary = False,
     lk_choked = False, lk_paused = False, lk_window = now, lk_control = 0, lk_corks = 0,
     lk_pending = [], lk_pending_bytes = 0, lk_sent = [], lk_heard = []\<rparr>"

definition wire_bytes :: "link \<Rightarrow> byte list" where
  "wire_bytes l = concat (map (\<lambda>(opcode, payload). encode_frame opcode payload) (lk_sent l))"

definition max_control_frames :: nat where "max_control_frames = 64"
definition control_window_ms :: int where "control_window_ms = 10000"

text \<open>
  What is around a stream: the clock, whether the socket takes a write without backpressure, and
  what the session does when it hears data. The session's reading loop resumes a paused socket
  only after an \<open>await\<close>, so that is not among what it does while it is being told.
\<close>

datatype request = Write "byte list" | Cork | Uncork | End | Destroy | Pause

record surroundings =
  sr_now :: "link \<Rightarrow> int"
  sr_room :: "link \<Rightarrow> bool"
  sr_hear :: "byte list \<Rightarrow> link \<Rightarrow> request list"

definition gone :: "link \<Rightarrow> bool" where
  "gone l \<longleftrightarrow> lk_closing l \<or> lk_destroyed l"

definition socket_write :: "byte \<Rightarrow> byte list \<Rightarrow> link \<Rightarrow> link" where
  "socket_write opcode payload l = l\<lparr>lk_sent := lk_sent l @ [(opcode, payload)]\<rparr>"

definition send_close :: "nat \<Rightarrow> link \<Rightarrow> link" where
  "send_close code l =
     (if gone l then l else socket_write op_close (close_payload code) (l\<lparr>lk_closing := True\<rparr>))"

definition fail :: "nat \<Rightarrow> link \<Rightarrow> link" where
  "fail code l = (send_close code l)\<lparr>lk_ended := True\<rparr>"

definition end_stream :: "link \<Rightarrow> link" where
  "end_stream l = (send_close close_normal l)\<lparr>lk_ended := True\<rparr>"

definition write_stream :: "byte list \<Rightarrow> link \<Rightarrow> link" where
  "write_stream bytes l =
     (if gone l then l
      else if 0 < lk_corks l
      then l\<lparr>lk_pending := lk_pending l @ [bytes], lk_pending_bytes := lk_pending_bytes l + length bytes\<rparr>
      else socket_write op_binary bytes l)"

definition cork :: "link \<Rightarrow> link" where
  "cork l = l\<lparr>lk_corks := lk_corks l + 1\<rparr>"

definition uncork :: "link \<Rightarrow> link" where
  "uncork l =
     (if lk_corks l = 0 then l
      else let l = l\<lparr>lk_corks := lk_corks l - 1\<rparr> in
        if 0 < lk_corks l \<or> lk_pending l = [] then l
        else let payload = concat (lk_pending l); l = l\<lparr>lk_pending := [], lk_pending_bytes := 0\<rparr> in
          if gone l then l else socket_write op_binary payload l)"

definition pause :: "link \<Rightarrow> link" where
  "pause l = l\<lparr>lk_paused := True, lk_halted := True\<rparr>"

fun answer :: "request \<Rightarrow> link \<Rightarrow> link" where
  "answer (Write b) l = write_stream b l"
| "answer Cork l = cork l"
| "answer Uncork l = uncork l"
| "answer End l = end_stream l"
| "answer Destroy l = l\<lparr>lk_destroyed := True\<rparr>"
| "answer Pause l = pause l"

definition hear :: "surroundings \<Rightarrow> byte list \<Rightarrow> link \<Rightarrow> link" where
  "hear sr payload l =
     (if payload = [] then l
      else let l = l\<lparr>lk_heard := lk_heard l @ [payload]\<rparr> in fold answer (sr_hear sr payload l) l)"

definition allow_control_frame :: "int \<Rightarrow> link \<Rightarrow> link \<times> bool" where
  "allow_control_frame now l =
     (let l = (if control_window_ms \<le> now - lk_window l then l\<lparr>lk_window := now, lk_control := 0\<rparr> else l);
          l = l\<lparr>lk_control := lk_control l + 1\<rparr>
      in if lk_control l \<le> max_control_frames then (l, True) else (fail close_policy l, False))"

definition write_pong :: "surroundings \<Rightarrow> byte list \<Rightarrow> link \<Rightarrow> link \<times> bool" where
  "write_pong sr payload l =
     (let l = socket_write op_pong payload l in
      if \<not> sr_room sr l then (l\<lparr>lk_choked := True, lk_halted := True\<rparr>, False) else (l, True))"

text \<open>One turn of \<open>drainFrames\<close> on a frame, and whether the loop goes on.\<close>

definition take_frame :: "surroundings \<Rightarrow> ws_frame \<Rightarrow> link \<Rightarrow> link \<times> bool" where
  "take_frame sr f l =
     (let opcode = fr_opcode f; payload = fr_payload f in
      if opcode = op_binary then (hear sr payload (l\<lparr>lk_binary := True\<rparr>), True)
      else if opcode = op_continuation
      then (if \<not> lk_binary l then (fail close_protocol_error l, False) else (hear sr payload l, True))
      else if opcode = op_text then (fail close_unsupported l, False)
      else if opcode = op_ping
      then (case allow_control_frame (sr_now sr l) l of (l, ok) \<Rightarrow> if \<not> ok then (l, False) else write_pong sr payload l)
      else if opcode = op_pong then allow_control_frame (sr_now sr l) l
      else if opcode = op_close then (end_stream l, False)
      else (fail close_protocol_error l, False))"

definition stopped :: "link \<Rightarrow> bool" where
  "stopped l \<longleftrightarrow> lk_choked l \<or> lk_paused l \<or> lk_closing l \<or> lk_destroyed l"

text \<open>The loop, over whatever the frames are read from; \<open>n\<close> bounds its turns.\<close>

fun drain :: "('q \<Rightarrow> 'q decoded) \<Rightarrow> surroundings \<Rightarrow> nat \<Rightarrow> 'q \<Rightarrow> link \<Rightarrow> 'q \<times> link" where
  "drain nxt sr 0 q l = (q, l)"
| "drain nxt sr (Suc n) q l =
     (if stopped l then (q, l)
      else case nxt q of
          Decoded f q' \<Rightarrow> (case take_frame sr f l of (l', go) \<Rightarrow> if go then drain nxt sr n q' l' else (q', l'))
        | Faulty c \<Rightarrow> (q, fail c l)
        | _ \<Rightarrow> (q, l))"

type_synonym stream = "decoder \<times> link"

definition drain_frames_of :: "surroundings \<Rightarrow> stream \<Rightarrow> stream" where
  "drain_frames_of sr s = (case s of (d, l) \<Rightarrow> drain next_frame sr (Suc (dc_length d)) d l)"

definition receive :: "surroundings \<Rightarrow> byte list \<Rightarrow> stream \<Rightarrow> stream" where
  "receive sr chunk s = (case s of (d, l) \<Rightarrow> if gone l then s else drain_frames_of sr (push chunk d, l))"

definition unhalt :: "stream \<Rightarrow> stream" where
  "unhalt s = (case s of (d, l) \<Rightarrow>
     if \<not> lk_choked l \<and> \<not> lk_paused l \<and> \<not> lk_destroyed l then (d, l\<lparr>lk_halted := False\<rparr>) else s)"

text \<open>The socket's \<open>drain\<close> event, and \<open>resume\<close>.\<close>

definition drained_out :: "surroundings \<Rightarrow> stream \<Rightarrow> stream" where
  "drained_out sr s = (case s of (d, l) \<Rightarrow>
     if \<not> lk_choked l \<or> lk_closing l then s
     else let l = l\<lparr>lk_choked := False\<rparr> in
       if lk_paused l then (d, l) else unhalt (drain_frames_of sr (d, l)))"

definition resume :: "surroundings \<Rightarrow> stream \<Rightarrow> stream" where
  "resume sr s = (case s of (d, l) \<Rightarrow>
     let l = l\<lparr>lk_paused := False\<rparr> in
     if lk_choked l then (d, l)
     else case drain_frames_of sr (d, l) of (d, l) \<Rightarrow>
       if \<not> lk_choked l \<and> \<not> lk_closing l \<and> \<not> lk_destroyed l then (d, l\<lparr>lk_halted := False\<rparr>) else (d, l))"

section \<open>The stream reads the bytes, however they came\<close>

definition next_bytes :: "byte list \<Rightarrow> byte list decoded" where
  "next_bytes b = (case parse_ws b of NeedMore \<Rightarrow> Waiting | Broken c \<Rightarrow> Faulty c | Got f r \<Rightarrow> Decoded f r)"

lemma next_bytes_cases:
  "parse_ws b = NeedMore \<Longrightarrow> next_bytes b = Waiting" "parse_ws b = Broken c \<Longrightarrow> next_bytes b = Faulty c"
  "parse_ws b = Got f r \<Longrightarrow> next_bytes b = Decoded f r"
  by (simp_all add: next_bytes_def)

context byte_queue begin

lemma drain_reads_bytes:
  "ok q \<Longrightarrow> ok (fst (drain (next_with view skip get avail) sr n q l))
    \<and> drain next_bytes sr n (held q) l
        = (held (fst (drain (next_with view skip get avail) sr n q l)), snd (drain (next_with view skip get avail) sr n q l))"
proof (induction n arbitrary: q l)
  case (Suc n)
  show ?case
  proof (cases "next_with view skip get avail q")
    case (Decoded f q')
    with next_reads_frame [OF Suc.prems] have p: "ok q'" "parse_ws (held q) = Got f (held q')" by simp_all
    from Suc.IH [OF p(1)] show ?thesis
      by (cases "take_frame sr f l") (simp add: Decoded p next_bytes_cases Suc.prems)
  qed (use next_reads_frame [OF Suc.prems] Suc.prems in \<open>simp_all add: next_bytes_cases\<close>)
qed simp

end

lemma stopped_drain [simp]: "stopped l \<Longrightarrow> drain nxt sr n q l = (q, l)"
  by (cases n) auto

lemma gone_stopped: "gone l \<Longrightarrow> stopped l"
  by (auto simp: gone_def stopped_def)

lemma fail_stops: "stopped (fail c l)"
  by (auto simp: fail_def send_close_def gone_def stopped_def socket_write_def)

lemma end_stops: "stopped (end_stream l)"
  by (auto simp: end_stream_def send_close_def gone_def stopped_def socket_write_def)

lemma choked_stops: "stopped (l\<lparr>lk_choked := True, lk_halted := h\<rparr>)"
  by (simp add: stopped_def)

lemma take_frame_stops: "take_frame sr f l = (l', False) \<Longrightarrow> stopped l'"
  by (auto simp: take_frame_def allow_control_frame_def write_pong_def Let_def fail_stops end_stops choked_stops
      split: if_splits)

lemma drain_bytes_enough:
  "length b < n \<Longrightarrow> length b < m \<Longrightarrow> drain next_bytes sr n b l = drain next_bytes sr m b l"
proof (induction n arbitrary: b l m)
  case (Suc n)
  then obtain k where m: "m = Suc k" by (cases m) auto
  show ?case
  proof (cases "parse_ws b")
    case (Got f r)
    have "length r < n" "length r < k" using ws.got_shorter [OF Got] Suc.prems m by auto
    then have "drain next_bytes sr n r l1 = drain next_bytes sr k r l1" for l1 by (rule Suc.IH)
    then show ?thesis by (simp add: m Got next_bytes_cases split: prod.split)
  qed (simp_all add: m next_bytes_cases)
qed simp

lemma drain_bytes_shrinks: "length (fst (drain next_bytes sr n b l)) \<le> length b"
proof (induction n arbitrary: b l)
  case (Suc n)
  show ?case
  proof (cases "parse_ws b")
    case (Got f r)
    have "length (fst (drain next_bytes sr n r l1)) \<le> length b" for l1
      using Suc.IH [of r l1] ws.got_shorter [OF Got] by simp
    then show ?thesis using ws.got_shorter [OF Got] by (simp add: Got next_bytes_cases split: prod.split)
  qed (simp_all add: next_bytes_cases)
qed simp

lemma drain_bytes_later:
  "length b < n \<Longrightarrow> length (b @ c) < m \<Longrightarrow> drain next_bytes sr n b l = (b', l')
    \<Longrightarrow> drain next_bytes sr m (b @ c) l = drain next_bytes sr m (b' @ c) l'"
proof (induction n arbitrary: b l m)
  case (Suc n)
  then obtain k where m: "m = Suc k" by (cases m) auto
  show ?case
  proof (cases "stopped l")
    case True
    with Suc.prems show ?thesis by simp
  next
    case run: False
    show ?thesis
    proof (cases "parse_ws b")
      case NeedMore
      with run Suc.prems(3) show ?thesis by (simp add: next_bytes_cases)
    next
      case (Broken e)
      with run Suc.prems(3) have "b' = b" "l' = fail e l" by (simp_all add: next_bytes_cases)
      with run Broken ws.broken_stable [OF Broken, of c] show ?thesis
        by (simp add: m next_bytes_cases fail_stops)
    next
      case (Got f r)
      obtain l1 go where t: "take_frame sr f l = (l1, go)" by fastforce
      show ?thesis
      proof (cases go)
        case True
        have r: "length r < n" "length (r @ c) < k" using ws.got_shorter [OF Got] Suc.prems(1,2) m by auto
        have d: "drain next_bytes sr n r l1 = (b', l')" using Suc.prems(3) run Got t True by (simp add: next_bytes_cases)
        have "length b' \<le> length r" using drain_bytes_shrinks [of sr n r l1] d by simp
        with r(2) m have "drain next_bytes sr k (b' @ c) l' = drain next_bytes sr m (b' @ c) l'"
          by (intro drain_bytes_enough) auto
        with Suc.IH [OF r d] run t True ws.got_stable [OF Got, of c] show ?thesis by (simp add: m next_bytes_cases)
      next
        case False
        with Suc.prems(3) run Got t have "b' = r" "l' = l1" by (simp_all add: next_bytes_cases)
        with False t take_frame_stops [of sr f l l1] ws.got_stable [OF Got, of c] run show ?thesis
          by (simp add: m next_bytes_cases)
      qed
    qed
  qed
qed simp

declare drain.simps(2) [simp del]

text \<open>The same operations over the bytes themselves, which is what a reader of TCP would do.\<close>

definition receive_bytes :: "surroundings \<Rightarrow> byte list \<Rightarrow> byte list \<times> link \<Rightarrow> byte list \<times> link" where
  "receive_bytes sr c s = (case s of (b, l) \<Rightarrow>
     if gone l then s else drain next_bytes sr (Suc (length (b @ c))) (b @ c) l)"

definition seen :: "stream \<Rightarrow> byte list \<times> link" where
  "seen s = (contents (fst s), snd s)"

lemma drain_frames_of_bytes:
  "decoder_ok d \<Longrightarrow> decoder_ok (fst (drain_frames_of sr (d, l)))
    \<and> seen (drain_frames_of sr (d, l)) = drain next_bytes sr (Suc (length (contents d))) (contents d) l"
  using chunks.drain_reads_bytes [of d sr "Suc (dc_length d)" l]
  by (simp add: drain_frames_of_def seen_def next_frame_def avail_exact)

lemma receive_is_bytes:
  "decoder_ok (fst s) \<Longrightarrow> decoder_ok (fst (receive sr c s)) \<and> seen (receive sr c s) = receive_bytes sr c (seen s)"
  using drain_frames_of_bytes [of "push c (fst s)" sr "snd s"] push_exact [of "fst s" c]
  by (cases s) (auto simp: receive_def receive_bytes_def seen_def)

lemma receive_all_is_bytes:
  "decoder_ok (fst s) \<Longrightarrow>
    decoder_ok (fst (fold (receive sr) cs s)) \<and> seen (fold (receive sr) cs s) = fold (receive_bytes sr) cs (seen s)"
  by (induction cs arbitrary: s) (simp_all add: receive_is_bytes)

definition alike :: "byte list \<times> link \<Rightarrow> byte list \<times> link \<Rightarrow> bool" where
  "alike s t \<longleftrightarrow> snd s = snd t \<and> (gone (snd s) \<or> fst s = fst t)"

lemma receive_alike: "alike s t \<Longrightarrow> alike (receive_bytes sr c s) (receive_bytes sr c t)"
  by (cases s; cases t) (auto simp: alike_def receive_bytes_def)

lemma receive_all_alike: "alike s t \<Longrightarrow> alike (fold (receive_bytes sr) cs s) (fold (receive_bytes sr) cs t)"
  by (induction cs arbitrary: s t) (simp_all add: receive_alike)

lemma receive_joined: "alike (receive_bytes sr c2 (receive_bytes sr c1 s)) (receive_bytes sr (c1 @ c2) s)"
proof (cases s)
  case (Pair b l)
  show ?thesis
  proof (cases "gone l")
    case False
    obtain b' l' where d: "drain next_bytes sr (Suc (length (b @ c1))) (b @ c1) l = (b', l')" by fastforce
    have short: "length b' \<le> length (b @ c1)" using drain_bytes_shrinks [of sr "Suc (length (b @ c1))" "b @ c1" l] d by simp
    let ?m = "Suc (length (b @ c1 @ c2))"
    have all: "drain next_bytes sr ?m ((b @ c1) @ c2) l = drain next_bytes sr ?m (b' @ c2) l'"
      by (rule drain_bytes_later [OF _ _ d]) simp_all
    have "drain next_bytes sr ?m (b' @ c2) l' = drain next_bytes sr (Suc (length (b' @ c2))) (b' @ c2) l'"
      using short by (intro drain_bytes_enough) auto
    with all d False show ?thesis
      by (auto simp: Pair receive_bytes_def alike_def gone_stopped)
  qed (simp add: Pair receive_bytes_def alike_def)
qed

lemma alike_trans: "alike s t \<Longrightarrow> alike t u \<Longrightarrow> alike s u"
  by (auto simp: alike_def)

lemma receive_all_joined: "alike (fold (receive_bytes sr) (c # cs) s) (receive_bytes sr (c @ concat cs) s)"
proof (induction cs arbitrary: c s)
  case (Cons c' cs)
  have "alike (fold (receive_bytes sr) (c # c' # cs) s) (fold (receive_bytes sr) ((c @ c') # cs) s)"
    using receive_all_alike [OF receive_joined] by simp
  with Cons.IH [of "c @ c'" s] show ?case by (auto intro: alike_trans)
qed (simp add: alike_def)

section \<open>What a stream sends\<close>

text \<open>
  While the stream is open it has sent data and pongs; once it is closing it has sent one close
  frame after them, and nothing more. Only a corked stream holds anything back.
\<close>

definition data_only :: "(byte \<times> byte list) list \<Rightarrow> bool" where
  "data_only ms = list_all (\<lambda>(opcode, _). opcode = op_binary \<or> opcode = op_pong) ms"

definition sent_ok :: "bool \<Rightarrow> (byte \<times> byte list) list \<Rightarrow> bool" where
  "sent_ok closing ms = (if closing then ms \<noteq> [] \<and> data_only (butlast ms) \<and> fst (last ms) = op_close
                         else data_only ms)"

lemma sent_ok_step [simp]:
  "data_only (ms @ [(opcode, payload)]) \<longleftrightarrow> data_only ms \<and> (opcode = op_binary \<or> opcode = op_pong)"
  "sent_ok False ms \<longleftrightarrow> data_only ms" "sent_ok True (ms @ [(op_close, payload)]) \<longleftrightarrow> data_only ms"
  "sent_ok b [] \<longleftrightarrow> \<not> b"
  by (auto simp: data_only_def sent_ok_def)

definition link_ok :: "link \<Rightarrow> bool" where
  "link_ok l \<longleftrightarrow> sent_ok (lk_closing l) (lk_sent l)
     \<and> lk_pending_bytes l = length (concat (lk_pending l))
     \<and> (lk_corks l = 0 \<longrightarrow> lk_pending l = [])
     \<and> (lk_control l \<le> max_control_frames \<or> gone l)"

lemma new_link_ok: "link_ok (new_link now)"
  by (simp add: link_ok_def new_link_def)

lemma write_frame_ok:
  "link_ok l \<Longrightarrow> \<not> gone l \<Longrightarrow> opcode \<in> {op_binary, op_pong} \<Longrightarrow> link_ok (socket_write opcode payload l)"
  by (auto simp: link_ok_def socket_write_def gone_def sent_ok_def)

text \<open>What neither side of the closing looks at may be changed.\<close>

definition same_sending :: "link \<Rightarrow> link \<Rightarrow> bool" where
  "same_sending l l' \<longleftrightarrow> lk_closing l' = lk_closing l \<and> lk_sent l' = lk_sent l \<and> lk_pending l' = lk_pending l
     \<and> lk_pending_bytes l' = lk_pending_bytes l \<and> lk_corks l' = lk_corks l
     \<and> (lk_control l' = lk_control l \<and> (lk_destroyed l \<longrightarrow> lk_destroyed l') \<or> gone l' \<or> lk_control l' \<le> max_control_frames)"

lemma same_sending_ok: "link_ok l \<Longrightarrow> same_sending l l' \<Longrightarrow> link_ok l'"
  by (auto simp: link_ok_def same_sending_def sent_ok_def gone_def)

lemma send_close_keeps: "link_ok l \<Longrightarrow> link_ok (send_close code l)"
  by (auto simp: link_ok_def send_close_def socket_write_def gone_def)

lemma end_keeps: "link_ok l \<Longrightarrow> link_ok (end_stream l)"
  unfolding end_stream_def by (rule same_sending_ok [OF send_close_keeps]) (auto simp: same_sending_def)

lemma fail_keeps: "link_ok l \<Longrightarrow> link_ok (fail c l)"
  unfolding fail_def by (rule same_sending_ok [OF send_close_keeps]) (auto simp: same_sending_def)

lemma write_keeps: "link_ok l \<Longrightarrow> link_ok (write_stream b l)"
  by (auto simp: write_stream_def write_frame_ok) (auto simp: link_ok_def gone_def sent_ok_def)

lemma cork_keeps: "link_ok l \<Longrightarrow> link_ok (cork l)"
  by (auto simp: cork_def link_ok_def gone_def sent_ok_def)

lemma uncork_keeps: "link_ok l \<Longrightarrow> link_ok (uncork l)"
proof -
  assume ok: "link_ok l"
  define l1 where "l1 = l\<lparr>lk_corks := lk_corks l - 1\<rparr>"
  define l2 where "l2 = l1\<lparr>lk_pending := [], lk_pending_bytes := 0\<rparr>"
  have l2: "link_ok l2" using ok by (auto simp: l2_def l1_def link_ok_def gone_def sent_ok_def)
  have l1: "link_ok l1" if "0 < lk_corks l1 \<or> lk_pending l1 = []"
    using ok that by (auto simp: l1_def link_ok_def gone_def sent_ok_def)
  have "uncork l = (if lk_corks l = 0 then l else if 0 < lk_corks l1 \<or> lk_pending l1 = [] then l1
      else if gone l2 then l2 else socket_write op_binary (concat (lk_pending l1)) l2)"
    by (simp add: uncork_def Let_def l1_def l2_def)
  then show ?thesis using ok l1 l2 write_frame_ok by simp
qed

lemma flags_keep:
  "link_ok l \<Longrightarrow> link_ok (l\<lparr>lk_halted := b\<rparr>)" "link_ok l \<Longrightarrow> link_ok (l\<lparr>lk_choked := b\<rparr>)"
  "link_ok l \<Longrightarrow> link_ok (l\<lparr>lk_paused := b\<rparr>)" "link_ok l \<Longrightarrow> link_ok (l\<lparr>lk_binary := b\<rparr>)"
  "link_ok l \<Longrightarrow> link_ok (l\<lparr>lk_heard := h\<rparr>)" "link_ok l \<Longrightarrow> link_ok (l\<lparr>lk_destroyed := True\<rparr>)"
  by (auto simp: link_ok_def gone_def)

lemma answer_keeps: "link_ok l \<Longrightarrow> link_ok (answer r l)"
  by (cases r) (simp_all add: write_keeps cork_keeps uncork_keeps end_keeps pause_def flags_keep)

lemma answers_keep: "link_ok l \<Longrightarrow> link_ok (fold answer rs l)"
  by (induction rs arbitrary: l) (simp_all add: answer_keeps)

lemma hear_keeps: "link_ok l \<Longrightarrow> link_ok (hear sr payload l)"
  by (simp add: hear_def Let_def answers_keep flags_keep)

lemma fail_any: "link_ok (l\<lparr>lk_control := 0\<rparr>) \<Longrightarrow> link_ok (fail c l)"
  by (auto simp: fail_def send_close_def socket_write_def link_ok_def gone_def)

lemma allow_keeps: "link_ok l \<Longrightarrow> link_ok (fst (allow_control_frame now l))"
  by (auto simp: allow_control_frame_def Let_def intro!: fail_any)
    (auto simp: link_ok_def gone_def sent_ok_def)

lemma allow_open: "allow_control_frame now l = (l', True) \<Longrightarrow> gone l' \<longleftrightarrow> gone l"
  by (auto simp: allow_control_frame_def Let_def gone_def split: if_splits)

lemma pong_keeps: "link_ok l \<Longrightarrow> \<not> gone l \<Longrightarrow> link_ok (fst (write_pong sr payload l))"
  using write_frame_ok [of l op_pong payload] by (simp add: write_pong_def Let_def flags_keep)

lemma take_frame_keeps: "link_ok l \<Longrightarrow> \<not> stopped l \<Longrightarrow> link_ok (fst (take_frame sr f l))"
proof -
  assume ok: "link_ok l" and open': "\<not> stopped l"
  obtain l' go where a: "allow_control_frame (sr_now sr l) l = (l', go)" by fastforce
  have l': "link_ok l'" using allow_keeps [OF ok, of "sr_now sr l"] a by simp
  have pong: "link_ok (fst (write_pong sr (fr_payload f) l'))" if go
    using that a allow_open [of "sr_now sr l" l l'] open' l' gone_stopped [of l] by (auto intro: pong_keeps)
  show ?thesis
    using ok l' pong by (auto simp: take_frame_def a Let_def hear_keeps fail_keeps end_keeps flags_keep)
qed

lemma drain_keeps: "link_ok l \<Longrightarrow> link_ok (snd (drain nxt sr n q l))"
proof (induction n arbitrary: q l)
  case (Suc n)
  show ?case
  proof (cases "stopped l")
    case False
    show ?thesis
    proof (cases "nxt q")
      case (Decoded f q')
      obtain l' go where t: "take_frame sr f l = (l', go)" by fastforce
      with take_frame_keeps [OF Suc.prems False, of sr f] have "link_ok l'" by simp
      with Suc.IH t False Decoded show ?thesis by (simp add: drain.simps(2))
    qed (use Suc.prems in \<open>auto simp: drain.simps(2) fail_keeps\<close>)
  qed (simp add: Suc.prems)
qed simp

datatype ws_event = Chunk "byte list" | Told request | Drained_out | Resumed

fun ws_step :: "surroundings \<times> ws_event \<Rightarrow> stream \<Rightarrow> stream" where
  "ws_step (sr, Chunk c) s = receive sr c s"
| "ws_step (sr, Told r) s = (fst s, answer r (snd s))"
| "ws_step (sr, Drained_out) s = drained_out sr s"
| "ws_step (sr, Resumed) s = resume sr s"

definition open_stream :: "int \<Rightarrow> stream" where
  "open_stream now = (new_decoder, new_link now)"

lemma drain_frames_of_keeps: "link_ok (snd s) \<Longrightarrow> link_ok (snd (drain_frames_of sr s))"
  by (cases s) (simp add: drain_frames_of_def drain_keeps)

lemma unhalt_keeps: "link_ok (snd s) \<Longrightarrow> link_ok (snd (unhalt s))"
  by (cases s) (auto simp: unhalt_def flags_keep)

lemma ws_step_keeps: "link_ok (snd s) \<Longrightarrow> link_ok (snd (ws_step e s))"
proof (cases e)
  case (Pair sr ev)
  assume ok: "link_ok (snd s)"
  obtain d l where s: "s = (d, l)" by fastforce
  show ?thesis
  proof (cases ev)
    case (Chunk c)
    then show ?thesis using ok drain_frames_of_keeps [of "(push c d, l)" sr] by (simp add: Pair s receive_def)
  next
    case (Told r)
    then show ?thesis using ok by (simp add: Pair answer_keeps)
  next
    case Drained_out
    have "link_ok (snd (drain_frames_of sr (d, l\<lparr>lk_choked := False\<rparr>)))"
      using ok by (intro drain_frames_of_keeps) (simp add: s flags_keep)
    then show ?thesis using ok Drained_out by (simp add: Pair s drained_out_def Let_def unhalt_keeps flags_keep)
  next
    case Resumed
    have "link_ok (snd (drain_frames_of sr (d, l\<lparr>lk_paused := False\<rparr>)))"
      using ok by (intro drain_frames_of_keeps) (simp add: s flags_keep)
    then show ?thesis using ok Resumed by (auto simp: Pair s resume_def Let_def flags_keep split: prod.split)
  qed
qed

lemma ws_run_keeps: "link_ok (snd s) \<Longrightarrow> link_ok (snd (fold ws_step es s))"
  by (induction es arbitrary: s) (simp_all add: ws_step_keeps)

text \<open>A stream that is closing neither sends nor hears.\<close>

definition traffic :: "link \<Rightarrow> (byte \<times> byte list) list \<times> byte list list" where
  "traffic l = (lk_sent l, lk_heard l)"

definition shut :: "link \<Rightarrow> link \<Rightarrow> bool" where
  "shut l l' \<longleftrightarrow> lk_closing l' \<and> traffic l' = traffic l"

lemma answer_shut: "lk_closing l \<Longrightarrow> shut l (answer r l)"
  by (cases r) (auto simp: shut_def traffic_def write_stream_def gone_def cork_def uncork_def Let_def
      end_stream_def send_close_def pause_def)

lemma ws_step_shut: "lk_closing (snd s) \<Longrightarrow> shut (snd s) (snd (ws_step e s))"
proof (cases e; cases s)
  fix sr ev d l assume "lk_closing (snd s)" and e: "e = (sr, ev)" and s: "s = (d, l)"
  then have c: "lk_closing l" by simp
  then have stop: "stopped l" "stopped (l\<lparr>lk_paused := False\<rparr>)" "gone l" by (auto simp: stopped_def gone_def)
  show ?thesis
    using c stop by (cases ev) (simp_all add: e s receive_def drained_out_def resume_def answer_shut drain_frames_of_def Let_def,
      simp_all add: shut_def traffic_def)
qed

lemma ws_run_shut: "lk_closing (snd s) \<Longrightarrow> shut (snd s) (snd (fold ws_step es s))"
proof (induction es arbitrary: s)
  case (Cons e es)
  from ws_step_shut [OF Cons.prems, of e] Cons.IH [of "ws_step e s"] show ?case by (simp add: shut_def)
qed (simp add: shut_def)

section \<open>A browser told from a desktop client\<close>

text \<open>
  The first bytes of a connection (\<open>acceptGameSocket\<close>, \<open>upgrade\<close>). What the text of the upgrade
  must say is a parameter, \<open>good\<close>; \<open>Playing browser bytes\<close> is a connection handed over, with all the
  bytes its reader has been given.
\<close>

datatype entrance = Sniffing "byte list" | Upgrading "byte list" | Refused | Gone | Playing bool "byte list"

definition get_word :: "byte list" where "get_word = [71, 69, 84, 32]"
definition max_handshake_bytes :: nat where "max_handshake_bytes = 8192"

definition looks_like_upgrade :: "byte list \<Rightarrow> bool" where
  "looks_like_upgrade b \<longleftrightarrow> 4 \<le> length b \<and> take 4 b = get_word"

definition undecided :: "byte list \<Rightarrow> bool" where
  "undecided b \<longleftrightarrow> length b < 4 \<and> take (length b) get_word = b"

fun head_end :: "byte list \<Rightarrow> nat option" where
  "head_end [] = None"
| "head_end (b # bs) = (if take 4 (b # bs) = [13, 10, 13, 10] then Some 0 else map_option Suc (head_end bs))"

definition try_handshake :: "(byte list \<Rightarrow> bool) \<Rightarrow> byte list \<Rightarrow> entrance" where
  "try_handshake good head =
     (case head_end head of
        None \<Rightarrow> if max_handshake_bytes < length head then Gone else Upgrading head
      | Some e \<Rightarrow> if good (take e head) then Playing True (drop (e + 4) head) else Refused)"

fun on_bytes :: "(byte list \<Rightarrow> bool) \<Rightarrow> byte list \<Rightarrow> entrance \<Rightarrow> entrance" where
  "on_bytes good c (Sniffing head) =
     (let head = head @ c in
      if undecided head then Sniffing head
      else if looks_like_upgrade head then try_handshake good head
      else Playing False head)"
| "on_bytes good c (Upgrading head) = try_handshake good (head @ c)"
| "on_bytes good c (Playing browser bytes) = Playing browser (bytes @ c)"
| "on_bytes good c st = st"

text \<open>The same, of all the bytes at once.\<close>

definition verdict :: "(byte list \<Rightarrow> bool) \<Rightarrow> byte list \<Rightarrow> entrance" where
  "verdict good b = on_bytes good b (Sniffing [])"

definition small_handshake :: "byte list \<Rightarrow> bool" where
  "small_handshake b \<longleftrightarrow> (case head_end b of None \<Rightarrow> length b | Some e \<Rightarrow> e + 3) \<le> max_handshake_bytes"

lemma head_end_bound: "head_end b = Some e \<Longrightarrow> e + 4 \<le> length b"
proof (induction b arbitrary: e)
  case (Cons x b)
  show ?case
  proof (cases "take 4 (x # b) = [13, 10, 13, 10]")
    case True
    then have "length (take 4 (x # b)) = 4" by simp
    then show ?thesis using True Cons.prems by simp
  qed (use Cons in \<open>auto split: if_splits\<close>)
qed simp

lemma head_end_more: "head_end b = Some e \<Longrightarrow> head_end (b @ c) = Some e"
proof (induction b arbitrary: e)
  case (Cons x b)
  show ?case
  proof (cases "take 4 (x # b) = [13, 10, 13, 10]")
    case True
    then have "length (take 4 (x # b)) = 4" by simp
    then have "take 4 (x # b @ c) = take 4 (x # b)" by simp
    then show ?thesis using True Cons.prems by simp
  next
    case False
    with Cons.prems obtain e' where e: "head_end b = Some e'" "e = Suc e'" by auto
    have "4 \<le> length b" using head_end_bound [OF e(1)] by simp
    then have four: "take 4 (x # b @ c) = take 4 (x # b)" by simp
    show ?thesis using False Cons.IH [OF e(1)] e(2) unfolding append_Cons head_end.simps four by simp
  qed
qed simp

lemma head_end_inside: "head_end (b @ c) = Some e \<Longrightarrow> e + 4 \<le> length b \<Longrightarrow> head_end b = Some e"
proof (induction b arbitrary: e)
  case (Cons x b)
  then have "take 4 (x # b @ c) = take 4 (x # b)" by simp
  with Cons show ?case by (auto split: if_splits)
qed simp

lemma small_prefix: "small_handshake (b @ c) \<Longrightarrow> small_handshake b"
  using head_end_inside [of b c] head_end_more [of b _ c]
  by (cases "head_end b"; cases "head_end (b @ c)") (fastforce simp: small_handshake_def)+

lemma decided_other:
  assumes "\<not> undecided b" "\<not> looks_like_upgrade b"
  shows "\<not> undecided (b @ c) \<and> \<not> looks_like_upgrade (b @ c)"
proof (cases "4 \<le> length b")
  case False
  have "take (length b) get_word = b" if "take (length (b @ c)) get_word = b @ c \<or> take 4 (b @ c) = get_word"
    using that
  proof
    assume "take (length (b @ c)) get_word = b @ c"
    then have "take (length b) (take (length (b @ c)) get_word) = b" by simp
    then show ?thesis by (simp add: min_absorb1)
  next
    assume g: "take 4 (b @ c) = get_word"
    have "take (length b) (take 4 (b @ c)) = b" using False by (simp add: min_absorb1)
    with g show ?thesis by simp
  qed
  with assms False show ?thesis by (auto simp: undecided_def looks_like_upgrade_def)
qed (use assms in \<open>auto simp: undecided_def looks_like_upgrade_def\<close>)

lemma verdict_later:
  assumes "small_handshake (b @ c)"
  shows "on_bytes good c (verdict good b) = verdict good (b @ c)"
proof (cases "undecided b")
  case False
  show ?thesis
  proof (cases "looks_like_upgrade b")
    case True
    then have l: "looks_like_upgrade (b @ c)" "\<not> undecided (b @ c)"
      by (auto simp: looks_like_upgrade_def undecided_def)
    show ?thesis
    proof (cases "head_end b")
      case None
      then have "length b \<le> max_handshake_bytes" using small_prefix [OF assms] by (simp add: small_handshake_def)
      with None True False have "verdict good b = Upgrading b" by (simp add: verdict_def try_handshake_def)
      with l show ?thesis by (simp add: verdict_def)
    next
      case (Some e)
      with head_end_bound [OF Some] head_end_more [OF Some, of c] l True False show ?thesis
        by (simp add: verdict_def try_handshake_def)
    qed
  qed (use decided_other [OF False, of c] False in \<open>simp_all add: verdict_def\<close>)
qed (simp add: verdict_def Let_def)

section \<open>Properties\<close>



text \<open>C19: How the network cut the stream up makes no difference. Given the same surroundings, a
  stream that receives bytes in any pieces ends in the state in which receiving them all at once
  would have put it: the same data heard, the same frames sent, the same counts, the same reason
  to stop; and unless it is closing, what its decoder holds is the same too.\<close>
theorem pieces_make_no_difference:
  assumes "decoder_ok (fst s)"
  shows "snd (fold (receive sr) (c # cs) s) = snd (receive sr (c @ concat cs) s)
    \<and> (gone (snd (receive sr (c @ concat cs) s))
       \<or> contents (fst (fold (receive sr) (c # cs) s)) = contents (fst (receive sr (c @ concat cs) s)))"
proof -
  have "alike (seen (fold (receive sr) (c # cs) s)) (seen (receive sr (c @ concat cs) s))"
    using receive_all_joined [of sr c cs "seen s"]
    by (simp only: receive_all_is_bytes [OF assms] receive_is_bytes [OF assms])
  then show ?thesis by (auto simp: alike_def seen_def)
qed

definition calm :: surroundings where
  "calm = \<lparr>sr_now = (\<lambda>_. 0), sr_room = (\<lambda>_. True), sr_hear = (\<lambda>_ _. [])\<rparr>"

lemma pieces_make_no_difference_witness:
  "snd (fold (receive calm) [[130], [130, 1, 2], [3, 4, 11], [22]] (open_stream 0))
     = snd (receive calm [130, 130, 1, 2, 3, 4, 11, 22] (open_stream 0))"
proof -
  have ok: "decoder_ok (fst (open_stream 0))" by (simp add: open_stream_def)
  have "([130] :: byte list) @ concat [[130, 1, 2], [3, 4, 11], [22]] = [130, 130, 1, 2, 3, 4, 11, 22]" by simp
  with pieces_make_no_difference [OF ok, of calm "[130]" "[[130, 1, 2], [3, 4, 11], [22]]"] show ?thesis by metis
qed

text \<open>C20: A stream keeps its word. Whatever arrives, whatever the session does and whenever the
  socket drains, the frames it sends are data and pongs, followed by one close frame and nothing
  more once it is closing; the bytes a cork holds are counted exactly, nothing is held without a
  cork, and more than 64 control frames in a window leave it closed. Once it is closing it hears
  nothing more and says nothing more, whatever happens.\<close>
theorem stream_keeps_its_word:
  "link_ok (snd (fold ws_step es (open_stream now)))
   \<and> (lk_closing (snd (fold ws_step es (open_stream now)))
      \<longrightarrow> traffic (snd (fold ws_step (es @ es') (open_stream now))) = traffic (snd (fold ws_step es (open_stream now))))"
  using ws_run_keeps [of "open_stream now" es] ws_run_shut [of "fold ws_step es (open_stream now)" es']
  by (simp add: open_stream_def new_link_ok shut_def)

lemma stream_keeps_its_word_witness:
  "traffic (snd (fold ws_step ([(calm, Told End)] @ [(calm, Told (Write [1]))]) (open_stream 0)))
     = ([(op_close, close_payload close_normal)], [])"
proof -
  have e: "snd (fold ws_step [(calm, Told End)] (open_stream 0)) = end_stream (new_link 0)" by (simp add: open_stream_def)
  have t: "traffic (end_stream (new_link 0)) = ([(op_close, close_payload close_normal)], [])"
    "lk_closing (end_stream (new_link 0))"
    by (simp_all add: traffic_def end_stream_def send_close_def gone_def socket_write_def new_link_def)
  from stream_keeps_its_word [of "[(calm, Told End)]" 0 "[(calm, Told (Write [1]))]"] show ?thesis
    using t unfolding e by simp
qed

definition data_sent :: "link \<Rightarrow> byte list" where
  "data_sent l = concat (map snd (filter (\<lambda>m. fst m = op_binary) (lk_sent l)))"

fun written :: "request \<Rightarrow> byte list" where
  "written (Write b) = b" | "written _ = []"

fun batching :: "request \<Rightarrow> bool" where
  "batching (Write b) = True" | "batching Cork = True" | "batching Uncork = True" | "batching _ = False"

lemma answer_batching:
  assumes "batching r" "\<not> gone l" "lk_corks l = 0 \<longrightarrow> lk_pending l = []"
  shows "\<not> gone (answer r l) \<and> (lk_corks (answer r l) = 0 \<longrightarrow> lk_pending (answer r l) = [])
    \<and> data_sent (answer r l) @ concat (lk_pending (answer r l)) = data_sent l @ concat (lk_pending l) @ written r"
  using assms
  by (cases r) (auto simp: write_stream_def cork_def uncork_def Let_def gone_def socket_write_def data_sent_def)

text \<open>Coalescing loses nothing. Whatever the session writes to an open stream, corked to any
  depth and uncorked in any order, the bytes of the data frames sent and then those still held
  are the bytes that were written, in their order; and nothing is held once every cork is out.\<close>
lemma cork_loses_nothing:
  assumes "list_all batching rs" and "\<not> gone l" and "link_ok l"
  shows "data_sent (fold answer rs l) @ concat (lk_pending (fold answer rs l))
      = data_sent l @ concat (lk_pending l) @ concat (map written rs)
    \<and> (lk_corks (fold answer rs l) = 0 \<longrightarrow> lk_pending (fold answer rs l) = [])"
proof -
  have "lk_corks l = 0 \<longrightarrow> lk_pending l = []" using assms(3) by (simp add: link_ok_def)
  with assms(1,2) show ?thesis
  proof (induction rs arbitrary: l)
    case (Cons r rs)
    have "batching r" "list_all batching rs" using Cons.prems(1) by simp_all
    note step = answer_batching [OF this(1) Cons.prems(2,3)]
    from Cons.IH [OF \<open>list_all batching rs\<close>, of "answer r l"] step show ?case by simp
  qed simp
qed

lemma cork_loses_nothing_witness:
  "data_sent (fold answer [Cork, Write [1], Cork, Write [2, 3], Uncork, Uncork] (new_link 0)) = [1, 2, 3]"
proof -
  let ?rs = "[Cork, Write [1], Cork, Write [2, 3], Uncork, Uncork]"
  have l: "\<not> gone (new_link 0)" "data_sent (new_link 0) = []" "lk_pending (new_link 0) = []"
    by (simp_all add: gone_def new_link_def data_sent_def)
  have "lk_corks (fold answer ?rs (new_link 0)) = 0"
    by (simp add: cork_def uncork_def write_stream_def socket_write_def gone_def new_link_def Let_def)
  with cork_loses_nothing [of ?rs, OF _ l(1) new_link_ok] l show ?thesis by auto
qed

text \<open>A browser is told from a desktop client by what it sends, not by how the network cut it
  up. However the first bytes arrive, the connection is decided as they would be all at once, as
  long as the upgrade ends within the size allowed for it: bytes that do not begin with
  GET and a blank are handed over whole, and after a good upgrade everything behind its end is.\<close>
lemma told_apart_by_bytes:
  assumes "small_handshake (concat cs)"
  shows "fold (on_bytes good) cs (Sniffing []) = verdict good (concat cs)
    \<and> (\<not> undecided (concat cs) \<and> \<not> looks_like_upgrade (concat cs)
         \<longrightarrow> verdict good (concat cs) = Playing False (concat cs))
    \<and> (looks_like_upgrade (concat cs) \<and> head_end (concat cs) = Some e \<and> good (take e (concat cs))
         \<longrightarrow> verdict good (concat cs) = Playing True (drop (e + 4) (concat cs)))"
proof -
  have "fold (on_bytes good) cs (Sniffing []) = verdict good (concat cs)"
    using assms
  proof (induction cs rule: rev_induct)
    case Nil
    then show ?case by (simp add: verdict_def undecided_def)
  next
    case (snoc c cs)
    have "fold (on_bytes good) cs (Sniffing []) = verdict good (concat cs)"
      using snoc.prems small_prefix [of "concat cs" c] by (intro snoc.IH) simp
    with verdict_later [of "concat cs" c good] snoc.prems show ?case by simp
  qed
  moreover have "undecided b \<Longrightarrow> \<not> looks_like_upgrade b" for b
    by (simp add: undecided_def looks_like_upgrade_def)
  moreover have "\<not> undecided b \<Longrightarrow> \<not> looks_like_upgrade b \<Longrightarrow> verdict good b = Playing False b" for b
    by (simp add: verdict_def)
  moreover have "looks_like_upgrade b \<Longrightarrow> \<not> undecided b \<Longrightarrow> verdict good b = try_handshake good b" for b
    by (simp add: verdict_def)
  moreover have "head_end b = Some e \<Longrightarrow> good (take e b) \<Longrightarrow> try_handshake good b = Playing True (drop (e + 4) b)" for b
    by (simp add: try_handshake_def)
  ultimately show ?thesis by metis
qed

lemma told_apart_by_bytes_witness:
  "fold (on_bytes (\<lambda>_. True)) [[71], [69, 84], [9, 9, 9]] (Sniffing []) = Playing False [71, 69, 84, 9, 9, 9]"
proof -
  let ?cs = "[[71], [69, 84], [9, 9, 9]] :: byte list list"
  have c: "concat ?cs = [71, 69, 84, 9, 9, 9]" by simp
  have s: "small_handshake (concat ?cs)" unfolding c by (simp add: small_handshake_def max_handshake_bytes_def)
  have o: "\<not> undecided (concat ?cs)" "\<not> looks_like_upgrade (concat ?cs)"
    unfolding c by (simp_all add: undecided_def looks_like_upgrade_def get_word_def)
  from told_apart_by_bytes [OF s, of "\<lambda>_. True" 0] o show ?thesis unfolding c by metis
qed

end
