(* ===== verification/Connection.thy ===== *)
theory Connection
  imports Packet
begin

text \<open>
  A game connection (\<open>src/socket/index.js\<close>): the limits a socket is admitted under, the buffer and
  the queue its packets wait in, the one loop that handles them in order, the three reasons to
  stop reading, the sending under a bound on what is buffered, and the closing. What a packet
  makes the server do is an event of its own here: a handler that returns, finds its packet cut
  short, or asks for the session's end.
\<close>

section \<open>A session's socket\<close>

definition max_queued_packets :: nat where "max_queued_packets = 256"
definition resume_queue_at :: nat where "resume_queue_at = 64"
definition max_queued_bytes :: nat where "max_queued_bytes = 2 ^ 20"

text \<open>
  \<open>cn_received\<close> and \<open>cn_handled\<close> record what came and which bodies were given to a handler;
  \<open>cn_reading\<close> is the socket's flow, \<open>cn_ended\<close> and \<open>cn_destroyed\<close> what was asked of it.
\<close>

record conn =
  cn_buffered :: "byte list"
  cn_queue :: "byte list list"
  cn_queued_bytes :: nat
  cn_draining :: bool
  cn_closed :: bool
  cn_for_queue :: bool
  cn_for_write :: bool
  cn_for_worker :: bool
  cn_reading :: bool
  cn_authenticated :: bool
  cn_deadline :: bool
  cn_ended :: bool
  cn_destroyed :: bool
  cn_written :: "byte list list"
  cn_received :: "byte list"
  cn_handled :: "byte list list"

definition new_conn :: conn where
  "new_conn = \<lparr>cn_buffered = [], cn_queue = [], cn_queued_bytes = 0, cn_draining = False, cn_closed = False,
     cn_for_queue = False, cn_for_write = False, cn_for_worker = False, cn_reading = True,
     cn_authenticated = False, cn_deadline = True, cn_ended = False, cn_destroyed = False,
     cn_written = [], cn_received = [], cn_handled = []\<rparr>"

definition update_read_flow :: "conn \<Rightarrow> conn" where
  "update_read_flow c = c\<lparr>cn_reading := \<not> (cn_for_queue c \<or> cn_for_write c \<or> cn_for_worker c)\<rparr>"

definition close_session :: "bool \<Rightarrow> conn \<Rightarrow> conn" where
  "close_session flush c =
     (if cn_closed c then c
      else let c = c\<lparr>cn_closed := True, cn_deadline := False, cn_queue := [], cn_queued_bytes := 0, cn_buffered := []\<rparr>
           in if flush then c\<lparr>cn_ended := True\<rparr> else c\<lparr>cn_destroyed := True\<rparr>)"

text \<open>\<open>limit\<close> is the configured bound on what the socket may have buffered, \<open>waiting\<close> what it has.\<close>

definition send :: "nat \<Rightarrow> nat \<Rightarrow> bool \<Rightarrow> byte list \<Rightarrow> conn \<Rightarrow> conn \<times> bool" where
  "send limit waiting room frame c =
     (if cn_closed c \<or> cn_destroyed c then (c, False)
      else if limit < waiting + length frame then (close_session False c, False)
      else let c = c\<lparr>cn_written := cn_written c @ [frame]\<rparr> in
        (if room then c else update_read_flow (c\<lparr>cn_for_write := True\<rparr>), True))"

definition complete_authentication :: "conn \<Rightarrow> conn" where
  "complete_authentication c = c\<lparr>cn_authenticated := True, cn_deadline := False\<rparr>"

definition login_timeout :: "conn \<Rightarrow> conn" where
  "login_timeout c =
     (if \<not> cn_deadline c then c
      else let c = c\<lparr>cn_deadline := False\<rparr> in if cn_authenticated c then c else close_session False c)"

definition pause_for_worker :: "bool \<Rightarrow> conn \<Rightarrow> conn" where
  "pause_for_worker paused c =
     (if cn_for_worker c = paused then c else update_read_flow (c\<lparr>cn_for_worker := paused\<rparr>))"

definition write_drained :: "conn \<Rightarrow> conn" where
  "write_drained c = update_read_flow (c\<lparr>cn_for_write := False\<rparr>)"

definition socket_closed :: "conn \<Rightarrow> conn" where
  "socket_closed c = c\<lparr>cn_deadline := False, cn_closed := True, cn_queue := [], cn_queued_bytes := 0, cn_destroyed := True\<rparr>"

text \<open>The head of the loop: the next packet goes to its handler, or the loop ends.\<close>

definition take_next :: "conn \<Rightarrow> conn" where
  "take_next c =
     (if cn_closed c then c\<lparr>cn_draining := False\<rparr>
      else case cn_queue c of
        [] \<Rightarrow> c\<lparr>cn_draining := False\<rparr>
      | packet # waiting \<Rightarrow> c\<lparr>cn_draining := True, cn_queue := waiting, cn_queued_bytes := cn_queued_bytes c - length packet,
                        cn_handled := cn_handled c @ [packet]\<rparr>)"

definition run_loop :: "conn \<Rightarrow> conn" where
  "run_loop c = (if cn_draining c then c else take_next c)"

datatype outcome = Done | Truncated | Threw | Terminate

text \<open>A handler is done: the rest of the loop's turn, and the next one's head.\<close>

definition handled :: "outcome \<Rightarrow> conn \<Rightarrow> conn" where
  "handled what c =
     (if \<not> cn_draining c then c
      else if what = Truncated \<or> what = Terminate then (close_session False c)\<lparr>cn_draining := False\<rparr>
      else if cn_closed c then c\<lparr>cn_draining := False\<rparr>
      else take_next (if length (cn_queue c) \<le> resume_queue_at
                      then update_read_flow (c\<lparr>cn_for_queue := False\<rparr>) else c))"

definition queue_packets :: "byte list list \<Rightarrow> conn \<Rightarrow> conn" where
  "queue_packets packets c = c\<lparr>cn_queue := cn_queue c @ packets,
     cn_queued_bytes := cn_queued_bytes c + length (concat packets)\<rparr>"

definition on_data :: "byte list \<Rightarrow> conn \<Rightarrow> conn" where
  "on_data chunk c =
     (let d = drain_frames (cn_buffered c @ chunk);
          c = c\<lparr>cn_received := cn_received c @ chunk, cn_buffered := dr_rest d\<rparr>;
          c = queue_packets (dr_packets d) c
      in if max_queued_packets < length (cn_queue c) \<or> max_queued_bytes < cn_queued_bytes c
         then close_session False c
         else let c = (if resume_queue_at < length (cn_queue c)
                       then update_read_flow (c\<lparr>cn_for_queue := True\<rparr>) else c);
                  c = run_loop c
              in if dr_malformed d then close_session False c else c)"

datatype conn_event = Arrives "byte list" | Returns outcome | Sends nat nat bool "byte list" | LoginDone
  | LoginTimeout | Worker bool | Drained | Closes bool | SocketGone

text \<open>A paused or destroyed socket brings no data.\<close>

fun conn_step :: "conn_event \<Rightarrow> conn \<Rightarrow> conn" where
  "conn_step (Arrives chunk) c = (if cn_reading c \<and> \<not> cn_destroyed c then on_data chunk c else c)"
| "conn_step (Returns what) c = handled what c"
| "conn_step (Sends limit waiting room frame) c = fst (send limit waiting room frame c)"
| "conn_step LoginDone c = complete_authentication c"
| "conn_step LoginTimeout c = login_timeout c"
| "conn_step (Worker paused) c = pause_for_worker paused c"
| "conn_step Drained c = write_drained c"
| "conn_step (Closes flush) c = close_session flush c"
| "conn_step SocketGone c = socket_closed c"

section \<open>What always holds\<close>

definition flow_ok :: "conn \<Rightarrow> bool" where
  "flow_ok c \<longleftrightarrow> cn_reading c = (\<not> (cn_for_queue c \<or> cn_for_write c \<or> cn_for_worker c))"

definition queue_ok :: "conn \<Rightarrow> bool" where
  "queue_ok c \<longleftrightarrow> length (cn_queue c) \<le> max_queued_packets \<and> cn_queued_bytes c \<le> max_queued_bytes
     \<and> cn_queued_bytes c = length (concat (cn_queue c))
     \<and> (\<not> cn_draining c \<longrightarrow> cn_queue c = [])
     \<and> (cn_for_queue c \<longrightarrow> cn_draining c \<and> resume_queue_at \<le> length (cn_queue c))"

text \<open>Every byte that came is handled, queued or buffered, in the order it came.\<close>

definition stream_ok :: "conn \<Rightarrow> bool" where
  "stream_ok c \<longleftrightarrow> cn_received c = concat (map frame_bytes (cn_handled c @ cn_queue c)) @ cn_buffered c
     \<and> parse_packet (cn_buffered c) = NeedMore"

definition conn_ok :: "conn \<Rightarrow> bool" where
  "conn_ok c \<longleftrightarrow> flow_ok c \<and> (\<not> cn_closed c \<longrightarrow> queue_ok c \<and> stream_ok c \<and> \<not> cn_destroyed c \<and> \<not> cn_ended c)"

lemmas conn_parts = flow_ok_def queue_ok_def stream_ok_def conn_ok_def

lemma new_conn_ok: "conn_ok new_conn"
  by (simp add: conn_parts new_conn_def parse_packet_def)

lemma close_session_ok: "flow_ok c \<Longrightarrow> conn_ok (close_session flush c)" if "cn_closed c \<longrightarrow> conn_ok c"
  using that by (simp add: close_session_def conn_ok_def flow_ok_def Let_def)

lemma close_session_closed [simp]: "cn_closed (close_session flush c)"
  by (simp add: close_session_def Let_def)

lemma update_flow_ok: "flow_ok (update_read_flow c)"
  by (simp add: update_read_flow_def flow_ok_def)

lemma closed_is_ok: "cn_closed c \<Longrightarrow> conn_ok c \<longleftrightarrow> flow_ok c"
  by (simp add: conn_ok_def)

lemma take_next_ok:
  assumes "flow_ok c" "\<not> cn_closed c \<Longrightarrow> cn_queued_bytes c = length (concat (cn_queue c))"
    "\<not> cn_closed c \<Longrightarrow> length (cn_queue c) \<le> max_queued_packets \<and> cn_queued_bytes c \<le> max_queued_bytes"
    "\<not> cn_closed c \<Longrightarrow> cn_for_queue c \<Longrightarrow> resume_queue_at < length (cn_queue c)"
    "\<not> cn_closed c \<Longrightarrow> stream_ok c \<and> \<not> cn_destroyed c \<and> \<not> cn_ended c"
  shows "conn_ok (take_next c)"
proof (cases "cn_closed c")
  case False
  with assms show ?thesis
    by (cases "cn_queue c") (auto simp: take_next_def conn_parts)
qed (use assms in \<open>simp add: take_next_def conn_ok_def flow_ok_def\<close>)

lemma handled_ok: "conn_ok c \<Longrightarrow> conn_ok (handled what c)"
proof (cases "cn_draining c \<and> \<not> (what = Truncated \<or> what = Terminate) \<and> \<not> cn_closed c")
  case True
  assume ok: "conn_ok c"
  define c1 where "c1 = (if length (cn_queue c) \<le> resume_queue_at
      then update_read_flow (c\<lparr>cn_for_queue := False\<rparr>) else c)"
  have "conn_ok (take_next c1)"
    using ok True by (intro take_next_ok) (auto simp: c1_def conn_parts update_read_flow_def)
  with True show ?thesis by (simp add: handled_def c1_def)
next
  case False
  assume ok: "conn_ok c"
  have "flow_ok c" using ok by (simp add: conn_ok_def)
  then show ?thesis using False ok
    by (auto simp: handled_def close_session_def Let_def conn_ok_def flow_ok_def)
qed

lemma on_data_ok: "conn_ok c \<Longrightarrow> cn_reading c \<Longrightarrow> conn_ok (on_data chunk c)"
proof -
  assume ok: "conn_ok c" and reading: "cn_reading c"
  define d where "d = drain_frames (cn_buffered c @ chunk)"
  define c1 where "c1 = queue_packets (dr_packets d) (c\<lparr>cn_received := cn_received c @ chunk, cn_buffered := dr_rest d\<rparr>)"
  define c2 where "c2 = (if resume_queue_at < length (cn_queue c1)
      then update_read_flow (c1\<lparr>cn_for_queue := True\<rparr>) else c1)"
  have data: "on_data chunk c = (if max_queued_packets < length (cn_queue c1) \<or> max_queued_bytes < cn_queued_bytes c1
      then close_session False c1 else if dr_malformed d then close_session False (run_loop c2) else run_loop c2)"
    by (simp add: on_data_def Let_def d_def c1_def c2_def)
  have flow: "flow_ok c1" "flow_ok c2"
    using ok by (auto simp: c1_def c2_def queue_packets_def conn_ok_def flow_ok_def update_read_flow_def)
  have idle: "\<not> cn_for_queue c" using ok reading by (simp add: conn_ok_def flow_ok_def)
  show ?thesis
  proof (cases "cn_closed c")
    case True
    then have "cn_closed c1" "cn_closed c2" by (simp_all add: c1_def c2_def queue_packets_def update_read_flow_def)
    then show ?thesis using flow
      by (simp add: data close_session_def run_loop_def take_next_def conn_ok_def flow_ok_def)
  next
    case open': False
    have room: "\<not> cn_closed c1" "\<not> cn_closed c2" using open' by (simp_all add: c1_def c2_def queue_packets_def update_read_flow_def)
    have closes: "conn_ok (close_session False x)" if "flow_ok x" for x :: conn
      using that by (cases "cn_closed x") (auto simp: close_session_def conn_ok_def flow_ok_def Let_def)
    have flow': "flow_ok (run_loop c2)" using flow(2) by (auto simp: run_loop_def take_next_def flow_ok_def split: list.split)
    show ?thesis
    proof (cases "(max_queued_packets < length (cn_queue c1) \<or> max_queued_bytes < cn_queued_bytes c1) \<or> dr_malformed d")
      case True
      then show ?thesis using closes flow flow' by (auto simp: data)
    next
      case fine: False
      then have small: "length (dr_packets d) < 512"
        by (auto simp: c1_def queue_packets_def max_queued_packets_def)
      have parts: "concat (map frame_bytes (dr_packets d)) @ dr_rest d = cn_buffered c @ chunk"
        "parse_packet (dr_rest d) = NeedMore"
        using drain_frames_parts [of "cn_buffered c @ chunk"] small fine by (simp_all add: d_def)
      have c1: "stream_ok c1" "cn_queued_bytes c1 = length (concat (cn_queue c1))"
        using ok open' parts by (auto simp: c1_def queue_packets_def conn_ok_def stream_ok_def queue_ok_def)
      have q: "cn_queue c2 = cn_queue c1" "cn_queued_bytes c2 = cn_queued_bytes c1" "cn_draining c2 = cn_draining c"
        "cn_for_queue c2 \<longleftrightarrow> resume_queue_at < length (cn_queue c1)"
        "cn_destroyed c2 = cn_destroyed c" "cn_ended c2 = cn_ended c" "stream_ok c2"
        using idle c1(1) by (simp_all add: c2_def c1_def queue_packets_def update_read_flow_def stream_ok_def)
      have "conn_ok (run_loop c2)"
      proof (cases "cn_draining c")
        case True
        then show ?thesis using q c1 flow fine room ok open' by (auto simp: run_loop_def conn_ok_def queue_ok_def)
      next
        case False
        then have "run_loop c2 = take_next c2" using q by (simp add: run_loop_def)
        moreover have "conn_ok (take_next c2)"
          using q c1 flow fine ok open' by (intro take_next_ok) (auto simp: conn_ok_def)
        ultimately show ?thesis by simp
      qed
      then show ?thesis using fine by (simp add: data)
    qed
  qed
qed

lemma send_ok: "conn_ok c \<Longrightarrow> conn_ok (fst (send limit waiting room frame c))"
  by (auto simp: send_def Let_def close_session_def conn_parts update_read_flow_def)

lemma conn_step_ok: "conn_ok c \<Longrightarrow> conn_ok (conn_step e c)"
proof (cases e)
  case (Arrives chunk)
  assume "conn_ok c"
  then show ?thesis using on_data_ok by (simp add: Arrives)
next
  case (Returns what)
  assume "conn_ok c"
  then show ?thesis by (simp add: Returns handled_ok)
next
  case (Sends limit waiting room frame)
  assume "conn_ok c"
  then show ?thesis by (simp add: Sends send_ok)
qed (auto simp: complete_authentication_def login_timeout_def pause_for_worker_def write_drained_def
    close_session_def socket_closed_def update_read_flow_def Let_def conn_parts)

lemma conn_run_ok: "conn_ok c \<Longrightarrow> conn_ok (fold conn_step es c)"
  by (induction es arbitrary: c) (simp_all add: conn_step_ok)

lemma conn_step_closed: "cn_closed c \<Longrightarrow> cn_closed (conn_step e c)
    \<and> cn_handled (conn_step e c) = cn_handled c \<and> cn_written (conn_step e c) = cn_written c"
  by (cases e) (auto simp: on_data_def handled_def take_next_def run_loop_def queue_packets_def send_def Let_def
      complete_authentication_def login_timeout_def pause_for_worker_def write_drained_def
      close_session_def socket_closed_def update_read_flow_def)

lemma conn_run_closed: "cn_closed c \<Longrightarrow> cn_closed (fold conn_step es c)
    \<and> cn_handled (fold conn_step es c) = cn_handled c \<and> cn_written (fold conn_step es c) = cn_written c"
proof (induction es arbitrary: c)
  case (Cons e es)
  from conn_step_closed [OF Cons.prems, of e] Cons.IH [of "conn_step e c"] show ?case by simp
qed simp

section \<open>Who is let in\<close>

text \<open>
  The sockets that are open and counted. A socket from a trusted proxy (\<open>proxied\<close>) counts towards
  the total at once, and against the address its upgrade names when it has one (\<open>sk_address\<close> is
  the address it counts against); \<open>door\<close> holds the two counters of the module.
\<close>

record 'a sock =
  sk_id :: nat
  sk_address :: "'a option"
  sk_pending :: bool

record 'a door =
  dr_total :: nat
  dr_by_address :: "'a \<Rightarrow> nat option"
  dr_open :: "'a sock list"

definition held_by :: "'a door \<Rightarrow> 'a \<Rightarrow> nat" where
  "held_by d a = (case dr_by_address d a of None \<Rightarrow> 0 | Some n \<Rightarrow> n)"

definition new_door :: "'a door" where
  "new_door = \<lparr>dr_total = 0, dr_by_address = Map.empty, dr_open = []\<rparr>"

definition admit_address :: "nat \<Rightarrow> 'a \<Rightarrow> 'a door \<Rightarrow> 'a door option" where
  "admit_address per_address a d =
     (if per_address \<le> held_by d a then None
      else Some (d\<lparr>dr_by_address := (dr_by_address d)(a \<mapsto> held_by d a + 1)\<rparr>))"

definition admit_socket :: "nat \<Rightarrow> nat \<Rightarrow> bool \<Rightarrow> nat \<Rightarrow> 'a \<Rightarrow> 'a door \<Rightarrow> 'a door option" where
  "admit_socket cap per_address proxied k a d =
     (if cap \<le> dr_total d then None
      else case (if proxied then Some d else admit_address per_address a d) of
        None \<Rightarrow> None
      | Some d \<Rightarrow> Some (d\<lparr>dr_total := dr_total d + 1,
          dr_open := \<lparr>sk_id = k, sk_address = (if proxied then None else Some a), sk_pending = proxied\<rparr> # dr_open d\<rparr>))"

text \<open>\<open>onConnection\<close>, for a socket admitted before: the player behind a proxy is known now.\<close>

definition name_player :: "nat \<Rightarrow> nat \<Rightarrow> 'a \<Rightarrow> 'a door \<Rightarrow> 'a door \<times> bool" where
  "name_player per_address k a d =
     (case find (\<lambda>s. sk_id s = k) (dr_open d) of
        None \<Rightarrow> (d, False)
      | Some s \<Rightarrow>
          if \<not> sk_pending s then (d, True)
          else let d = d\<lparr>dr_open := map (\<lambda>s. if sk_id s = k then s\<lparr>sk_pending := False\<rparr> else s) (dr_open d)\<rparr> in
            (case admit_address per_address a d of
               None \<Rightarrow> (d, False)
             | Some d \<Rightarrow> (d\<lparr>dr_open := map (\<lambda>s. if sk_id s = k then s\<lparr>sk_address := Some a\<rparr> else s) (dr_open d)\<rparr>, True)))"

definition release_address :: "'a \<Rightarrow> 'a door \<Rightarrow> 'a door" where
  "release_address a d =
     (let remaining = (case dr_by_address d a of None \<Rightarrow> 1 | Some n \<Rightarrow> n) - 1 in
      d\<lparr>dr_by_address := (if 0 < remaining then (dr_by_address d)(a \<mapsto> remaining) else (dr_by_address d)(a := None))\<rparr>)"

definition socket_gone :: "nat \<Rightarrow> 'a door \<Rightarrow> 'a door" where
  "socket_gone k d =
     (case find (\<lambda>s. sk_id s = k) (dr_open d) of
        None \<Rightarrow> d
      | Some s \<Rightarrow>
          let d = (case sk_address s of None \<Rightarrow> d | Some a \<Rightarrow> release_address a d) in
          d\<lparr>dr_total := dr_total d - 1, dr_open := filter (\<lambda>s. sk_id s \<noteq> k) (dr_open d)\<rparr>)"

datatype 'a door_event = Knocks bool nat 'a | Names nat 'a | Leaves nat

fun door_step :: "nat \<Rightarrow> nat \<Rightarrow> 'a door_event \<Rightarrow> 'a door \<Rightarrow> 'a door" where
  "door_step cap per (Knocks proxied k a) d =
     (if \<exists>s\<in>set (dr_open d). sk_id s = k then d
      else case admit_socket cap per proxied k a d of None \<Rightarrow> d | Some d \<Rightarrow> d)"
| "door_step cap per (Names k a) d = fst (name_player per k a d)"
| "door_step cap per (Leaves k) d = socket_gone k d"

definition counted :: "'a \<Rightarrow> 'a sock list \<Rightarrow> nat" where
  "counted a ss = length (filter (\<lambda>s. sk_address s = Some a) ss)"

definition door_ok :: "nat \<Rightarrow> nat \<Rightarrow> 'a door \<Rightarrow> bool" where
  "door_ok cap per d \<longleftrightarrow> distinct (map sk_id (dr_open d))
     \<and> dr_total d = length (dr_open d) \<and> dr_total d \<le> cap
     \<and> (\<forall>a. held_by d a = counted a (dr_open d)) \<and> (\<forall>a. counted a (dr_open d) \<le> per)
     \<and> (\<forall>s\<in>set (dr_open d). sk_pending s \<longrightarrow> sk_address s = None)"

lemma find_id: "distinct (map sk_id ss) \<Longrightarrow> find (\<lambda>s. sk_id s = k) ss = Some s \<Longrightarrow>
    s \<in> set ss \<and> sk_id s = k \<and> length (filter (\<lambda>s. sk_id s \<noteq> k) ss) + 1 = length ss
    \<and> counted a (filter (\<lambda>s. sk_id s \<noteq> k) ss) + (if sk_address s = Some a then 1 else 0) = counted a ss"
proof (induction ss)
  case (Cons x ss)
  show ?case
  proof (cases "sk_id x = k")
    case True
    then have "\<forall>y\<in>set ss. sk_id y \<noteq> k" using Cons.prems(1) by (fastforce simp: image_iff)
    then have "filter (\<lambda>s. sk_id s \<noteq> k) ss = ss" by (simp add: filter_id_conv)
    with True Cons.prems(2) show ?thesis by (simp add: counted_def)
  qed (use Cons in \<open>auto simp: counted_def\<close>)
qed simp

lemma admit_address_parts:
  "admit_address per a d = Some d' \<Longrightarrow> held_by d a < per
    \<and> (\<forall>b. held_by d' b = held_by d b + (if b = a then 1 else 0)) \<and> dr_open d' = dr_open d \<and> dr_total d' = dr_total d"
  by (auto simp: admit_address_def held_by_def split: if_splits)

lemma admit_socket_ok:
  assumes ok: "door_ok cap per d" and new: "\<not> (\<exists>s\<in>set (dr_open d). sk_id s = k)"
    and adm: "admit_socket cap per proxied k a d = Some d'"
  shows "door_ok cap per d'"
proof -
  from adm have room: "dr_total d < cap" by (simp add: admit_socket_def split: if_splits)
  show ?thesis
  proof (cases proxied)
    case True
    with adm ok new room show ?thesis
      by (auto simp: admit_socket_def door_ok_def counted_def held_by_def split: if_splits)
  next
    case False
    with adm obtain d1 where d1: "admit_address per a d = Some d1"
      and d': "d' = d1\<lparr>dr_total := dr_total d1 + 1,
          dr_open := \<lparr>sk_id = k, sk_address = Some a, sk_pending = False\<rparr> # dr_open d1\<rparr>"
      by (auto simp: admit_socket_def split: if_splits option.splits)
    from admit_address_parts [OF d1] have p: "held_by d a < per" "dr_open d1 = dr_open d" "dr_total d1 = dr_total d"
      "\<And>b. held_by d' b = held_by d b + (if b = a then 1 else 0)" by (auto simp: d' held_by_def)
    show ?thesis using ok new room p unfolding door_ok_def by (auto simp: d' counted_def)
  qed
qed

lemma rename_ids [simp]: "map sk_id (map (\<lambda>s. if sk_id s = k then s\<lparr>sk_pending := b\<rparr> else s) ss) = map sk_id ss"
  "map sk_id (map (\<lambda>s. if sk_id s = k then s\<lparr>sk_address := v\<rparr> else s) ss) = map sk_id ss"
  by (induction ss) auto

lemma counted_pending [simp]: "counted a (map (\<lambda>s. if sk_id s = k then s\<lparr>sk_pending := b\<rparr> else s) ss) = counted a ss"
  by (induction ss) (auto simp: counted_def)

lemma counted_named:
  "distinct (map sk_id ss) \<Longrightarrow> s \<in> set ss \<Longrightarrow> sk_id s = k \<Longrightarrow> sk_address s = None \<Longrightarrow>
    counted b (map (\<lambda>s. if sk_id s = k then s\<lparr>sk_address := Some a\<rparr> else s) ss) = counted b ss + (if b = a then 1 else 0)"
proof (induction ss)
  case (Cons x ss)
  show ?case
  proof (cases "sk_id x = k")
    case True
    then have "x = s" using Cons.prems by (metis distinct.simps(2) image_eqI list.set_map list.simps(9) set_ConsD)
    moreover have "map (\<lambda>s. if sk_id s = k then s\<lparr>sk_address := Some a\<rparr> else s) ss = ss"
      using True Cons.prems(1) by (intro map_idI) (fastforce simp: image_iff)
    ultimately show ?thesis using True Cons.prems(4) by (simp add: counted_def)
  qed (use Cons in \<open>auto simp: counted_def\<close>)
qed simp

lemma name_player_ok: "door_ok cap per d \<Longrightarrow> door_ok cap per (fst (name_player per k a d))"
proof (cases "find (\<lambda>s. sk_id s = k) (dr_open d)")
  case (Some s)
  assume ok: "door_ok cap per d"
  from find_id [OF _ Some] ok have s: "s \<in> set (dr_open d)" "sk_id s = k" by (auto simp: door_ok_def)
  define d1 where "d1 = d\<lparr>dr_open := map (\<lambda>s. if sk_id s = k then s\<lparr>sk_pending := False\<rparr> else s) (dr_open d)\<rparr>"
  have d1: "door_ok cap per d1" using ok by (auto simp: door_ok_def d1_def held_by_def simp del: map_map)
  show ?thesis
  proof (cases "sk_pending s")
    case pending: True
    then have none: "sk_address s = None" using ok s by (auto simp: door_ok_def)
    show ?thesis
    proof (cases "admit_address per a d1")
      case None
      then show ?thesis using d1 Some pending by (simp add: name_player_def Let_def d1_def)
    next
      case (Some d2)
      define d3 where "d3 = d2\<lparr>dr_open := map (\<lambda>s. if sk_id s = k then s\<lparr>sk_address := Some a\<rparr> else s) (dr_open d2)\<rparr>"
      have n: "fst (name_player per k a d) = d3"
        using Some \<open>find _ _ = Some s\<close> pending by (simp add: name_player_def Let_def d1_def d3_def)
      from admit_address_parts [OF Some] have p: "held_by d1 a < per" "dr_open d2 = dr_open d1" "dr_total d2 = dr_total d1"
        "\<And>b. held_by d3 b = held_by d1 b + (if b = a then 1 else 0)" by (auto simp: d3_def held_by_def)
      have mem: "s\<lparr>sk_pending := False\<rparr> \<in> set (dr_open d1)" using s by (auto simp: d1_def)
      have dist: "distinct (map sk_id (dr_open d1))" using d1 by (simp only: door_ok_def)
      have o3: "dr_open d3 = map (\<lambda>s. if sk_id s = k then s\<lparr>sk_address := Some a\<rparr> else s) (dr_open d1)"
        by (simp add: d3_def p(2))
      have c: "counted b (dr_open d3) = counted b (dr_open d1) + (if b = a then 1 else 0)" for b
        unfolding o3 using s(2) none by (intro counted_named [OF dist mem]) simp_all
      have "\<not> sk_pending t" if t: "t \<in> set (dr_open d1)" and k: "sk_id t = k" for t
      proof -
        from t have "t \<in> (\<lambda>u. if sk_id u = k then u\<lparr>sk_pending := False\<rparr> else u) ` set (dr_open d)" by (simp add: d1_def)
        then obtain u where u: "t = (if sk_id u = k then u\<lparr>sk_pending := False\<rparr> else u)" by blast
        show ?thesis using k unfolding u by (cases "sk_id u = k") simp_all
      qed
      then have "\<forall>s\<in>set (dr_open d3). sk_pending s \<longrightarrow> sk_address s = None"
        using d1 by (auto simp: o3 door_ok_def)
      moreover have "length (dr_open d3) = length (dr_open d1)" "map sk_id (dr_open d3) = map sk_id (dr_open d1)"
        "dr_total d3 = dr_total d1"
        by (simp_all add: d3_def p(2,3) del: map_map)
      moreover have "held_by d3 b = counted b (dr_open d3) \<and> counted b (dr_open d3) \<le> per" for b
      proof -
        have "held_by d1 b = counted b (dr_open d1)" "counted b (dr_open d1) \<le> per"
          using d1 by (simp_all add: door_ok_def)
        then show ?thesis using p(1) by (cases "b = a") (simp_all add: p(4) c)
      qed
      ultimately show ?thesis using d1 unfolding n by (simp add: door_ok_def)
    qed
  qed (use ok Some in \<open>simp add: name_player_def\<close>)
qed (simp add: name_player_def)

lemma release_parts: "held_by (release_address a d) b = held_by d b - (if b = a then 1 else 0)"
  "dr_open (release_address a d) = dr_open d" "dr_total (release_address a d) = dr_total d"
  by (auto simp: release_address_def held_by_def Let_def split: option.splits)

lemma socket_gone_ok: "door_ok cap per d \<Longrightarrow> door_ok cap per (socket_gone k d)"
proof (cases "find (\<lambda>s. sk_id s = k) (dr_open d)")
  case (Some s)
  assume ok: "door_ok cap per d"
  then have dist: "distinct (map sk_id (dr_open d))" by (simp add: door_ok_def)
  note f = find_id [OF dist Some]
  define d1 where "d1 = (case sk_address s of None \<Rightarrow> d | Some a \<Rightarrow> release_address a d)"
  have d1: "dr_open d1 = dr_open d" "dr_total d1 = dr_total d"
    "held_by d1 b = held_by d b - (if sk_address s = Some b then 1 else 0)" for b
    by (auto simp: d1_def release_parts split: option.split)
  define d2 where "d2 = d1\<lparr>dr_total := dr_total d1 - 1, dr_open := filter (\<lambda>s. sk_id s \<noteq> k) (dr_open d1)\<rparr>"
  have g: "socket_gone k d = d2" using Some by (simp add: socket_gone_def Let_def d1_def d2_def)
  have "held_by d2 a = counted a (dr_open d2) \<and> counted a (dr_open d2) \<le> per" for a
  proof -
    have "held_by d2 a = held_by d a - (if sk_address s = Some a then 1 else 0)"
      using d1(3) [of a] by (simp add: d2_def held_by_def)
    moreover have "held_by d a = counted a (dr_open d)" "counted a (dr_open d) \<le> per" using ok by (simp_all add: door_ok_def)
    ultimately show ?thesis using f [of a] by (auto simp: d2_def d1)
  qed
  moreover have "distinct (map sk_id (dr_open d2))" using dist by (simp add: d2_def d1 distinct_map_filter)
  moreover have "dr_total d2 = length (dr_open d2)" "dr_total d2 \<le> cap"
    using f [of undefined] ok by (auto simp: d2_def d1 door_ok_def)
  moreover have "\<forall>s\<in>set (dr_open d2). sk_pending s \<longrightarrow> sk_address s = None"
    using ok by (auto simp: d2_def d1 door_ok_def)
  ultimately show ?thesis unfolding g by (simp add: door_ok_def)
qed (simp add: socket_gone_def)

lemma door_step_ok: "door_ok cap per d \<Longrightarrow> door_ok cap per (door_step cap per e d)"
  by (cases e) (auto simp: name_player_ok socket_gone_ok split: option.split intro: admit_socket_ok)

lemma door_run_ok: "door_ok cap per d \<Longrightarrow> door_ok cap per (fold (door_step cap per) es d)"
  by (induction es arbitrary: d) (simp_all add: door_step_ok)

section \<open>Properties\<close>

text \<open>C21: Packets are handled in the order they came, one at a time, and none is lost. Whatever
  arrives, in whatever pieces, and whatever handlers, timers and the socket do, every byte
  received on an open connection is in a packet handled, in a packet queued behind it, or in an
  unfinished packet at the end; at most 256 packets of a mebibyte wait; reading is stopped exactly
  while one of the three reasons to stop it stands, and the queue never stops it without a handler
  at work that will start it again. Once the connection is closed no handler is started and
  nothing is written.\<close>
theorem packets_in_order:
  "conn_ok (fold conn_step es new_conn)
   \<and> (cn_closed (fold conn_step es new_conn) \<longrightarrow>
        cn_handled (fold conn_step (es @ es') new_conn) = cn_handled (fold conn_step es new_conn)
      \<and> cn_written (fold conn_step (es @ es') new_conn) = cn_written (fold conn_step es new_conn))"
  using conn_run_ok [OF new_conn_ok, of es] conn_run_closed [of "fold conn_step es new_conn" es'] by simp

lemma packets_in_order_witness:
  "cn_handled (fold conn_step ([Closes True] @ [Arrives [2, 0, 6, 0]]) new_conn) = []"
proof -
  have "cn_closed (fold conn_step [Closes True] new_conn)" "cn_handled (fold conn_step [Closes True] new_conn) = []"
    by (simp_all add: close_session_def new_conn_def)
  with packets_in_order [of "[Closes True]" "[Arrives [2, 0, 6, 0]]"] show ?thesis by metis
qed

text \<open>The limits on connections hold, and the counters they are checked against are exact.
  Whoever knocks, is named by a proxy or leaves, in any order, the total is the number of open
  sockets and within its limit, and the count of every address is the number of open sockets
  counted against it and within its own.\<close>
lemma door_counts_exactly:
  "door_ok cap per (fold (door_step cap per) es new_door)"
  by (rule door_run_ok) (simp add: door_ok_def new_door_def counted_def held_by_def)

end
