(* ===== verification/Wiring.thy ===== *)
theory Wiring
  imports Prelude
begin

text \<open>
  The wiring of a floor (\<open>src/socket/triggers.js\<close>): its triggers, gates and what they are wired to;
  how a gate is evaluated, with the ones that remember; whether anything can ever change what a
  target is told; and the resting state of the graph before anything has happened.
\<close>

section \<open>What is placed\<close>

type_synonym place = string

datatype gate_kind = AndGate | OrGate | NotGate | ToggleGate | CounterGate | ResetGate | OtherGate

text \<open>Authored times are in seconds; \<open>None\<close> is a value that is not a finite number.\<close>

record gate =
  gt_id :: place
  gt_kind :: gate_kind
  gt_once :: bool
  gt_threshold :: "int option"
  gt_start_delay :: "rat option"
  gt_reset_time :: "rat option"

datatype trigger_kind = Proximity | NpcLife | NpcDamage | NpcEvent | NpcSuicide | AutoTimer | AsymTimer | OtherTrigger

record trigger =
  tr_id :: place
  tr_kind :: trigger_kind
  tr_npc :: "place option"
  tr_event :: "string option"
  tr_once :: bool
  tr_repeats :: bool
  tr_start_delay :: "rat option"
  tr_interval :: "rat option"
  tr_on_time :: "rat option"
  tr_off_time :: "rat option"
  tr_destination :: bool

text \<open>
  A floor: the links in the order the wiring lists them, the gates and triggers in the order they
  were placed, and what each other target is. \<open>fl_mounted\<close> has a triggerable's object,
  \<open>fl_attack\<close> one with an attack of its own, \<open>fl_stateful\<close> one whose state is sent besides, and
  \<open>fl_choreographed\<close> one whose hazard swings.
\<close>

record floor_plan =
  fl_wires :: "(place \<times> place list) list"
  fl_gates :: "gate list"
  fl_triggers :: "trigger list"
  fl_generators :: "place list"
  fl_virtual :: "(place \<times> string) list"
  fl_running :: "place list"
  fl_stoppable :: "place list"
  fl_mounted :: "place list"
  fl_attack :: "place list"
  fl_stateful :: "place list"
  fl_choreographed :: "place list"
  fl_rewards :: "place list"
  fl_all_dead :: "place list"

definition targets :: "floor_plan \<Rightarrow> place \<Rightarrow> place list" where
  "targets w s = (case map_of (fl_wires w) s of None \<Rightarrow> [] | Some ts \<Rightarrow> ts)"

text \<open>\<open>signalIncoming\<close>: the wiring read backwards, a source once for each of its links.\<close>

definition incoming :: "floor_plan \<Rightarrow> place \<Rightarrow> place list" where
  "incoming w t = concat (map (\<lambda>(s, ts). map (\<lambda>_. s) (filter (\<lambda>u. u = t) ts)) (fl_wires w))"

definition gate_at :: "floor_plan \<Rightarrow> place \<Rightarrow> gate option" where
  "gate_at w t = map_of (rev (map (\<lambda>g. (gt_id g, g)) (fl_gates w))) t"

definition movable :: "floor_plan \<Rightarrow> place \<Rightarrow> bool" where
  "movable w s \<longleftrightarrow> s \<in> tr_id ` set (fl_triggers w) \<or> s \<in> set (fl_generators w)"

section \<open>The state of the signals\<close>

datatype pulse = Opens rat | Closes rat

datatype effect = Ran place string | GeneratorStarted place | GeneratorStopped place | Navigation place bool
  | StateSent place bool | Raised place | BeatStopped place | Died place | DoorTaken place

record signals =
  sg_values :: "place \<Rightarrow> bool option"
  sg_edges :: "place \<Rightarrow> bool option"
  sg_latches :: "place \<Rightarrow> bool option"
  sg_counts :: "place \<Rightarrow> nat option"
  sg_inputs :: "place \<Rightarrow> (place \<Rightarrow> bool option) option"
  sg_held :: "place list"
  sg_timers :: "place \<Rightarrow> pulse option"
  sg_settled :: "bool option"
  sg_suicides :: "place list"
  sg_on :: "place \<Rightarrow> bool"
  sg_fired :: "place \<Rightarrow> bool"
  sg_occupants :: "place \<Rightarrow> nat list"
  sg_effects :: "effect list"

definition or_else :: "'a option \<Rightarrow> 'a \<Rightarrow> 'a" where
  "or_else v d = (case v of None \<Rightarrow> d | Some x \<Rightarrow> x)"

lemma or_else_simps [simp]: "or_else None d = d" "or_else (Some x) d = x"
  by (simp_all add: or_else_def)

definition truth :: "signals \<Rightarrow> place \<Rightarrow> bool" where
  "truth \<sigma> s = or_else (sg_values \<sigma> s) False"

definition input_values :: "floor_plan \<Rightarrow> signals \<Rightarrow> place \<Rightarrow> bool list" where
  "input_values w \<sigma> t = map (truth \<sigma>) (incoming w t)"

lemma truth_upd [simp]:
  "truth (\<sigma>\<lparr>sg_edges := e\<rparr>) = truth \<sigma>" "truth (\<sigma>\<lparr>sg_latches := l\<rparr>) = truth \<sigma>"
  "truth (\<sigma>\<lparr>sg_counts := n\<rparr>) = truth \<sigma>" "truth (\<sigma>\<lparr>sg_inputs := i\<rparr>) = truth \<sigma>"
  "truth (\<sigma>\<lparr>sg_held := h\<rparr>) = truth \<sigma>" "truth (\<sigma>\<lparr>sg_timers := tm\<rparr>) = truth \<sigma>"
  "truth (\<sigma>\<lparr>sg_suicides := su\<rparr>) = truth \<sigma>" "truth (\<sigma>\<lparr>sg_effects := es\<rparr>) = truth \<sigma>"
  "truth (\<sigma>\<lparr>sg_on := on\<rparr>) = truth \<sigma>" "truth (\<sigma>\<lparr>sg_fired := fi\<rparr>) = truth \<sigma>"
  "truth (\<sigma>\<lparr>sg_occupants := oc\<rparr>) = truth \<sigma>"
  by (simp_all add: truth_def fun_eq_iff)

lemma input_values_upd [simp]:
  "input_values w (\<sigma>\<lparr>sg_edges := e\<rparr>) = input_values w \<sigma>" "input_values w (\<sigma>\<lparr>sg_latches := l\<rparr>) = input_values w \<sigma>"
  "input_values w (\<sigma>\<lparr>sg_counts := n\<rparr>) = input_values w \<sigma>" "input_values w (\<sigma>\<lparr>sg_inputs := i\<rparr>) = input_values w \<sigma>"
  "input_values w (\<sigma>\<lparr>sg_held := h\<rparr>) = input_values w \<sigma>" "input_values w (\<sigma>\<lparr>sg_timers := tm\<rparr>) = input_values w \<sigma>"
  "input_values w (\<sigma>\<lparr>sg_suicides := su\<rparr>) = input_values w \<sigma>" "input_values w (\<sigma>\<lparr>sg_effects := es\<rparr>) = input_values w \<sigma>"
  "input_values w (\<sigma>\<lparr>sg_on := on\<rparr>) = input_values w \<sigma>" "input_values w (\<sigma>\<lparr>sg_fired := fi\<rparr>) = input_values w \<sigma>"
  "input_values w (\<sigma>\<lparr>sg_occupants := oc\<rparr>) = input_values w \<sigma>"
  by (simp_all add: input_values_def fun_eq_iff)

definition any_on :: "bool list \<Rightarrow> bool" where
  "any_on vs = list_ex (\<lambda>v. v) vs"

definition initial_target_state :: "floor_plan \<Rightarrow> signals \<Rightarrow> place \<Rightarrow> bool" where
  "initial_target_state w \<sigma> t = (let vs = input_values w \<sigma> t in if vs = [] then True else any_on vs)"

section \<open>Evaluating a gate\<close>

text \<open>The gates whose output is a function of their inputs.\<close>

definition boolean_gate :: "gate_kind \<Rightarrow> bool" where
  "boolean_gate k \<longleftrightarrow> k \<noteq> ToggleGate \<and> k \<noteq> CounterGate \<and> k \<noteq> ResetGate"

fun plain_value :: "gate_kind \<Rightarrow> bool list \<Rightarrow> bool" where
  "plain_value AndGate vs = (vs \<noteq> [] \<and> list_all (\<lambda>v. v) vs)"
| "plain_value NotGate vs = (vs \<noteq> [] \<and> \<not> any_on vs)"
| "plain_value _ vs = any_on vs"

definition rising_edge :: "floor_plan \<Rightarrow> gate \<Rightarrow> signals \<Rightarrow> bool \<times> signals" where
  "rising_edge w g \<sigma> =
     (let high = any_on (input_values w \<sigma> (gt_id g)); was = or_else (sg_edges \<sigma> (gt_id g)) False
      in (high \<and> \<not> was, \<sigma>\<lparr>sg_edges := (sg_edges \<sigma>)(gt_id g \<mapsto> high)\<rparr>))"

text \<open>Counting: each input's own rising edge.\<close>

fun count_edges :: "signals \<Rightarrow> place list \<Rightarrow> nat \<times> (place \<Rightarrow> bool option) \<Rightarrow> nat \<times> (place \<Rightarrow> bool option)" where
  "count_edges \<sigma> [] acc = acc"
| "count_edges \<sigma> (s # ss) (n, previous) =
     (let high = truth \<sigma> s
      in count_edges \<sigma> ss (if high \<and> \<not> or_else (previous s) False then n + 1 else n, previous(s \<mapsto> high)))"

definition threshold :: "gate \<Rightarrow> int" where
  "threshold g = max 1 (or_else (gt_threshold g) 1)"

definition evaluate_gate :: "floor_plan \<Rightarrow> gate \<Rightarrow> signals \<Rightarrow> bool \<times> signals" where
  "evaluate_gate w g \<sigma> =
     (case gt_kind g of
        ToggleGate \<Rightarrow>
          (let held = or_else (sg_latches \<sigma> (gt_id g)) False in
           case rising_edge w g \<sigma> of (rose, \<sigma>) \<Rightarrow>
             let next = (if rose then \<not> held else held)
             in (next, \<sigma>\<lparr>sg_latches := (sg_latches \<sigma>)(gt_id g \<mapsto> next)\<rparr>))
      | CounterGate \<Rightarrow>
          (case count_edges \<sigma> (incoming w (gt_id g))
                  (or_else (sg_counts \<sigma> (gt_id g)) 0, or_else (sg_inputs \<sigma> (gt_id g)) Map.empty) of
             (n, previous) \<Rightarrow>
               (threshold g \<le> int n,
                \<sigma>\<lparr>sg_inputs := (sg_inputs \<sigma>)(gt_id g \<mapsto> previous), sg_counts := (sg_counts \<sigma>)(gt_id g \<mapsto> n)\<rparr>))
      | k \<Rightarrow> (plain_value k (input_values w \<sigma> (gt_id g)), \<sigma>))"

definition latching :: "gate_kind \<Rightarrow> bool" where
  "latching k \<longleftrightarrow> k = AndGate \<or> k = OrGate \<or> k = NotGate"

definition gate_output :: "floor_plan \<Rightarrow> gate \<Rightarrow> signals \<Rightarrow> bool \<times> signals" where
  "gate_output w g \<sigma> =
     (case evaluate_gate w g \<sigma> of (v, \<sigma>) \<Rightarrow>
        if \<not> gt_once g \<or> \<not> latching (gt_kind g) then (v, \<sigma>)
        else if gt_id g \<in> set (sg_held \<sigma>) then (True, \<sigma>)
        else if v \<and> sg_values \<sigma> (gt_id g) = Some False \<and> sg_settled \<sigma> \<noteq> Some False
        then (v, \<sigma>\<lparr>sg_held := gt_id g # sg_held \<sigma>\<rparr>)
        else (v, \<sigma>))"

section \<open>Can anything ever change it\<close>

text \<open>
  The walk to the sources, with the set of what was seen passed along as the code's one \<open>Set\<close> is.
  The argument \<open>visit\<close> is the walk one level down; \<open>n\<close> bounds the levels.
\<close>

fun over_sources :: "(place \<Rightarrow> place list \<Rightarrow> bool \<times> place list) \<Rightarrow> floor_plan \<Rightarrow> place list \<Rightarrow> place list \<Rightarrow> bool \<times> place list" where
  "over_sources visit w [] seen = (False, seen)"
| "over_sources visit w (s # ss) seen =
     (if movable w s then (True, seen)
      else case visit s seen of (found, seen) \<Rightarrow> if found then (True, seen) else over_sources visit w ss seen)"

primrec reaches_movable :: "nat \<Rightarrow> floor_plan \<Rightarrow> place \<Rightarrow> place list \<Rightarrow> bool \<times> place list" where
  "reaches_movable 0 w t seen = (False, seen)"
| "reaches_movable (Suc n) w t seen =
     (if t \<in> set seen then (False, seen)
      else over_sources (reaches_movable n w) w (incoming w t) (t # seen))"

definition wired_places :: "floor_plan \<Rightarrow> place list" where
  "wired_places w = map fst (fl_wires w)"

definition can_ever_change :: "floor_plan \<Rightarrow> place \<Rightarrow> bool" where
  "can_ever_change w t = fst (reaches_movable (length (wired_places w) + 2) w t [])"

definition feeds :: "floor_plan \<Rightarrow> (place \<times> place) set" where
  "feeds w = {(s, t). s \<in> set (incoming w t)}"

lemma over_sources_true:
  assumes "\<And>s seen seen'. visit s seen = (True, seen') \<Longrightarrow> \<exists>m. movable w m \<and> (m, s) \<in> (feeds w)\<^sup>+"
    and "over_sources visit w ss seen = (True, seen')" and "set ss \<subseteq> set (incoming w t)"
  shows "\<exists>m. movable w m \<and> (m, t) \<in> (feeds w)\<^sup>+"
  using assms(2,3)
proof (induction ss arbitrary: seen)
  case (Cons s ss)
  then have s: "(s, t) \<in> feeds w" by (simp add: feeds_def)
  show ?case
  proof (cases "movable w s")
    case True
    with s show ?thesis by blast
  next
    case False
    obtain found seen1 where v: "visit s seen = (found, seen1)" by fastforce
    show ?thesis
    proof (cases found)
      case True
      with assms(1) [of s seen seen1] v obtain m where "movable w m" "(m, s) \<in> (feeds w)\<^sup>+" by auto
      with s show ?thesis by (meson trancl.trancl_into_trancl)
    next
      case go: False
      with Cons.prems v False Cons.IH [of seen1] show ?thesis by simp
    qed
  qed
qed simp

lemma reaches_movable_true: "reaches_movable n w t seen = (True, seen') \<Longrightarrow> \<exists>m. movable w m \<and> (m, t) \<in> (feeds w)\<^sup>+"
proof (induction n arbitrary: t seen seen')
  case (Suc n)
  from Suc.prems have run: "over_sources (reaches_movable n w) w (incoming w t) (t # seen) = (True, seen')"
    by (simp split: if_splits)
  show ?case by (rule over_sources_true [OF Suc.IH run order.refl])
qed simp

text \<open>A walk that found nothing has seen everything behind what it added.\<close>

definition closed_off :: "floor_plan \<Rightarrow> place set \<Rightarrow> place set \<Rightarrow> bool" where
  "closed_off w new all \<longleftrightarrow> (\<forall>x\<in>new. \<forall>s\<in>set (incoming w x). \<not> movable w s \<and> s \<in> all)"

definition unseen :: "floor_plan \<Rightarrow> place \<Rightarrow> place list \<Rightarrow> nat" where
  "unseen w t seen = card (insert t (set (wired_places w)) - set seen)"

lemma incoming_wired: "s \<in> set (incoming w t) \<Longrightarrow> s \<in> set (wired_places w)"
  by (force simp: incoming_def wired_places_def)

lemma over_sources_false:
  assumes visit: "\<And>s seen seen'. s \<in> set (wired_places w) \<Longrightarrow> R \<subseteq> set seen \<Longrightarrow> visit s seen = (False, seen')
        \<Longrightarrow> s \<in> set seen' \<and> set seen \<subseteq> set seen' \<and> closed_off w (set seen' - set seen) (set seen')"
  shows "over_sources visit w ss seen = (False, seen') \<Longrightarrow> set ss \<subseteq> set (wired_places w) \<Longrightarrow> R \<subseteq> set seen
    \<Longrightarrow> set seen \<subseteq> set seen' \<and> closed_off w (set seen' - set seen) (set seen')
      \<and> (\<forall>s\<in>set ss. \<not> movable w s \<and> s \<in> set seen')"
proof (induction ss arbitrary: seen)
  case (Cons s ss)
  obtain found seen1 where v: "visit s seen = (found, seen1)" by fastforce
  from Cons.prems(1) v have f: "\<not> found" "\<not> movable w s" "over_sources visit w ss seen1 = (False, seen')"
    by (auto split: if_splits)
  from visit [OF _ Cons.prems(3)] v f(1) Cons.prems(2)
  have one: "s \<in> set seen1" "set seen \<subseteq> set seen1" "closed_off w (set seen1 - set seen) (set seen1)" by auto
  from Cons.IH [OF f(3)] Cons.prems(2,3) one(2)
  have two: "set seen1 \<subseteq> set seen'" "closed_off w (set seen' - set seen1) (set seen')"
    "\<forall>s\<in>set ss. \<not> movable w s \<and> s \<in> set seen'" by auto
  have "closed_off w (set seen' - set seen) (set seen')"
    using one two(1,2) unfolding closed_off_def by blast
  with one two f(2) show ?case by auto
qed (auto simp: closed_off_def)

lemma reaches_movable_false:
  "reaches_movable n w t seen = (False, seen') \<Longrightarrow> unseen w t seen < n
    \<Longrightarrow> t \<in> set seen' \<and> set seen \<subseteq> set seen' \<and> closed_off w (set seen' - set seen) (set seen')"
proof (induction n arbitrary: t seen seen')
  case (Suc n)
  show ?case
  proof (cases "t \<in> set seen")
    case True
    with Suc.prems(1) show ?thesis by (simp add: closed_off_def)
  next
    case False
    let ?P = "set (wired_places w)"
    have less: "unseen w s seen1 < n" if "s \<in> ?P" "set (t # seen) \<subseteq> set seen1" for s seen1
    proof -
      have "insert s ?P - set seen1 \<subseteq> insert t ?P - set seen - {t}" using that by auto
      then have "card (insert s ?P - set seen1) \<le> card (insert t ?P - set seen - {t})" by (intro card_mono) auto
      also have "\<dots> < card (insert t ?P - set seen)" using False by (intro card_Diff1_less) auto
      finally show ?thesis using Suc.prems(2) by (simp add: unseen_def)
    qed
    have run: "over_sources (reaches_movable n w) w (incoming w t) (t # seen) = (False, seen')"
      using Suc.prems(1) False by simp
    have ss: "set (incoming w t) \<subseteq> ?P" using incoming_wired by blast
    have "set (t # seen) \<subseteq> set seen' \<and> closed_off w (set seen' - set (t # seen)) (set seen')
        \<and> (\<forall>s\<in>set (incoming w t). \<not> movable w s \<and> s \<in> set seen')"
      by (rule over_sources_false [where R = "set (t # seen)", OF _ run ss order.refl])
        (rule Suc.IH, assumption, rule less, assumption+)
    then show ?thesis by (auto simp: closed_off_def)
  qed
qed simp

lemma closed_off_unreachable:
  "(s, t) \<in> (feeds w)\<^sup>+ \<Longrightarrow> closed_off w A A \<Longrightarrow> t \<in> A \<Longrightarrow> s \<in> A \<and> \<not> movable w s"
  by (induction rule: converse_trancl_induct) (auto simp: feeds_def closed_off_def)

section \<open>The resting state\<close>

definition is_timer :: "trigger_kind \<Rightarrow> bool" where
  "is_timer k \<longleftrightarrow> k = AutoTimer \<or> k = AsymTimer"

definition rests_on :: "floor_plan \<Rightarrow> trigger \<Rightarrow> signals \<Rightarrow> bool" where
  "rests_on w tr \<sigma> =
     (let timer = is_timer (tr_kind tr); delayed = timer \<and> 1 / 1000000 < or_else (tr_start_delay tr) 0;
          sources = incoming w (tr_id tr); enabled = (sources = [] \<or> any_on (map (truth \<sigma>) sources))
      in tr_kind tr = NpcLife \<or> (timer \<and> \<not> delayed \<and> enabled))"

definition place_trigger :: "floor_plan \<Rightarrow> trigger \<Rightarrow> signals \<Rightarrow> signals" where
  "place_trigger w tr \<sigma> =
     (let on = rests_on w tr \<sigma> in
      \<sigma>\<lparr>sg_on := (sg_on \<sigma>)(tr_id tr := on), sg_fired := (sg_fired \<sigma>)(tr_id tr := False),
        sg_occupants := (sg_occupants \<sigma>)(tr_id tr := []), sg_values := (sg_values \<sigma>)(tr_id tr \<mapsto> on)\<rparr>)"

definition put_off :: "place \<Rightarrow> signals \<Rightarrow> signals" where
  "put_off s \<sigma> = \<sigma>\<lparr>sg_values := (sg_values \<sigma>)(s \<mapsto> False)\<rparr>"

definition rest_gate :: "floor_plan \<Rightarrow> gate \<Rightarrow> bool \<times> signals \<Rightarrow> bool \<times> signals" where
  "rest_gate w g x =
     (case x of (changed, \<sigma>) \<Rightarrow>
        if gt_kind g = ResetGate then (changed, \<sigma>)
        else case evaluate_gate w g \<sigma> of (v, \<sigma>) \<Rightarrow>
          if sg_values \<sigma> (gt_id g) = Some v then (changed, \<sigma>)
          else (True, \<sigma>\<lparr>sg_values := (sg_values \<sigma>)(gt_id g \<mapsto> v)\<rparr>))"

definition rest_pass :: "floor_plan \<Rightarrow> signals \<Rightarrow> bool \<times> signals" where
  "rest_pass w \<sigma> = fold (rest_gate w) (fl_gates w) (False, \<sigma>)"

fun rest_loop :: "nat \<Rightarrow> floor_plan \<Rightarrow> signals \<Rightarrow> signals" where
  "rest_loop 0 w \<sigma> = \<sigma>"
| "rest_loop (Suc n) w \<sigma> =
     (case rest_pass w \<sigma> of (changed, \<sigma>) \<Rightarrow> if changed then rest_loop n w \<sigma> else \<sigma>)"

definition opening_values :: "floor_plan \<Rightarrow> signals \<Rightarrow> signals" where
  "opening_values w \<sigma> =
     fold put_off (map gt_id (fl_gates w))
       (fold put_off (fl_generators w)
         (fold (place_trigger w) (fl_triggers w) (\<sigma>\<lparr>sg_values := Map.empty, sg_timers := Map.empty\<rparr>)))"

text \<open>
  \<open>trackTriggers\<close>. Of what a gate remembers only \<open>gateHeld\<close> is cleared; the toggles' latches and
  edges and the counters' counts are those of whatever floor the run was on before.
\<close>

definition track_triggers :: "floor_plan \<Rightarrow> signals \<Rightarrow> signals" where
  "track_triggers w \<sigma> =
     rest_loop (max 1 (length (fl_gates w) * 2)) w ((opening_values w \<sigma>)\<lparr>sg_held := []\<rparr>)"

section \<open>Gates at rest\<close>

definition fixed :: "floor_plan \<Rightarrow> gate \<Rightarrow> signals \<Rightarrow> bool" where
  "fixed w g \<sigma> \<longleftrightarrow>
     (case gt_kind g of
        ResetGate \<Rightarrow> True
      | ToggleGate \<Rightarrow> (\<exists>l. sg_edges \<sigma> (gt_id g) = Some (any_on (input_values w \<sigma> (gt_id g)))
          \<and> sg_latches \<sigma> (gt_id g) = Some l \<and> sg_values \<sigma> (gt_id g) = Some l)
      | CounterGate \<Rightarrow> (\<exists>n previous. sg_counts \<sigma> (gt_id g) = Some n \<and> sg_inputs \<sigma> (gt_id g) = Some previous
          \<and> (\<forall>s\<in>set (incoming w (gt_id g)). previous s = Some (truth \<sigma> s))
          \<and> sg_values \<sigma> (gt_id g) = Some (threshold g \<le> int n))
      | k \<Rightarrow> sg_values \<sigma> (gt_id g) = Some (plain_value k (input_values w \<sigma> (gt_id g))))"

lemma count_edges_fixed:
  "(\<forall>s\<in>set ss. p s = Some (truth \<sigma> s)) \<Longrightarrow> count_edges \<sigma> ss (n, p) = (n, p)"
  by (induction ss) (auto simp: fun_upd_idem)

lemma count_edges_counts:
  "count_edges \<sigma> ss (n, p) = (n', p') \<Longrightarrow> n \<le> n' \<and> (\<forall>s\<in>set ss. p' s = Some (truth \<sigma> s))
     \<and> (\<forall>s. s \<notin> set ss \<longrightarrow> p' s = p s)"
proof (induction ss arbitrary: n p)
  case (Cons s ss)
  let ?n = "if truth \<sigma> s \<and> \<not> or_else (p s) False then n + 1 else n"
  have "count_edges \<sigma> ss (?n, p(s \<mapsto> truth \<sigma> s)) = (n', p')" using Cons.prems by (simp add: Let_def)
  from Cons.IH [OF this] show ?case by (cases "s \<in> set ss") (auto split: if_splits)
qed simp

lemma fixed_stays: "fixed w g \<sigma> \<Longrightarrow> rest_gate w g (c, \<sigma>) = (c, \<sigma>)"
  by (cases "gt_kind g") (auto simp: fixed_def rest_gate_def evaluate_gate_def rising_edge_def Let_def
      count_edges_fixed fun_upd_idem split: prod.splits)

text \<open>Evaluating a gate touches what is its own, and nothing it reads.\<close>

definition apart :: "place \<Rightarrow> signals \<Rightarrow> signals \<Rightarrow> bool" where
  "apart x \<sigma> \<tau> \<longleftrightarrow> sg_values \<tau> x = sg_values \<sigma> x \<and> sg_edges \<tau> x = sg_edges \<sigma> x \<and> sg_latches \<tau> x = sg_latches \<sigma> x
     \<and> sg_counts \<tau> x = sg_counts \<sigma> x \<and> sg_inputs \<tau> x = sg_inputs \<sigma> x"

lemma apart_truth: "apart x \<sigma> \<tau> \<Longrightarrow> truth \<tau> x = truth \<sigma> x"
  by (simp add: apart_def truth_def)

lemma rest_gate_apart: "rest_gate w g (c, \<sigma>) = (c', \<tau>) \<Longrightarrow> x \<noteq> gt_id g \<Longrightarrow> apart x \<sigma> \<tau>"
  by (cases "gt_kind g") (auto simp: apart_def rest_gate_def evaluate_gate_def rising_edge_def Let_def
      split: prod.splits if_splits)

lemma input_values_apart: "(\<And>s. s \<in> set (incoming w t) \<Longrightarrow> truth \<tau> s = truth \<sigma> s) \<Longrightarrow> input_values w \<tau> t = input_values w \<sigma> t"
  by (auto simp: input_values_def)

lemma fixed_apart:
  assumes "fixed w g \<sigma>" and "apart (gt_id g) \<sigma> \<tau>" and "\<And>s. s \<in> set (incoming w (gt_id g)) \<Longrightarrow> truth \<tau> s = truth \<sigma> s"
  shows "fixed w g \<tau>"
  using assms(1,2) input_values_apart [of w "gt_id g" \<tau> \<sigma>] assms(3)
  by (cases "gt_kind g") (auto simp: fixed_def apart_def)

lemma input_values_own:
  "gt_id g \<notin> set (incoming w (gt_id g)) \<Longrightarrow>
    input_values w (\<tau>\<lparr>sg_values := (sg_values \<sigma>)(gt_id g \<mapsto> v)\<rparr>) (gt_id g) = input_values w \<sigma> (gt_id g)"
  by (auto simp: input_values_def truth_def)

lemma rest_gate_fixes:
  assumes own: "gt_id g \<notin> set (incoming w (gt_id g))" and step: "rest_gate w g (c, \<sigma>) = (c', \<tau>)"
  shows "fixed w g \<tau>"
proof (cases "gt_kind g = CounterGate")
  case True
  obtain n p where c: "count_edges \<sigma> (incoming w (gt_id g))
      (or_else (sg_counts \<sigma> (gt_id g)) 0, or_else (sg_inputs \<sigma> (gt_id g)) Map.empty) = (n, p)" by fastforce
  define \<sigma>1 where "\<sigma>1 = \<sigma>\<lparr>sg_inputs := (sg_inputs \<sigma>)(gt_id g \<mapsto> p), sg_counts := (sg_counts \<sigma>)(gt_id g \<mapsto> n)\<rparr>"
  have e: "evaluate_gate w g \<sigma> = (threshold g \<le> int n, \<sigma>1)" using True c by (simp add: evaluate_gate_def \<sigma>1_def)
  have t: "\<tau> = \<sigma>1 \<or> \<tau> = \<sigma>1\<lparr>sg_values := (sg_values \<sigma>1)(gt_id g \<mapsto> threshold g \<le> int n)\<rparr>"
    and v: "sg_values \<tau> (gt_id g) = Some (threshold g \<le> int n)"
    using step True by (auto simp: rest_gate_def e split: if_splits)
  have "truth \<tau> s = truth \<sigma> s" if "s \<in> set (incoming w (gt_id g))" for s
    using t that own by (cases "s = gt_id g") (auto simp: \<sigma>1_def truth_def)
  with count_edges_counts [OF c] v t show ?thesis using True
    by (auto simp: fixed_def \<sigma>1_def)
next
  case False
  with step own show ?thesis
    by (cases "gt_kind g") (auto simp: fixed_def rest_gate_def evaluate_gate_def rising_edge_def Let_def
        input_values_own split: if_splits)
qed

text \<open>
  A floor whose gates do not feed themselves, round any corner: there is a level for every gate
  below the number of gates, and a gate is above those it reads. A reset gate does not count: in
  the resting state it says nothing.
\<close>

definition layered :: "floor_plan \<Rightarrow> (place \<Rightarrow> nat) \<Rightarrow> bool" where
  "layered w lev \<longleftrightarrow> distinct (map gt_id (fl_gates w))
     \<and> (\<forall>g\<in>set (fl_gates w). lev (gt_id g) < length (fl_gates w)
          \<and> (\<forall>h\<in>set (fl_gates w). gt_kind h \<noteq> ResetGate \<longrightarrow> gt_id h \<in> set (incoming w (gt_id g))
               \<longrightarrow> lev (gt_id h) < lev (gt_id g)))"

definition rested_below :: "floor_plan \<Rightarrow> (place \<Rightarrow> nat) \<Rightarrow> nat \<Rightarrow> signals \<Rightarrow> bool" where
  "rested_below w lev k \<sigma> \<longleftrightarrow> (\<forall>g\<in>set (fl_gates w). lev (gt_id g) < k \<longrightarrow> fixed w g \<sigma>)"

lemma layeredD:
  assumes "layered w lev" "g \<in> set (fl_gates w)" "h \<in> set (fl_gates w)" "gt_kind h \<noteq> ResetGate"
    "gt_id h \<in> set (incoming w (gt_id g))"
  shows "lev (gt_id h) < lev (gt_id g)"
  using assms unfolding layered_def by blast

lemma layered_apart:
  assumes "layered w lev" "g \<in> set (fl_gates w)" "h \<in> set (fl_gates w)" "g \<noteq> h"
  shows "gt_id g \<noteq> gt_id h"
  using assms unfolding layered_def by (metis distinct_map inj_onD)

lemma fixed_other:
  assumes lay: "layered w lev" and g: "g \<in> set (fl_gates w)" "h \<in> set (fl_gates w)" "g \<noteq> h"
    and low: "\<not> lev (gt_id h) < lev (gt_id g)"
    and step: "rest_gate w h (c, \<sigma>) = (c', \<tau>)" and fx: "fixed w g \<sigma>"
  shows "fixed w g \<tau>"
proof (cases "gt_kind h = ResetGate")
  case False
  have "gt_id h \<notin> set (incoming w (gt_id g))" using layeredD [OF lay g(1,2) False] low by blast
  then have "truth \<tau> s = truth \<sigma> s" if "s \<in> set (incoming w (gt_id g))" for s
    using rest_gate_apart [OF step, of s] that apart_truth by metis
  with fixed_apart [OF fx rest_gate_apart [OF step layered_apart [OF lay g]]] show ?thesis by blast
qed (use step fx in \<open>simp add: rest_gate_def\<close>)

lemma pass_part:
  assumes lay: "layered w lev" and below: "rested_below w lev k \<sigma>"
  shows "set gs \<subseteq> set (fl_gates w) \<Longrightarrow> distinct gs \<Longrightarrow> fold (rest_gate w) gs (c, \<sigma>) = (c', \<tau>)
    \<Longrightarrow> rested_below w lev k \<tau> \<and> (\<forall>g\<in>set gs. lev (gt_id g) = k \<longrightarrow> fixed w g \<tau>)"
proof (induction gs arbitrary: c' \<tau> rule: rev_induct)
  case Nil
  with below show ?case by simp
next
  case (snoc h gs)
  obtain c1 \<sigma>1 where one: "fold (rest_gate w) gs (c, \<sigma>) = (c1, \<sigma>1)" by fastforce
  with snoc.prems(3) have step: "rest_gate w h (c1, \<sigma>1) = (c', \<tau>)" by simp
  from snoc.IH [OF _ _ one] snoc.prems have ih: "rested_below w lev k \<sigma>1" "\<forall>g\<in>set gs. lev (gt_id g) = k \<longrightarrow> fixed w g \<sigma>1" by auto
  have h: "h \<in> set (fl_gates w)" using snoc.prems by simp
  show ?case
  proof (cases "lev (gt_id h) < k")
    case True
    then have "fixed w h \<sigma>1" using ih(1) h by (simp add: rested_below_def)
    then have "\<tau> = \<sigma>1" using step by (simp add: fixed_stays)
    with ih True show ?thesis by auto
  next
    case False
    have other: "fixed w g \<tau>" if "g \<in> set (fl_gates w)" "g \<noteq> h" "lev (gt_id g) \<le> k" "fixed w g \<sigma>1" for g
      using fixed_other [OF lay that(1) h that(2) _ step that(4)] that(3) False by linarith
    have "fixed w h \<tau>"
    proof (cases "gt_kind h = ResetGate")
      case True
      then show ?thesis by (simp add: fixed_def)
    next
      case kind: False
      then have "gt_id h \<notin> set (incoming w (gt_id h))" using layeredD [OF lay h h kind] by blast
      then show ?thesis by (rule rest_gate_fixes [OF _ step])
    qed
    moreover have "rested_below w lev k \<tau>"
      unfolding rested_below_def using other ih(1) False by (metis less_imp_le rested_below_def)
    moreover have "fixed w g \<tau>" if "g \<in> set gs" "lev (gt_id g) = k" for g
      using other [of g] ih(2) that snoc.prems(1,2) by auto
    ultimately show ?thesis by auto
  qed
qed

lemma pass_unchanged:
  assumes lay: "layered w lev"
  shows "set gs \<subseteq> set (fl_gates w) \<Longrightarrow> distinct gs \<Longrightarrow> fold (rest_gate w) gs (False, \<sigma>) = (False, \<tau>)
    \<Longrightarrow> sg_values \<tau> = sg_values \<sigma> \<and> (\<forall>g\<in>set gs. fixed w g \<tau>)"
proof (induction gs arbitrary: \<tau> rule: rev_induct)
  case (snoc h gs)
  obtain c1 \<sigma>1 where one: "fold (rest_gate w) gs (False, \<sigma>) = (c1, \<sigma>1)" by fastforce
  with snoc.prems(3) have step: "rest_gate w h (c1, \<sigma>1) = (False, \<tau>)" by simp
  then have c1: "\<not> c1" by (auto simp: rest_gate_def split: prod.splits if_splits)
  with snoc.IH [of \<sigma>1] one snoc.prems have ih: "sg_values \<sigma>1 = sg_values \<sigma>" "\<forall>g\<in>set gs. fixed w g \<sigma>1" by auto
  have v: "sg_values \<tau> = sg_values \<sigma>1"
    using step c1 by (cases "gt_kind h") (auto simp: rest_gate_def evaluate_gate_def rising_edge_def Let_def
        split: prod.splits if_splits)
  then have t: "truth \<tau> = truth \<sigma>1" by (simp add: truth_def fun_eq_iff)
  have h: "h \<in> set (fl_gates w)" using snoc.prems by simp
  have "fixed w g \<tau>" if "g \<in> set gs" for g
  proof -
    have "g \<in> set (fl_gates w)" "g \<noteq> h" using that snoc.prems by auto
    with fixed_apart [OF _ rest_gate_apart [OF step layered_apart [OF lay _ h]]] ih(2) that t show ?thesis by simp
  qed
  moreover have "fixed w h \<tau>"
  proof (cases "gt_kind h = ResetGate")
    case False
    then have "gt_id h \<notin> set (incoming w (gt_id h))" using layeredD [OF lay h h False] by blast
    then show ?thesis by (rule rest_gate_fixes [OF _ step])
  qed (simp add: fixed_def)
  ultimately show ?case using v ih(1) by simp
qed simp

lemma rest_loop_fixes:
  assumes lay: "layered w lev"
  shows "rested_below w lev k \<sigma> \<Longrightarrow> length (fl_gates w) \<le> k + n \<Longrightarrow> \<forall>g\<in>set (fl_gates w). fixed w g (rest_loop n w \<sigma>)"
proof (induction n arbitrary: k \<sigma>)
  case 0
  with lay show ?case by (auto simp: rested_below_def layered_def)
next
  case (Suc n)
  obtain c \<tau> where p: "rest_pass w \<sigma> = (c, \<tau>)" by fastforce
  then have f: "fold (rest_gate w) (fl_gates w) (False, \<sigma>) = (c, \<tau>)" by (simp add: rest_pass_def)
  have d: "distinct (fl_gates w)" using lay unfolding layered_def by (auto simp: distinct_map)
  show ?case
  proof (cases c)
    case False
    with pass_unchanged [OF lay order.refl d] f have "\<forall>g\<in>set (fl_gates w). fixed w g \<tau>" by auto
    with p False show ?thesis by simp
  next
    case True
    have "rested_below w lev (Suc k) \<tau>"
      using pass_part [OF lay Suc.prems(1) order.refl d f] by (auto simp: rested_below_def less_Suc_eq)
    with Suc.IH [of "Suc k" \<tau>] Suc.prems(2) p True show ?thesis by simp
  qed
qed

text \<open>
  What a floor's toggles remember is not the floor's own: a toggle that was switched on on one floor
  opens the next floor switched on, when a gate there has the same id, with nobody near its switch.
\<close>

definition toggle_floor :: floor_plan where
  "toggle_floor = \<lparr>fl_wires = [(''zone'', [''door''])],
     fl_gates = [\<lparr>gt_id = ''door'', gt_kind = ToggleGate, gt_once = False, gt_threshold = None, gt_start_delay = None, gt_reset_time = None\<rparr>],
     fl_triggers = [\<lparr>tr_id = ''zone'', tr_kind = Proximity, tr_npc = None, tr_event = None, tr_once = False, tr_repeats = False,
        tr_start_delay = None, tr_interval = None, tr_on_time = None, tr_off_time = None, tr_destination = False\<rparr>],
     fl_generators = [], fl_virtual = [], fl_running = [], fl_stoppable = [], fl_mounted = [], fl_attack = [],
     fl_stateful = [], fl_choreographed = [], fl_rewards = [], fl_all_dead = []\<rparr>"

lemma toggles_outlive_the_floor:
  "truth (track_triggers toggle_floor \<sigma>) ''door'' = or_else (sg_latches \<sigma> ''door'') False"
proof -
  have two: "rest_loop 2 w \<tau> = rest_loop (Suc (Suc 0)) w \<tau>" for w \<tau> by (simp add: numeral_2_eq_2)
  show ?thesis
    by (simp add: track_triggers_def toggle_floor_def two rest_pass_def rest_gate_def evaluate_gate_def rising_edge_def
        opening_values_def place_trigger_def rests_on_def is_timer_def put_off_def input_values_def incoming_def
        truth_def any_on_def Let_def del: One_nat_def)
qed

section \<open>Properties\<close>

text \<open>C24: Whether a target can ever change is whether a source that moves by itself feeds it. The
  walk to the leaves with its one shared set of what was seen, over wiring that may loop, answers
  yes exactly when some trigger or generator reaches the target along the links.\<close>
theorem can_ever_change_iff:
  "can_ever_change w t \<longleftrightarrow> (\<exists>s. movable w s \<and> (s, t) \<in> (feeds w)\<^sup>+)"
proof
  assume "can_ever_change w t"
  then show "\<exists>s. movable w s \<and> (s, t) \<in> (feeds w)\<^sup>+"
    unfolding can_ever_change_def using reaches_movable_true [of _ w t "[]"] by (metis prod.collapse)
next
  assume "\<exists>s. movable w s \<and> (s, t) \<in> (feeds w)\<^sup>+"
  then obtain s where s: "movable w s" "(s, t) \<in> (feeds w)\<^sup>+" by blast
  let ?n = "length (wired_places w) + 2"
  obtain found seen where r: "reaches_movable ?n w t [] = (found, seen)" by fastforce
  have "card (insert t (set (wired_places w))) \<le> Suc (card (set (wired_places w)))" by (rule card_insert_le_m1) auto
  also have "\<dots> < ?n" using card_length [of "wired_places w"] by simp
  finally have "unseen w t [] < ?n" by (simp add: unseen_def)
  with reaches_movable_false [of ?n w t "[]" seen] r closed_off_unreachable [OF s(2)] s(1)
  have "found" by (cases found) auto
  with r show "can_ever_change w t" by (simp add: can_ever_change_def)
qed

text \<open>C23: A floor opens at rest. Where no gate feeds itself, the passes over the gates that settle the
  wiring before anything is generated are enough, whatever order the gates are placed in: when
  they stop, every gate says what its inputs say (a toggle holds, a counter says whether its count
  is reached), so evaluating any of them again would change nothing.\<close>
theorem floor_opens_at_rest:
  assumes "layered w lev"
  shows "\<forall>g\<in>set (fl_gates w). fixed w g (track_triggers w \<sigma>)"
  unfolding track_triggers_def
  by (rule rest_loop_fixes [OF assms, where k = 0]) (auto simp: rested_below_def)

definition demo_floor :: floor_plan where
  "demo_floor = \<lparr>fl_wires = [(''not'', [''and'']), (''life'', [''not'', ''and''])],
     fl_gates = [\<lparr>gt_id = ''and'', gt_kind = AndGate, gt_once = False, gt_threshold = None, gt_start_delay = None, gt_reset_time = None\<rparr>,
                 \<lparr>gt_id = ''not'', gt_kind = NotGate, gt_once = False, gt_threshold = None, gt_start_delay = None, gt_reset_time = None\<rparr>],
     fl_triggers = [\<lparr>tr_id = ''life'', tr_kind = NpcLife, tr_npc = Some ''boss'', tr_event = None, tr_once = False, tr_repeats = False,
        tr_start_delay = None, tr_interval = None, tr_on_time = None, tr_off_time = None, tr_destination = False\<rparr>],
     fl_generators = [], fl_virtual = [], fl_running = [], fl_stoppable = [], fl_mounted = [], fl_attack = [],
     fl_stateful = [], fl_choreographed = [], fl_rewards = [], fl_all_dead = []\<rparr>"

definition blank_signals :: signals where
  "blank_signals = \<lparr>sg_values = Map.empty, sg_edges = Map.empty, sg_latches = Map.empty, sg_counts = Map.empty,
     sg_inputs = Map.empty, sg_held = [], sg_timers = Map.empty, sg_settled = None, sg_suicides = [],
     sg_on = (\<lambda>_. False), sg_fired = (\<lambda>_. False), sg_occupants = (\<lambda>_. []), sg_effects = []\<rparr>"

lemma floor_opens_at_rest_witness:
  "list_all (\<lambda>g. fixed demo_floor g (track_triggers demo_floor blank_signals)) (fl_gates demo_floor)"
proof -
  have "layered demo_floor (\<lambda>s. if s = ''and'' then 1 else 0)"
    by (simp add: layered_def demo_floor_def incoming_def)
  then show ?thesis unfolding list_all_iff by (rule floor_opens_at_rest)
qed

end
