(* ===== verification/Signals.thy ===== *)
theory Signals
  imports Wiring
begin

text \<open>
  Signals running through a floor (\<open>src/socket/triggers.js\<close>): publishing a source's value, what each
  target does when it is told, the pulse of a reset gate, and the events that start it all: heroes
  walking into a zone, actors hurt or killed, generators, timers. What the rest of the game does
  in answer to an effect, before it returns, is a parameter: the signals it publishes in turn.
\<close>

record floor_world =
  fw_alive :: "place \<Rightarrow> signals \<Rightarrow> bool"
  fw_react :: "effect \<Rightarrow> signals \<Rightarrow> (place \<times> bool) list"

type_synonym publisher = "place \<Rightarrow> bool \<Rightarrow> signals \<Rightarrow> signals option"

section \<open>Effects\<close>

text \<open>The argument \<open>em\<close> publishes a signal; it is \<open>emit\<close> below, with less room.\<close>

fun emits :: "publisher \<Rightarrow> (place \<times> bool) list \<Rightarrow> signals \<Rightarrow> signals option" where
  "emits em [] \<sigma> = Some \<sigma>"
| "emits em ((s, b) # xs) \<sigma> = (case em s b \<sigma> of None \<Rightarrow> None | Some \<sigma> \<Rightarrow> emits em xs \<sigma>)"

definition act :: "floor_world \<Rightarrow> publisher \<Rightarrow> effect \<Rightarrow> signals \<Rightarrow> signals option" where
  "act fw em e \<sigma> = emits em (fw_react fw e \<sigma>) (\<sigma>\<lparr>sg_effects := sg_effects \<sigma> @ [e]\<rparr>)"

fun acts :: "floor_world \<Rightarrow> publisher \<Rightarrow> effect list \<Rightarrow> signals \<Rightarrow> signals option" where
  "acts fw em [] \<sigma> = Some \<sigma>"
| "acts fw em (e # es) \<sigma> = (case act fw em e \<sigma> of None \<Rightarrow> None | Some \<sigma> \<Rightarrow> acts fw em es \<sigma>)"

text \<open>A moving trap announces its swing before its state goes on.\<close>

definition target_effects :: "floor_plan \<Rightarrow> place \<Rightarrow> bool \<Rightarrow> effect list" where
  "target_effects w t on =
     Navigation t on #
     (if t \<notin> set (fl_mounted w) then []
      else if t \<in> set (fl_attack w)
      then (let stateful = t \<in> set (fl_stateful w);
                swing_first = on \<and> stateful \<and> t \<in> set (fl_choreographed w)
            in (if swing_first then [Raised t] else [])
               @ (if stateful then [StateSent t on] else [])
               @ (if on \<and> \<not> swing_first then [Raised t] else if \<not> on then [BeatStopped t] else []))
      else [StateSent t on])"

definition suicide_at :: "floor_plan \<Rightarrow> place \<Rightarrow> trigger option" where
  "suicide_at w t = find (\<lambda>tr. tr_id tr = t \<and> tr_kind tr = NpcSuicide) (fl_triggers w)"

definition fire_suicide :: "floor_world \<Rightarrow> publisher \<Rightarrow> trigger \<Rightarrow> signals \<Rightarrow> signals option" where
  "fire_suicide fw em tr \<sigma> =
     (if sg_settled \<sigma> \<noteq> Some True then Some \<sigma>
      else if tr_id tr \<in> set (sg_suicides \<sigma>) then Some \<sigma>
      else let \<sigma> = \<sigma>\<lparr>sg_suicides := tr_id tr # sg_suicides \<sigma>\<rparr> in
        case tr_npc tr of
          None \<Rightarrow> Some \<sigma>
        | Some npc \<Rightarrow> if fw_alive fw npc \<sigma> then act fw em (Died (tr_id tr)) \<sigma> else Some \<sigma>)"

definition apply_target_state :: "floor_world \<Rightarrow> publisher \<Rightarrow> floor_plan \<Rightarrow> place \<Rightarrow> bool \<Rightarrow> signals \<Rightarrow> signals option" where
  "apply_target_state fw em w t on \<sigma> =
     (case suicide_at w t of
        Some tr \<Rightarrow> if on then fire_suicide fw em tr \<sigma> else Some \<sigma>
      | None \<Rightarrow> acts fw em (target_effects w t on) \<sigma>)"

section \<open>Delivering and publishing\<close>

definition minimum_pulse_ms :: rat where "minimum_pulse_ms = 100"

definition start_ms :: "gate \<Rightarrow> rat" where
  "start_ms g = (case gt_start_delay g of None \<Rightarrow> 0 | Some d \<Rightarrow> max 0 (d * 1000))"

definition reset_ms :: "gate \<Rightarrow> rat" where
  "reset_ms g =
     (let authored = (case gt_reset_time g of None \<Rightarrow> 0 | Some d \<Rightarrow> d * 1000)
      in if 1 / 1000000 < authored then authored else minimum_pulse_ms)"

definition open_pulse :: "publisher \<Rightarrow> gate \<Rightarrow> signals \<Rightarrow> signals option" where
  "open_pulse em g \<sigma> =
     (case em (gt_id g) True \<sigma> of
        None \<Rightarrow> None
      | Some \<sigma> \<Rightarrow> Some (\<sigma>\<lparr>sg_timers := (sg_timers \<sigma>)(gt_id g \<mapsto> Closes (reset_ms g))\<rparr>))"

definition start_reset_gate :: "publisher \<Rightarrow> gate \<Rightarrow> signals \<Rightarrow> signals option" where
  "start_reset_gate em g \<sigma> =
     (if start_ms g = 0 then open_pulse em g \<sigma>
      else Some (\<sigma>\<lparr>sg_timers := (sg_timers \<sigma>)(gt_id g \<mapsto> Opens (start_ms g))\<rparr>))"

definition pulse_source :: "floor_plan \<Rightarrow> place option \<Rightarrow> bool" where
  "pulse_source w src =
     (case src of None \<Rightarrow> False
      | Some s \<Rightarrow> (case gate_at w s of None \<Rightarrow> False | Some g \<Rightarrow> gt_kind g = ResetGate))"

definition deliver_signal :: "floor_world \<Rightarrow> publisher \<Rightarrow> floor_plan \<Rightarrow> place \<Rightarrow> bool \<Rightarrow> place option \<Rightarrow> signals \<Rightarrow> signals option" where
  "deliver_signal fw em w t on src \<sigma> =
     (case map_of (rev (fl_virtual w)) t of
        Some c \<Rightarrow> if on then act fw em (Ran t c) \<sigma> else Some \<sigma>
      | None \<Rightarrow>
        (case gate_at w t of
           Some g \<Rightarrow>
             if gt_kind g = ResetGate then (if on then start_reset_gate em g \<sigma> else Some \<sigma>)
             else (case gate_output w g \<sigma> of (v, \<sigma>) \<Rightarrow> em (gt_id g) v \<sigma>)
         | None \<Rightarrow>
           if t \<in> set (fl_running w)
           then (if \<not> initial_target_state w \<sigma> t
                 then (if \<not> on \<and> pulse_source w src then Some \<sigma>
                       else if t \<in> set (fl_stoppable w) then act fw em (GeneratorStopped t) \<sigma> else Some \<sigma>)
                 else act fw em (GeneratorStarted t) \<sigma>)
           else apply_target_state fw em w t (initial_target_state w \<sigma> t) \<sigma>))"

fun deliver_all :: "floor_world \<Rightarrow> publisher \<Rightarrow> floor_plan \<Rightarrow> place list \<Rightarrow> bool \<Rightarrow> place option \<Rightarrow> signals \<Rightarrow> signals option" where
  "deliver_all fw em w [] on src \<sigma> = Some \<sigma>"
| "deliver_all fw em w (t # ts) on src \<sigma> =
     (case deliver_signal fw em w t on src \<sigma> of None \<Rightarrow> None | Some \<sigma> \<Rightarrow> deliver_all fw em w ts on src \<sigma>)"

text \<open>
  \<open>emitSignal\<close> calls itself through \<open>deliverSignal\<close>; \<open>n\<close> is how deep it may go, and \<open>None\<close> is going
  deeper.
\<close>

primrec emit :: "floor_world \<Rightarrow> floor_plan \<Rightarrow> nat \<Rightarrow> publisher" where
  "emit fw w 0 = (\<lambda>s on \<sigma>. None)"
| "emit fw w (Suc n) = (\<lambda>s on \<sigma>.
     if sg_values \<sigma> s = Some on then Some \<sigma>
     else deliver_all fw (emit fw w n) w (targets w s) on (Some s) (\<sigma>\<lparr>sg_values := (sg_values \<sigma>)(s \<mapsto> on)\<rparr>))"

section \<open>What happens on a floor\<close>

definition timer_due :: "publisher \<Rightarrow> floor_plan \<Rightarrow> place \<Rightarrow> signals \<Rightarrow> signals option" where
  "timer_due em w s \<sigma> =
     (case gate_at w s of
        None \<Rightarrow> Some \<sigma>
      | Some g \<Rightarrow>
          if gt_kind g \<noteq> ResetGate then Some \<sigma>
          else (case sg_timers \<sigma> s of
              None \<Rightarrow> Some \<sigma>
            | Some (Opens _) \<Rightarrow> open_pulse em g \<sigma>
            | Some (Closes _) \<Rightarrow> em s False (\<sigma>\<lparr>sg_timers := (sg_timers \<sigma>)(s := None)\<rparr>)))"

definition emit_generator_release :: "floor_world \<Rightarrow> publisher \<Rightarrow> floor_plan \<Rightarrow> place \<Rightarrow> signals \<Rightarrow> signals option" where
  "emit_generator_release fw em w p \<sigma> =
     (if p \<notin> set (fl_all_dead w) then emits em [(p, True), (p, False)] \<sigma>
      else if p \<in> set (fl_rewards w) then Some \<sigma>
      else deliver_all fw em w
             (filter (\<lambda>t. case gate_at w t of None \<Rightarrow> False | Some g \<Rightarrow> gt_kind g = ResetGate) (targets w p)) True None \<sigma>)"

fun walk_triggers :: "(trigger \<Rightarrow> signals \<Rightarrow> signals option) \<Rightarrow> trigger list \<Rightarrow> signals \<Rightarrow> signals option" where
  "walk_triggers f [] \<sigma> = Some \<sigma>"
| "walk_triggers f (tr # trs) \<sigma> = (case f tr \<sigma> of None \<Rightarrow> None | Some \<sigma> \<Rightarrow> walk_triggers f trs \<sigma>)"

definition set_on :: "trigger \<Rightarrow> bool \<Rightarrow> signals \<Rightarrow> signals" where
  "set_on tr b \<sigma> = \<sigma>\<lparr>sg_on := (sg_on \<sigma>)(tr_id tr := b)\<rparr>"

definition report_npc_damage :: "publisher \<Rightarrow> floor_plan \<Rightarrow> place \<Rightarrow> signals \<Rightarrow> signals option" where
  "report_npc_damage em w npc =
     walk_triggers (\<lambda>tr \<sigma>.
       if tr_kind tr \<noteq> NpcDamage \<or> tr_npc tr \<noteq> Some npc then Some \<sigma>
       else if sg_on \<sigma> (tr_id tr) \<and> \<not> tr_repeats tr then Some \<sigma>
       else em (tr_id tr) True (set_on tr True \<sigma>)) (fl_triggers w)"

definition report_npc_death :: "publisher \<Rightarrow> floor_plan \<Rightarrow> place \<Rightarrow> signals \<Rightarrow> signals option" where
  "report_npc_death em w npc =
     walk_triggers (\<lambda>tr \<sigma>.
       if tr_kind tr \<noteq> NpcLife \<or> tr_npc tr \<noteq> Some npc then Some \<sigma>
       else em (tr_id tr) False (set_on tr False \<sigma>)) (fl_triggers w)"

definition fire_npc_timeline_event :: "publisher \<Rightarrow> floor_plan \<Rightarrow> place \<Rightarrow> string \<Rightarrow> signals \<Rightarrow> signals option" where
  "fire_npc_timeline_event em w npc event =
     walk_triggers (\<lambda>tr \<sigma>.
       if tr_kind tr \<noteq> NpcEvent \<or> tr_npc tr \<noteq> Some npc \<or> tr_event tr \<noteq> Some event then Some \<sigma>
       else emits em [(tr_id tr, True), (tr_id tr, False)] \<sigma>) (fl_triggers w)"

definition tick_timer :: "publisher \<Rightarrow> trigger \<Rightarrow> signals \<Rightarrow> signals option" where
  "tick_timer em tr \<sigma> = (let b = \<not> sg_on \<sigma> (tr_id tr) in em (tr_id tr) b (set_on tr b \<sigma>))"

definition apply_proximity_state :: "publisher \<Rightarrow> trigger \<Rightarrow> bool \<Rightarrow> signals \<Rightarrow> signals option" where
  "apply_proximity_state em tr inside \<sigma> =
     (if inside = sg_on \<sigma> (tr_id tr) then Some \<sigma>
      else if tr_once tr \<and> sg_fired \<sigma> (tr_id tr) then Some \<sigma>
      else em (tr_id tr) inside
             ((set_on tr inside \<sigma>)\<lparr>sg_fired := (if inside \<and> tr_once tr then (sg_fired \<sigma>)(tr_id tr := True) else sg_fired \<sigma>)\<rparr>))"

definition set_occupants :: "trigger \<Rightarrow> nat list \<Rightarrow> signals \<Rightarrow> signals" where
  "set_occupants tr os \<sigma> = \<sigma>\<lparr>sg_occupants := (sg_occupants \<sigma>)(tr_id tr := os)\<rparr>"

definition release_proximity_actor :: "publisher \<Rightarrow> floor_plan \<Rightarrow> nat \<Rightarrow> signals \<Rightarrow> signals option" where
  "release_proximity_actor em w hero =
     walk_triggers (\<lambda>tr \<sigma>.
       let os = sg_occupants \<sigma> (tr_id tr); left = removeAll hero os in
       if tr_kind tr \<noteq> Proximity \<or> hero \<notin> set os then Some \<sigma>
       else apply_proximity_state em tr (left \<noteq> []) (set_occupants tr left \<sigma>)) (fl_triggers w)"

text \<open>
  A hero's position is reported. Where its body is, and whether its last step crossed a zone, is
  geometry: \<open>inside\<close> and \<open>crossed\<close> say it of every trigger; \<open>present\<close> are the heroes that are
  standing.
\<close>

definition update_one :: "floor_world \<Rightarrow> publisher \<Rightarrow> nat \<Rightarrow> bool \<Rightarrow> (nat \<Rightarrow> bool) \<Rightarrow> (trigger \<Rightarrow> bool) \<Rightarrow> (trigger \<Rightarrow> bool)
    \<Rightarrow> trigger \<Rightarrow> signals \<Rightarrow> signals option" where
  "update_one fw em hero down present inside crossed tr \<sigma> =
     (if tr_kind tr \<noteq> Proximity then Some \<sigma>
      else
        let os = filter present (sg_occupants \<sigma> (tr_id tr));
            member_inside = \<not> down \<and> inside tr;
            passed = \<not> down \<and> \<not> member_inside \<and> crossed tr \<and> hero \<notin> set os;
            entered = member_inside \<and> hero \<notin> set os \<or> passed;
            already = tr_once tr \<and> sg_fired \<sigma> (tr_id tr);
            os' = (if member_inside then (if hero \<in> set os then os else os @ [hero]) else removeAll hero os);
            \<sigma> = set_occupants tr os' \<sigma> in
        case (if entered \<and> \<not> already \<and> tr_destination tr then act fw em (DoorTaken (tr_id tr)) \<sigma> else Some \<sigma>) of
          None \<Rightarrow> None
        | Some \<sigma> \<Rightarrow>
          (case (if passed \<and> \<not> already
                 then apply_proximity_state em tr True (set_occupants tr (sg_occupants \<sigma> (tr_id tr) @ [hero]) \<sigma>)
                 else Some \<sigma>) of
             None \<Rightarrow> None
           | Some \<sigma> \<Rightarrow>
               let \<sigma> = (if passed \<and> \<not> already
                        then set_occupants tr (removeAll hero (sg_occupants \<sigma> (tr_id tr))) \<sigma> else \<sigma>)
               in apply_proximity_state em tr (sg_occupants \<sigma> (tr_id tr) \<noteq> []) \<sigma>))"

definition update_proximity_triggers where
  "update_proximity_triggers fw em w hero down present inside crossed =
     walk_triggers (update_one fw em hero down present inside crossed) (fl_triggers w)"

datatype floor_event = PulseDue place | Releases place | Hurt place | Killed place | Timeline place string
  | Tick trigger | HeroGone nat | HeroAt nat bool "nat \<Rightarrow> bool" "trigger \<Rightarrow> bool" "trigger \<Rightarrow> bool" | Settles

fun floor_step :: "floor_world \<Rightarrow> publisher \<Rightarrow> floor_plan \<Rightarrow> floor_event \<Rightarrow> signals \<Rightarrow> signals option" where
  "floor_step fw em w (PulseDue s) \<sigma> = timer_due em w s \<sigma>"
| "floor_step fw em w (Releases p) \<sigma> = (if p \<in> set (fl_generators w) then emit_generator_release fw em w p \<sigma> else Some \<sigma>)"
| "floor_step fw em w (Hurt npc) \<sigma> = report_npc_damage em w npc \<sigma>"
| "floor_step fw em w (Killed npc) \<sigma> = report_npc_death em w npc \<sigma>"
| "floor_step fw em w (Timeline npc event) \<sigma> = fire_npc_timeline_event em w npc event \<sigma>"
| "floor_step fw em w (Tick tr) \<sigma> = (if tr \<in> set (fl_triggers w) \<and> is_timer (tr_kind tr) then tick_timer em tr \<sigma> else Some \<sigma>)"
| "floor_step fw em w (HeroGone hero) \<sigma> = release_proximity_actor em w hero \<sigma>"
| "floor_step fw em w (HeroAt hero down present inside crossed) \<sigma> =
     update_proximity_triggers fw em w hero down present inside crossed \<sigma>"
| "floor_step fw em w Settles \<sigma> = Some (\<sigma>\<lparr>sg_suicides := [], sg_settled := Some True\<rparr>)"

fun floor_run :: "floor_world \<Rightarrow> publisher \<Rightarrow> floor_plan \<Rightarrow> floor_event list \<Rightarrow> signals \<Rightarrow> signals option" where
  "floor_run fw em w [] \<sigma> = Some \<sigma>"
| "floor_run fw em w (e # es) \<sigma> = (case floor_step fw em w e \<sigma> of None \<Rightarrow> None | Some \<sigma> \<Rightarrow> floor_run fw em w es \<sigma>)"

section \<open>What publishing keeps\<close>

definition expected :: "floor_plan \<Rightarrow> gate \<Rightarrow> signals \<Rightarrow> bool" where
  "expected w g \<sigma> = (if gt_once g \<and> latching (gt_kind g) \<and> gt_id g \<in> set (sg_held \<sigma>) then True
                     else plain_value (gt_kind g) (input_values w \<sigma> (gt_id g)))"

definition coherent :: "floor_plan \<Rightarrow> gate \<Rightarrow> signals \<Rightarrow> bool" where
  "coherent w g \<sigma> \<longleftrightarrow> sg_values \<sigma> (gt_id g) = Some (expected w g \<sigma>)"

definition pulse_ok :: "gate \<Rightarrow> signals \<Rightarrow> bool" where
  "pulse_ok g \<sigma> \<longleftrightarrow> (sg_values \<sigma> (gt_id g) = Some True \<longrightarrow> sg_timers \<sigma> (gt_id g) \<noteq> None)"

definition gate_ok :: "floor_plan \<Rightarrow> gate \<Rightarrow> signals \<Rightarrow> bool" where
  "gate_ok w g \<sigma> \<longleftrightarrow> (boolean_gate (gt_kind g) \<longrightarrow> coherent w g \<sigma>) \<and> (gt_kind g = ResetGate \<longrightarrow> pulse_ok g \<sigma>)"

definition count_of :: "signals \<Rightarrow> place \<Rightarrow> nat" where
  "count_of \<sigma> x = or_else (sg_counts \<sigma> x) 0"

text \<open>What a publication may do to the gates other than those of \<open>X\<close>: nothing bad.\<close>

definition keeps_but :: "place set \<Rightarrow> floor_plan \<Rightarrow> signals \<Rightarrow> signals \<Rightarrow> bool" where
  "keeps_but X w \<sigma> \<tau> \<longleftrightarrow> (\<forall>g\<in>set (fl_gates w). gt_id g \<notin> X \<longrightarrow> gate_ok w g \<sigma> \<longrightarrow> gate_ok w g \<tau>)
     \<and> (\<forall>x. count_of \<sigma> x \<le> count_of \<tau> x) \<and> set (sg_held \<sigma>) \<subseteq> set (sg_held \<tau>)"

definition stays :: "(place \<Rightarrow> nat) \<Rightarrow> nat \<Rightarrow> signals \<Rightarrow> signals \<Rightarrow> bool" where
  "stays rank r \<sigma> \<tau> \<longleftrightarrow> (\<forall>y. r \<le> rank y \<longrightarrow> sg_values \<tau> y = sg_values \<sigma> y \<and> (y \<in> set (sg_held \<tau>) \<longleftrightarrow> y \<in> set (sg_held \<sigma>)))"

definition published :: "floor_plan \<Rightarrow> (place \<Rightarrow> nat) \<Rightarrow> place \<Rightarrow> bool \<Rightarrow> signals \<Rightarrow> signals \<Rightarrow> bool" where
  "published w rank x b \<sigma> \<tau> \<longleftrightarrow> sg_values \<tau> x = Some b
     \<and> (\<forall>y. y \<noteq> x \<longrightarrow> rank x \<le> rank y \<longrightarrow> sg_values \<tau> y = sg_values \<sigma> y)
     \<and> (\<forall>y. rank x \<le> rank y \<longrightarrow> (y \<in> set (sg_held \<tau>) \<longleftrightarrow> y \<in> set (sg_held \<sigma>)))
     \<and> keeps_but {x} w \<sigma> \<tau>"

abbreviation keeps :: "floor_plan \<Rightarrow> signals \<Rightarrow> signals \<Rightarrow> bool" where
  "keeps \<equiv> keeps_but {}"

lemma keeps_refl [simp]: "keeps_but X w \<sigma> \<sigma>"
  by (simp add: keeps_but_def)

lemma keeps_trans: "keeps_but X w \<sigma> \<tau> \<Longrightarrow> keeps_but X w \<tau> \<upsilon> \<Longrightarrow> keeps_but X w \<sigma> \<upsilon>"
  unfolding keeps_but_def by (meson order_trans)

lemma keeps_mono: "keeps_but X w \<sigma> \<tau> \<Longrightarrow> X \<subseteq> Y \<Longrightarrow> keeps_but Y w \<sigma> \<tau>"
  unfolding keeps_but_def by blast

lemma stays_refl [simp]: "stays rank r \<sigma> \<sigma>"
  by (simp add: stays_def)

lemma stays_trans: "stays rank r \<sigma> \<tau> \<Longrightarrow> stays rank r \<tau> \<upsilon> \<Longrightarrow> stays rank r \<sigma> \<upsilon>"
  unfolding stays_def by simp

text \<open>Changing what neither a gate's value nor its inputs show changes nothing for it.\<close>

lemma gate_ok_same:
  assumes "sg_values \<tau> = sg_values \<sigma>" "set (sg_held \<tau>) = set (sg_held \<sigma>)" "sg_timers \<tau> = sg_timers \<sigma>"
  shows "gate_ok w g \<tau> = gate_ok w g \<sigma>"
proof -
  have "truth \<tau> = truth \<sigma>" using assms(1) by (simp add: truth_def fun_eq_iff)
  then have "input_values w \<tau> (gt_id g) = input_values w \<sigma> (gt_id g)" by (simp add: input_values_def)
  with assms show ?thesis by (simp add: gate_ok_def coherent_def expected_def pulse_ok_def)
qed

lemma keeps_same:
  assumes "sg_values \<tau> = sg_values \<sigma>" "set (sg_held \<tau>) = set (sg_held \<sigma>)" "sg_timers \<tau> = sg_timers \<sigma>" "sg_counts \<tau> = sg_counts \<sigma>"
  shows "keeps_but X w \<sigma> \<tau>"
  using gate_ok_same [OF assms(1-3)] assms(2,4) by (simp add: keeps_but_def count_of_def)

definition place_of :: "effect \<Rightarrow> place" where
  "place_of e = (case e of Ran t _ \<Rightarrow> t | GeneratorStarted t \<Rightarrow> t | GeneratorStopped t \<Rightarrow> t | Navigation t _ \<Rightarrow> t
     | StateSent t _ \<Rightarrow> t | Raised t \<Rightarrow> t | BeatStopped t \<Rightarrow> t | Died t \<Rightarrow> t | DoorTaken t \<Rightarrow> t)"

text \<open>
  A floor that is wired: links and gates are maps, a gate is nothing else besides, its targets
  and what is published in answer to them rank below it, and what publishes by itself is not a gate.
\<close>

definition wired :: "floor_world \<Rightarrow> floor_plan \<Rightarrow> (place \<Rightarrow> nat) \<Rightarrow> bool" where
  "wired fw w rank \<longleftrightarrow> distinct (map fst (fl_wires w)) \<and> distinct (map gt_id (fl_gates w))
     \<and> (\<forall>g\<in>set (fl_gates w). map_of (rev (fl_virtual w)) (gt_id g) = None)
     \<and> (\<forall>g\<in>set (fl_gates w). \<forall>s. gt_id g \<in> set (targets w s) \<longrightarrow> rank (gt_id g) < rank s)
     \<and> (\<forall>e \<sigma> x b. (x, b) \<in> set (fw_react fw e \<sigma>) \<longrightarrow> gate_at w x = None
          \<and> (\<forall>s. place_of e \<in> set (targets w s) \<longrightarrow> rank x < rank s))
     \<and> (\<forall>x. movable w x \<longrightarrow> gate_at w x = None)"

lemma wiredD:
  assumes "wired fw w rank"
  shows "g \<in> set (fl_gates w) \<Longrightarrow> map_of (rev (fl_virtual w)) (gt_id g) = None"
    and "g \<in> set (fl_gates w) \<Longrightarrow> gt_id g \<in> set (targets w s) \<Longrightarrow> rank (gt_id g) < rank s"
    and "(x, b) \<in> set (fw_react fw e \<sigma>) \<Longrightarrow> gate_at w x = None"
    and "(x, b) \<in> set (fw_react fw e \<sigma>) \<Longrightarrow> place_of e \<in> set (targets w s) \<Longrightarrow> rank x < rank s"
    and "movable w x \<Longrightarrow> gate_at w x = None"
  using assms unfolding wired_def by blast+

lemma gate_at_Some: "gate_at w t = Some g \<Longrightarrow> g \<in> set (fl_gates w) \<and> gt_id g = t"
  by (auto simp: gate_at_def dest: map_of_SomeD)

lemma gate_at_mem: "wired fw w rank \<Longrightarrow> g \<in> set (fl_gates w) \<Longrightarrow> gate_at w (gt_id g) = Some g"
proof -
  assume w: "wired fw w rank" and g: "g \<in> set (fl_gates w)"
  have "distinct (map fst (rev (map (\<lambda>g. (gt_id g, g)) (fl_gates w))))"
    using w by (simp add: wired_def rev_map [symmetric] o_def)
  with g show ?thesis by (simp add: gate_at_def)
qed

lemma gate_id_inj:
  assumes "wired fw w rank" "h \<in> set (fl_gates w)" "g \<in> set (fl_gates w)" "gt_id h = gt_id g"
  shows "h = g"
  using gate_at_mem [OF assms(1,2)] gate_at_mem [OF assms(1,3)] assms(4) by (metis option.inject)

lemma incoming_iff: "wired fw w rank \<Longrightarrow> s \<in> set (incoming w t) \<longleftrightarrow> t \<in> set (targets w s)"
proof
  assume w: "wired fw w rank" and s: "s \<in> set (incoming w t)"
  then obtain ts where "(s, ts) \<in> set (fl_wires w)" "t \<in> set ts" by (auto simp: incoming_def)
  with w show "t \<in> set (targets w s)" by (simp add: targets_def wired_def)
next
  assume "t \<in> set (targets w s)"
  then obtain ts where "map_of (fl_wires w) s = Some ts" "t \<in> set ts" by (cases "map_of (fl_wires w) s") (auto simp: targets_def)
  then show "s \<in> set (incoming w t)" by (force simp: incoming_def dest: map_of_SomeD)
qed

definition good_em :: "floor_plan \<Rightarrow> (place \<Rightarrow> nat) \<Rightarrow> nat \<Rightarrow> publisher \<Rightarrow> bool" where
  "good_em w rank r em \<longleftrightarrow> (\<forall>x b \<sigma>. rank x < r \<longrightarrow> (\<exists>\<tau>. em x b \<sigma> = Some \<tau> \<and> published w rank x b \<sigma> \<tau>))"

lemma good_emD:
  assumes "good_em w rank r em" "rank x < r"
  obtains \<tau> where "em x b \<sigma> = Some \<tau>" "published w rank x b \<sigma> \<tau>"
  using assms unfolding good_em_def by blast

lemma good_em_mono: "good_em w rank r em \<Longrightarrow> q \<le> r \<Longrightarrow> good_em w rank q em"
  unfolding good_em_def by (meson order_less_le_trans)

text \<open>The outcome of a step below rank \<open>r\<close>: it returns, and keeps everything.\<close>

definition fine :: "floor_plan \<Rightarrow> (place \<Rightarrow> nat) \<Rightarrow> nat \<Rightarrow> signals \<Rightarrow> signals option \<Rightarrow> bool" where
  "fine w rank r \<sigma> result \<longleftrightarrow> (\<exists>\<tau>. result = Some \<tau> \<and> keeps w \<sigma> \<tau> \<and> stays rank r \<sigma> \<tau>)"

lemma fine_Some [simp]: "fine w rank r \<sigma> (Some \<tau>) \<longleftrightarrow> keeps w \<sigma> \<tau> \<and> stays rank r \<sigma> \<tau>"
  by (simp add: fine_def)

lemma fineE:
  assumes "fine w rank r \<sigma> result"
  obtains \<tau> where "result = Some \<tau>" "keeps w \<sigma> \<tau>" "stays rank r \<sigma> \<tau>"
  using assms by (auto simp: fine_def)

lemma fine_after: "keeps w \<sigma> \<tau> \<Longrightarrow> stays rank r \<sigma> \<tau> \<Longrightarrow> fine w rank r \<tau> res \<Longrightarrow> fine w rank r \<sigma> res"
  by (auto simp: fine_def intro: keeps_trans stays_trans)

lemma fine_bind:
  assumes "fine w rank r \<sigma> m" and "\<And>\<tau>. fine w rank r \<tau> (k \<tau>)"
  shows "fine w rank r \<sigma> (case m of None \<Rightarrow> None | Some \<tau> \<Rightarrow> k \<tau>)"
  using assms(1) by (rule fineE) (simp add: fine_after assms(2))

lemma fine_same:
  assumes "sg_values \<tau> = sg_values \<sigma>" "set (sg_held \<tau>) = set (sg_held \<sigma>)" "sg_timers \<tau> = sg_timers \<sigma>" "sg_counts \<tau> = sg_counts \<sigma>"
    and "fine w rank r \<tau> res"
  shows "fine w rank r \<sigma> res"
  by (rule fine_after [OF keeps_same [OF assms(1-4)] _ assms(5)]) (simp add: stays_def assms(1,2))

lemma published_fine:
  assumes "wired fw w rank" "published w rank x b \<sigma> \<tau>" "rank x < r" "gate_at w x = None"
  shows "fine w rank r \<sigma> (Some \<tau>)"
proof -
  have "gt_id g \<noteq> x" if "g \<in> set (fl_gates w)" for g
    using gate_at_mem [OF assms(1) that] assms(4) by auto
  then have "keeps w \<sigma> \<tau>" using assms(2) by (auto simp: published_def keeps_but_def)
  moreover have "stays rank r \<sigma> \<tau>" unfolding stays_def
  proof (intro allI impI)
    fix y assume "r \<le> rank y"
    with assms(3) have "y \<noteq> x" "rank x \<le> rank y" by auto
    with assms(2) show "sg_values \<tau> y = sg_values \<sigma> y \<and> (y \<in> set (sg_held \<tau>)) = (y \<in> set (sg_held \<sigma>))"
      unfolding published_def by blast
  qed
  ultimately show ?thesis by simp
qed

lemma em_fine:
  assumes "wired fw w rank" "good_em w rank r em" "rank x < r" "gate_at w x = None"
  shows "fine w rank r \<sigma> (em x b \<sigma>)"
  using good_emD [OF assms(2,3)] published_fine [OF assms(1) _ assms(3,4)] by metis

lemma emits_fine:
  assumes "wired fw w rank" "good_em w rank r em"
  shows "(\<And>x b. (x, b) \<in> set xs \<Longrightarrow> rank x < r \<and> gate_at w x = None) \<Longrightarrow> fine w rank r \<sigma> (emits em xs \<sigma>)"
proof (induction xs arbitrary: \<sigma>)
  case (Cons p xs)
  obtain x b where p: "p = (x, b)" by fastforce
  have "rank x < r" "gate_at w x = None" using Cons.prems [of x b] by (simp_all add: p)
  then show ?case unfolding p emits.simps
    by (intro fine_bind em_fine [OF assms] Cons.IH) (use Cons.prems in \<open>auto simp: p\<close>)
qed simp

lemma act_fine:
  assumes w: "wired fw w rank" and em: "good_em w rank r em"
    and low: "\<And>x b \<tau>. (x, b) \<in> set (fw_react fw e \<tau>) \<Longrightarrow> rank x < r"
  shows "fine w rank r \<sigma> (act fw em e \<sigma>)"
  unfolding act_def
proof (rule fine_same [where \<tau> = "\<sigma>\<lparr>sg_effects := sg_effects \<sigma> @ [e]\<rparr>"])
  show "fine w rank r (\<sigma>\<lparr>sg_effects := sg_effects \<sigma> @ [e]\<rparr>) (emits em (fw_react fw e \<sigma>) (\<sigma>\<lparr>sg_effects := sg_effects \<sigma> @ [e]\<rparr>))"
    using low wiredD(3) [OF w] by (intro emits_fine [OF w em]) blast
qed simp_all

lemma acts_fine:
  assumes w: "wired fw w rank" and em: "good_em w rank r em"
  shows "(\<And>e x b \<tau>. e \<in> set es \<Longrightarrow> (x, b) \<in> set (fw_react fw e \<tau>) \<Longrightarrow> rank x < r) \<Longrightarrow> fine w rank r \<sigma> (acts fw em es \<sigma>)"
proof (induction es arbitrary: \<sigma>)
  case (Cons e es)
  show ?case unfolding acts.simps
    by (intro fine_bind act_fine [OF w em] Cons.IH) (use Cons.prems in \<open>auto\<close>)
qed simp

lemma target_effects_place: "e \<in> set (target_effects w t on) \<Longrightarrow> place_of e = t"
  by (auto simp: target_effects_def place_of_def Let_def split: if_splits)

lemma apply_target_fine:
  assumes w: "wired fw w rank" and em: "good_em w rank (rank s) em" and t: "t \<in> set (targets w s)"
  shows "fine w rank (rank s) \<sigma> (apply_target_state fw em w t on \<sigma>)"
proof -
  have low: "rank x < rank s" if "(x, b) \<in> set (fw_react fw e \<tau>)" "place_of e = t" for x b e \<tau>
    using wiredD(4) [OF w that(1)] that(2) t by simp
  have eff: "fine w rank (rank s) \<sigma> (acts fw em (target_effects w t on) \<sigma>)"
    by (rule acts_fine [OF w em]) (use low target_effects_place in blast)
  have su: "fine w rank (rank s) \<sigma> (fire_suicide fw em tr \<sigma>)" if tr: "suicide_at w t = Some tr" for tr
  proof -
    have "tr_id tr = t" using tr by (auto simp: suicide_at_def find_Some_iff)
    then have d: "place_of (Died (tr_id tr)) = t" by (simp add: place_of_def)
    have "fine w rank (rank s) \<upsilon> (act fw em (Died (tr_id tr)) \<upsilon>)" for \<upsilon>
      by (rule act_fine [OF w em]) (use low d in blast)
    moreover have "fine w rank (rank s) \<sigma> (Some (\<sigma>\<lparr>sg_suicides := ss\<rparr>))" for ss
      by (simp add: keeps_same stays_def)
    moreover have "fine w rank (rank s) \<sigma> res" if "fine w rank (rank s) (\<sigma>\<lparr>sg_suicides := ss\<rparr>) res" for ss res
      by (rule fine_same [OF _ _ _ _ that]) simp_all
    ultimately show ?thesis by (auto simp: fire_suicide_def Let_def split: option.split)
  qed
  from eff su show ?thesis by (auto simp: apply_target_state_def split: option.split)
qed

section \<open>Delivering to a gate\<close>

lemma evaluate_gate_parts:
  "evaluate_gate w g \<sigma> = (v, \<tau>) \<Longrightarrow> sg_values \<tau> = sg_values \<sigma> \<and> sg_held \<tau> = sg_held \<sigma> \<and> sg_timers \<tau> = sg_timers \<sigma>
    \<and> (\<forall>x. count_of \<sigma> x \<le> count_of \<tau> x)
    \<and> (boolean_gate (gt_kind g) \<longrightarrow> \<tau> = \<sigma> \<and> v = plain_value (gt_kind g) (input_values w \<sigma> (gt_id g)))"
  by (cases "gt_kind g") (auto simp: evaluate_gate_def rising_edge_def Let_def boolean_gate_def count_of_def
      split: prod.splits dest: count_edges_counts)

lemma gate_output_parts:
  assumes "gate_output w g \<sigma> = (v, \<tau>)"
  shows "sg_values \<tau> = sg_values \<sigma>" "sg_timers \<tau> = sg_timers \<sigma>" "\<forall>x. count_of \<sigma> x \<le> count_of \<tau> x"
    "set (sg_held \<sigma>) \<subseteq> set (sg_held \<tau>)" "set (sg_held \<tau>) \<subseteq> insert (gt_id g) (set (sg_held \<sigma>))"
    "boolean_gate (gt_kind g) \<Longrightarrow> v = expected w g \<tau>"
proof -
  obtain v1 \<tau>1 where e: "evaluate_gate w g \<sigma> = (v1, \<tau>1)" by fastforce
  note parts = evaluate_gate_parts [OF e]
  have t: "truth \<tau>1 = truth \<sigma>" using parts by (simp add: truth_def fun_eq_iff)
  show "sg_values \<tau> = sg_values \<sigma>" "sg_timers \<tau> = sg_timers \<sigma>" "\<forall>x. count_of \<sigma> x \<le> count_of \<tau> x"
    "set (sg_held \<sigma>) \<subseteq> set (sg_held \<tau>)" "set (sg_held \<tau>) \<subseteq> insert (gt_id g) (set (sg_held \<sigma>))"
    using assms parts by (auto simp: gate_output_def e count_of_def split: if_splits)
  show "v = expected w g \<tau>" if "boolean_gate (gt_kind g)"
    using assms parts that by (auto simp: gate_output_def e expected_def split: if_splits)
qed

lemma gate_output_keeps:
  assumes w: "wired fw w rank" and g: "g \<in> set (fl_gates w)" and out: "gate_output w g \<sigma> = (v, \<tau>)"
  shows "keeps_but {gt_id g} w \<sigma> \<tau>"
proof -
  note parts = gate_output_parts [OF out]
  have t: "truth \<tau> = truth \<sigma>" using parts(1) by (simp add: truth_def fun_eq_iff)
  have "gate_ok w h \<tau>" if "gt_id h \<noteq> gt_id g" "gate_ok w h \<sigma>" for h
  proof -
    have "gt_id h \<in> set (sg_held \<tau>) \<longleftrightarrow> gt_id h \<in> set (sg_held \<sigma>)" using parts(4,5) that(1) by blast
    with that(2) t parts(1,2) show ?thesis
      by (simp add: gate_ok_def coherent_def expected_def pulse_ok_def input_values_def)
  qed
  with parts(3,4) show ?thesis by (simp add: keeps_but_def)
qed

lemma deliver_gate_fine:
  assumes w: "wired fw w rank" and em: "good_em w rank (rank s) em" and g: "g \<in> set (fl_gates w)"
    and t: "gt_id g \<in> set (targets w s)" and kind: "gt_kind g \<noteq> ResetGate" and out: "gate_output w g \<sigma> = (v, \<sigma>1)"
  obtains \<tau> where "em (gt_id g) v \<sigma>1 = Some \<tau>" "keeps w \<sigma> \<tau>" "stays rank (rank s) \<sigma> \<tau>" "gate_ok w g \<tau>"
proof -
  note low = wiredD(2) [OF w g t]
  note parts = gate_output_parts [OF out]
  from good_emD [OF em low] obtain \<tau> where e: "em (gt_id g) v \<sigma>1 = Some \<tau>" and p: "published w rank (gt_id g) v \<sigma>1 \<tau>" .
  have ok: "gate_ok w g \<tau>"
  proof (cases "boolean_gate (gt_kind g)")
    case True
    have "truth \<tau> x = truth \<sigma>1 x" if "x \<in> set (incoming w (gt_id g))" for x
    proof -
      have "rank (gt_id g) < rank x" using wiredD(2) [OF w g] that incoming_iff [OF w] by blast
      then have "sg_values \<tau> x = sg_values \<sigma>1 x" using p unfolding published_def by (metis less_imp_le nat_neq_iff)
      then show ?thesis by (simp add: truth_def)
    qed
    then have "input_values w \<tau> (gt_id g) = input_values w \<sigma>1 (gt_id g)" by (rule input_values_apart)
    moreover have "gt_id g \<in> set (sg_held \<tau>) \<longleftrightarrow> gt_id g \<in> set (sg_held \<sigma>1)" using p by (simp add: published_def)
    ultimately have "expected w g \<tau> = expected w g \<sigma>1" by (simp add: expected_def)
    moreover have "sg_values \<tau> (gt_id g) = Some v" using p by (simp add: published_def)
    ultimately show ?thesis using parts(6) True kind by (simp add: gate_ok_def coherent_def)
  qed (use kind in \<open>auto simp: gate_ok_def boolean_gate_def\<close>)
  have "keeps_but {gt_id g} w \<sigma> \<tau>"
    using keeps_trans [OF gate_output_keeps [OF w g out]] p by (simp add: published_def)
  moreover have "h = g" if "h \<in> set (fl_gates w)" "gt_id h = gt_id g" for h
    by (rule gate_id_inj [OF w that(1) g that(2)])
  ultimately have "keeps w \<sigma> \<tau>" using ok unfolding keeps_but_def by (metis empty_iff singletonD)
  moreover have "stays rank (rank s) \<sigma> \<tau>" unfolding stays_def
  proof (intro allI impI)
    fix y assume "rank s \<le> rank y"
    with low have y: "y \<noteq> gt_id g" "rank (gt_id g) \<le> rank y" by auto
    have "y \<in> set (sg_held \<sigma>1) \<longleftrightarrow> y \<in> set (sg_held \<sigma>)" using parts(4,5) y(1) by blast
    with p y parts(1) show "sg_values \<tau> y = sg_values \<sigma> y \<and> (y \<in> set (sg_held \<tau>)) = (y \<in> set (sg_held \<sigma>))"
      unfolding published_def by simp
  qed
  ultimately show ?thesis using that e ok by blast
qed

lemma timer_keeps:
  assumes "g \<in> set (fl_gates w)" "gt_kind g = ResetGate" "wired fw w rank"
  shows "keeps w \<sigma> (\<sigma>\<lparr>sg_timers := (sg_timers \<sigma>)(gt_id g \<mapsto> p)\<rparr>)"
proof -
  have "gate_ok w h (\<sigma>\<lparr>sg_timers := (sg_timers \<sigma>)(gt_id g \<mapsto> p)\<rparr>)" if "gate_ok w h \<sigma>" for h
    using that by (cases "gt_id h = gt_id g") (simp_all add: gate_ok_def coherent_def expected_def pulse_ok_def)
  then show ?thesis by (simp add: keeps_but_def count_of_def)
qed

lemma open_pulse_keeps:
  assumes w: "wired fw w rank" and em: "good_em w rank r em" and g: "g \<in> set (fl_gates w)" and kind: "gt_kind g = ResetGate"
    and low: "rank (gt_id g) < r"
  shows "fine w rank r \<sigma> (open_pulse em g \<sigma>)"
proof -
  from good_emD [OF em low] obtain \<tau> where e: "em (gt_id g) True \<sigma> = Some \<tau>" and p: "published w rank (gt_id g) True \<sigma> \<tau>" .
  define \<upsilon> where "\<upsilon> = \<tau>\<lparr>sg_timers := (sg_timers \<tau>)(gt_id g \<mapsto> Closes (reset_ms g))\<rparr>"
  have k: "keeps_but {gt_id g} w \<sigma> \<tau>" using p by (simp add: published_def)
  have t: "keeps w \<tau> \<upsilon>" unfolding \<upsilon>_def by (rule timer_keeps [OF g kind w])
  have "gate_ok w h \<upsilon>" if "h \<in> set (fl_gates w)" "gt_id h = gt_id g" for h
  proof -
    have "h = g" by (rule gate_id_inj [OF w that(1) g that(2)])
    then show ?thesis using kind by (simp add: gate_ok_def boolean_gate_def pulse_ok_def \<upsilon>_def)
  qed
  then have "keeps w \<sigma> \<upsilon>" using keeps_trans [OF k keeps_mono [OF t]] by (auto simp: keeps_but_def)
  moreover have "stays rank r \<sigma> \<upsilon>" unfolding stays_def
  proof (intro allI impI)
    fix y assume "r \<le> rank y"
    with low have "y \<noteq> gt_id g" "rank (gt_id g) \<le> rank y" by auto
    with p show "sg_values \<upsilon> y = sg_values \<sigma> y \<and> (y \<in> set (sg_held \<upsilon>)) = (y \<in> set (sg_held \<sigma>))"
      unfolding published_def by (simp add: \<upsilon>_def)
  qed
  ultimately show ?thesis by (simp add: open_pulse_def e \<upsilon>_def)
qed

lemma start_reset_fine:
  assumes w: "wired fw w rank" and em: "good_em w rank r em" and g: "g \<in> set (fl_gates w)" and kind: "gt_kind g = ResetGate"
    and low: "rank (gt_id g) < r"
  shows "fine w rank r \<sigma> (start_reset_gate em g \<sigma>)"
  using open_pulse_keeps [OF assms, of \<sigma>] timer_keeps [OF g kind w, of \<sigma> "Opens (start_ms g)"]
  by (simp add: start_reset_gate_def stays_def)

lemma deliver_fine:
  assumes w: "wired fw w rank" and em: "good_em w rank (rank s) em" and t: "t \<in> set (targets w s)"
  shows "fine w rank (rank s) \<sigma> (deliver_signal fw em w t on src \<sigma>)
    \<and> (\<forall>g \<tau>. gate_at w t = Some g \<and> gt_kind g \<noteq> ResetGate \<and> deliver_signal fw em w t on src \<sigma> = Some \<tau> \<longrightarrow> gate_ok w g \<tau>)"
proof (cases "gate_at w t")
  case (Some g)
  then have g: "g \<in> set (fl_gates w)" "gt_id g = t" using gate_at_Some by auto
  have v: "map_of (rev (fl_virtual w)) t = None" using wiredD(1) [OF w g(1)] g(2) by simp
  have t': "gt_id g \<in> set (targets w s)" using t g(2) by simp
  show ?thesis
  proof (cases "gt_kind g = ResetGate")
    case True
    with start_reset_fine [OF w em g(1) True wiredD(2) [OF w g(1) t']] show ?thesis
      by (auto simp: deliver_signal_def v Some)
  next
    case False
    obtain b \<sigma>1 where out: "gate_output w g \<sigma> = (b, \<sigma>1)" by fastforce
    from deliver_gate_fine [OF w em g(1) t' False out] obtain \<tau> where
      "em (gt_id g) b \<sigma>1 = Some \<tau>" "keeps w \<sigma> \<tau>" "stays rank (rank s) \<sigma> \<tau>" "gate_ok w g \<tau>" .
    with False Some out v show ?thesis by (simp add: deliver_signal_def)
  qed
next
  case None
  have low: "rank x < rank s" if "(x, b) \<in> set (fw_react fw e \<tau>)" "place_of e = t" for x b e \<tau>
    using wiredD(4) [OF w that(1)] that(2) t by simp
  have act: "fine w rank (rank s) \<sigma> (act fw em e \<sigma>)" if "place_of e = t" for e
    by (rule act_fine [OF w em]) (use low that in blast)
  have "fine w rank (rank s) \<sigma> (act fw em (Ran t c) \<sigma>)" "fine w rank (rank s) \<sigma> (act fw em (GeneratorStarted t) \<sigma>)"
    "fine w rank (rank s) \<sigma> (act fw em (GeneratorStopped t) \<sigma>)" for c
    by (rule act, simp add: place_of_def)+
  with apply_target_fine [OF w em t] show ?thesis
    by (auto simp: deliver_signal_def None split: option.split)
qed

lemma deliver_all_fine:
  assumes w: "wired fw w rank" and em: "good_em w rank (rank s) em"
  shows "set ts \<subseteq> set (targets w s) \<Longrightarrow> fine w rank (rank s) \<sigma> (deliver_all fw em w ts on src \<sigma>)
    \<and> (\<forall>t g \<tau>. t \<in> set ts \<and> gate_at w t = Some g \<and> gt_kind g \<noteq> ResetGate \<and> deliver_all fw em w ts on src \<sigma> = Some \<tau>
          \<longrightarrow> gate_ok w g \<tau>)"
proof (induction ts arbitrary: \<sigma>)
  case (Cons u ts)
  have u: "u \<in> set (targets w s)" using Cons.prems by simp
  from deliver_fine [OF w em u, of \<sigma> on src] obtain \<tau> where
    one: "deliver_signal fw em w u on src \<sigma> = Some \<tau>" "keeps w \<sigma> \<tau>" "stays rank (rank s) \<sigma> \<tau>"
    and gate: "\<And>g. gate_at w u = Some g \<Longrightarrow> gt_kind g \<noteq> ResetGate \<Longrightarrow> gate_ok w g \<tau>" by (auto elim!: fineE)
  from Cons.IH [of \<tau>] Cons.prems obtain \<upsilon> where
    two: "deliver_all fw em w ts on src \<tau> = Some \<upsilon>" "keeps w \<tau> \<upsilon>" "stays rank (rank s) \<tau> \<upsilon>"
    and gates: "\<And>t g. t \<in> set ts \<Longrightarrow> gate_at w t = Some g \<Longrightarrow> gt_kind g \<noteq> ResetGate \<Longrightarrow> gate_ok w g \<upsilon>"
    by (auto elim!: fineE)
  have "gate_ok w g \<upsilon>" if "gate_at w u = Some g" "gt_kind g \<noteq> ResetGate" for g
    using gate [OF that] two(2) gate_at_Some [OF that(1)] by (auto simp: keeps_but_def)
  with gates one two keeps_trans [OF one(2) two(2)] stays_trans [OF one(3) two(3)] show ?case by auto
qed simp

section \<open>Publishing returns, and leaves every gate saying what its inputs say\<close>

lemma set_value_ok:
  assumes "gate_ok w g \<sigma>" "gt_id g \<noteq> x" "boolean_gate (gt_kind g) \<Longrightarrow> x \<notin> set (incoming w (gt_id g))"
  shows "gate_ok w g (\<sigma>\<lparr>sg_values := (sg_values \<sigma>)(x \<mapsto> b)\<rparr>)"
proof -
  have "input_values w (\<sigma>\<lparr>sg_values := (sg_values \<sigma>)(x \<mapsto> b)\<rparr>) (gt_id g) = input_values w \<sigma> (gt_id g)"
    if "boolean_gate (gt_kind g)"
    using assms(3) [OF that] by (auto simp: input_values_def truth_def)
  with assms(1,2) show ?thesis
    by (cases "boolean_gate (gt_kind g)") (simp_all add: gate_ok_def coherent_def expected_def pulse_ok_def)
qed

lemma emit_good:
  assumes w: "wired fw w rank"
  shows "good_em w rank n (emit fw w n)"
proof (induction n)
  case 0
  show ?case by (simp add: good_em_def)
next
  case (Suc n)
  have "\<exists>\<tau>. emit fw w (Suc n) x b \<sigma> = Some \<tau> \<and> published w rank x b \<sigma> \<tau>" if "rank x < Suc n" for x b \<sigma>
  proof (cases "sg_values \<sigma> x = Some b")
    case True
    then show ?thesis by (simp add: published_def)
  next
    case False
    define \<sigma>1 where "\<sigma>1 = \<sigma>\<lparr>sg_values := (sg_values \<sigma>)(x \<mapsto> b)\<rparr>"
    have em: "good_em w rank (rank x) (emit fw w n)" using good_em_mono [OF Suc] that by simp
    from deliver_all_fine [OF w em order.refl, of \<sigma>1 b "Some x"] obtain \<tau> where
      run: "deliver_all fw (emit fw w n) w (targets w x) b (Some x) \<sigma>1 = Some \<tau>"
      and keep: "keeps w \<sigma>1 \<tau>" and stay: "stays rank (rank x) \<sigma>1 \<tau>"
      and told: "\<And>t g. t \<in> set (targets w x) \<Longrightarrow> gate_at w t = Some g \<Longrightarrow> gt_kind g \<noteq> ResetGate \<Longrightarrow> gate_ok w g \<tau>"
      by (auto elim!: fineE)
    have "gate_ok w g \<tau>" if g: "g \<in> set (fl_gates w)" and x: "gt_id g \<noteq> x" and ok: "gate_ok w g \<sigma>" for g
    proof (cases "boolean_gate (gt_kind g) \<and> x \<in> set (incoming w (gt_id g))")
      case True
      then show ?thesis
        using told [OF _ gate_at_mem [OF w g]] incoming_iff [OF w] by (simp add: boolean_gate_def)
    next
      case False
      then have "gate_ok w g \<sigma>1" unfolding \<sigma>1_def by (intro set_value_ok [OF ok x]) blast
      with keep g show ?thesis by (simp add: keeps_but_def)
    qed
    moreover have "\<forall>y. count_of \<sigma> y \<le> count_of \<tau> y" "set (sg_held \<sigma>) \<subseteq> set (sg_held \<tau>)"
      using keep by (auto simp: keeps_but_def count_of_def \<sigma>1_def)
    ultimately have "keeps_but {x} w \<sigma> \<tau>" by (simp add: keeps_but_def)
    moreover have "sg_values \<tau> x = Some b" using stay by (simp add: stays_def \<sigma>1_def)
    ultimately have "published w rank x b \<sigma> \<tau>" using stay by (simp add: published_def stays_def \<sigma>1_def)
    with run False show ?thesis by (simp add: \<sigma>1_def)
  qed
  then show ?case by (simp add: good_em_def)
qed

text \<open>From here on the room is enough for every place.\<close>

definition roomy :: "floor_world \<Rightarrow> floor_plan \<Rightarrow> (place \<Rightarrow> nat) \<Rightarrow> nat \<Rightarrow> bool" where
  "roomy fw w rank n \<longleftrightarrow> wired fw w rank \<and> (\<forall>x. rank x < n)"

lemma roomyD:
  assumes "roomy fw w rank n"
  shows "wired fw w rank" "rank x < n" "good_em w rank n (emit fw w n)"
  using assms emit_good unfolding roomy_def by auto

lemma source_fine: "roomy fw w rank n \<Longrightarrow> movable w x \<Longrightarrow> fine w rank n \<sigma> (emit fw w n x b \<sigma>)"
  by (rule em_fine) (auto intro: roomyD wiredD(5))

lemma pulse_fine: "roomy fw w rank n \<Longrightarrow> movable w x \<Longrightarrow> fine w rank n \<sigma> (emits (emit fw w n) [(x, True), (x, False)] \<sigma>)"
  by (rule emits_fine [OF roomyD(1) roomyD(3)]) (auto intro: roomyD wiredD(5) simp: roomy_def)

lemma walk_fine:
  assumes "\<And>tr \<tau>. tr \<in> set trs \<Longrightarrow> fine w rank n \<tau> (f tr \<tau>)"
  shows "fine w rank n \<sigma> (walk_triggers f trs \<sigma>)"
  using assms
proof (induction trs arbitrary: \<sigma>)
  case (Cons tr trs)
  show ?case unfolding walk_triggers.simps by (intro fine_bind Cons.IH Cons.prems) simp_all
qed simp

lemma trigger_movable: "tr \<in> set (fl_triggers w) \<Longrightarrow> movable w (tr_id tr)"
  by (simp add: movable_def)

lemma noted_fine:
  "fine w rank n (set_on tr b \<sigma>) res \<Longrightarrow> fine w rank n \<sigma> res"
  "fine w rank n (set_occupants tr os \<sigma>) res \<Longrightarrow> fine w rank n \<sigma> res"
  "fine w rank n ((set_on tr b \<sigma>)\<lparr>sg_fired := fi\<rparr>) res \<Longrightarrow> fine w rank n \<sigma> res"
  by (rule fine_same; simp add: set_on_def set_occupants_def)+

lemma proximity_fine:
  "roomy fw w rank n \<Longrightarrow> tr \<in> set (fl_triggers w) \<Longrightarrow> fine w rank n \<sigma> (apply_proximity_state (emit fw w n) tr b \<sigma>)"
  unfolding apply_proximity_state_def
  by (auto intro: noted_fine(3) [OF source_fine [OF _ trigger_movable]])

lemma update_one_fine:
  assumes r: "roomy fw w rank n" and tr: "tr \<in> set (fl_triggers w)"
  shows "fine w rank n \<sigma> (update_one fw (emit fw w n) hero down present inside crossed tr \<sigma>)"
proof -
  note prox = proximity_fine [OF r tr]
  have door: "fine w rank n \<tau> (if c then act fw (emit fw w n) (DoorTaken (tr_id tr)) \<tau> else Some \<tau>)" for c \<tau>
    using act_fine [OF roomyD(1,3) [OF r]] roomyD(2) [OF r] by simp
  have pressed: "fine w rank n \<tau> (if c then apply_proximity_state (emit fw w n) tr True (set_occupants tr os \<tau>) else Some \<tau>)"
    for c os \<tau> using noted_fine(2) [OF prox] by simp
  have last: "fine w rank n \<tau> (apply_proximity_state (emit fw w n) tr b (if c then set_occupants tr os \<tau> else \<tau>))"
    for b c os \<tau> using prox noted_fine(2) [OF prox] by simp
  have rest: "fine w rank n \<tau>
      (case (if c1 then act fw (emit fw w n) (DoorTaken (tr_id tr)) \<tau> else Some \<tau>) of
         None \<Rightarrow> None
       | Some \<sigma> \<Rightarrow>
         (case (if c2 then apply_proximity_state (emit fw w n) tr True (set_occupants tr (f \<sigma>) \<sigma>) else Some \<sigma>) of
            None \<Rightarrow> None
          | Some \<sigma> \<Rightarrow> apply_proximity_state (emit fw w n) tr (h (if c2 then set_occupants tr (g \<sigma>) \<sigma> else \<sigma>))
                        (if c2 then set_occupants tr (g \<sigma>) \<sigma> else \<sigma>)))" for c1 c2 f g h \<tau>
    by (rule fine_bind [OF door], rule fine_bind [OF pressed], rule last)
  show ?thesis
  proof (cases "tr_kind tr = Proximity")
    case True
    show ?thesis unfolding update_one_def Let_def
      using True by (simp only: simp_thms if_False) (rule noted_fine(2), rule rest)
  qed (simp add: update_one_def)
qed

lemma timer_due_fine:
  assumes r: "roomy fw w rank n"
  shows "fine w rank n \<sigma> (timer_due (emit fw w n) w s \<sigma>)"
proof (cases "gate_at w s")
  case (Some g)
  note w = roomyD(1) [OF r]
  from Some have g: "g \<in> set (fl_gates w)" "gt_id g = s" using gate_at_Some by auto
  have vac: "stays rank n \<sigma> \<tau>" for \<tau> using roomyD(2) [OF r] by (simp add: stays_def not_le [symmetric])
  define \<sigma>1 where "\<sigma>1 = \<sigma>\<lparr>sg_timers := (sg_timers \<sigma>)(s := None)\<rparr>"
  have closes: "fine w rank n \<sigma> (emit fw w n s False \<sigma>1)" if kind: "gt_kind g = ResetGate"
  proof -
    from good_emD [OF roomyD(3,2) [OF r]] obtain \<tau> where e: "emit fw w n s False \<sigma>1 = Some \<tau>"
      and p: "published w rank s False \<sigma>1 \<tau>" .
    have "gate_ok w h \<sigma>1" if "gt_id h \<noteq> s" "gate_ok w h \<sigma>" for h
      using that by (simp add: gate_ok_def coherent_def expected_def pulse_ok_def \<sigma>1_def)
    then have "keeps_but {s} w \<sigma> \<sigma>1" by (simp add: keeps_but_def count_of_def \<sigma>1_def)
    then have k: "keeps_but {s} w \<sigma> \<tau>" by (rule keeps_trans) (use p in \<open>simp add: published_def\<close>)
    have "gate_ok w h \<tau>" if "h \<in> set (fl_gates w)" "gt_id h = s" for h
    proof -
      have "h = g" by (rule gate_id_inj [OF w that(1) g(1)]) (simp add: that(2) g(2))
      then show ?thesis using kind p g(2) by (simp add: gate_ok_def boolean_gate_def pulse_ok_def published_def)
    qed
    with k have "keeps w \<sigma> \<tau>" unfolding keeps_but_def by (metis empty_iff singletonD)
    with e vac show ?thesis by simp
  qed
  have opens: "fine w rank n \<sigma> (open_pulse (emit fw w n) g \<sigma>)" if "gt_kind g = ResetGate"
    by (rule open_pulse_keeps [OF w roomyD(3) [OF r] g(1) that roomyD(2) [OF r]])
  show ?thesis using opens closes Some
    by (auto simp: timer_due_def \<sigma>1_def split: option.split pulse.split)
qed (simp add: timer_due_def)

lemma release_fine:
  assumes r: "roomy fw w rank n" and p: "p \<in> set (fl_generators w)"
  shows "fine w rank n \<sigma> (emit_generator_release fw (emit fw w n) w p \<sigma>)"
proof -
  let ?ts = "filter (\<lambda>t. case gate_at w t of None \<Rightarrow> False | Some g \<Rightarrow> gt_kind g = ResetGate) (targets w p)"
  have m: "movable w p" using p by (simp add: movable_def)
  have em: "good_em w rank (rank p) (emit fw w n)"
    using good_em_mono [OF roomyD(3) [OF r]] roomyD(2) [OF r] by (simp add: less_imp_le)
  have "fine w rank (rank p) \<sigma> (deliver_all fw (emit fw w n) w ?ts True None \<sigma>)"
    using deliver_all_fine [OF roomyD(1) [OF r] em, of ?ts \<sigma> True None] by auto
  then have "fine w rank n \<sigma> (deliver_all fw (emit fw w n) w ?ts True None \<sigma>)"
    using roomyD(2) [OF r] by (auto simp: fine_def stays_def not_le [symmetric])
  with pulse_fine [OF r m] show ?thesis by (simp add: emit_generator_release_def)
qed

lemma floor_step_fine:
  assumes r: "roomy fw w rank n"
  shows "fine w rank n \<sigma> (floor_step fw (emit fw w n) w e \<sigma>)"
proof (cases e)
  case (PulseDue s)
  then show ?thesis by (simp add: timer_due_fine [OF r])
next
  case (Releases p)
  then show ?thesis by (simp add: release_fine [OF r])
next
  case (Hurt npc)
  have "fine w rank n \<tau> (if tr_kind tr \<noteq> NpcDamage \<or> tr_npc tr \<noteq> Some npc then Some \<tau>
      else if sg_on \<tau> (tr_id tr) \<and> \<not> tr_repeats tr then Some \<tau>
      else emit fw w n (tr_id tr) True (set_on tr True \<tau>))" if "tr \<in> set (fl_triggers w)" for tr \<tau>
    using noted_fine(1) [OF source_fine [OF r trigger_movable [OF that]]] by simp
  then show ?thesis unfolding Hurt floor_step.simps report_npc_damage_def by (rule walk_fine)
next
  case (Killed npc)
  have "fine w rank n \<tau> (if tr_kind tr \<noteq> NpcLife \<or> tr_npc tr \<noteq> Some npc then Some \<tau>
      else emit fw w n (tr_id tr) False (set_on tr False \<tau>))" if "tr \<in> set (fl_triggers w)" for tr \<tau>
    using noted_fine(1) [OF source_fine [OF r trigger_movable [OF that]]] by simp
  then show ?thesis unfolding Killed floor_step.simps report_npc_death_def by (rule walk_fine)
next
  case (Timeline npc event)
  have "fine w rank n \<tau> (if tr_kind tr \<noteq> NpcEvent \<or> tr_npc tr \<noteq> Some npc \<or> tr_event tr \<noteq> Some event then Some \<tau>
      else emits (emit fw w n) [(tr_id tr, True), (tr_id tr, False)] \<tau>)" if "tr \<in> set (fl_triggers w)" for tr \<tau>
    using pulse_fine [OF r trigger_movable [OF that]] by simp
  then show ?thesis unfolding Timeline floor_step.simps fire_npc_timeline_event_def by (rule walk_fine)
next
  case (Tick tr)
  have "fine w rank n \<sigma> (tick_timer (emit fw w n) tr \<sigma>)" if "tr \<in> set (fl_triggers w)"
    using noted_fine(1) [OF source_fine [OF r trigger_movable [OF that]]] by (simp add: tick_timer_def Let_def)
  then show ?thesis by (simp add: Tick)
next
  case (HeroGone hero)
  have "fine w rank n \<tau> (let os = sg_occupants \<tau> (tr_id tr); left = removeAll hero os in
      if tr_kind tr \<noteq> Proximity \<or> hero \<notin> set os then Some \<tau>
      else apply_proximity_state (emit fw w n) tr (left \<noteq> []) (set_occupants tr left \<tau>))" if "tr \<in> set (fl_triggers w)" for tr \<tau>
    using noted_fine(2) [OF proximity_fine [OF r that]] by (simp add: Let_def)
  then show ?thesis unfolding HeroGone floor_step.simps release_proximity_actor_def by (rule walk_fine)
next
  case (HeroAt hero down present inside crossed)
  show ?thesis unfolding HeroAt floor_step.simps update_proximity_triggers_def
    by (rule walk_fine) (rule update_one_fine [OF r])
next
  case Settles
  have "keeps w \<sigma> (\<sigma>\<lparr>sg_suicides := [], sg_settled := Some True\<rparr>)" by (rule keeps_same) simp_all
  then show ?thesis by (simp add: Settles stays_def)
qed

lemma floor_run_fine:
  "roomy fw w rank n \<Longrightarrow> fine w rank n \<sigma> (floor_run fw (emit fw w n) w es \<sigma>)"
proof (induction es arbitrary: \<sigma>)
  case (Cons e es)
  show ?case unfolding floor_run.simps by (intro fine_bind floor_step_fine Cons.IH Cons.prems)
qed simp

section \<open>From the opening on\<close>

lemma rest_gate_keeps:
  "rest_gate w g (c, \<sigma>) = (c', \<tau>) \<Longrightarrow> sg_held \<tau> = sg_held \<sigma>
    \<and> (\<forall>y. y \<noteq> gt_id g \<or> gt_kind g = ResetGate \<longrightarrow> sg_values \<tau> y = sg_values \<sigma> y)"
  using evaluate_gate_parts [of w g \<sigma>] by (auto simp: rest_gate_def split: prod.splits if_splits)

lemma rest_fold_keeps:
  "fold (rest_gate w) gs (c, \<sigma>) = (c', \<tau>) \<Longrightarrow> sg_held \<tau> = sg_held \<sigma>
    \<and> (\<forall>y. (\<forall>g\<in>set gs. gt_id g = y \<longrightarrow> gt_kind g = ResetGate) \<longrightarrow> sg_values \<tau> y = sg_values \<sigma> y)"
proof (induction gs arbitrary: c \<sigma>)
  case (Cons g gs)
  obtain c1 \<sigma>1 where one: "rest_gate w g (c, \<sigma>) = (c1, \<sigma>1)" by fastforce
  with Cons.prems have "fold (rest_gate w) gs (c1, \<sigma>1) = (c', \<tau>)" by simp
  from Cons.IH [OF this] rest_gate_keeps [OF one] show ?case by (metis list.set_intros)
qed simp

lemma rest_loop_keeps:
  "sg_held (rest_loop n w \<sigma>) = sg_held \<sigma>
    \<and> (\<forall>y. (\<forall>g\<in>set (fl_gates w). gt_id g = y \<longrightarrow> gt_kind g = ResetGate) \<longrightarrow> sg_values (rest_loop n w \<sigma>) y = sg_values \<sigma> y)"
proof (induction n arbitrary: \<sigma>)
  case (Suc n)
  obtain c \<tau> where p: "rest_pass w \<sigma> = (c, \<tau>)" by fastforce
  from rest_fold_keeps [of w "fl_gates w" False \<sigma> c \<tau>] p Suc.IH [of \<tau>] show ?case
    by (cases c) (simp_all add: rest_pass_def)
qed simp

lemma fold_put_off: "s \<in> set ss \<Longrightarrow> sg_values (fold put_off ss \<sigma>) s = Some False"
proof (induction ss rule: rev_induct)
  case (snoc x ss)
  then show ?case by (auto simp: put_off_def)
qed simp

lemma opens_ok:
  assumes w: "wired fw w rank" and lay: "layered w lev" and g: "g \<in> set (fl_gates w)"
  shows "gate_ok w g (track_triggers w \<sigma>)"
proof -
  let ?start = "(opening_values w \<sigma>)\<lparr>sg_held := []\<rparr>"
  let ?m = "max 1 (length (fl_gates w) * 2)"
  have held: "sg_held (track_triggers w \<sigma>) = []" using rest_loop_keeps [of ?m w ?start] by (simp add: track_triggers_def)
  have "fixed w g (rest_loop ?m w ?start)"
    using rest_loop_fixes [OF lay, of 0 ?start ?m] g by (auto simp: rested_below_def)
  then have fx: "fixed w g (track_triggers w \<sigma>)" by (simp add: track_triggers_def)
  show ?thesis
  proof (cases "gt_kind g = ResetGate")
    case True
    have only: "\<forall>h\<in>set (fl_gates w). gt_id h = gt_id g \<longrightarrow> gt_kind h = ResetGate"
      using gate_id_inj [OF w _ g] True by blast
    have "sg_values ?start (gt_id g) = Some False"
      using fold_put_off [of "gt_id g" "map gt_id (fl_gates w)"] g by (simp add: opening_values_def)
    with rest_loop_keeps [of ?m w ?start] only have "sg_values (track_triggers w \<sigma>) (gt_id g) = Some False"
      by (simp add: track_triggers_def)
    with True show ?thesis by (simp add: gate_ok_def boolean_gate_def pulse_ok_def)
  next
    case False
    with fx held show ?thesis
      by (cases "gt_kind g") (simp_all add: gate_ok_def boolean_gate_def fixed_def coherent_def expected_def)
  qed
qed

text \<open>A NOT wired to itself: publishing it never returns.\<close>

lemma not_loop_diverges:
  assumes gates: "fl_gates w = [\<lparr>gt_id = ''n'', gt_kind = NotGate, gt_once = False, gt_threshold = None,
      gt_start_delay = None, gt_reset_time = None\<rparr>]"
    and wires: "fl_wires w = [(''n'', [''n''])]" and virtual: "fl_virtual w = []"
    and v: "sg_values \<sigma> ''n'' \<noteq> Some b"
  shows "emit fw w n ''n'' b \<sigma> = None"
  using v
proof (induction n arbitrary: b \<sigma>)
  case (Suc n)
  have "emit fw w n ''n'' (\<not> b) (\<sigma>\<lparr>sg_values := (sg_values \<sigma>)(''n'' \<mapsto> b)\<rparr>) = None" by (rule Suc.IH) simp
  with Suc.prems show ?case
    by (simp add: targets_def wires deliver_signal_def virtual gate_at_def gates gate_output_def evaluate_gate_def
        input_values_def incoming_def truth_def any_on_def)
qed simp

section \<open>Properties\<close>

text \<open>C22: Signals settle. On a floor whose wiring does not feed back, whatever heroes, monsters,
  generators and timers do, in any order, every publication returns; afterwards every AND, OR and
  NOT gate says what its inputs say or is held on by having been solved once, with no glitch left
  over from the order the targets were told in; a pulse that is on has a timer that ends it; no
  counter has lost a count, and nothing that was held has been let go.\<close>
theorem signals_settle:
  assumes "wired fw w rank" and "\<forall>x. rank x < n" and "layered w lev"
  shows "\<exists>\<tau>. floor_run fw (emit fw w n) w es (track_triggers w \<sigma>) = Some \<tau>
    \<and> (\<forall>g\<in>set (fl_gates w). gate_ok w g \<tau>)
    \<and> (\<forall>x. count_of (track_triggers w \<sigma>) x \<le> count_of \<tau> x)
    \<and> (\<forall>\<upsilon> es'. floor_run fw (emit fw w n) w es' \<tau> = Some \<upsilon> \<longrightarrow> set (sg_held \<tau>) \<subseteq> set (sg_held \<upsilon>))"
proof -
  have r: "roomy fw w rank n" using assms by (simp add: roomy_def)
  from floor_run_fine [OF r] obtain \<tau> where t: "floor_run fw (emit fw w n) w es (track_triggers w \<sigma>) = Some \<tau>"
    "keeps w (track_triggers w \<sigma>) \<tau>" by (rule fineE)
  moreover have "\<forall>g\<in>set (fl_gates w). gate_ok w g \<tau>"
    using t(2) opens_ok [OF assms(1,3)] by (simp add: keeps_but_def)
  moreover have "set (sg_held \<tau>) \<subseteq> set (sg_held \<upsilon>)" if "floor_run fw (emit fw w n) w es' \<tau> = Some \<upsilon>" for \<upsilon> es'
    using floor_run_fine [OF r, of \<tau> es'] that by (auto simp: fine_def keeps_but_def)
  ultimately show ?thesis by (auto simp: keeps_but_def)
qed

definition quiet_world :: floor_world where
  "quiet_world = \<lparr>fw_alive = (\<lambda>_ _. True), fw_react = (\<lambda>_ _. [])\<rparr>"

definition demo_rank :: "place \<Rightarrow> nat" where
  "demo_rank s = (if s = ''life'' then 2 else if s = ''not'' then 1 else 0)"

lemma demo_floor_wired: "wired quiet_world demo_floor demo_rank"
  by (auto simp: wired_def quiet_world_def demo_floor_def demo_rank_def targets_def gate_at_def movable_def split: if_splits)

lemma signals_settle_witness:
  "\<exists>\<tau>. floor_run quiet_world (emit quiet_world demo_floor 3) demo_floor [Killed ''boss'', Settles] (track_triggers demo_floor blank_signals) = Some \<tau>
    \<and> list_all (\<lambda>g. gate_ok demo_floor g \<tau>) (fl_gates demo_floor)"
proof -
  have "\<forall>x. demo_rank x < 3" by (simp add: demo_rank_def)
  moreover have "layered demo_floor (\<lambda>s. if s = ''and'' then 1 else 0)"
    by (simp add: layered_def demo_floor_def incoming_def)
  ultimately show ?thesis unfolding list_all_iff using signals_settle [OF demo_floor_wired, of 3] by blast
qed

end
