(* ===== verification/Transitions.thy ===== *)
theory Transitions
  imports Prelude
begin

text \<open>
  A connection's way into and out of dungeons (\<open>src/socket/session-transitions.js\<close>): entering,
  walking through a door, exiting and going away, one transition at a time, and the cancelling of
  the one under way by an exit. Each \<open>await\<close> of the code is a place a transition rests at until
  what it waits for has an outcome, so events may come between any two of them. Admission, the
  match executor and the saves behind the awaits are those outcomes.
\<close>

section \<open>A transition\<close>

datatype transition_kind = Entry | Door | Exit

text \<open>Where a transition is waiting; a code kept is the refusal that is to be answered.\<close>

datatype waiting = Checking | DoorLeaving | Admitting | DoorCleanup nat | Joining | LeavingCancelled
  | LeavingFailed nat | SavingRewards | ExitLeaving | ExitWaiting

record transition =
  tn_kind :: transition_kind
  tn_waiting :: waiting
  tn_cancelled :: bool
  tn_held :: "nat option"
  tn_accepted :: bool

datatype said = Begun transition_kind | Accepted | Refused nat | ExitComplete | ConnectionClosed

text \<open>
  What the transitions of a connection share: what was answered, in order, and where the
  reservations went. \<open>ex_leaked\<close> has those that were neither used nor given back.
\<close>

record exchange =
  ex_said :: "said list"
  ex_granted :: "nat list"
  ex_committed :: "nat list"
  ex_aborted :: "nat list"
  ex_leaked :: "nat list"

definition say :: "said \<Rightarrow> exchange \<Rightarrow> exchange" where
  "say s x = x\<lparr>ex_said := ex_said x @ [s]\<rparr>"

fun give_back :: "nat option \<Rightarrow> exchange \<Rightarrow> exchange" where
  "give_back None x = x"
| "give_back (Some r) x = x\<lparr>ex_aborted := r # ex_aborted x\<rparr>"

fun use_up :: "nat option \<Rightarrow> exchange \<Rightarrow> exchange" where
  "use_up None x = x"
| "use_up (Some r) x = x\<lparr>ex_committed := r # ex_committed x\<rparr>"

fun leak :: "nat option \<Rightarrow> exchange \<Rightarrow> exchange" where
  "leak None x = x"
| "leak (Some r) x = x\<lparr>ex_leaked := r # ex_leaked x\<rparr>"

definition grant :: "nat option \<Rightarrow> exchange \<Rightarrow> exchange" where
  "grant r x = (case r of None \<Rightarrow> x | Some r \<Rightarrow> x\<lparr>ex_granted := r # ex_granted x\<rparr>)"

definition internal_error :: nat where "internal_error = 105"
definition not_enterable :: nat where "not_enterable = 503"

text \<open>What an awaited call came to; a failure carries the code it is refused with.\<close>

datatype awaited = Admits "nat option" | AdmitsNobody nat | AdmissionFails nat | Checks bool | PlayerReady | Joined
  | JoinFails nat | Left | LeaveFails | RewardsSaved

text \<open>
  What is awaited goes on: the transition at its next \<open>await\<close>, or \<open>None\<close> when it is over. An outcome
  of something else than what is awaited does nothing. First the door, up to its admission.
\<close>

fun door_checked :: "awaited \<Rightarrow> transition \<Rightarrow> exchange \<Rightarrow> transition option \<times> exchange" where
  "door_checked (Checks fine) t x = (if tn_cancelled t \<or> \<not> fine then None else Some (t\<lparr>tn_waiting := DoorLeaving\<rparr>), x)"
| "door_checked _ t x = (Some t, x)"

fun door_left :: "awaited \<Rightarrow> transition \<Rightarrow> exchange \<Rightarrow> transition option \<times> exchange" where
  "door_left Left t x = (if tn_cancelled t then None else Some (t\<lparr>tn_waiting := Admitting\<rparr>), x)"
| "door_left LeaveFails t x = (None, x)"
| "door_left _ t x = (Some t, x)"

text \<open>Admission, which entry and door have in common but for what a failure leads to.\<close>

fun admission :: "awaited \<Rightarrow> transition \<Rightarrow> exchange \<Rightarrow> transition option \<times> exchange" where
  "admission (Admits r) t x =
     (if tn_cancelled t then (None, give_back r (grant r x))
      else (Some (t\<lparr>tn_waiting := Joining, tn_held := r\<rparr>), grant r x))"
| "admission (AdmitsNobody code) t x = (None, if tn_cancelled t then x else say (Refused code) x)"
| "admission (AdmissionFails code) t x =
     (if tn_cancelled t then (None, x)
      else if tn_kind t = Door then (Some (t\<lparr>tn_waiting := DoorCleanup code\<rparr>), x)
      else (None, say (Refused code) x))"
| "admission _ t x = (Some t, x)"

fun door_cleaned_up :: "nat \<Rightarrow> awaited \<Rightarrow> transition \<Rightarrow> exchange \<Rightarrow> transition option \<times> exchange" where
  "door_cleaned_up code Left t x = (None, say (Refused code) x)"
| "door_cleaned_up code LeaveFails t x = (None, say (Refused code) x)"
| "door_cleaned_up code _ t x = (Some t, x)"

text \<open>Loading: the join, during which the player may come ready, and the two teardowns it may need.\<close>

fun joining :: "awaited \<Rightarrow> transition \<Rightarrow> exchange \<Rightarrow> transition option \<times> exchange" where
  "joining PlayerReady t x =
     (if tn_accepted t \<or> tn_cancelled t then (Some t, x) else (Some (t\<lparr>tn_accepted := True\<rparr>), say Accepted x))"
| "joining Joined t x =
     (if tn_cancelled t then (Some (t\<lparr>tn_waiting := LeavingCancelled\<rparr>), x)
      else if \<not> tn_accepted t then (Some (t\<lparr>tn_waiting := LeavingFailed internal_error\<rparr>), x)
      else (None, use_up (tn_held t) x))"
| "joining (JoinFails code) t x =
     (if tn_cancelled t then (None, give_back (tn_held t) x)
      else (Some (t\<lparr>tn_waiting := LeavingFailed code\<rparr>), x))"
| "joining _ t x = (Some t, x)"

fun left_cancelled :: "awaited \<Rightarrow> transition \<Rightarrow> exchange \<Rightarrow> transition option \<times> exchange" where
  "left_cancelled Left t x = (None, give_back (tn_held t) x)"
| "left_cancelled LeaveFails t x = (None, give_back (tn_held t) x)"
| "left_cancelled _ t x = (Some t, x)"

fun left_failed :: "nat \<Rightarrow> awaited \<Rightarrow> transition \<Rightarrow> exchange \<Rightarrow> transition option \<times> exchange" where
  "left_failed code Left t x = (None, say (Refused code) (give_back (tn_held t) x))"
| "left_failed code LeaveFails t x = (None, leak (tn_held t) x)"
| "left_failed code _ t x = (Some t, x)"

text \<open>The exit: the reward saves, whatever they come to, then the teardown, then the one it cancelled.\<close>

fun rewards_saved :: "awaited \<Rightarrow> transition \<Rightarrow> exchange \<Rightarrow> transition option \<times> exchange" where
  "rewards_saved RewardsSaved t x = (Some (t\<lparr>tn_waiting := ExitLeaving\<rparr>), x)"
| "rewards_saved _ t x = (Some t, x)"

fun exit_left :: "awaited \<Rightarrow> transition \<Rightarrow> exchange \<Rightarrow> transition option \<times> exchange" where
  "exit_left Left t x = (Some (t\<lparr>tn_waiting := ExitWaiting\<rparr>), say ExitComplete x)"
| "exit_left LeaveFails t x = (Some (t\<lparr>tn_waiting := ExitWaiting\<rparr>), say ConnectionClosed x)"
| "exit_left _ t x = (Some t, x)"

definition go_on :: "awaited \<Rightarrow> transition \<Rightarrow> exchange \<Rightarrow> transition option \<times> exchange" where
  "go_on what t x =
     (case tn_waiting t of
        Checking \<Rightarrow> door_checked what t x
      | DoorLeaving \<Rightarrow> door_left what t x
      | Admitting \<Rightarrow> admission what t x
      | DoorCleanup code \<Rightarrow> door_cleaned_up code what t x
      | Joining \<Rightarrow> joining what t x
      | LeavingCancelled \<Rightarrow> left_cancelled what t x
      | LeavingFailed code \<Rightarrow> left_failed code what t x
      | SavingRewards \<Rightarrow> rewards_saved what t x
      | ExitLeaving \<Rightarrow> exit_left what t x
      | ExitWaiting \<Rightarrow> (Some t, x))"

section \<open>A connection\<close>

text \<open>
  \<open>cs_current\<close> is the transition under way; \<open>cs_ghost\<close> the one an exit cancelled, which is still
  finishing and which the exit waits for.
\<close>

record connection =
  cs_current :: "transition option"
  cs_ghost :: "transition option"
  cs_exchange :: exchange

definition fresh :: connection where
  "fresh = \<lparr>cs_current = None, cs_ghost = None,
     cs_exchange = \<lparr>ex_said = [], ex_granted = [], ex_committed = [], ex_aborted = [], ex_leaked = []\<rparr>\<rparr>"

definition begin_transition :: "transition_kind \<Rightarrow> waiting \<Rightarrow> connection \<Rightarrow> connection" where
  "begin_transition k p c =
     c\<lparr>cs_current := Some \<lparr>tn_kind = k, tn_waiting = p, tn_cancelled = False, tn_held = None, tn_accepted = False\<rparr>,
       cs_exchange := say (Begun k) (cs_exchange c)\<rparr>"

text \<open>\<open>inside\<close>: in a match as far as this thread can tell; \<open>unsaved\<close>: storage is refusing saves.\<close>

definition request_entry :: "bool \<Rightarrow> bool \<Rightarrow> connection \<Rightarrow> connection" where
  "request_entry inside unsaved c =
     (if cs_current c \<noteq> None \<or> inside \<or> unsaved
      then c\<lparr>cs_exchange := say (Refused not_enterable) (cs_exchange c)\<rparr>
      else begin_transition Entry Admitting c)"

definition walk_through :: "bool \<Rightarrow> connection \<Rightarrow> connection" where
  "walk_through somewhere c =
     (if \<not> somewhere \<or> cs_current c \<noteq> None then c else begin_transition Door Checking c)"

definition cancel :: "transition option \<Rightarrow> transition option" where
  "cancel t = map_option (\<lambda>t. t\<lparr>tn_cancelled := True\<rparr>) t"

definition request_exit :: "connection \<Rightarrow> connection" where
  "request_exit c =
     (if map_option tn_kind (cs_current c) = Some Exit then c
      else begin_transition Exit SavingRewards (c\<lparr>cs_ghost := cancel (cs_current c)\<rparr>))"

definition disconnect :: "connection \<Rightarrow> connection" where
  "disconnect c = c\<lparr>cs_current := cancel (cs_current c)\<rparr>"

definition resume_current :: "awaited \<Rightarrow> connection \<Rightarrow> connection" where
  "resume_current what c =
     (case cs_current c of
        None \<Rightarrow> c
      | Some t \<Rightarrow>
          if tn_waiting t = ExitWaiting then (if cs_ghost c = None then c\<lparr>cs_current := None\<rparr> else c)
          else (case go_on what t (cs_exchange c) of (t', x) \<Rightarrow> c\<lparr>cs_current := t', cs_exchange := x\<rparr>))"

definition resume_ghost :: "awaited \<Rightarrow> connection \<Rightarrow> connection" where
  "resume_ghost what c =
     (case cs_ghost c of
        None \<Rightarrow> c
      | Some t \<Rightarrow> (case go_on what t (cs_exchange c) of (t', x) \<Rightarrow> c\<lparr>cs_ghost := t', cs_exchange := x\<rparr>))"

datatype transition_event = RequestEntry bool bool | RequestExit | WalkThrough bool | Disconnect | Current awaited | Ghost awaited

fun transition_step :: "transition_event \<Rightarrow> connection \<Rightarrow> connection" where
  "transition_step (RequestEntry inside unsaved) c = request_entry inside unsaved c"
| "transition_step RequestExit c = request_exit c"
| "transition_step (WalkThrough somewhere) c = walk_through somewhere c"
| "transition_step Disconnect c = disconnect c"
| "transition_step (Current what) c = resume_current what c"
| "transition_step (Ghost what) c = resume_ghost what c"

section \<open>What is said, and in which order\<close>

text \<open>
  Read from the left: an acceptance answers an entry or a door that has begun, once, and not after
  an exit has begun. The state of the reading is whether an acceptance may come.
\<close>

fun read_said :: "said \<Rightarrow> bool \<times> bool \<Rightarrow> bool \<times> bool" where
  "read_said (Begun k) (may, legal) = (k \<noteq> Exit, legal)"
| "read_said Accepted (may, legal) = (False, legal \<and> may)"
| "read_said _ (may, legal) = (may, legal)"

definition reading :: "said list \<Rightarrow> bool \<times> bool" where
  "reading ss = fold read_said ss (False, True)"

lemma reading_snoc [simp]: "reading (ss @ [s]) = read_said s (reading ss)"
  by (simp add: reading_def)

definition may_accept :: "exchange \<Rightarrow> bool" where "may_accept x = fst (reading (ex_said x))"
definition legal :: "exchange \<Rightarrow> bool" where "legal x = snd (reading (ex_said x))"

definition reservations :: "transition option \<Rightarrow> nat multiset" where
  "reservations t = (case t of None \<Rightarrow> {#} | Some t \<Rightarrow> (case tn_held t of None \<Rightarrow> {#} | Some r \<Rightarrow> {#r#}))"

definition settled :: "exchange \<Rightarrow> nat multiset" where
  "settled x = mset (ex_committed x) + mset (ex_aborted x) + mset (ex_leaked x)"

definition holding :: "waiting \<Rightarrow> bool" where
  "holding p = (case p of Joining \<Rightarrow> True | LeavingCancelled \<Rightarrow> True | LeavingFailed _ \<Rightarrow> True | _ \<Rightarrow> False)"

definition exit_point :: "waiting \<Rightarrow> bool" where
  "exit_point p \<longleftrightarrow> p = SavingRewards \<or> p = ExitLeaving \<or> p = ExitWaiting"

definition transition_ok :: "transition \<Rightarrow> bool" where
  "transition_ok t \<longleftrightarrow> (tn_held t \<noteq> None \<longrightarrow> holding (tn_waiting t)) \<and> (tn_kind t = Exit \<longleftrightarrow> exit_point (tn_waiting t))
     \<and> (tn_waiting t = LeavingCancelled \<longrightarrow> tn_cancelled t) \<and> (tn_accepted t \<longrightarrow> holding (tn_waiting t))"

definition connection_ok :: "connection \<Rightarrow> bool" where
  "connection_ok c \<longleftrightarrow> legal (cs_exchange c)
     \<and> mset (ex_granted (cs_exchange c)) = settled (cs_exchange c) + reservations (cs_current c) + reservations (cs_ghost c)
     \<and> (case cs_current c of None \<Rightarrow> cs_ghost c = None
        | Some t \<Rightarrow> transition_ok t
            \<and> (tn_kind t \<noteq> Exit \<and> \<not> tn_accepted t \<and> \<not> tn_cancelled t \<longrightarrow> may_accept (cs_exchange c))
            \<and> (cs_ghost c \<noteq> None \<longrightarrow> tn_kind t = Exit))
     \<and> (case cs_ghost c of None \<Rightarrow> True | Some g \<Rightarrow> transition_ok g \<and> tn_cancelled g \<and> tn_kind g \<noteq> Exit)"


section \<open>Every step keeps the order and the accounts\<close>

lemmas exchange_defs = say_def grant_def settled_def may_accept_def legal_def
lemmas giving_back = give_back.simps use_up.simps leak.simps

text \<open>
  One outcome, in any state of the exchange: no reservation appears or vanishes, the transition
  stays well formed, of its kind and as cancelled as it was.
\<close>

lemma go_on_accounts:
  assumes "go_on what t x = (t', x')" and "transition_ok t"
  shows "mset (ex_granted x') + settled x + reservations (Some t) = mset (ex_granted x) + settled x' + reservations t'"
  using assms
  by (cases "tn_held t"; cases "tn_waiting t"; cases what)
    (auto simp: go_on_def exchange_defs reservations_def transition_ok_def holding_def
      split: if_splits option.splits)

lemma go_on_keeps:
  assumes "go_on what t x = (Some t', x')" and "transition_ok t"
  shows "transition_ok t'" and "tn_kind t' = tn_kind t" and "tn_cancelled t' = tn_cancelled t"
    and "tn_accepted t \<longrightarrow> tn_accepted t'"
  using assms
  by (cases "tn_waiting t"; cases what;
      auto simp: go_on_def transition_ok_def holding_def exit_point_def split: if_splits option.splits)+

lemma held_changes_nothing_said [simp]:
  "ex_said (give_back r x) = ex_said x" "ex_said (use_up r x) = ex_said x" "ex_said (leak r x) = ex_said x"
  "ex_said (grant r x) = ex_said x" "ex_said (say s x) = ex_said x @ [s]"
  by (cases r; simp add: say_def grant_def)+

lemma read_said_fst_snd:
  "fst (read_said (Refused n) r) = fst r" "snd (read_said (Refused n) r) = snd r"
  "fst (read_said ExitComplete r) = fst r" "snd (read_said ExitComplete r) = snd r"
  "fst (read_said ConnectionClosed r) = fst r" "snd (read_said ConnectionClosed r) = snd r"
  "fst (read_said (Begun k) r) = (k \<noteq> Exit)" "snd (read_said (Begun k) r) = snd r"
  "fst (read_said Accepted r) = False" "snd (read_said Accepted r) = (snd r \<and> fst r)"
  by (cases r; simp)+

text \<open>A cancelled transition is never accepted; another is accepted at most once, while it may be.\<close>

lemma go_on_cancelled:
  assumes "go_on what t x = (t', x')" and "transition_ok t" and "tn_cancelled t \<or> tn_accepted t \<or> tn_kind t = Exit"
  shows "legal x' = legal x" and "may_accept x' = may_accept x"
  using assms
  by (cases "tn_waiting t"; cases what;
      auto simp: go_on_def may_accept_def legal_def read_said_fst_snd transition_ok_def exit_point_def holding_def
        split: if_splits option.splits)+

lemma go_on_speaks:
  assumes "go_on what t x = (t', x')" and "transition_ok t" and "may_accept x"
  shows "legal x' = legal x" and "\<forall>u. t' = Some u \<and> \<not> tn_accepted u \<longrightarrow> may_accept x'"
  using assms
  by (cases "tn_waiting t"; cases what;
      auto simp: go_on_def may_accept_def legal_def read_said_fst_snd split: if_splits option.splits)+


lemma exits_go_on:
  assumes "go_on what t x = (t', x')" and "transition_ok t" and "tn_kind t = Exit"
  shows "t' \<noteq> None"
  using assms by (cases "tn_waiting t"; cases what; auto simp: go_on_def transition_ok_def exit_point_def)

text \<open>The current transition, one outcome on.\<close>

lemma resume_current_ok:
  assumes ok: "connection_ok c"
  shows "connection_ok (resume_current what c)"
proof (cases "cs_current c")
  case None
  then show ?thesis using ok by (simp add: resume_current_def)
next
  case (Some t)
  have t: "transition_ok t" using ok Some by (simp add: connection_ok_def)
  show ?thesis
  proof (cases "tn_waiting t = ExitWaiting")
    case True
    then show ?thesis using ok Some t
      by (auto simp: resume_current_def connection_ok_def reservations_def transition_ok_def exit_point_def holding_def
          split: option.splits)
  next
    case False
    obtain t' x' where on: "go_on what t (cs_exchange c) = (t', x')" by (cases "go_on what t (cs_exchange c)") auto
    have res: "resume_current what c = c\<lparr>cs_current := t', cs_exchange := x'\<rparr>"
      using Some False on by (simp add: resume_current_def)
    have acc: "mset (ex_granted x') + settled (cs_exchange c) + reservations (Some t)
        = mset (ex_granted (cs_exchange c)) + settled x' + reservations t'"
      by (rule go_on_accounts [OF on t])
    then have acc': "mset (ex_granted x') = settled x' + reservations t' + reservations (cs_ghost c)"
      using ok Some by (auto simp: connection_ok_def ac_simps)
    have legal: "legal x'"
      using go_on_cancelled(1) [OF on t] go_on_speaks(1) [OF on t] ok Some by (auto simp: connection_ok_def)
    show ?thesis
    proof (cases t')
      case None
      then have "cs_ghost c = None" using exits_go_on [OF on t] ok Some by (auto simp: connection_ok_def)
      then show ?thesis using None acc' legal by (simp add: res connection_ok_def)
    next
      case (Some u)
      note u = go_on_keeps [OF on [unfolded Some] t]
      have "tn_kind u \<noteq> Exit \<and> \<not> tn_accepted u \<and> \<not> tn_cancelled u \<longrightarrow> may_accept x'"
        using go_on_speaks(2) [OF on t] u ok \<open>cs_current c = Some t\<close> Some by (auto simp: connection_ok_def)
      then show ?thesis using Some acc' legal u ok \<open>cs_current c = Some t\<close> by (auto simp: res connection_ok_def)
    qed
  qed
qed

text \<open>The cancelled one.\<close>

lemma resume_ghost_ok:
  assumes ok: "connection_ok c"
  shows "connection_ok (resume_ghost what c)"
proof (cases "cs_ghost c")
  case None
  then show ?thesis using ok by (simp add: resume_ghost_def)
next
  case (Some g)
  obtain g' x' where on: "go_on what g (cs_exchange c) = (g', x')" by (cases "go_on what g (cs_exchange c)") auto
  obtain t where t: "cs_current c = Some t" "tn_kind t = Exit" using ok Some by (auto simp: connection_ok_def split: option.splits)
  have g: "transition_ok g" "tn_cancelled g" "tn_kind g \<noteq> Exit" using ok Some by (auto simp: connection_ok_def)
  have "mset (ex_granted x') = settled x' + reservations (cs_current c) + reservations g'"
    using go_on_accounts [OF on g(1)] ok Some by (auto simp: connection_ok_def ac_simps)
  moreover have "legal x'" using go_on_cancelled(1) [OF on g(1)] g ok by (simp add: connection_ok_def)
  moreover have "case g' of None \<Rightarrow> True | Some u \<Rightarrow> transition_ok u \<and> tn_cancelled u \<and> tn_kind u \<noteq> Exit"
  proof (cases g')
    case (Some u)
    then show ?thesis using go_on_keeps [OF on [unfolded Some] g(1)] g by simp
  qed simp
  moreover have "transition_ok t" using ok t(1) by (simp add: connection_ok_def)
  moreover have "resume_ghost what c = c\<lparr>cs_ghost := g', cs_exchange := x'\<rparr>" using Some on by (simp add: resume_ghost_def)
  ultimately show ?thesis using t by (simp add: connection_ok_def)
qed

lemma saying [simp]:
  "settled (say s x) = settled x" "ex_granted (say s x) = ex_granted x"
  "legal (say (Refused n) x) = legal x" "may_accept (say (Refused n) x) = may_accept x"
  "legal (say (Begun k) x) = legal x" "may_accept (say (Begun k) x) = (k \<noteq> Exit)"
  by (simp_all add: legal_def may_accept_def read_said_fst_snd settled_def) (simp_all add: say_def)

lemma begin_ok:
  assumes "legal (cs_exchange c)"
    and "mset (ex_granted (cs_exchange c)) = settled (cs_exchange c) + reservations (cs_ghost c)"
    and ghost: "case cs_ghost c of None \<Rightarrow> True | Some g \<Rightarrow> transition_ok g \<and> tn_cancelled g \<and> tn_kind g \<noteq> Exit"
    and "cs_ghost c \<noteq> None \<longrightarrow> k = Exit" and "k = Exit \<longleftrightarrow> exit_point p" and "p \<noteq> LeavingCancelled"
  shows "connection_ok (begin_transition k p c)"
proof (cases "cs_ghost c")
  case None
  then show ?thesis using assms by (simp add: begin_transition_def connection_ok_def transition_ok_def reservations_def)
next
  case (Some g)
  then show ?thesis using assms
    by (auto simp: begin_transition_def connection_ok_def transition_ok_def reservations_def)
qed

lemma at_rest_ok:
  assumes "connection_ok c" and "cs_current c = None"
  shows "legal (cs_exchange c)" and "cs_ghost c = None"
    and "mset (ex_granted (cs_exchange c)) = settled (cs_exchange c) + reservations (cs_ghost c)"
  using assms by (simp_all add: connection_ok_def reservations_def)

lemma request_entry_ok:
  assumes "connection_ok c"
  shows "connection_ok (request_entry inside unsaved c)"
proof (cases "cs_current c \<noteq> None \<or> inside \<or> unsaved")
  case True
  then show ?thesis using assms
    by (cases "cs_current c"; cases "cs_ghost c"; simp add: request_entry_def connection_ok_def)
next
  case False
  then have "cs_current c = None" by simp
  from at_rest_ok [OF assms this] False show ?thesis
    by (simp add: request_entry_def begin_ok exit_point_def)
qed

lemma walk_through_ok:
  assumes "connection_ok c"
  shows "connection_ok (walk_through somewhere c)"
proof (cases "cs_current c")
  case None
  from at_rest_ok [OF assms this] None assms show ?thesis by (simp add: walk_through_def begin_ok exit_point_def)
qed (simp add: walk_through_def assms)

lemma cancel_ok [simp]:
  "cancel None = None" "cancel (Some t) = Some (t\<lparr>tn_cancelled := True\<rparr>)"
  by (simp_all add: cancel_def)

lemma request_exit_ok: "connection_ok c \<Longrightarrow> connection_ok (request_exit c)"
proof -
  assume ok: "connection_ok c"
  show ?thesis
  proof (cases "\<exists>t. cs_current c = Some t \<and> tn_kind t = Exit")
    case True
    then show ?thesis using ok by (auto simp: request_exit_def)
  next
    case False
    have "cs_ghost c = None" using ok False by (auto simp: connection_ok_def split: option.splits)
    have res: "request_exit c = begin_transition Exit SavingRewards (c\<lparr>cs_ghost := cancel (cs_current c)\<rparr>)"
      using False by (auto simp: request_exit_def)
    from \<open>cs_ghost c = None\<close> show ?thesis unfolding res using ok False
      by (intro begin_ok) (auto simp: connection_ok_def reservations_def transition_ok_def exit_point_def split: option.splits)
  qed
qed

lemma disconnect_ok: "connection_ok c \<Longrightarrow> connection_ok (disconnect c)"
  by (cases "cs_current c") (auto simp: disconnect_def connection_ok_def reservations_def transition_ok_def)

lemma step_ok: "connection_ok c \<Longrightarrow> connection_ok (transition_step e c)"
  by (cases e)
    (simp_all add: request_entry_ok request_exit_ok walk_through_ok disconnect_ok resume_current_ok resume_ghost_ok)

lemma fresh_ok: "connection_ok fresh"
  by (simp add: fresh_def connection_ok_def legal_def reading_def settled_def reservations_def)

lemma steps_ok: "connection_ok c \<Longrightarrow> connection_ok (fold transition_step es c)"
  by (induction es arbitrary: c) (simp_all add: step_ok)

section \<open>What a connection says, and where its places go\<close>

definition teardowns_thrown :: "transition_event list \<Rightarrow> nat" where
  "teardowns_thrown es = length (filter (\<lambda>e. e = Current LeaveFails \<or> e = Ghost LeaveFails) es)"

lemma leak_length: "length (ex_leaked (leak r x)) \<le> Suc (length (ex_leaked x))"
  by (cases r) simp_all

lemma only_leaking_leaks [simp]:
  "ex_leaked (give_back r x) = ex_leaked x" "ex_leaked (use_up r x) = ex_leaked x" "ex_leaked (grant r x) = ex_leaked x"
  "ex_leaked (say s x) = ex_leaked x"
  by (cases r; simp add: say_def grant_def)+

lemma go_on_leaks:
  assumes "go_on what t x = (t', x')"
  shows "length (ex_leaked x') \<le> length (ex_leaked x) + (if what = LeaveFails then 1 else 0)"
  using assms leak_length [of "tn_held t" x]
  by (cases "tn_waiting t"; cases what; auto simp: go_on_def split: if_splits)

lemma step_leaks:
  "length (ex_leaked (cs_exchange (transition_step e c))) \<le> length (ex_leaked (cs_exchange c)) + teardowns_thrown [e]"
  using go_on_leaks
  by (cases e)
    (fastforce simp: request_entry_def request_exit_def walk_through_def begin_transition_def disconnect_def
      resume_current_def resume_ghost_def teardowns_thrown_def split: option.splits if_splits prod.splits)+

lemma steps_leak:
  "length (ex_leaked (cs_exchange (fold transition_step es c))) \<le> length (ex_leaked (cs_exchange c)) + teardowns_thrown es"
proof (induction es arbitrary: c)
  case Nil
  then show ?case by (simp add: teardowns_thrown_def)
next
  case (Cons e es)
  have "teardowns_thrown (e # es) = teardowns_thrown [e] + teardowns_thrown es" by (simp add: teardowns_thrown_def)
  then show ?case using Cons [of "transition_step e c"] step_leaks [of e c] by simp
qed

text \<open>C25: Whatever requests, cancellings and outcomes reach a connection, in whatever order, no acceptance
  is ever sent but to an entry or a door that began after the last exit did, and one acceptance to
  each: an entry cancelled by an exit is not accepted behind ExitComplete.
\<close>

theorem accepted_in_order:
  "snd (reading (ex_said (cs_exchange (fold transition_step es fresh))))"
  using steps_ok [OF fresh_ok, of es] by (simp add: connection_ok_def legal_def)

text \<open>C26: Every reservation a connection was ever granted is, at every moment, used, given back, held by the
  transition under way or by the cancelled one, or lost; and no more are lost than there were
  teardowns that threw.
\<close>

theorem reservations_accounted:
  "mset (ex_granted (cs_exchange (fold transition_step es fresh)))
     = mset (ex_committed (cs_exchange (fold transition_step es fresh))) + mset (ex_aborted (cs_exchange (fold transition_step es fresh)))
       + mset (ex_leaked (cs_exchange (fold transition_step es fresh)))
       + reservations (cs_current (fold transition_step es fresh)) + reservations (cs_ghost (fold transition_step es fresh))
   \<and> length (ex_leaked (cs_exchange (fold transition_step es fresh))) \<le> teardowns_thrown es"
  using steps_ok [OF fresh_ok, of es] steps_leak [of es fresh] by (simp add: connection_ok_def settled_def fresh_def)

section \<open>Where the code departs from its description\<close>

text \<open>A teardown that throws after a failed load keeps the place, and the client is answered nothing.\<close>

lemma failed_teardown_keeps_the_place:
  "cs_exchange (fold transition_step [RequestEntry False False, Current (Admits (Some 7)), Current (JoinFails 502), Current LeaveFails]
     fresh) = \<lparr>ex_said = [Begun Entry], ex_granted = [7], ex_committed = [], ex_aborted = [], ex_leaked = [7]\<rparr>"
  by (simp add: fresh_def request_entry_def begin_transition_def resume_current_def go_on_def say_def grant_def)

text \<open>An entry whose failed load is being torn down when an exit cancels it still answers, after ExitComplete.\<close>

lemma cancelled_yet_answers:
  "ex_said (cs_exchange (fold transition_step [RequestEntry False False, Current (Admits None), Current (JoinFails 502), RequestExit,
     Current RewardsSaved, Current Left, Ghost Left] fresh)) = [Begun Entry, Begun Exit, ExitComplete, Refused 502]"
  by (simp add: fresh_def request_entry_def request_exit_def begin_transition_def resume_current_def resume_ghost_def
      go_on_def say_def grant_def)

end
