(* ===== verification/FloorState.thy ===== *)
theory FloorState
  imports Packet "HOL-Library.AList"
begin

text \<open>
  How a floor ends and how a run does (\<open>src/socket/floorstate.js\<close>, with the exit of
  \<open>src/socket/floor-exit.js\<close> and the report of \<open>src/socket/summary.js\<close>): the defeat countdown, the
  clearing of a floor, its completion, the victory and its delay, and the report that follows.
  Timers are pending entries of the state, and their firing is an event like any other, so a timer
  may come late. Where an enemy is placed and whether a hero stands in an exit is decided elsewhere
  and is what an event says. What a mode's hooks answer about a run is part of the run's state.
\<close>

section \<open>What the client is told\<close>

definition client_object_update_field :: int where "client_object_update_field = 124"
definition flid_dungeon_ending :: int where "flid_dungeon_ending = 216"
definition flid_floor_failing :: int where "flid_floor_failing = 217"
definition flid_floor_show_text :: int where "flid_floor_show_text = 201"
definition flid_floor_play_sound :: int where "flid_floor_play_sound = 202"

definition field_update :: "int \<Rightarrow> int \<Rightarrow> Packet.field list \<Rightarrow> write_error + byte list" where
  "field_update doid flid values =
     (case new_writer (Some client_object_update_field) of Inl e \<Rightarrow> Inl e | Inr w \<Rightarrow>
        case put_fields (U32 doid # U16 flid # values) w of Inl e \<Rightarrow> Inl e | Inr w' \<Rightarrow> frame_of w')"

text \<open>\<open>delay_ms\<close> is \<open>dungeonSummaryDelayMs\<close>; it is sent in whole seconds, halves up.\<close>

definition build_dungeon_ending :: "int \<Rightarrow> int \<Rightarrow> bool \<Rightarrow> write_error + byte list" where
  "build_dungeon_ending delay_ms area victory =
     field_update area flid_dungeon_ending [U16 ((delay_ms + 500) div 1000), U8 (if victory then 1 else 0)]"

definition build_floor_failing :: "int \<Rightarrow> int \<Rightarrow> write_error + byte list" where
  "build_floor_failing area seconds = field_update area flid_floor_failing [U16 seconds]"

definition build_show_text :: "int \<Rightarrow> byte list \<Rightarrow> write_error + byte list" where
  "build_show_text floor_doid text_key = field_update floor_doid flid_floor_show_text [Utf text_key]"

definition build_play_sound :: "int \<Rightarrow> byte list \<Rightarrow> write_error + byte list" where
  "build_play_sound floor_doid sound_key = field_update floor_doid flid_floor_play_sound [Utf sound_key]"

section \<open>The run's state\<close>

record actor =
  ac_dead :: bool
  ac_holds :: bool

text \<open>What goes out of the floor's rules, in order; the numbers are what is on the wire.\<close>

datatype announced = FloorFailing nat | DungeonEnding bool | MatchFinished | Advance | FloorEnding
  | Summary bool | RunFailed | FloorPaid

text \<open>
  \<open>rn_failing\<close> and \<open>rn_victory\<close> are the pending timers with how long they were set for,
  \<open>rn_summary\<close> the pending report with what it will say. A rule of a mode about the countdown is a
  number or nothing. \<open>rn_between\<close>: the last floor is gone and the next is not built yet.
\<close>

record run =
  rn_area :: bool
  rn_active :: bool
  rn_cleared :: bool
  rn_finished :: bool
  rn_failing :: "nat option"
  rn_victory :: "nat option"
  rn_summary :: "bool option"
  rn_reported :: bool
  rn_players :: "nat list"
  rn_actors :: "(nat \<times> actor) list"
  rn_generators :: "(nat \<times> bool) list"
  rn_seen :: nat
  rn_exits :: nat
  rn_transition :: bool
  rn_index :: nat
  rn_count :: nat
  rn_names :: "string list"
  rn_delay :: "nat option"
  rn_revives :: bool
  rn_ruled :: "rat option"
  rn_infinite :: bool
  rn_holding :: bool
  rn_between :: bool
  rn_log :: "announced list"

definition announce :: "announced \<Rightarrow> run \<Rightarrow> run" where
  "announce a r = r\<lparr>rn_log := rn_log r @ [a]\<rparr>"

section \<open>The defeat countdown\<close>

definition defeat_countdown_seconds :: "run \<Rightarrow> nat" where
  "defeat_countdown_seconds r =
     (case rn_ruled r of
        Some s \<Rightarrow> if 1 \<le> s then min 600 (nat \<lfloor>s\<rfloor>) else if rn_infinite r then 10 else 60
      | None \<Rightarrow> if rn_infinite r then 10 else 60)"

definition countdown_duration_ms :: "nat \<Rightarrow> nat" where
  "countdown_duration_ms seconds = 2000 + (seconds + 1) * 1000"

definition every_player_down :: "run \<Rightarrow> bool" where
  "every_player_down r = list_all (\<lambda>d. case map_of (rn_actors r) d of None \<Rightarrow> True | Some a \<Rightarrow> ac_dead a) (rn_players r)"

definition any_player_present :: "run \<Rightarrow> bool" where
  "any_player_present r = list_ex (\<lambda>d. map_of (rn_actors r) d \<noteq> None) (rn_players r)"

definition clear_floor_failing :: "run \<Rightarrow> run" where
  "clear_floor_failing r = r\<lparr>rn_failing := None\<rparr>"

definition cancel_floor_failing :: "run \<Rightarrow> run" where
  "cancel_floor_failing r =
     (if rn_failing r = None then r
      else let r = clear_floor_failing r in if rn_area r then announce (FloorFailing 0) r else r)"

text \<open>
  The report comes after the ending was announced; scheduling it replaces what was scheduled. The
  run's timers are over with the run, and nothing more can be scheduled on them.
\<close>

definition schedule_dungeon_summary :: "bool \<Rightarrow> run \<Rightarrow> run" where
  "schedule_dungeon_summary success r = announce MatchFinished (r\<lparr>rn_summary := if rn_active r then Some success else None\<rparr>)"

definition report_floor_failed :: "run \<Rightarrow> run" where
  "report_floor_failed r =
     (if rn_cleared r \<or> \<not> rn_area r then r
      else announce RunFailed (schedule_dungeon_summary False
             (announce (DungeonEnding False) ((clear_floor_failing r)\<lparr>rn_cleared := True\<rparr>))))"

definition begin_floor_failing :: "run \<Rightarrow> run" where
  "begin_floor_failing r =
     (if rn_failing r \<noteq> None \<or> rn_cleared r \<or> \<not> rn_area r then r
      else if \<not> every_player_down r then r
      else if \<not> rn_revives r then report_floor_failed r
      else let seconds = defeat_countdown_seconds r in
        (announce (FloorFailing seconds) r)\<lparr>rn_failing := Some (countdown_duration_ms seconds)\<rparr>)"

definition countdown_out :: "run \<Rightarrow> run" where
  "countdown_out r = (if rn_failing r = None then r else report_floor_failed (r\<lparr>rn_failing := None\<rparr>))"

definition refresh_floor_failing :: "run \<Rightarrow> run" where
  "refresh_floor_failing r =
     (if rn_failing r \<noteq> None then if every_player_down r then r else cancel_floor_failing r
      else if \<not> every_player_down r \<or> \<not> any_player_present r then r
      else begin_floor_failing r)"

section \<open>Completing and clearing a floor\<close>

text \<open>\<open>rn_holding\<close>: a mode is holding the floor open. Everybody on it is paid what a floor pays.\<close>

definition complete_floor :: "bool \<Rightarrow> run \<Rightarrow> run" where
  "complete_floor immediate r =
     (if rn_finished r then r
      else if rn_holding r then r
      else let r = announce FloorPaid (r\<lparr>rn_finished := True\<rparr>);
               r = (if immediate then r\<lparr>rn_delay := Some 0\<rparr> else r)
        in if rn_index r + 1 < rn_count r then announce Advance r
           else announce MatchFinished
                  (r\<lparr>rn_victory := Some (case rn_delay r of None \<Rightarrow> 7000 | Some ms \<Rightarrow> ms)\<rparr>))"

definition victory_due :: "run \<Rightarrow> run" where
  "victory_due r =
     (if rn_victory r = None then r
      else let r = r\<lparr>rn_victory := None\<rparr> in
        if \<not> rn_active r then r else schedule_dungeon_summary True (announce (DungeonEnding True) r))"

definition cancel_victory :: "run \<Rightarrow> run" where
  "cancel_victory r = r\<lparr>rn_victory := None\<rparr>"

definition authors_its_own_ending :: "run \<Rightarrow> bool" where
  "authors_its_own_ending r =
     list_ex (\<lambda>c. c = ''FLOOR_COMPLETION_IMMEDIATE'' \<or> c = ''FLOOR_COMPLETE_TRIGGERABLE'') (rn_names r)"

record holds =
  ho_generators :: "nat list"
  ho_enemies :: nat
  ho_alive :: "nat list"

definition floor_holds :: "run \<Rightarrow> holds" where
  "floor_holds r =
     \<lparr>ho_generators = map fst (filter (\<lambda>(_, completed). \<not> completed) (rn_generators r)),
      ho_enemies = length (filter (\<lambda>(_, a). ac_holds a) (rn_actors r)),
      ho_alive = map fst (filter (\<lambda>(_, a). ac_holds a \<and> \<not> ac_dead a) (rn_actors r))\<rparr>"

definition check_floor_cleared :: "run \<Rightarrow> run" where
  "check_floor_cleared r =
     (if rn_cleared r \<or> \<not> rn_area r then r
      else let h = floor_holds r in
        if ho_generators h \<noteq> [] then r
        else if rn_seen r = 0 \<and> ho_enemies h = 0 \<or> ho_alive h \<noteq> [] then r
        else let r = cancel_floor_failing (r\<lparr>rn_cleared := True\<rparr>) in
          if 0 < rn_exits r then r
          else if authors_its_own_ending r then r
          else complete_floor False r)"

section \<open>A run ended by a rival\<close>

definition report_run_lost :: "run \<Rightarrow> run" where
  "report_run_lost r =
     (if rn_finished r \<or> \<not> rn_area r \<or> \<not> rn_active r then r
      else report_floor_failed (r\<lparr>rn_finished := True, rn_cleared := False\<rparr>))"

definition report_run_won :: "run \<Rightarrow> run" where
  "report_run_won r =
     (if rn_finished r \<or> \<not> rn_area r \<or> \<not> rn_active r then r
      else schedule_dungeon_summary True (announce (DungeonEnding True) (announce MatchFinished
             (cancel_floor_failing (r\<lparr>rn_finished := True, rn_cleared := True\<rparr>)))))"

section \<open>The exit, the next floor and the report\<close>

definition remove_heroes :: "run \<Rightarrow> run" where
  "remove_heroes r = r\<lparr>rn_actors := filter (\<lambda>(d, _). d \<notin> set (rn_players r)) (rn_actors r)\<rparr>"

text \<open>A hero standing in an exit.\<close>

definition check_floor_exit :: "run \<Rightarrow> run" where
  "check_floor_exit r =
     (if rn_transition r \<or> rn_exits r = 0 then r
      else let r = r\<lparr>rn_transition := True\<rparr>;
               r = (if rn_count r \<le> rn_index r + 1 then remove_heroes r else r)
        in complete_floor False (r\<lparr>rn_delay := Some 0\<rparr>))"

text \<open>
  The floor that ends goes: its timers, its actors and the players' places on it. Then, once it is
  loaded, the next is built with the heroes of the party standing on it.
\<close>

definition advance_floor :: "run \<Rightarrow> run" where
  "advance_floor r =
     (if rn_count r \<le> rn_index r + 1 \<or> \<not> rn_area r \<or> \<not> rn_active r then r
      else (announce FloorEnding (clear_floor_failing r))
             \<lparr>rn_victory := None, rn_actors := [], rn_players := [], rn_index := rn_index r + 1,
              rn_cleared := False, rn_seen := 0, rn_between := True\<rparr>)"

definition place_hero :: "nat \<Rightarrow> run \<Rightarrow> run" where
  "place_hero d r =
     r\<lparr>rn_actors := AList.update d \<lparr>ac_dead = False, ac_holds = False\<rparr> (rn_actors r), rn_players := List.insert d (rn_players r)\<rparr>"

definition build_floor_world :: "nat list \<Rightarrow> nat \<Rightarrow> (nat \<times> bool) list \<Rightarrow> string list \<Rightarrow> run \<Rightarrow> run" where
  "build_floor_world party exits generators names r =
     (if \<not> rn_between r \<or> \<not> rn_active r then r
      else (fold place_hero party (r\<lparr>rn_players := []\<rparr>))
             \<lparr>rn_finished := False, rn_exits := exits, rn_transition := False, rn_generators := generators, rn_names := names,
              rn_between := False\<rparr>)"

text \<open>The report takes the heroes, the floor and every timer with it.\<close>

definition quiesce :: "run \<Rightarrow> run" where
  "quiesce r = r\<lparr>rn_active := False, rn_failing := None, rn_victory := None, rn_summary := None\<rparr>"

definition send_dungeon_summary :: "bool \<Rightarrow> run \<Rightarrow> run" where
  "send_dungeon_summary success r =
     (if \<not> rn_active r \<or> rn_reported r \<or> \<not> rn_area r then r
      else quiesce ((announce (Summary success) (remove_heroes r))\<lparr>rn_reported := True, rn_actors := []\<rparr>))"

definition summary_due :: "run \<Rightarrow> run" where
  "summary_due r =
     (case rn_summary r of None \<Rightarrow> r | Some success \<Rightarrow> send_dungeon_summary success (r\<lparr>rn_summary := None\<rparr>))"

section \<open>What happens on a floor\<close>

definition opened :: "nat \<Rightarrow> bool \<Rightarrow> rat option \<Rightarrow> bool \<Rightarrow> run" where
  "opened floors revives ruled endless =
     \<lparr>rn_area = True, rn_active = True, rn_cleared = False, rn_finished = True, rn_failing = None, rn_victory = None,
      rn_summary = None, rn_reported = False, rn_players = [], rn_actors = [], rn_generators = [], rn_seen = 0, rn_exits = 0,
      rn_transition = False, rn_index = 0, rn_count = floors, rn_names = [], rn_delay = None, rn_revives = revives,
      rn_ruled = ruled, rn_infinite = endless, rn_holding = False, rn_between = True, rn_log = []\<rparr>"

definition set_dead :: "bool \<Rightarrow> nat \<Rightarrow> run \<Rightarrow> run" where
  "set_dead dead d r =
     r\<lparr>rn_actors := map (\<lambda>(e, a). (e, if e = d then a\<lparr>ac_dead := dead\<rparr> else a)) (rn_actors r)\<rparr>"

definition up :: "nat \<Rightarrow> run \<Rightarrow> bool" where
  "up d r \<longleftrightarrow> (case map_of (rn_actors r) d of None \<Rightarrow> False | Some a \<Rightarrow> \<not> ac_dead a)"

definition hero_falls :: "nat \<Rightarrow> run \<Rightarrow> run" where
  "hero_falls d r = (if d \<in> set (rn_players r) \<and> up d r then begin_floor_failing (set_dead True d r) else r)"

text \<open>A rescue or a bomb; a run without revives refuses both.\<close>

definition hero_rises :: "nat \<Rightarrow> run \<Rightarrow> run" where
  "hero_rises d r =
     (if rn_revives r \<and> d \<in> set (rn_players r) \<and> map_of (rn_actors r) d \<noteq> None \<and> \<not> up d r
      then cancel_floor_failing (set_dead False d r) else r)"

definition hero_joins :: "nat \<Rightarrow> run \<Rightarrow> run" where
  "hero_joins d r = (if rn_active r \<and> \<not> rn_between r then refresh_floor_failing (place_hero d r) else r)"

text \<open>The last reachable member takes the world with them.\<close>

definition hero_leaves :: "nat \<Rightarrow> bool \<Rightarrow> run \<Rightarrow> run" where
  "hero_leaves d peers r =
     (let r = r\<lparr>rn_players := remove1 d (rn_players r), rn_actors := AList.delete d (rn_actors r)\<rparr>
      in if peers then refresh_floor_failing r else (quiesce r)\<lparr>rn_actors := []\<rparr>)"

text \<open>Ids are handed out once, so what is placed has an id nothing on the floor has.\<close>

definition enemy_placed :: "nat \<Rightarrow> bool \<Rightarrow> run \<Rightarrow> run" where
  "enemy_placed d counts r =
     (if map_of (rn_actors r) d \<noteq> None \<or> d \<in> set (rn_players r) then r
      else r\<lparr>rn_actors := AList.update d \<lparr>ac_dead = False, ac_holds = counts\<rparr> (rn_actors r),
             rn_seen := rn_seen r + (if counts then 1 else 0)\<rparr>)"

definition enemy_dies :: "nat \<Rightarrow> bool \<Rightarrow> run \<Rightarrow> run" where
  "enemy_dies d perm_corpse r =
     (if d \<in> set (rn_players r) \<or> \<not> up d r then r
      else check_floor_cleared
             (if perm_corpse then set_dead True d r else r\<lparr>rn_actors := AList.delete d (rn_actors r)\<rparr>))"

definition generator_done :: "nat \<Rightarrow> run \<Rightarrow> run" where
  "generator_done g r =
     (if map_of (rn_generators r) g = Some False
      then check_floor_cleared (r\<lparr>rn_generators := AList.update g True (rn_generators r)\<rparr>) else r)"

text \<open>The next floor is asked for by the completion of this one, and by nothing else.\<close>

datatype run_event = HeroFalls nat | HeroRises nat | HeroJoins nat | HeroLeaves nat bool | EnemyPlaced nat bool
  | EnemyDies nat bool | GeneratorDone nat | CompletionTriggered | FailureTriggered | ExitReached | CountdownOut
  | VictoryDue | SummaryDue | RivalFinished | RivalGone | AdvanceFloor
  | FloorBuilt "nat list" nat "(nat \<times> bool) list" "string list" | ModeHolds bool

fun run_step :: "run_event \<Rightarrow> run \<Rightarrow> run" where
  "run_step (HeroFalls d) r = hero_falls d r"
| "run_step (HeroRises d) r = hero_rises d r"
| "run_step (HeroJoins d) r = hero_joins d r"
| "run_step (HeroLeaves d peers) r = hero_leaves d peers r"
| "run_step (EnemyPlaced d counts) r = enemy_placed d counts r"
| "run_step (EnemyDies d perm) r = enemy_dies d perm r"
| "run_step (GeneratorDone g) r = generator_done g r"
| "run_step CompletionTriggered r = complete_floor True r"
| "run_step FailureTriggered r = report_floor_failed r"
| "run_step ExitReached r = check_floor_exit r"
| "run_step CountdownOut r = countdown_out r"
| "run_step VictoryDue r = victory_due r"
| "run_step SummaryDue r = summary_due r"
| "run_step RivalFinished r = report_run_lost r"
| "run_step RivalGone r = report_run_won r"
| "run_step AdvanceFloor r = (if rn_finished r then advance_floor r else r)"
| "run_step (FloorBuilt party exits generators names) r = build_floor_world party exits generators names r"
| "run_step (ModeHolds b) r = r\<lparr>rn_holding := b\<rparr>"

section \<open>The one rule of the countdown\<close>

text \<open>
  It runs only while nobody is up and the floor is not won; and while a party is down, it runs or the
  floor is decided.
\<close>

definition countdown_rule :: "run \<Rightarrow> bool" where
  "countdown_rule r \<longleftrightarrow>
     (rn_failing r \<noteq> None \<longrightarrow> every_player_down r \<and> \<not> rn_cleared r \<and> rn_area r) \<and>
     (every_player_down r \<and> any_player_present r \<and> rn_area r \<longrightarrow> rn_failing r \<noteq> None \<or> rn_cleared r)"

definition between_ok :: "run \<Rightarrow> bool" where
  "between_ok r \<longleftrightarrow> (rn_between r \<longrightarrow> rn_players r = [] \<and> rn_failing r = None)"

lemma announce_sel [simp]:
  "rn_area (announce a r) = rn_area r" "rn_active (announce a r) = rn_active r" "rn_cleared (announce a r) = rn_cleared r"
  "rn_finished (announce a r) = rn_finished r" "rn_failing (announce a r) = rn_failing r"
  "rn_victory (announce a r) = rn_victory r" "rn_summary (announce a r) = rn_summary r"
  "rn_reported (announce a r) = rn_reported r" "rn_players (announce a r) = rn_players r"
  "rn_actors (announce a r) = rn_actors r" "rn_between (announce a r) = rn_between r"
  "rn_index (announce a r) = rn_index r" "rn_count (announce a r) = rn_count r" "rn_delay (announce a r) = rn_delay r"
  "rn_log (announce a r) = rn_log r @ [a]" "rn_revives (announce a r) = rn_revives r"
  by (simp_all add: announce_def)

lemmas standing = every_player_down_def any_player_present_def

lemmas countdown_defs = clear_floor_failing_def cancel_floor_failing_def schedule_dungeon_summary_def report_floor_failed_def
  begin_floor_failing_def countdown_out_def refresh_floor_failing_def

lemmas ending_defs = complete_floor_def victory_due_def check_floor_cleared_def report_run_lost_def report_run_won_def
  check_floor_exit_def advance_floor_def quiesce_def send_dungeon_summary_def summary_due_def

named_theorems rule_kept







lemma cleared_rule [rule_kept]: "countdown_rule (r\<lparr>rn_cleared := True, rn_failing := None\<rparr>)"
  by (simp add: countdown_rule_def)

lemma set_dead_sel [simp]:
  "map_of (rn_actors (set_dead b d r)) e = map_option (\<lambda>a. if e = d then a\<lparr>ac_dead := b\<rparr> else a) (map_of (rn_actors r) e)"
  "rn_players (set_dead b d r) = rn_players r" "rn_failing (set_dead b d r) = rn_failing r"
  "rn_cleared (set_dead b d r) = rn_cleared r" "rn_area (set_dead b d r) = rn_area r" "rn_log (set_dead b d r) = rn_log r"
  "rn_between (set_dead b d r) = rn_between r" "rn_active (set_dead b d r) = rn_active r"
  "rn_summary (set_dead b d r) = rn_summary r" "rn_reported (set_dead b d r) = rn_reported r"
  "rn_victory (set_dead b d r) = rn_victory r" "rn_finished (set_dead b d r) = rn_finished r"
proof -
  have "map_of (map (\<lambda>(e, a). (e, if e = d then a\<lparr>ac_dead := b\<rparr> else a)) xs) e
      = map_option (\<lambda>a. if e = d then a\<lparr>ac_dead := b\<rparr> else a) (map_of xs e)" for xs :: "(nat \<times> actor) list"
    by (induction xs) auto
  then show "map_of (rn_actors (set_dead b d r)) e
      = map_option (\<lambda>a. if e = d then a\<lparr>ac_dead := b\<rparr> else a) (map_of (rn_actors r) e)"
    by (simp add: set_dead_def)
qed (simp_all add: set_dead_def)

lemma place_hero_sel [simp]:
  "map_of (rn_actors (place_hero d r)) = (map_of (rn_actors r))(d \<mapsto> \<lparr>ac_dead = False, ac_holds = False\<rparr>)"
  "set (rn_players (place_hero d r)) = insert d (set (rn_players r))" "rn_failing (place_hero d r) = rn_failing r"
  "rn_cleared (place_hero d r) = rn_cleared r" "rn_area (place_hero d r) = rn_area r" "rn_log (place_hero d r) = rn_log r"
  "rn_between (place_hero d r) = rn_between r" "rn_active (place_hero d r) = rn_active r"
  "rn_summary (place_hero d r) = rn_summary r" "rn_reported (place_hero d r) = rn_reported r"
  "rn_victory (place_hero d r) = rn_victory r" "rn_finished (place_hero d r) = rn_finished r"
  by (simp_all add: place_hero_def update_conv')


lemma up_present: "up d r \<Longrightarrow> map_of (rn_actors r) d \<noteq> None"
  by (auto simp: up_def split: option.splits)


lemma map_of_remove_heroes [simp]:
  "map_of (rn_actors (remove_heroes r)) d = (if d \<in> set (rn_players r) then None else map_of (rn_actors r) d)"
proof -
  have "map_of (filter (\<lambda>(d, _). d \<notin> S) xs) d = (if d \<in> S then None else map_of xs d)" for xs :: "(nat \<times> actor) list" and S
    by (induction xs) auto
  then show ?thesis by (simp add: remove_heroes_def)
qed

lemma remove_heroes_sel [simp]:
  "rn_players (remove_heroes r) = rn_players r" "rn_failing (remove_heroes r) = rn_failing r"
  "rn_cleared (remove_heroes r) = rn_cleared r" "rn_area (remove_heroes r) = rn_area r"
  "rn_between (remove_heroes r) = rn_between r" "rn_log (remove_heroes r) = rn_log r"
  "rn_active (remove_heroes r) = rn_active r" "rn_summary (remove_heroes r) = rn_summary r"
  "rn_reported (remove_heroes r) = rn_reported r" "rn_victory (remove_heroes r) = rn_victory r"
  "rn_finished (remove_heroes r) = rn_finished r"
  by (simp_all add: remove_heroes_def)


















lemma fold_place_sel [simp]:
  "rn_failing (fold place_hero party r) = rn_failing r" "rn_cleared (fold place_hero party r) = rn_cleared r"
  "rn_area (fold place_hero party r) = rn_area r" "rn_log (fold place_hero party r) = rn_log r"
  "rn_active (fold place_hero party r) = rn_active r" "rn_summary (fold place_hero party r) = rn_summary r"
  "rn_reported (fold place_hero party r) = rn_reported r" "rn_victory (fold place_hero party r) = rn_victory r"
  "set (rn_players (fold place_hero party r)) = set party \<union> set (rn_players r)"
  by (induction party arbitrary: r) simp_all




text \<open>Between two floors there is nobody to count for.\<close>

lemma countdown_keeps [simp]:
  "rn_players (cancel_floor_failing r) = rn_players r" "rn_between (cancel_floor_failing r) = rn_between r"
  "rn_players (report_floor_failed r) = rn_players r" "rn_between (report_floor_failed r) = rn_between r"
  "rn_players (begin_floor_failing r) = rn_players r" "rn_between (begin_floor_failing r) = rn_between r"
  "rn_players (refresh_floor_failing r) = rn_players r" "rn_between (refresh_floor_failing r) = rn_between r"
  "rn_players (complete_floor b r) = rn_players r" "rn_between (complete_floor b r) = rn_between r"
  "rn_failing (complete_floor b r) = rn_failing r" "rn_failing (cancel_floor_failing r) = None"
  by (simp_all add: countdown_defs complete_floor_def Let_def)

lemma stays_off [simp]:
  "rn_failing r = None \<Longrightarrow> rn_failing (report_floor_failed r) = None"
  "rn_players r = [] \<Longrightarrow> rn_failing r = None \<Longrightarrow> rn_failing (refresh_floor_failing r) = None"
  by (simp_all add: countdown_defs any_player_present_def)

lemma cleared_keeps [simp]:
  "rn_players (check_floor_cleared r) = rn_players r" "rn_between (check_floor_cleared r) = rn_between r"
  "rn_failing r = None \<Longrightarrow> rn_failing (check_floor_cleared r) = None"
  by (simp_all add: check_floor_cleared_def Let_def)


section \<open>What is announced\<close>

text \<open>
  The log read from the left: the last ending announced, whether the report has gone out, whether
  this floor was won, and whether every announcement was in its place: a floor is won once, and
  the one report says what the last ending said.
\<close>

fun read_log :: "announced \<Rightarrow> bool option \<times> bool \<times> bool \<times> bool \<Rightarrow> bool option \<times> bool \<times> bool \<times> bool" where
  "read_log (DungeonEnding b) (last_said, reported, won, fine) = (Some b, reported, won \<or> b, fine \<and> \<not> (b \<and> won))"
| "read_log (Summary b) (last_said, reported, won, fine) = (last_said, True, won, fine \<and> \<not> reported \<and> last_said = Some b)"
| "read_log FloorEnding (last_said, reported, won, fine) = (last_said, reported, False, fine)"
| "read_log _ st = st"

definition reading :: "announced list \<Rightarrow> bool option \<times> bool \<times> bool \<times> bool" where
  "reading l = fold read_log l (None, False, False, True)"

definition log_ok :: "run \<Rightarrow> bool" where
  "log_ok r \<longleftrightarrow> (case reading (rn_log r) of (last_said, reported, won, fine) \<Rightarrow>
     fine \<and> (rn_summary r \<noteq> None \<longrightarrow> rn_summary r = last_said) \<and> (reported \<longrightarrow> rn_reported r)
     \<and> (won \<longrightarrow> rn_finished r \<and> rn_victory r = None) \<and> (rn_victory r \<noteq> None \<longrightarrow> rn_finished r)
     \<and> (rn_between r \<longrightarrow> rn_finished r \<and> rn_victory r = None \<and> \<not> won))"

lemma reading_append [simp]: "reading (l @ m) = fold read_log m (reading l)"
  by (simp add: reading_def)

text \<open>Announcements that are no ending and no report, and changes no announcement hangs on.\<close>

lemma log_cong:
  assumes "log_ok r" and "reading (rn_log r') = reading (rn_log r)" and "rn_summary r' = rn_summary r \<or> rn_summary r' = None"
    and "rn_reported r' = rn_reported r" and "rn_finished r' = rn_finished r"
    and "rn_victory r' = rn_victory r \<or> rn_victory r' = None" and "rn_between r' = rn_between r"
  shows "log_ok r'"
  using assms by (auto simp: log_ok_def split: prod.splits)

lemma read_quiet [simp]:
  "read_log (FloorFailing n) st = st" "read_log MatchFinished st = st" "read_log Advance st = st"
  "read_log RunFailed st = st" "read_log FloorPaid st = st"
  by (cases st; simp)+

lemma cancel_log: "log_ok r \<Longrightarrow> log_ok (cancel_floor_failing r)"
  by (erule log_cong) (simp_all add: countdown_defs Let_def)

lemma failed_log: "log_ok r \<Longrightarrow> log_ok (report_floor_failed r)"
  by (cases "reading (rn_log r)") (auto simp: log_ok_def countdown_defs)

lemma begin_log: "log_ok r \<Longrightarrow> log_ok (begin_floor_failing r)"
proof -
  assume ok: "log_ok r"
  show ?thesis
  proof (cases "rn_revives r")
    case True
    then show ?thesis using ok by - (erule log_cong, simp_all add: begin_floor_failing_def Let_def)
  next
    case False
    then show ?thesis using ok failed_log by (simp add: begin_floor_failing_def)
  qed
qed

lemma refresh_log: "log_ok r \<Longrightarrow> log_ok (refresh_floor_failing r)"
  by (simp add: refresh_floor_failing_def begin_log cancel_log)

lemma complete_log: "log_ok r \<Longrightarrow> log_ok (complete_floor b r)"
  by (cases "reading (rn_log r)") (auto simp: log_ok_def complete_floor_def Let_def)

lemma cleared_log:
  assumes "log_ok r"
  shows "log_ok (check_floor_cleared r)"
proof -
  have "log_ok (cancel_floor_failing (r\<lparr>rn_cleared := True\<rparr>))"
    by (rule cancel_log, rule log_cong [OF assms]) simp_all
  then show ?thesis using assms complete_log by (simp add: check_floor_cleared_def Let_def)
qed

lemma victory_log: "log_ok r \<Longrightarrow> log_ok (victory_due r)"
  by (cases "reading (rn_log r)") (auto simp: log_ok_def victory_due_def schedule_dungeon_summary_def Let_def)

lemma lost_log: "log_ok r \<Longrightarrow> log_ok (report_run_lost r)"
  by (cases "reading (rn_log r)") (auto simp: log_ok_def report_run_lost_def countdown_defs)

lemma won_log: "log_ok r \<Longrightarrow> log_ok (report_run_won r)"
  by (cases "reading (rn_log r)") (auto simp: log_ok_def report_run_won_def countdown_defs Let_def)

lemma summary_log: "log_ok r \<Longrightarrow> log_ok (summary_due r)"
  by (cases "reading (rn_log r)")
    (auto simp: log_ok_def summary_due_def send_dungeon_summary_def quiesce_def split: option.splits)

lemma advance_log: "log_ok r \<Longrightarrow> rn_finished r \<Longrightarrow> log_ok (advance_floor r)"
  by (cases "reading (rn_log r)") (auto simp: log_ok_def advance_floor_def clear_floor_failing_def)

lemma build_log: "log_ok r \<Longrightarrow> log_ok (build_floor_world party exits generators names r)"
  by (cases "reading (rn_log r)") (auto simp: log_ok_def build_floor_world_def)

lemma step_log:
  assumes "log_ok r"
  shows "log_ok (run_step e r)"
proof (cases e)
  case (HeroFalls d)
  have "log_ok (set_dead True d r)" by (rule log_cong [OF assms]) simp_all
  then show ?thesis using HeroFalls assms by (simp add: hero_falls_def begin_log)
next
  case (HeroRises d)
  have "log_ok (set_dead False d r)" by (rule log_cong [OF assms]) simp_all
  then show ?thesis using HeroRises assms by (simp add: hero_rises_def cancel_log)
next
  case (HeroJoins d)
  have "log_ok (place_hero d r)" by (rule log_cong [OF assms]) simp_all
  then show ?thesis using HeroJoins assms by (simp add: hero_joins_def refresh_log)
next
  case (HeroLeaves d peers)
  have "log_ok (r\<lparr>rn_players := ps, rn_actors := as\<rparr>)" "log_ok ((quiesce (r\<lparr>rn_players := ps, rn_actors := as\<rparr>))\<lparr>rn_actors := []\<rparr>)" for ps as
    by (rule log_cong [OF assms]; simp add: quiesce_def)+
  then show ?thesis using HeroLeaves by (simp add: hero_leaves_def Let_def refresh_log)
next
  case (EnemyPlaced d counts)
  then show ?thesis using assms by (auto simp: enemy_placed_def elim!: log_cong)
next
  case (EnemyDies d perm)
  have "log_ok (set_dead True d r)" "log_ok (r\<lparr>rn_actors := as\<rparr>)" for as by (rule log_cong [OF assms]; simp)+
  then show ?thesis using EnemyDies assms by (simp add: enemy_dies_def cleared_log)
next
  case (GeneratorDone g)
  have "log_ok (r\<lparr>rn_generators := gs\<rparr>)" for gs by (rule log_cong [OF assms]) simp_all
  then show ?thesis using GeneratorDone assms by (simp add: generator_done_def cleared_log)
next
  case ExitReached
  have "log_ok (r'\<lparr>rn_delay := Some 0\<rparr>)"
    if "r' = r\<lparr>rn_transition := True\<rparr> \<or> r' = remove_heroes (r\<lparr>rn_transition := True\<rparr>)" for r'
    using that by (auto intro: log_cong [OF assms])
  then show ?thesis using ExitReached assms complete_log by (simp add: check_floor_exit_def Let_def)
next
  case CountdownOut
  have "log_ok (r\<lparr>rn_failing := None\<rparr>)" by (rule log_cong [OF assms]) simp_all
  then show ?thesis using CountdownOut assms by (simp add: countdown_out_def failed_log)
qed (use assms in \<open>simp_all add: complete_log failed_log victory_log summary_log lost_log won_log advance_log build_log,
      auto elim!: log_cong\<close>)

section \<open>Over a whole run\<close>

lemma opened_ok: "countdown_rule (opened floors revives ruled endless)" "between_ok (opened floors revives ruled endless)"
  "log_ok (opened floors revives ruled endless)"
  by (simp_all add: opened_def countdown_rule_def between_ok_def log_ok_def reading_def any_player_present_def)


lemma steps_log: "log_ok r \<Longrightarrow> log_ok (fold run_step es r)"
  by (induction es arbitrary: r) (simp_all add: step_log)

lemma log_fine: "log_ok r \<Longrightarrow> snd (snd (snd (reading (rn_log r))))"
  by (cases "reading (rn_log r)") (simp add: log_ok_def)


text \<open>C28: A floor announces at most one victory and a run sends at most one report, and the report says
  what the last ending announced before it said.
\<close>

theorem report_says_the_ending:
  "snd (snd (snd (reading (rn_log (fold run_step es (opened floors revives ruled endless))))))"
  by (rule log_fine [OF steps_log [OF opened_ok(3)]])

section \<open>Clearing, decided exactly\<close>

text \<open>When a death or a generator clears the floor, and what it comes to.\<close>

definition may_clear :: "run \<Rightarrow> bool" where
  "may_clear r \<longleftrightarrow> rn_area r \<and> \<not> rn_cleared r
     \<and> (\<forall>(g, completed) \<in> set (rn_generators r). completed)
     \<and> (\<forall>(d, a) \<in> set (rn_actors r). ac_holds a \<longrightarrow> ac_dead a)
     \<and> (0 < rn_seen r \<or> (\<exists>(d, a) \<in> set (rn_actors r). ac_holds a))"

lemma cleared_iff: "rn_cleared (check_floor_cleared r) \<longleftrightarrow> rn_cleared r \<or> may_clear r"
proof -
  have keeps: "rn_cleared (complete_floor b r) = rn_cleared r" "rn_cleared (cancel_floor_failing r) = rn_cleared r" for b r
    by (simp_all add: complete_floor_def countdown_defs Let_def)
  have "ho_generators (floor_holds r) = [] \<longleftrightarrow> (\<forall>(g, completed) \<in> set (rn_generators r). completed)"
    "ho_alive (floor_holds r) = [] \<longleftrightarrow> (\<forall>(d, a) \<in> set (rn_actors r). ac_holds a \<longrightarrow> ac_dead a)"
    "ho_enemies (floor_holds r) = 0 \<longleftrightarrow> \<not> (\<exists>(d, a) \<in> set (rn_actors r). ac_holds a)"
    by (auto simp: floor_holds_def filter_empty_conv)
  then show ?thesis by (auto simp: check_floor_cleared_def may_clear_def keeps Let_def)
qed

section \<open>Where the code departs from its description\<close>

text \<open>
  A run without revives completed by its floor's own trigger, with an enemy still standing: the
  victory is announced, the last hero falls before the report, and the run is lost on top of it.
\<close>

lemma won_and_then_lost:
  "rn_log (fold run_step [FloorBuilt [1] 0 [] [], EnemyPlaced 2 True, CompletionTriggered, VictoryDue, HeroFalls 1, SummaryDue]
     (opened 1 False None False))
   = [FloorPaid, MatchFinished, DungeonEnding True, MatchFinished, DungeonEnding False, MatchFinished, RunFailed, Summary False]"
  by (simp add: opened_def build_floor_world_def place_hero_def enemy_placed_def hero_falls_def set_dead_def up_def standing
      countdown_defs ending_defs remove_heroes_def announce_def Let_def)

text \<open>The exit of an earlier floor leaves no delay for the loot of the last, which has neither exit nor trigger.\<close>

lemma loot_delay_lost:
  "rn_victory (fold run_step [FloorBuilt [1] 1 [] [], ExitReached, AdvanceFloor, FloorBuilt [1] 0 [] [], EnemyPlaced 2 True,
     EnemyDies 2 False] (opened 2 True None False)) = Some 0"
  "rn_victory (fold run_step [FloorBuilt [1] 0 [] [], EnemyPlaced 2 True, EnemyDies 2 False] (opened 1 True None False)) = Some 7000"
  by (simp_all add: opened_def build_floor_world_def place_hero_def enemy_placed_def enemy_dies_def set_dead_def up_def standing
      countdown_defs ending_defs remove_heroes_def authors_its_own_ending_def floor_holds_def announce_def Let_def)

end
