(* ===== verification/RunSaves.thy ===== *)
theory RunSaves
  imports Prelude
begin

text \<open>
  One account while it is being played, and its saves on their way to storage: the registry of held
  accounts (\<open>src/account-registry.js\<close>), the saves of a run and their retries
  (\<open>src/socket/run-saves.js\<close>, \<open>src/socket/rewards.js\<close>, \<open>src/socket/settle-account.js\<close>), the one write at
  a time per account (\<open>src/accounts.js\<close>) and the letting go when a player leaves
  (\<open>src/socket/floor-exit.js\<close>). Every map of the code is keyed by account and every operation touches
  one key; this is that key's part. A write lands or fails, which is an event; what it writes is the
  account as it is when its turn comes.
\<close>

section \<open>Who holds the account\<close>

text \<open>\<open>None\<close>: nobody. Otherwise the object every holder shares, and how many they are.\<close>

type_synonym 'c hold = "('c \<times> nat) option"

definition held_account :: "'c hold \<Rightarrow> 'c option" where
  "held_account h = map_option fst h"

definition hold_account :: "'c \<Rightarrow> 'c hold \<Rightarrow> 'c hold" where
  "hold_account c h = (case h of Some (live, holders) \<Rightarrow> Some (live, holders + 1) | None \<Rightarrow> Some (c, 1))"

definition release_account :: "'c hold \<Rightarrow> 'c hold \<times> bool" where
  "release_account h =
     (case h of
        None \<Rightarrow> (None, False)
      | Some (live, holders) \<Rightarrow> if 0 < holders - 1 then (Some (live, holders - 1), False) else (None, True))"

section \<open>The saves\<close>

text \<open>
  A turn in the chain of writes: a save of a session, or a retry. \<open>rt_written\<close>: another save has
  landed meanwhile; \<open>rt_attempting\<close>: not pausing, its attempt has a turn in the chain.
\<close>

datatype turn = Save nat | Again

record retrying =
  rt_written :: bool
  rt_attempting :: bool

text \<open>
  \<open>sv_runs\<close> are the sessions in a run, \<open>sv_leaving\<close> how many have left and hold on until everything is
  written, \<open>sv_changed\<close> whether a session changed the account since it last queued a save, \<open>sv_settled\<close>
  whether it has settled. \<open>sv_queued\<close> counts a session's saves that have no outcome yet: the first of
  them has a turn in \<open>sv_chain\<close>, the next takes one when it has ended. \<open>sv_in_flight\<close> is what the code's
  \<open>inFlight\<close> holds, \<open>sv_followers\<close> those of it that wait for the retry.
\<close>

record 'c saving =
  sv_held :: "'c hold"
  sv_stored :: 'c
  sv_runs :: "nat list"
  sv_leaving :: nat
  sv_changed :: "nat \<Rightarrow> bool"
  sv_settled :: "nat \<Rightarrow> bool"
  sv_queued :: "nat \<Rightarrow> nat"
  sv_chain :: "turn list"
  sv_writing :: "'c option"
  sv_in_flight :: nat
  sv_followers :: nat
  sv_retry :: "retrying option"
  sv_closing :: bool

definition at_rest :: "'c \<Rightarrow> 'c saving" where
  "at_rest c =
     \<lparr>sv_held = None, sv_stored = c, sv_runs = [], sv_leaving = 0, sv_changed = (\<lambda>_. False), sv_settled = (\<lambda>_. False),
      sv_queued = (\<lambda>_. 0), sv_chain = [], sv_writing = None, sv_in_flight = 0, sv_followers = 0, sv_retry = None,
      sv_closing = False\<rparr>"

text \<open>What anybody who asks for the account is given.\<close>

definition read_now :: "'c saving \<Rightarrow> 'c" where
  "read_now s = (case held_account (sv_held s) of Some live \<Rightarrow> live | None \<Rightarrow> sv_stored s)"

definition enter_run :: "nat \<Rightarrow> 'c saving \<Rightarrow> 'c saving" where
  "enter_run k s =
     (if k \<in> set (sv_runs s) then s
      else s\<lparr>sv_held := hold_account (read_now s) (sv_held s), sv_runs := k # sv_runs s,
             sv_changed := (sv_changed s)(k := False), sv_settled := (sv_settled s)(k := False)\<rparr>)"

definition change_account :: "nat \<Rightarrow> 'c \<Rightarrow> 'c saving \<Rightarrow> 'c saving" where
  "change_account k c s =
     (if k \<in> set (sv_runs s) \<and> \<not> sv_settled s k
      then s\<lparr>sv_held := map_option (\<lambda>(_, holders). (c, holders)) (sv_held s), sv_changed := (sv_changed s)(k := True)\<rparr>
      else s)"

definition follow_run_save :: "nat \<Rightarrow> 'c saving \<Rightarrow> 'c saving" where
  "follow_run_save k s =
     s\<lparr>sv_changed := (sv_changed s)(k := False), sv_in_flight := sv_in_flight s + 1,
       sv_queued := (sv_queued s)(k := sv_queued s k + 1),
       sv_chain := (if sv_queued s k = 0 then sv_chain s @ [Save k] else sv_chain s)\<rparr>"

definition queue_account_save :: "nat \<Rightarrow> 'c saving \<Rightarrow> 'c saving" where
  "queue_account_save k s = (if k \<in> set (sv_runs s) then follow_run_save k s else s)"

definition settle_dungeon_account :: "nat \<Rightarrow> 'c saving \<Rightarrow> 'c saving" where
  "settle_dungeon_account k s =
     (if k \<in> set (sv_runs s) \<and> \<not> sv_settled s k
      then (follow_run_save k s)\<lparr>sv_settled := (sv_settled s)(k := True)\<rparr> else s)"

definition has_run_saves :: "'c saving \<Rightarrow> bool" where
  "has_run_saves s \<longleftrightarrow> 0 < sv_in_flight s"

definition leave_run :: "nat \<Rightarrow> 'c saving \<Rightarrow> 'c saving" where
  "leave_run k s =
     (if k \<notin> set (sv_runs s) then s
      else let s = (settle_dungeon_account k s)\<lparr>sv_runs := remove1 k (sv_runs s)\<rparr>
        in if has_run_saves s then s\<lparr>sv_leaving := sv_leaving s + 1\<rparr>
           else s\<lparr>sv_held := fst (release_account (sv_held s))\<rparr>)"

definition let_go :: "'c saving \<Rightarrow> 'c saving" where
  "let_go s =
     (if 0 < sv_leaving s \<and> \<not> has_run_saves s
      then s\<lparr>sv_leaving := sv_leaving s - 1, sv_held := fst (release_account (sv_held s))\<rparr> else s)"

section \<open>The chain of writes\<close>

definition begin_write :: "'c saving \<Rightarrow> 'c saving" where
  "begin_write s =
     (if sv_chain s \<noteq> [] \<and> sv_writing s = None then s\<lparr>sv_writing := Some (read_now s)\<rparr> else s)"

text \<open>A save of \<open>k\<close> has its outcome: the session's next save takes a turn.\<close>

definition save_over :: "nat \<Rightarrow> 'c saving \<Rightarrow> 'c saving" where
  "save_over k s =
     s\<lparr>sv_writing := None, sv_queued := (sv_queued s)(k := sv_queued s k - 1),
       sv_chain := tl (sv_chain s) @ (if 1 < sv_queued s k then [Save k] else [])\<rparr>"

text \<open>The retry is over, and so is everything that waited for it.\<close>

definition retry_over :: "'c saving \<Rightarrow> 'c saving" where
  "retry_over s = s\<lparr>sv_retry := None, sv_in_flight := sv_in_flight s - sv_followers s, sv_followers := 0\<rparr>"

definition written :: "'c saving \<Rightarrow> 'c saving" where
  "written s =
     (case sv_retry s of
        None \<Rightarrow> s\<lparr>sv_in_flight := sv_in_flight s - 1\<rparr>
      | Some r \<Rightarrow>
          let s = s\<lparr>sv_followers := sv_followers s + 1\<rparr> in
          if rt_attempting r then s\<lparr>sv_retry := Some (r\<lparr>rt_written := True\<rparr>)\<rparr> else retry_over s)"

definition retry_save :: "'c saving \<Rightarrow> 'c saving" where
  "retry_save s =
     s\<lparr>sv_followers := sv_followers s + 1,
       sv_retry := Some (case sv_retry s of Some r \<Rightarrow> r | None \<Rightarrow> \<lparr>rt_written = False, rt_attempting = False\<rparr>)\<rparr>"

definition pause_over :: "'c saving \<Rightarrow> 'c saving" where
  "pause_over s =
     (case sv_retry s of
        None \<Rightarrow> s
      | Some r \<Rightarrow> if rt_attempting r then s
                  else s\<lparr>sv_retry := Some (r\<lparr>rt_attempting := True\<rparr>), sv_chain := sv_chain s @ [Again]\<rparr>)"

definition retry_failed :: "'c saving \<Rightarrow> 'c saving" where
  "retry_failed s =
     (case sv_retry s of
        None \<Rightarrow> s
      | Some r \<Rightarrow> if rt_written r \<or> sv_closing s then retry_over s
                  else s\<lparr>sv_retry := Some (r\<lparr>rt_attempting := False\<rparr>)\<rparr>)"

definition write_ends :: "bool \<Rightarrow> 'c saving \<Rightarrow> 'c saving" where
  "write_ends landed s =
     (case sv_writing s of
        None \<Rightarrow> s
      | Some c \<Rightarrow>
          let s = (if landed then s\<lparr>sv_stored := c\<rparr> else s) in
          case sv_chain s of
            [] \<Rightarrow> s
          | Save k # _ \<Rightarrow> if landed then written (save_over k s) else retry_save (save_over k s)
          | Again # turns \<Rightarrow>
              let s = s\<lparr>sv_writing := None, sv_chain := turns\<rparr> in if landed then retry_over s else retry_failed s)"

definition finish_run_saves :: "'c saving \<Rightarrow> 'c saving" where
  "finish_run_saves s = pause_over (s\<lparr>sv_closing := True\<rparr>)"

datatype 'c save_event = Enter nat | Change nat 'c | Queue nat | Settle nat | Leave nat | LetGo | BeginWrite
  | WriteEnds bool | PauseOver | Finish

fun save_step :: "'c save_event \<Rightarrow> 'c saving \<Rightarrow> 'c saving" where
  "save_step (Enter k) s = enter_run k s"
| "save_step (Change k c) s = change_account k c s"
| "save_step (Queue k) s = queue_account_save k s"
| "save_step (Settle k) s = settle_dungeon_account k s"
| "save_step (Leave k) s = leave_run k s"
| "save_step LetGo s = let_go s"
| "save_step BeginWrite s = begin_write s"
| "save_step (WriteEnds landed) s = write_ends landed s"
| "save_step PauseOver s = pause_over s"
| "save_step Finish s = finish_run_saves s"

text \<open>What storage is refusing, across threads; \<open>elsewhere\<close> is what each match worker said last.\<close>

definition run_saves_failing :: "nat \<Rightarrow> (nat \<times> nat) list \<Rightarrow> nat" where
  "run_saves_failing retrying_here elsewhere = retrying_here + sum_list (map snd elsewhere)"

definition note_unsaved_elsewhere :: "nat \<Rightarrow> int \<Rightarrow> (nat \<times> nat) list \<Rightarrow> (nat \<times> nat) list" where
  "note_unsaved_elsewhere source unsaved elsewhere =
     (if 0 < unsaved then (source, nat unsaved) # filter (\<lambda>(w, _). w \<noteq> source) elsewhere
      else filter (\<lambda>(w, _). w \<noteq> source) elsewhere)"

section \<open>What is not in storage is on its way\<close>














lemma settled_after [simp]:
  "k \<in> set (sv_runs s) \<Longrightarrow> sv_settled (settle_dungeon_account k s) k"
  "sv_runs (settle_dungeon_account k s) = sv_runs s" "sv_held (settle_dungeon_account k s) = sv_held s"
  "sv_stored (settle_dungeon_account k s) = sv_stored s"
  by (simp_all add: settle_dungeon_account_def follow_run_save_def)














lemma follow_sel [simp]: "sv_held (follow_run_save k s) = sv_held s" "sv_stored (follow_run_save k s) = sv_stored s"
  by (simp_all add: follow_run_save_def)









section \<open>Where the code departs from its description\<close>

text \<open>
  Two sessions on one account, storage refusing: a save that lands while a retry's attempt waits its
  turn marks the retry as no longer needed, and a later save that fails before that turn is told to
  wait for it. The attempt fails, nothing is tried again, and the change is gone with the last holder.
\<close>

lemma two_sessions_lose_a_change:
  "read_now (fold save_step [Enter 1, Enter 2, Queue 1, BeginWrite, WriteEnds False, Leave 1, BeginWrite, Change 2 5, Leave 2,
     PauseOver, WriteEnds True, BeginWrite, WriteEnds False, BeginWrite, WriteEnds False] (at_rest (3::int))) = 5"
  "read_now (fold save_step [Enter 1, Enter 2, Queue 1, BeginWrite, WriteEnds False, Leave 1, BeginWrite, Change 2 5, Leave 2,
     PauseOver, WriteEnds True, BeginWrite, WriteEnds False, BeginWrite, WriteEnds False, LetGo, LetGo] (at_rest (3::int))) = 3"
  by code_simp+

end
