(* ===== verification/Powerups.thy ===== *)
theory Powerups
  imports Prelude
begin

text \<open>
  How many of a powerup a hero carries and where the rest of them live (\<open>src/consumables.js\<close>,
  \<open>src/powerup-slots.js\<close>): the rule that settles the two slots of an avatar against the bag, the move
  of a stack to a slot, and the repair made on every load. Ids and counts are stored as whole
  numbers; one that is missing counts as 0. What \<open>EquipLimit\<close> says of an item, and the next object
  id, are arguments.
\<close>

section \<open>The bag and the slots\<close>

record bag_row =
  bg_id :: int
  bg_stack :: int
  bg_count :: int
  bg_is_new :: int

record slot =
  sl_id :: int
  sl_count :: int

record powerups =
  pw_first :: slot
  pw_second :: slot
  pw_bag :: "bag_row list"

definition positive :: "int \<Rightarrow> int" where
  "positive n = (if 0 < n then n else 0)"

definition carry_limit :: "(int \<Rightarrow> int) \<Rightarrow> int \<Rightarrow> int" where
  "carry_limit authored stack = (if 0 < authored stack then authored stack else 9)"

definition bagged :: "int \<Rightarrow> bag_row list \<Rightarrow> int" where
  "bagged stack bag = (case find_row (\<lambda>r. bg_stack r = stack) bag of None \<Rightarrow> 0 | Some r \<Rightarrow> positive (bg_count r))"

text \<open>The first row of a stack taken out, or given a new count.\<close>

fun cut_row :: "int \<Rightarrow> bag_row list \<Rightarrow> bag_row list" where
  "cut_row stack [] = []"
| "cut_row stack (r # bag) = (if bg_stack r = stack then bag else r # cut_row stack bag)"

fun count_row :: "int \<Rightarrow> int \<Rightarrow> bag_row list \<Rightarrow> bag_row list" where
  "count_row stack n [] = []"
| "count_row stack n (r # bag) = (if bg_stack r = stack then r\<lparr>bg_count := n\<rparr> # bag else r # count_row stack n bag)"

definition set_bagged :: "(bag_row list \<Rightarrow> int) \<Rightarrow> int \<Rightarrow> int \<Rightarrow> bag_row list \<Rightarrow> bag_row list" where
  "set_bagged next_id stack n bag =
     (if n \<le> 0 then cut_row stack bag
      else if find_row (\<lambda>r. bg_stack r = stack) bag \<noteq> None then count_row stack n bag
      else bag @ [\<lparr>bg_id = next_id bag, bg_stack = stack, bg_count = n, bg_is_new = 0\<rparr>])"

definition sweep_empty_rows :: "bag_row list \<Rightarrow> bag_row list" where
  "sweep_empty_rows bag = filter (\<lambda>r. 0 < positive (bg_count r)) bag"

text \<open>One slot settled against the bag.\<close>

definition settle_slot ::
  "(int \<Rightarrow> int) \<Rightarrow> (bag_row list \<Rightarrow> int) \<Rightarrow> slot \<Rightarrow> bag_row list \<Rightarrow> slot \<times> bag_row list" where
  "settle_slot authored next_id sl bag =
     (let stack = positive (sl_id sl); total = positive (sl_count sl) + bagged stack bag in
      if stack = 0 then (sl\<lparr>sl_count := 0\<rparr>, bag)
      else if total = 0 then (\<lparr>sl_id = 0, sl_count = 0\<rparr>, set_bagged next_id stack 0 bag)
      else let carried = min (carry_limit authored stack) total
        in (sl\<lparr>sl_count := carried\<rparr>, set_bagged next_id stack (total - carried) bag))"

definition reconcile_consumables :: "(int \<Rightarrow> int) \<Rightarrow> (bag_row list \<Rightarrow> int) \<Rightarrow> powerups \<Rightarrow> powerups" where
  "reconcile_consumables authored next_id p =
     (case settle_slot authored next_id (pw_first p) (pw_bag p) of (first, bag) \<Rightarrow>
      case settle_slot authored next_id (pw_second p) bag of (second, bag) \<Rightarrow>
        \<lparr>pw_first = first, pw_second = second, pw_bag = sweep_empty_rows bag\<rparr>)"

definition held_in :: "int \<Rightarrow> slot \<Rightarrow> int" where
  "held_in stack sl = (if positive (sl_id sl) = stack then positive (sl_count sl) else 0)"

text \<open>The slot asked for, the other one, and what each becomes; \<open>None\<close>: the stack is nowhere.\<close>

definition move_stack ::
  "(bag_row list \<Rightarrow> int) \<Rightarrow> int \<Rightarrow> slot \<Rightarrow> slot \<Rightarrow> bag_row list \<Rightarrow> (slot \<times> slot \<times> bag_row list) option" where
  "move_stack next_id stack target other bag =
     (let in_other = held_in stack other; in_target = held_in stack target;
          displaced = positive (sl_id target) in
      if bagged stack bag = 0 \<and> in_other = 0 \<and> in_target = 0 then None
      else Some
        (\<lparr>sl_id = stack, sl_count = in_other + in_target\<rparr>,
         (if in_other \<noteq> 0 then \<lparr>sl_id = 0, sl_count = 0\<rparr> else other),
         (if displaced \<noteq> 0 \<and> displaced \<noteq> stack
          then set_bagged next_id displaced (bagged displaced bag + positive (sl_count target)) bag else bag)))"

definition move_consumable_to_slot ::
  "(int \<Rightarrow> int) \<Rightarrow> (bag_row list \<Rightarrow> int) \<Rightarrow> int \<Rightarrow> int \<Rightarrow> powerups \<Rightarrow> bool \<times> powerups" where
  "move_consumable_to_slot authored next_id stack_id asked p =
     (let stack = positive stack_id in
      if stack = 0 then (False, p)
      else if asked = 1
      then (case move_stack next_id stack (pw_second p) (pw_first p) (pw_bag p) of
              None \<Rightarrow> (False, p)
            | Some (target, other, bag) \<Rightarrow>
                (True, reconcile_consumables authored next_id \<lparr>pw_first = other, pw_second = target, pw_bag = bag\<rparr>))
      else (case move_stack next_id stack (pw_first p) (pw_second p) (pw_bag p) of
              None \<Rightarrow> (False, p)
            | Some (target, other, bag) \<Rightarrow>
                (True, reconcile_consumables authored next_id \<lparr>pw_first = target, pw_second = other, pw_bag = bag\<rparr>)))"

definition repair_slot :: "bag_row list \<Rightarrow> slot \<Rightarrow> slot" where
  "repair_slot bag sl =
     (if positive (sl_id sl) = 0 \<or> 0 < positive (sl_count sl) + bagged (positive (sl_id sl)) bag then sl
      else \<lparr>sl_id = 0, sl_count = 0\<rparr>)"

text \<open>All the avatars of the account, over its one bag, and how many things were repaired.\<close>

definition repair_spent_powerups ::
  "(slot \<times> slot) list \<Rightarrow> bag_row list \<Rightarrow> (slot \<times> slot) list \<times> bag_row list \<times> nat" where
  "repair_spent_powerups avatars bag =
     (let cleared = (\<lambda>sl. if repair_slot bag sl = sl then 0 else 1 :: nat) in
      (map (\<lambda>(first, second). (repair_slot bag first, repair_slot bag second)) avatars,
       sweep_empty_rows bag,
       sum_list (map (\<lambda>(first, second). cleared first + cleared second) avatars)
         + (length bag - length (sweep_empty_rows bag))))"

section \<open>What an avatar's account owns\<close>

definition in_bag :: "int \<Rightarrow> bag_row list \<Rightarrow> int" where
  "in_bag stack bag = sum_list (map (\<lambda>r. if bg_stack r = stack then positive (bg_count r) else 0) bag)"

definition owned :: "int \<Rightarrow> powerups \<Rightarrow> int" where
  "owned stack p = held_in stack (pw_first p) + held_in stack (pw_second p) + in_bag stack (pw_bag p)"

lemma positive_simps [simp]: "0 \<le> positive n" "positive 0 = 0" "0 \<le> n \<Longrightarrow> positive n = n" "positive (positive n) = positive n"
  by (simp_all add: positive_def)

lemma bagged_nonneg [simp]: "0 \<le> bagged stack bag"
  by (simp add: bagged_def split: option.split)

lemma bagged_simps [simp]:
  "bagged stack [] = 0" "bagged stack (r # bag) = (if bg_stack r = stack then positive (bg_count r) else bagged stack bag)"
  by (simp_all add: bagged_def)

lemma in_bag_simps [simp]:
  "in_bag s [] = 0" "in_bag s (r # bag) = (if bg_stack r = s then positive (bg_count r) else 0) + in_bag s bag"
  "in_bag s (bag @ bag') = in_bag s bag + in_bag s bag'"
  by (simp_all add: in_bag_def)

lemma bagged_absent: "stack \<notin> bg_stack ` set bag \<Longrightarrow> bagged stack bag = 0"
  by (induction bag) auto

lemma in_bag_cut: "in_bag s (cut_row stack bag) = in_bag s bag - (if s = stack then bagged stack bag else 0)"
  by (induction bag) auto

lemma in_bag_count:
  "stack \<in> bg_stack ` set bag \<Longrightarrow>
   in_bag s (count_row stack n bag) = in_bag s bag + (if s = stack then positive n - bagged stack bag else 0)"
proof (induction bag)
  case (Cons r bag)
  then show ?case by (cases "bg_stack r = stack") auto
qed simp

lemma in_bag_set: "in_bag s (set_bagged next_id stack n bag) = in_bag s bag + (if s = stack then positive n - bagged stack bag else 0)"
proof (cases "stack \<in> bg_stack ` set bag")
  case True
  then have "find_row (\<lambda>r. bg_stack r = stack) bag \<noteq> None" by (auto simp del: not_None_eq)
  then show ?thesis using in_bag_count [OF True] by (simp add: set_bagged_def in_bag_cut positive_def)
next
  case False
  then have "find_row (\<lambda>r. bg_stack r = stack) bag = None" by auto
  then show ?thesis using bagged_absent [of stack bag] by (auto simp: set_bagged_def in_bag_cut positive_def)
qed

lemma in_bag_sweep [simp]: "in_bag s (sweep_empty_rows bag) = in_bag s bag"
  by (induction bag) (auto simp: sweep_empty_rows_def positive_def)

lemma carry_limit_pos [simp]:
  "0 < carry_limit authored stack" "positive (carry_limit authored stack) = carry_limit authored stack"
  by (simp_all add: carry_limit_def)

lemma settle_slot_owned:
  assumes "settle_slot authored next_id sl bag = (sl', bag')" and "0 < s"
  shows "held_in s sl' + in_bag s bag' = held_in s sl + in_bag s bag"
  using assms carry_limit_pos(1) [of authored "positive (sl_id sl)"] bagged_nonneg [of "positive (sl_id sl)" bag]
  by (auto simp: settle_slot_def Let_def held_in_def in_bag_set min_def split: if_splits)

lemma reconcile_owned: "0 < s \<Longrightarrow> owned s (reconcile_consumables authored next_id p) = owned s p"
  using settle_slot_owned [of authored next_id "pw_first p" "pw_bag p" _ _ s]
    settle_slot_owned [of authored next_id "pw_second p" _ _ _ s]
  by (simp add: reconcile_consumables_def owned_def split: prod.splits) fastforce

lemma move_stack_owned:
  assumes "move_stack next_id stack target other bag = Some (target', other', bag')" and "0 < s" and "0 < stack"
  shows "held_in s target' + held_in s other' + in_bag s bag' = held_in s target + held_in s other + in_bag s bag"
  using assms
  by (auto simp: move_stack_def Let_def held_in_def in_bag_set split: if_splits)

lemma repair_slot_held: "0 < s \<Longrightarrow> held_in s (repair_slot bag sl) = held_in s sl"
  using bagged_nonneg [of "positive (sl_id sl)" bag] positive_simps(1) [of "sl_count sl"]
  by (auto simp: repair_slot_def held_in_def not_less simp del: bagged_nonneg positive_simps(1))

definition held_by_avatars :: "int \<Rightarrow> (slot \<times> slot) list \<Rightarrow> int" where
  "held_by_avatars stack avatars = sum_list (map (\<lambda>(first, second). held_in stack first + held_in stack second) avatars)"

lemma repair_owned:
  assumes "0 < s"
  shows "case repair_spent_powerups avatars bag of (avatars', bag', _) \<Rightarrow>
    held_by_avatars s avatars' + in_bag s bag' = held_by_avatars s avatars + in_bag s bag"
proof -
  have "held_by_avatars s (map (\<lambda>(first, second). (repair_slot bag first, repair_slot bag second)) avatars)
      = held_by_avatars s avatars"
    by (induction avatars) (auto simp: held_by_avatars_def repair_slot_held [OF assms])
  then show ?thesis by (simp add: repair_spent_powerups_def Let_def)
qed

lemma move_owned: "0 < s \<Longrightarrow> owned s (snd (move_consumable_to_slot authored next_id stack asked p)) = owned s p"
proof -
  assume s: "0 < s"
  have "positive stack = 0 \<or> 0 < positive stack" using positive_simps(1) [of stack] by linarith
  then show ?thesis
    using s move_stack_owned [of next_id "positive stack" "pw_second p" "pw_first p" "pw_bag p" _ _ _ s]
      move_stack_owned [of next_id "positive stack" "pw_first p" "pw_second p" "pw_bag p" _ _ _ s]
    by (auto simp: move_consumable_to_slot_def Let_def reconcile_owned split: option.splits)
      (auto simp: owned_def)
qed

section \<open>The carry rule\<close>

text \<open>With one row to a stack, what is bagged is what the first row says.\<close>

lemma in_bag_distinct: "distinct (map bg_stack bag) \<Longrightarrow> in_bag stack bag = bagged stack bag"
proof (induction bag)
  case (Cons r bag)
  have "bagged stack bag = 0" if "bg_stack r = stack" using Cons.prems that by (intro bagged_absent) simp
  then show ?case using Cons by auto
qed simp

lemma settle_other:
  assumes "settle_slot authored next_id sl bag = (sl', bag')" and "positive (sl_id sl) \<noteq> s" and "0 < s"
  shows "in_bag s bag' = in_bag s bag" and "held_in s sl' = 0"
  using assms by (auto simp: settle_slot_def Let_def in_bag_set held_in_def split: if_splits)

lemma settle_rule:
  assumes "settle_slot authored next_id sl bag = (sl', bag')" and "positive (sl_id sl) = s" and "0 < s"
    and "in_bag s bag = bagged s bag"
  shows "held_in s sl' = min (carry_limit authored s) (held_in s sl + in_bag s bag)"
proof -
  define t where "t = positive (sl_count sl) + bagged s bag"
  have t: "0 \<le> t" "held_in s sl + in_bag s bag = t"
    using assms(2,4) positive_simps(1) [of "sl_count sl"] bagged_nonneg [of s bag] by (simp_all add: t_def held_in_def)
  have c: "0 < carry_limit authored s" by simp
  show ?thesis
  proof (cases "t = 0")
    case True
    then have "sl' = \<lparr>sl_id = 0, sl_count = 0\<rparr>" using assms(1-3) by (simp add: settle_slot_def Let_def t_def)
    then show ?thesis using True t c assms(3) by (simp add: held_in_def)
  next
    case False
    then have "sl' = sl\<lparr>sl_count := min (carry_limit authored s) t\<rparr>" using assms(1-3) by (simp add: settle_slot_def Let_def t_def)
    moreover have "positive (min (carry_limit authored s) t) = min (carry_limit authored s) t"
      by (rule positive_simps(3)) (use t(1) less_imp_le [OF c] in \<open>simp del: carry_limit_pos\<close>)
    ultimately show ?thesis using t assms(2) by (simp add: held_in_def)
  qed
qed

lemma bagged_cut_other: "s \<noteq> stack \<Longrightarrow> bagged s (cut_row stack bag) = bagged s bag"
  by (induction bag) auto

lemma bagged_count_other: "s \<noteq> stack \<Longrightarrow> bagged s (count_row stack n bag) = bagged s bag"
  by (induction bag) auto

lemma bagged_append: "bg_stack r \<noteq> s \<Longrightarrow> bagged s (bag @ [r]) = bagged s bag"
  by (induction bag) auto

lemma bagged_settle_other:
  assumes "settle_slot authored next_id sl bag = (sl', bag')" and "s \<noteq> positive (sl_id sl)"
  shows "bagged s bag' = bagged s bag"
  using assms
  by (auto simp: settle_slot_def Let_def set_bagged_def bagged_cut_other bagged_count_other bagged_append split: if_splits)

text \<open>C30: Nothing is made and nothing is lost: of every powerup, the settling of a run or an equip, the
  move of a stack to a slot and the repair of every avatar on loading leave exactly as many on the
  account as there were, in the slots and the bag together.\<close>

theorem powerups_conserved:
  assumes "0 < s"
  shows "owned s (reconcile_consumables authored next_id p) = owned s p
    \<and> owned s (snd (move_consumable_to_slot authored next_id stack asked p)) = owned s p
    \<and> (case repair_spent_powerups avatars bag of (avatars', bag', _) \<Rightarrow>
         held_by_avatars s avatars' + in_bag s bag' = held_by_avatars s avatars + in_bag s bag)"
  using assms by (simp add: reconcile_owned move_owned repair_owned)

definition demo_powerups :: powerups where
  "demo_powerups =
     \<lparr>pw_first = \<lparr>sl_id = 7, sl_count = 2\<rparr>, pw_second = \<lparr>sl_id = 0, sl_count = 0\<rparr>,
      pw_bag = [\<lparr>bg_id = 1, bg_stack = 7, bg_count = 20, bg_is_new = 0\<rparr>]\<rparr>"

theorem powerups_conserved_witness:
  "owned 7 (snd (move_consumable_to_slot (\<lambda>_. 5) (\<lambda>_. 100) 7 1 demo_powerups)) = 22"
  using powerups_conserved [of 7 "\<lambda>_. 5" "\<lambda>_. 100" demo_powerups 7 1 "[]" "[]"]
  by (simp add: owned_def demo_powerups_def held_in_def in_bag_def)

text \<open>The carry rule: with the slots holding different powerups and one row to a stack, a settled
  slot carries as many as the item allows of what the account owns, or all of it, and the rest is
  in the bag.\<close>

lemma slots_carry_their_limit:
  assumes "distinct (map bg_stack (pw_bag p))" and "0 < s"
    and "positive (sl_id (pw_first p)) \<noteq> positive (sl_id (pw_second p))"
    and "s = positive (sl_id (pw_first p)) \<or> s = positive (sl_id (pw_second p))"
  shows "let q = reconcile_consumables authored next_id p; carried = min (carry_limit authored s) (owned s p)
    in held_in s (pw_first q) + held_in s (pw_second q) = carried \<and> in_bag s (pw_bag q) = owned s p - carried"
proof -
  obtain sl1 b1 where 1: "settle_slot authored next_id (pw_first p) (pw_bag p) = (sl1, b1)" by force
  obtain sl2 b2 where 2: "settle_slot authored next_id (pw_second p) b1 = (sl2, b2)" by force
  have bag: "in_bag s (pw_bag p) = bagged s (pw_bag p)" by (rule in_bag_distinct [OF assms(1)])
  have q: "reconcile_consumables authored next_id p = \<lparr>pw_first = sl1, pw_second = sl2, pw_bag = sweep_empty_rows b2\<rparr>"
    by (simp add: reconcile_consumables_def 1 2)
  have "held_in s sl1 + held_in s sl2 = min (carry_limit authored s) (owned s p)"
  proof (cases "s = positive (sl_id (pw_first p))")
    case True
    then have "held_in s (pw_second p) = 0" using assms(3) by (simp add: held_in_def)
    moreover have "held_in s sl2 = 0" using settle_other(2) [OF 2 _ assms(2)] True assms(3) by simp
    ultimately show ?thesis using settle_rule [OF 1 _ assms(2) bag] True by (simp add: owned_def)
  next
    case False
    note first = settle_other [OF 1 _ assms(2)]
    have "bagged s b1 = bagged s (pw_bag p)"
      using False by (simp add: bagged_settle_other [OF 1])
    then show ?thesis using settle_rule [OF 2 _ assms(2)] first False assms(4) bag by (simp add: owned_def held_in_def)
  qed
  then show ?thesis using reconcile_owned [OF assms(2), of authored next_id p] by (simp add: Let_def q owned_def)
qed

lemma slots_carry_their_limit_witness:
  "held_in 7 (pw_first (reconcile_consumables (\<lambda>_. 5) (\<lambda>_. 100) demo_powerups))
     + held_in 7 (pw_second (reconcile_consumables (\<lambda>_. 5) (\<lambda>_. 100) demo_powerups)) = 5"
  using slots_carry_their_limit [of demo_powerups 7 "\<lambda>_. 5" "\<lambda>_. 100"]
  by (simp add: Let_def demo_powerups_def carry_limit_def owned_def held_in_def in_bag_def)

section \<open>Where the code departs from its description\<close>

text \<open>
  Settling is said to be safe to make twice. With one powerup in both slots, and more in the second
  than may be carried, the second time tops the first slot up from what the first time put away.
\<close>

lemma settling_twice_differs:
  "let p = \<lparr>pw_first = \<lparr>sl_id = 7, sl_count = 1\<rparr>, pw_second = \<lparr>sl_id = 7, sl_count = 20\<rparr>, pw_bag = []\<rparr>;
       once = reconcile_consumables (\<lambda>_. 9) (\<lambda>_. 100) p; twice = reconcile_consumables (\<lambda>_. 9) (\<lambda>_. 100) once
   in sl_count (pw_first once) = 1 \<and> sl_count (pw_first twice) = 9"
  by (simp add: Let_def reconcile_consumables_def settle_slot_def set_bagged_def sweep_empty_rows_def carry_limit_def)

end
