(* ===== verification/Sanctions.thy ===== *)
theory Sanctions
  imports Accounts "HOL-Library.Sublist"
begin

text \<open>
  What ends a session and what that costs its account: the policy and the counting of violations on
  a connection (\<open>src/sanctions.js\<close>, \<open>src/socket/security-events.js\<close>), the ladder of suspensions,
  and the restriction an account is put under (\<open>src/restrictions.js\<close>). Times are milliseconds;
  \<open>now\<close> is an argument wherever the code reads the clock. Log lines are left out but for whether one
  was written, which is what \<open>noteViolation\<close> answers.
\<close>

section \<open>The policy\<close>

datatype disposition = Observe | Reject_Only | Reject_And_Terminate_Pattern | Operational_Close

definition policy :: "(string \<times> disposition) list" where
  "policy =
     [(''combat.forged_attacker'', Reject_And_Terminate_Pattern),
      (''combat.malformed_proposal'', Reject_And_Terminate_Pattern),
      (''position.not_a_place'', Reject_And_Terminate_Pattern),
      (''movement.endpoint_off_tile'', Reject_And_Terminate_Pattern),
      (''movement.segment_left_authored_tiles'', Reject_And_Terminate_Pattern),
      (''movement.step_too_large'', Reject_Only),
      (''movement.budget_exceeded'', Reject_Only),
      (''cast.not_granted'', Reject_Only),
      (''combat.no_matching_cast'', Reject_Only),
      (''combat.bomb_without_revive'', Reject_Only),
      (''combat.bomb_budget_exceeded'', Reject_Only),
      (''placement.no_permit'', Reject_Only),
      (''session.malformed_frame'', Operational_Close),
      (''session.packet_rate'', Operational_Close),
      (''combat.out_of_reach'', Observe),
      (''placement.crossed_geometry'', Observe),
      (''movement.endpoint_inside_geometry'', Observe),
      (''movement.segment_crossed_geometry'', Observe),
      (''protocol.unknown_opcode'', Observe),
      (''protocol.unknown_field'', Observe)]"

definition disposition_for :: "string \<Rightarrow> disposition" where
  "disposition_for rule = (case map_of policy rule of Some d \<Rightarrow> d | None \<Rightarrow> Observe)"

section \<open>Violations of a session\<close>

definition session_strikes_per_termination :: nat where
  "session_strikes_per_termination = 3"

definition session_strike_window :: int where
  "session_strike_window = 10 * 60 * 1000"

record decision =
  de_disposition :: disposition
  de_terminate :: bool
  de_strikes :: "nat option"

type_synonym strikes = "string \<rightharpoonup> int list"

definition record_session_violation :: "strikes \<Rightarrow> string \<Rightarrow> int \<Rightarrow> decision \<times> strikes" where
  "record_session_violation kept rule now =
     (if disposition_for rule \<noteq> Reject_And_Terminate_Pattern
      then (\<lparr>de_disposition = disposition_for rule, de_terminate = False, de_strikes = None\<rparr>, kept)
      else let recent = filter (\<lambda>t. now - t < session_strike_window)
                 ((case kept rule of None \<Rightarrow> [] | Some ts \<Rightarrow> ts) @ [now]) in
        if length recent < session_strikes_per_termination
        then (\<lparr>de_disposition = disposition_for rule, de_terminate = False, de_strikes = Some (length recent)\<rparr>,
              kept(rule \<mapsto> recent))
        else (\<lparr>de_disposition = disposition_for rule, de_terminate = True, de_strikes = Some (length recent)\<rparr>,
              kept(rule := None)))"

text \<open>What a rule saw since a line of it was last written.\<close>

record bucket =
  bu_count :: nat
  bu_since :: int
  bu_detail :: string

record watched =
  wt_account :: "int option"
  wt_member_account :: "int option"
  wt_strikes :: strikes
  wt_violations :: "string \<rightharpoonup> bucket"
  wt_terminated :: "(string \<times> int) option"
  wt_traffic :: "(int \<times> int) option"

definition window_ms :: int where
  "window_ms = 10000"

text \<open>Whose account answers for the session: its own, or its member's on a match worker.\<close>

definition answerable :: "watched \<Rightarrow> int option" where
  "answerable w = (case wt_account w of Some a \<Rightarrow> Some a | None \<Rightarrow> wt_member_account w)"

text \<open>The session after, whether a line was written, and the call of \<open>sanctionForSession\<close> if one was made.\<close>

definition note_violation ::
  "watched \<Rightarrow> string \<Rightarrow> string \<Rightarrow> int \<Rightarrow> watched \<times> bool \<times> (int option \<times> string) option" where
  "note_violation w rule detail now =
     (case record_session_violation (wt_strikes w) rule now of (d, kept) \<Rightarrow>
      let ends = de_terminate d \<and> wt_terminated w = None;
          w = w\<lparr>wt_strikes := kept, wt_terminated := (if ends then Some (rule, now) else wt_terminated w)\<rparr>;
          call = (if ends then Some (answerable w, rule) else None) in
        case wt_violations w rule of
          None \<Rightarrow>
            (w\<lparr>wt_violations := (wt_violations w)(rule \<mapsto> \<lparr>bu_count = 1, bu_since = now, bu_detail = detail\<rparr>)\<rparr>, True, call)
        | Some b \<Rightarrow>
            (if now - bu_since b < window_ms
             then (w\<lparr>wt_violations := (wt_violations w)(rule \<mapsto> b\<lparr>bu_count := bu_count b + 1, bu_detail := detail\<rparr>)\<rparr>, False, call)
             else (w\<lparr>wt_violations := (wt_violations w)(rule \<mapsto> \<lparr>bu_count = 0, bu_since = now, bu_detail = detail\<rparr>)\<rparr>, True, call)))"

definition traffic_window_ms :: int where
  "traffic_window_ms = 10000"

definition traffic_limit_per_second :: int where
  "traffic_limit_per_second = 240"

definition note_traffic :: "(real \<Rightarrow> string) \<Rightarrow> watched \<Rightarrow> int \<Rightarrow> int \<Rightarrow> watched \<times> bool" where
  "note_traffic detail w frames now =
     (case (case wt_traffic w of None \<Rightarrow> (now, 0) | Some t \<Rightarrow> t) of (since, so_far) \<Rightarrow>
      let all = so_far + frames in
      if now - since < traffic_window_ms then (w\<lparr>wt_traffic := Some (since, all)\<rparr>, False)
      else let per_second = of_int all / (of_int (now - since) / 1000);
               w = w\<lparr>wt_traffic := Some (now, 0)\<rparr> in
        if per_second \<le> of_int traffic_limit_per_second then (w, False)
        else (fst (note_violation w ''session.packet_rate'' (detail per_second) now), True))"

definition flush_violations :: "watched \<Rightarrow> watched" where
  "flush_violations w = w\<lparr>wt_violations := Map.empty\<rparr>"

definition new_session :: "int option \<Rightarrow> int option \<Rightarrow> watched" where
  "new_session account member =
     \<lparr>wt_account = account, wt_member_account = member, wt_strikes = Map.empty, wt_violations = Map.empty,
      wt_terminated = None, wt_traffic = None\<rparr>"

section \<open>The ladder\<close>

definition hour :: int where
  "hour = 60 * 60 * 1000"

definition year_hours :: int where
  "year_hours = 365 * 24"

definition ladder_hours :: "int \<Rightarrow> int" where
  "ladder_hours step = min (2 ^ nat (max 1 step)) year_hours"

definition ladder_steps :: int where
  "ladder_steps = \<lceil>log 2 (of_int year_hours)\<rceil>"

definition strikes_per_step :: nat where
  "strikes_per_step = 3"

definition strike_window :: int where
  "strike_window = 10 * 60 * 1000"

definition decay_ms :: int where
  "decay_ms = 30 * 24 * hour"

definition sanctionable :: "string list" where
  "sanctionable = [''combat.forged_attacker'', ''combat.malformed_proposal'', ''position.not_a_place'']"

definition empty_record :: sheet where
  "empty_record = \<lparr>sh_step = 0, sh_strikes = [], sh_until = 0, sh_last = 0\<rparr>"

definition decay :: "sheet \<Rightarrow> int \<Rightarrow> sheet" where
  "decay sheet now =
     (if sh_step sheet = 0 then sheet
      else let since = max (sh_last sheet) (sh_until sheet) in
        if since = 0 then sheet
        else let clean = (now - since) div decay_ms in
          if clean \<le> 0 then sheet else sheet\<lparr>sh_step := max 0 (sh_step sheet - clean)\<rparr>)"

definition sheet_or_empty :: "sheet option \<Rightarrow> sheet" where
  "sheet_or_empty r = (case r of None \<Rightarrow> empty_record | Some sheet \<Rightarrow> sheet)"

definition one_rung_up :: "sheet \<Rightarrow> int \<Rightarrow> sheet \<times> int" where
  "one_rung_up sheet now =
     (let step = min (sh_step sheet + 1) ladder_steps; hours = ladder_hours step in
      (\<lparr>sh_step = step, sh_strikes = [], sh_until = now + hours * hour, sh_last = now\<rparr>, hours))"

definition strike :: "sheet option \<Rightarrow> string \<Rightarrow> int \<Rightarrow> sheet option \<times> int option" where
  "strike r rule now =
     (if rule \<notin> set sanctionable then (r, None)
      else let sheet = decay (sheet_or_empty r) now;
               strikes = filter (\<lambda>t. now - t < strike_window) (sh_strikes sheet @ [now]) in
        if length strikes < strikes_per_step then (Some (sheet\<lparr>sh_strikes := strikes, sh_last := now\<rparr>), None)
        else case one_rung_up sheet now of (sheet, hours) \<Rightarrow> (Some sheet, Some hours))"

definition escalate :: "sheet option \<Rightarrow> int \<Rightarrow> sheet \<times> int" where
  "escalate r now = one_rung_up (decay (sheet_or_empty r) now) now"

definition suspension_remaining :: "sheet option \<Rightarrow> int \<Rightarrow> int" where
  "suspension_remaining r now = max 0 ((case r of None \<Rightarrow> 0 | Some sheet \<Rightarrow> sh_until sheet) - now)"

section \<open>Restricting an account\<close>

definition max_reason_length :: nat where
  "max_reason_length = 500"

definition server_actor :: int where
  "server_actor = 0"

text \<open>What the website asks for: a text or not as the reason, no end, an end no time can be read from, or one.\<close>

datatype asked_end = No_End | Not_A_Time | Ends_At int

datatype restriction_invalid = Needs_A_Reason | Reason_Too_Long | Not_A_Time_Given | Already_Passed

definition restriction_from ::
  "string option \<Rightarrow> asked_end \<Rightarrow> int option \<Rightarrow> int \<Rightarrow> restriction_invalid + restriction" where
  "restriction_from reason asked by_admin now =
     (case reason of
        None \<Rightarrow> Inl Needs_A_Reason
      | Some reason \<Rightarrow>
          if trim reason = [] then Inl Needs_A_Reason
          else if max_reason_length < length reason then Inl Reason_Too_Long
          else let made = (\<lambda>ends. \<lparr>rs_until = ends, rs_reason = trim reason, rs_by = by_admin, rs_at = now\<rparr>) in
            (case asked of
               No_End \<Rightarrow> Inr (made Indefinite)
             | Not_A_Time \<Rightarrow> Inl Not_A_Time_Given
             | Ends_At t \<Rightarrow> if t \<le> now then Inl Already_Passed else Inr (made (Until t))))"

definition set_restriction ::
  "(int \<Rightarrow> account) \<Rightarrow> int \<Rightarrow> restriction option \<Rightarrow> store \<Rightarrow> restriction option \<times> store" where
  "set_restriction fresh i r s = (r, save_account ((load_account fresh s i)\<lparr>ac_restriction := r\<rparr>) s)"

text \<open>\<open>current.until === null || Date.parse(current.until) >= record.until\<close>; a date that is missing or cannot be read compares false.\<close>

fun outlasts :: "until \<Rightarrow> int \<Rightarrow> bool" where
  "outlasts Indefinite t = True"
| "outlasts Missing t = False"
| "outlasts Unreadable t = False"
| "outlasts (Until u) t = (t \<le> u)"

record sanction_outcome =
  so_step :: int
  so_hours :: int
  so_until :: until
  so_kept :: bool

definition sanctioned :: "string \<Rightarrow> int \<Rightarrow> account \<Rightarrow> account \<times> sanction_outcome" where
  "sanctioned rule now a =
     (case escalate (ac_sanctions a) now of (record, hours) \<Rightarrow>
      let a = a\<lparr>ac_sanctions := Some record\<rparr>;
          kept = (case restriction_of a now of None \<Rightarrow> False | Some r \<Rightarrow> outlasts (rs_until r) (sh_until record));
          a = (if kept then a
               else a\<lparr>ac_restriction := Some \<lparr>rs_until = Until (sh_until record), rs_reason = ''anti-cheat: '' @ rule,
                        rs_by = Some server_actor, rs_at = now\<rparr>\<rparr>) in
      (a, \<lparr>so_step = sh_step record, so_hours = hours,
           so_until = (case ac_restriction a of None \<Rightarrow> Indefinite | Some r \<Rightarrow> rs_until r), so_kept = kept\<rparr>))"

definition sanction_account :: "(int \<Rightarrow> account) \<Rightarrow> int \<Rightarrow> string \<Rightarrow> int \<Rightarrow> store \<Rightarrow> sanction_outcome \<times> store" where
  "sanction_account fresh i rule now s =
     (case sanctioned rule now (load_account fresh s i) of (a, outcome) \<Rightarrow> (outcome, save_account a s))"

text \<open>Not where accounts are only claimed, and not for a session without an account.\<close>

definition sanction_for_session ::
  "bool \<Rightarrow> (int \<Rightarrow> account) \<Rightarrow> int option \<Rightarrow> string \<Rightarrow> int \<Rightarrow> store \<Rightarrow> store" where
  "sanction_for_session auth fresh account rule now s =
     (case account of
        None \<Rightarrow> s
      | Some i \<Rightarrow> if \<not> auth \<or> i = 0 then s else snd (sanction_account fresh i rule now s))"

text \<open>The restricted accounts, the most recently restricted first.\<close>

definition list_restrictions :: "int \<Rightarrow> store \<Rightarrow> (int \<times> string \<times> restriction) list" where
  "list_restrictions now s =
     sort_key (\<lambda>(_, _, r). - rs_at r)
       (List.map_filter (\<lambda>i. case sr_accounts s i of
            None \<Rightarrow> None
          | Some a \<Rightarrow> map_option (\<lambda>r. (i, ac_name a, r)) (restriction_of a now)) (sr_ids s))"

section \<open>A session ends for a pattern\<close>

text \<open>What happens on a connection: rules that saw something, with what they saw and when.\<close>

type_synonym seen = "string \<times> string \<times> int"

fun watch :: "watched \<Rightarrow> seen list \<Rightarrow> watched \<times> (int option \<times> string) list" where
  "watch w [] = (w, [])"
| "watch w ((rule, detail, now) # seen) =
     (case note_violation w rule detail now of (w, _, call) \<Rightarrow>
      case watch w seen of (w, calls) \<Rightarrow> (w, (case call of None \<Rightarrow> calls | Some c \<Rightarrow> c # calls)))"

definition moments :: "string \<Rightarrow> seen list \<Rightarrow> int list" where
  "moments rule seen = map (snd \<circ> snd) (filter (\<lambda>(r, _). r = rule) seen)"

text \<open>Three of one rule that ends sessions, the last within ten minutes of the first.\<close>

definition pattern :: "string \<Rightarrow> seen list \<Rightarrow> bool" where
  "pattern rule seen = (disposition_for rule = Reject_And_Terminate_Pattern
     \<and> (\<exists>a b c. subseq [a, b, c] (moments rule seen) \<and> c - a < session_strike_window))"

lemma moments_simps [simp]:
  "moments rule [] = []"
  "moments rule (seen @ [(r, d, t)]) = (if r = rule then moments rule seen @ [t] else moments rule seen)"
  by (simp_all add: moments_def)

lemma set_moments: "set (moments rule seen) \<subseteq> (snd \<circ> snd) ` set seen"
  by (auto simp: moments_def)

lemma watch_append:
  "watch w (seen @ seen') = (case watch w seen of (u, calls) \<Rightarrow> case watch u seen' of (v, calls') \<Rightarrow> (v, calls @ calls'))"
  by (induction w seen rule: watch.induct) (auto split: prod.splits option.splits)

lemma subseq_singleton: "subseq xs [y] \<longleftrightarrow> xs = [] \<or> xs = [y]"
  by (cases xs; cases "tl xs") auto

lemma subseq_snoc: "subseq (xs @ [x]) (ys @ [y]) \<longleftrightarrow> (x = y \<and> subseq xs ys) \<or> subseq (xs @ [x]) ys"
  unfolding subseq_append_iff [of "xs @ [x]" ys] subseq_singleton by (metis append_Nil2 append1_eq_conv)

lemma subseq_pair_sorted: "subseq [a, b] ts \<Longrightarrow> sorted ts \<Longrightarrow> a \<le> b"
  by (induction ts) (auto split: if_splits dest: list_emb_set subseq_order.trans)

text \<open>Of times in order, two or more are recent exactly when some two of them are.\<close>

lemma two_recent_iff:
  fixes ts :: "int list"
  assumes "sorted ts"
  shows "2 \<le> length (filter (\<lambda>t. now - t < w) ts) \<longleftrightarrow> (\<exists>a b. subseq [a, b] ts \<and> now - a < w)" (is "?few \<longleftrightarrow> ?pair")
proof
  assume ?few
  then obtain a b us where "filter (\<lambda>t. now - t < w) ts = a # b # us"
    by (metis Suc_le_length_iff numeral_2_eq_2)
  moreover have "subseq (filter (\<lambda>t. now - t < w) ts) ts" by (rule subseq_filter_left)
  ultimately have "subseq [a, b] ts" "a \<in> set (filter (\<lambda>t. now - t < w) ts)"
    by (auto elim: subseq_order.trans [rotated])
  then show ?pair by auto
next
  assume ?pair
  then obtain a b where ab: "subseq [a, b] ts" "now - a < w" by blast
  have "a \<le> b" by (rule subseq_pair_sorted [OF ab(1) assms])
  then have "now - b < w" using ab(2) by simp
  then have "subseq [a, b] (filter (\<lambda>t. now - t < w) ts)"
    using subseq_filter [OF ab(1), of "\<lambda>t. now - t < w"] ab(2) by simp
  then show ?few using list_emb_length by fastforce
qed

definition trio :: "int list \<Rightarrow> bool" where
  "trio ts = (\<exists>a b c. subseq [a, b, c] ts \<and> c - a < session_strike_window)"

lemma pattern_trio: "pattern rule seen \<longleftrightarrow> disposition_for rule = Reject_And_Terminate_Pattern \<and> trio (moments rule seen)"
  by (simp add: pattern_def trio_def)

lemma trio_snoc:
  assumes "sorted ts"
  shows "trio (ts @ [now]) \<longleftrightarrow> trio ts \<or> 2 \<le> length (filter (\<lambda>t. now - t < session_strike_window) ts)"
proof -
  have "subseq [a, b, c] (ts @ [now]) \<longleftrightarrow> (c = now \<and> subseq [a, b] ts) \<or> subseq [a, b, c] ts" for a b c
    using subseq_snoc [of "[a, b]" c ts now] by simp
  then have "trio (ts @ [now]) \<longleftrightarrow>
      (\<exists>a b c. c = now \<and> subseq [a, b] ts \<and> c - a < session_strike_window) \<or> trio ts"
    unfolding trio_def by (metis (lifting))
  then show ?thesis unfolding two_recent_iff [OF assms] by simp metis
qed

text \<open>What is kept of a rule: its moments that were still recent when it last saw something.\<close>

definition recent :: "int list \<Rightarrow> int list" where
  "recent ts = filter (\<lambda>t. last ts - t < session_strike_window) ts"

lemma recent_snoc:
  assumes "sorted (ts @ [now])"
  shows "filter (\<lambda>t. now - t < session_strike_window) (recent ts @ [now]) = recent (ts @ [now])"
proof (cases "ts = []")
  case False
  then have "last ts \<le> now" using assms by (simp add: sorted_append)
  then show ?thesis by (auto simp: recent_def intro!: filter_cong)
qed (simp add: recent_def)

lemma length_recent_snoc:
  "length (recent (ts @ [now])) = Suc (length (filter (\<lambda>t. now - t < session_strike_window) ts))"
  by (simp add: recent_def session_strike_window_def)

definition kept_of :: "watched \<Rightarrow> string \<Rightarrow> int list" where
  "kept_of w rule = (case wt_strikes w rule of None \<Rightarrow> [] | Some ts \<Rightarrow> ts)"

text \<open>One occurrence: what it does to what is kept, and when it ends the session.\<close>

lemma record_session_violation_effect:
  fixes kept rule now
  defines "fresh \<equiv> filter (\<lambda>t. now - t < session_strike_window) ((case kept rule of None \<Rightarrow> [] | Some ts \<Rightarrow> ts) @ [now])"
  shows "record_session_violation kept rule now =
    (if disposition_for rule \<noteq> Reject_And_Terminate_Pattern then (\<lparr>de_disposition = disposition_for rule, de_terminate = False, de_strikes = None\<rparr>, kept)
     else (\<lparr>de_disposition = disposition_for rule, de_terminate = 3 \<le> length fresh, de_strikes = Some (length fresh)\<rparr>,
           kept(rule := (if 3 \<le> length fresh then None else Some fresh))))"
  by (simp add: record_session_violation_def fresh_def Let_def session_strikes_per_termination_def)

lemma note_violation_effect:
  assumes "note_violation w rule detail now = (w', wrote, call)"
    and "record_session_violation (wt_strikes w) rule now = (d, kept)"
  shows "answerable w' = answerable w" and "wt_strikes w' = kept"
    and "wt_terminated w' = (if de_terminate d \<and> wt_terminated w = None then Some (rule, now) else wt_terminated w)"
    and "call = (if de_terminate d \<and> wt_terminated w = None then Some (answerable w, rule) else None)"
  using assms(1) unfolding note_violation_def assms(2)
  by (simp_all add: Let_def answerable_def split: option.splits if_splits) (auto simp: answerable_def)

definition watched_ok :: "int option \<Rightarrow> seen list \<Rightarrow> watched \<Rightarrow> (int option \<times> string) list \<Rightarrow> bool" where
  "watched_ok account seen w calls = (answerable w = account
     \<and> (case wt_terminated w of
          None \<Rightarrow> calls = [] \<and> (\<forall>rule. \<not> pattern rule seen)
            \<and> (\<forall>rule. disposition_for rule = Reject_And_Terminate_Pattern \<longrightarrow> kept_of w rule = recent (moments rule seen))
        | Some (rule, _) \<Rightarrow> calls = [(account, rule)] \<and> pattern rule seen))"

lemma sorted_moments: "sorted (map (snd \<circ> snd) seen) \<Longrightarrow> sorted (moments rule seen)"
  unfolding moments_def by (induction seen) auto

lemma pattern_stays: "pattern rule seen \<Longrightarrow> pattern rule (seen @ [x])"
  by (cases x) (auto simp: pattern_def intro: subseq_rev_drop_many)

lemma pattern_snoc_other: "r \<noteq> rule \<Longrightarrow> pattern r (seen @ [(rule, d, t)]) = pattern r seen"
  by (simp add: pattern_def)

lemma watched_step:
  assumes ok: "watched_ok account seen w calls" and srt: "sorted (map (snd \<circ> snd) (seen @ [(rule, detail, now)]))"
    and step: "note_violation w rule detail now = (w', wrote, call)"
  shows "watched_ok account (seen @ [(rule, detail, now)]) w' (calls @ (case call of None \<Rightarrow> [] | Some c \<Rightarrow> [c]))"
proof (cases "wt_terminated w")
  case None
  obtain d kept where rec: "record_session_violation (wt_strikes w) rule now = (d, kept)" by force
  note effect = note_violation_effect [OF step rec]
  have ok': "calls = []" "answerable w = account" "\<not> pattern r seen"
    "disposition_for r = Reject_And_Terminate_Pattern \<Longrightarrow> kept_of w r = recent (moments r seen)" for r
    using ok None by (simp_all add: watched_ok_def)
  show ?thesis
  proof (cases "disposition_for rule = Reject_And_Terminate_Pattern")
    case False
    then have "\<not> pattern r (seen @ [(rule, detail, now)])" for r using ok'(3) [of r] by (auto simp: pattern_def)
    moreover have "\<not> de_terminate d" "kept = wt_strikes w"
      using False rec by (auto simp: record_session_violation_effect)
    ultimately show ?thesis using False effect None ok' by (auto simp: watched_ok_def kept_of_def)
  next
    case True
    have m: "sorted (moments rule seen @ [now])"
      using sorted_moments [OF srt, of rule] by simp
    have fresh: "filter (\<lambda>t. now - t < session_strike_window) ((case wt_strikes w rule of None \<Rightarrow> [] | Some ts \<Rightarrow> ts) @ [now])
        = recent (moments rule seen @ [now])"
      using recent_snoc [OF m] ok'(4) [OF True] by (simp add: kept_of_def)
    have ends: "de_terminate d \<longleftrightarrow> pattern rule (seen @ [(rule, detail, now)])"
      using rec [unfolded record_session_violation_effect fresh] trio_snoc [of "moments rule seen" now] m True ok'(3) [of rule]
      by (auto simp: length_recent_snoc pattern_trio sorted_append)
    have "kept = (wt_strikes w)(rule \<mapsto> recent (moments rule seen @ [now]))" if "\<not> de_terminate d"
      using rec True that unfolding record_session_violation_effect fresh by auto
    moreover have "r = rule" if "pattern r (seen @ [(rule, detail, now)])" for r
      using that ok'(3) [of r] pattern_snoc_other by blast
    ultimately show ?thesis
      using effect None ok' ends True
      by (auto simp: watched_ok_def kept_of_def)
  qed
next
  case (Some t)
  obtain d kept where rec: "record_session_violation (wt_strikes w) rule now = (d, kept)" by force
  show ?thesis using note_violation_effect [OF step rec] Some ok by (auto simp: watched_ok_def pattern_stays)
qed

lemma watch_ok:
  assumes "sorted (map (snd \<circ> snd) seen)" and "watch (new_session account member) seen = (w, calls)"
  shows "watched_ok (case account of None \<Rightarrow> member | Some a \<Rightarrow> Some a) seen w calls"
  using assms
proof (induction seen arbitrary: w calls rule: rev_induct)
  case Nil
  then show ?case
    by (auto simp: watched_ok_def new_session_def answerable_def pattern_def kept_of_def recent_def split: option.split)
next
  case (snoc x seen)
  obtain rule detail now where x: "x = (rule, detail, now)" by (cases x)
  obtain u calls' where u: "watch (new_session account member) seen = (u, calls')" by force
  obtain v wrote call where v: "note_violation u rule detail now = (v, wrote, call)" by (metis prod_cases3)
  have "w = v" "calls = calls' @ (case call of None \<Rightarrow> [] | Some c \<Rightarrow> [c])"
    using snoc.prems(2) by (auto simp: x watch_append u v split: option.splits)
  moreover have "sorted (map (snd \<circ> snd) seen)" using snoc.prems(1) by (simp add: sorted_append comp_def)
  ultimately show ?case
    using watched_step [OF snoc.IH [OF _ u] snoc.prems(1) [unfolded x] v] unfolding x by blast
qed

text \<open>C31: A session is ended for a pattern and for nothing else. Over everything that is seen on a connection,
  in the order of time, its termination is requested exactly when some rule of the policy's terminating
  kind has seen three occurrences of its own within ten minutes; the request names such a rule, and it
  is passed on to the ladder once, with the account that answers for the session.\<close>

theorem session_ends_for_a_pattern:
  assumes "sorted (map (snd \<circ> snd) seen)" and "watch (new_session account member) seen = (w, calls)"
  shows "(wt_terminated w \<noteq> None \<longleftrightarrow> (\<exists>rule. pattern rule seen))
    \<and> (case wt_terminated w of
         None \<Rightarrow> calls = []
       | Some (rule, _) \<Rightarrow> pattern rule seen
           \<and> calls = [((case account of None \<Rightarrow> member | Some a \<Rightarrow> Some a), rule)])"
  using watch_ok [OF assms] by (auto simp: watched_ok_def split: option.splits)

definition demo_seen :: "seen list" where
  "demo_seen =
     [(''position.not_a_place'', [], 0), (''combat.forged_attacker'', [], 1000),
      (''position.not_a_place'', [], 300000), (''movement.step_too_large'', [], 300000),
      (''position.not_a_place'', [], 599999)]"

theorem session_ends_for_a_pattern_witness:
  "\<exists>w calls rule. watch (new_session None (Some 7)) demo_seen = (w, calls)
     \<and> wt_terminated w \<noteq> None \<and> pattern rule demo_seen"
proof -
  obtain w calls where w: "watch (new_session None (Some 7)) demo_seen = (w, calls)" by force
  have "wt_terminated (fst (watch (new_session None (Some 7)) demo_seen)) = Some (''position.not_a_place'', 599999)"
    by code_simp
  then have ended: "wt_terminated w \<noteq> None" by (simp add: w)
  have "sorted (map (snd \<circ> snd) demo_seen)" by (simp add: demo_seen_def)
  from session_ends_for_a_pattern [OF this w] ended w show ?thesis by blast
qed

section \<open>What a sanction does to the account\<close>

lemma ladder_steps_eq [simp]: "ladder_steps = 14"
proof -
  have "13 < log 2 (8760 :: real)" using less_log_of_power [of 2 13 8760] by simp
  moreover have "log 2 (8760 :: real) \<le> 14" using log_of_power_le [of 8760 2 14] by simp
  ultimately show ?thesis by (simp add: ladder_steps_def year_hours_def ceiling_eq_iff)
qed

lemma ladder_hours_bounds: "2 \<le> ladder_hours step" "ladder_hours step \<le> year_hours"
proof -
  have "(2 :: int) ^ 1 \<le> 2 ^ nat (max 1 step)" by (rule power_increasing) simp_all
  then show "2 \<le> ladder_hours step" by (simp add: ladder_hours_def year_hours_def)
qed (simp add: ladder_hours_def)

text \<open>The year at the top is reached on the fourteenth rung and on no lower one.\<close>

lemma year_is_the_top_rung: "ladder_hours step = year_hours \<longleftrightarrow> ladder_steps \<le> step"
proof (cases "14 \<le> step")
  case True
  then have "(2 :: int) ^ 14 \<le> 2 ^ nat (max 1 step)" by (intro power_increasing) simp_all
  then show ?thesis using True by (simp add: ladder_hours_def year_hours_def)
next
  case False
  then have "(2 :: int) ^ nat (max 1 step) \<le> 2 ^ 13" by (intro power_increasing) simp_all
  then show ?thesis using False by (simp add: ladder_hours_def year_hours_def)
qed

definition sheet_ok :: "sheet \<Rightarrow> bool" where
  "sheet_ok sheet = (0 \<le> sh_step sheet \<and> sh_step sheet \<le> ladder_steps)"

lemma decay_down: "sheet_ok sheet \<Longrightarrow> sheet_ok (decay sheet now) \<and> sh_step (decay sheet now) \<le> sh_step sheet"
  by (auto simp: decay_def sheet_ok_def Let_def)

lemma empty_record_ok [simp]: "sheet_ok (sheet_or_empty None)"
  by (simp add: sheet_or_empty_def empty_record_def sheet_ok_def)

lemma one_rung_up_effect:
  assumes "sheet_ok sheet" and "one_rung_up sheet now = (record, hours)"
  shows "sheet_ok record" and "0 < sh_step record" and "sh_step record \<le> sh_step sheet + 1"
    and "hours = ladder_hours (sh_step record)" and "sh_until record = now + hours * hour"
  using assms by (auto simp: one_rung_up_def sheet_ok_def Let_def)

lemma escalate_effect:
  assumes "sheet_ok (sheet_or_empty r)" and "escalate r now = (record, hours)"
  shows "sheet_ok record" and "0 < sh_step record" and "sh_step record \<le> sh_step (sheet_or_empty r) + 1"
    and "hours = ladder_hours (sh_step record)" and "sh_until record = now + hours * hour"
  using decay_down [OF assms(1), of now] one_rung_up_effect [OF _ assms(2) [unfolded escalate_def]] by auto

lemma strike_ok: "sheet_ok (sheet_or_empty r) \<Longrightarrow> sheet_ok (sheet_or_empty (fst (strike r rule now)))"
  using decay_down [of "sheet_or_empty r" now] one_rung_up_effect(1) [of "decay (sheet_or_empty r) now" now]
  by (auto simp: strike_def Let_def sheet_or_empty_def sheet_ok_def split: prod.split)

text \<open>A month clean is one rung down, and no more than there are.\<close>

lemma clean_months_count:
  assumes "sh_step sheet \<noteq> 0" and "max (sh_last sheet) (sh_until sheet) \<noteq> 0"
    and "now = max (sh_last sheet) (sh_until sheet) + months * decay_ms + extra"
    and "0 < months" and "0 \<le> extra" and "extra < decay_ms"
  shows "sh_step (decay sheet now) = max 0 (sh_step sheet - months)"
proof -
  have "(now - max (sh_last sheet) (sh_until sheet)) div decay_ms = months"
    using assms(3-6) by (simp add: div_pos_pos_trivial algebra_simps)
  then show ?thesis using assms(1,2,4) by (simp add: decay_def Let_def)
qed

lemma restricted_by_outlasting:
  "rs_until r = u \<Longrightarrow> outlasts u t \<Longrightarrow> now < t \<Longrightarrow> ac_restriction a = Some r \<Longrightarrow> restriction_of a now \<noteq> None"
  by (cases u) (auto simp: restriction_of_def)

text \<open>A sanction keeps its account out for its rung of the ladder: one rung up from where the clean months
  left it, two hours doubling to a year at the fourteenth, and the account is restricted at every moment
  until that is over, whatever it was restricted by before.\<close>

lemma sanction_lasts_its_rung:
  assumes "sheet_ok (sheet_or_empty (ac_sanctions a))"
  shows "case sanctioned rule now a of (a', outcome) \<Rightarrow>
    so_step outcome = min (sh_step (decay (sheet_or_empty (ac_sanctions a)) now) + 1) 14
    \<and> 0 < so_step outcome \<and> so_step outcome \<le> sh_step (sheet_or_empty (ac_sanctions a)) + 1
    \<and> so_hours outcome = min (2 ^ nat (so_step outcome)) 8760
    \<and> sheet_ok (sheet_or_empty (ac_sanctions a'))
    \<and> (\<forall>t. now \<le> t \<and> t < now + so_hours outcome * hour \<longrightarrow> is_restricted a' t)"
proof -
  obtain sheet hours where e: "escalate (ac_sanctions a) now = (sheet, hours)" by force
  note effect = escalate_effect [OF assms e]
  have step: "sh_step sheet = min (sh_step (decay (sheet_or_empty (ac_sanctions a)) now) + 1) 14"
    using e by (auto simp: escalate_def one_rung_up_def Let_def)
  have hours: "hours = min (2 ^ nat (sh_step sheet)) 8760"
    using effect(2,4) by (simp add: ladder_hours_def year_hours_def max_def)
  obtain a' outcome where s: "sanctioned rule now a = (a', outcome)" by force
  have outcome: "so_step outcome = sh_step sheet" "so_hours outcome = hours" "ac_sanctions a' = Some sheet"
    using s by (auto simp: sanctioned_def e Let_def)
  have "is_restricted a' t" if "now \<le> t" "t < sh_until sheet" for t
    using s that restricted_by_outlasting [of _ _ "sh_until sheet" t]
    by (auto simp: sanctioned_def e Let_def is_restricted_def restriction_of_def split: option.splits until.splits if_splits)
  then have held: "\<forall>t. now \<le> t \<and> t < now + so_hours outcome * hour \<longrightarrow> is_restricted a' t"
    unfolding outcome effect(5) by blast
  have ok: "sheet_ok (sheet_or_empty (ac_sanctions a'))" using effect(1) by (simp add: outcome sheet_or_empty_def)
  show ?thesis
    unfolding s prod.case outcome(1) using effect(2,3) step hours [folded outcome(2)] ok held by blast
qed

text \<open>A sanction never lets anybody off. A restriction that is in force and whose end can be read, or that
  has none, is never shortened by it: whenever the account was restricted it still is.\<close>

lemma sanction_never_lets_off:
  assumes "restriction_of a now = Some r" and "rs_until r \<noteq> Missing" and "rs_until r \<noteq> Unreadable"
    and "now \<le> t" and "is_restricted a t"
  shows "is_restricted (fst (sanctioned rule now a)) t"
proof -
  obtain sheet hours where e: "escalate (ac_sanctions a) now = (sheet, hours)" by force
  have r: "ac_restriction a = Some r" using assms(1) by (auto simp: restriction_of_def split: option.splits until.splits if_splits)
  show ?thesis
  proof (cases "outlasts (rs_until r) (sh_until sheet)")
    case True
    then have "ac_restriction (fst (sanctioned rule now a)) = Some r"
      using assms(1) r by (simp add: sanctioned_def e Let_def restriction_of_def)
    then show ?thesis using assms(5) r by (simp add: is_restricted_def restriction_of_def)
  next
    case False
    then obtain u where "rs_until r = Until u" "u < sh_until sheet" using assms(2,3) by (cases "rs_until r") auto
    then show ?thesis
      using assms(1,5) r by (auto simp: sanctioned_def e Let_def restriction_of_def is_restricted_def split: if_splits)
  qed
qed

definition demo_restricted :: account where
  "demo_restricted =
     \<lparr>ac_id = 5, ac_name = ''five'', ac_gold = 0, ac_items = [], ac_chests = [], ac_listings = [],
      ac_avatars = [], ac_stackables = [], ac_buckets_weapon = 0, ac_market_barred = False,
      ac_restriction = Some \<lparr>rs_until = Until 90000000, rs_reason = ''told'', rs_by = Some 2, rs_at = 0\<rparr>,
      ac_sanctions = Some \<lparr>sh_step = 2, sh_strikes = [], sh_until = 1000, sh_last = 500\<rparr>,
      ac_basic_keys = 0, ac_uncommon_keys = 0, ac_rare_keys = 0, ac_legendary_keys = 0\<rparr>"

lemma sanction_lasts_its_rung_witness:
  "so_hours (snd (sanctioned ''position.not_a_place'' 2000 demo_restricted)) = 8
   \<and> is_restricted (fst (sanctioned ''position.not_a_place'' 2000 demo_restricted)) 28000000"
proof -
  obtain a' outcome where s: "sanctioned ''position.not_a_place'' 2000 demo_restricted = (a', outcome)" by force
  have step: "decay (sheet_or_empty (ac_sanctions demo_restricted)) 2000 = \<lparr>sh_step = 2, sh_strikes = [], sh_until = 1000, sh_last = 500\<rparr>"
    by (simp add: decay_def sheet_or_empty_def demo_restricted_def Let_def decay_ms_def hour_def)
  have "sheet_ok (sheet_or_empty (ac_sanctions demo_restricted))"
    by (simp add: sheet_or_empty_def demo_restricted_def sheet_ok_def)
  from sanction_lasts_its_rung [OF this, of 2000 "''position.not_a_place''"]
  have "so_step outcome = 3" "so_hours outcome = min (2 ^ nat (so_step outcome)) 8760"
    "\<forall>t. 2000 \<le> t \<and> t < 2000 + so_hours outcome * hour \<longrightarrow> is_restricted a' t"
    by (simp_all only: s step prod.case) simp_all
  then show ?thesis by (simp add: s hour_def)
qed

lemma sanction_never_lets_off_witness:
  "is_restricted (fst (sanctioned ''position.not_a_place'' 2000 demo_restricted)) 89999999"
  using sanction_never_lets_off [of demo_restricted 2000 _ 89999999]
  by (simp add: demo_restricted_def restriction_of_def is_restricted_def)

section \<open>What the website may ask for\<close>

text \<open>A restriction the website may ask for is one that holds: what is accepted has a reason, trimmed and of
  at most 500 characters, is in force from that moment until the end it names and no longer, or for good
  when it names none; what is refused is refused for what is wrong with it, first things first.\<close>

lemma restriction_asked_for_holds:
  "case restriction_from reason asked admin now of
     Inr r \<Rightarrow> (\<exists>words. reason = Some words \<and> rs_reason r = trim words) \<and> rs_reason r \<noteq> [] \<and> length (rs_reason r) \<le> 500
       \<and> (\<forall>t. is_restricted (a\<lparr>ac_restriction := Some r\<rparr>) t = (case asked of Ends_At u \<Rightarrow> t < u | _ \<Rightarrow> True))
       \<and> is_restricted (a\<lparr>ac_restriction := Some r\<rparr>) now
   | Inl why \<Rightarrow> why = (case reason of None \<Rightarrow> Needs_A_Reason | Some words \<Rightarrow>
       if trim words = [] then Needs_A_Reason else if 500 < length words then Reason_Too_Long
       else if asked = Not_A_Time then Not_A_Time_Given else Already_Passed)
       \<and> (why = Already_Passed \<longrightarrow> (\<exists>u. asked = Ends_At u \<and> u \<le> now))"
proof (cases reason)
  case (Some words)
  show ?thesis
    using length_trim [of words]
    by (cases asked) (auto simp: Some restriction_from_def max_reason_length_def Let_def is_restricted_def restriction_of_def)
qed (simp add: restriction_from_def)

section \<open>Where the code departs from its description\<close>

text \<open>
  An end that cannot be read is in force, "not a reason to let somebody off", and a sanction is said to
  leave standing what lasts longer. It replaces such a restriction by two hours.
\<close>

lemma unreadable_end_is_cut_short:
  defines "a \<equiv> demo_restricted\<lparr>ac_restriction := Some \<lparr>rs_until = Unreadable, rs_reason = ''told'', rs_by = Some 2, rs_at = 0\<rparr>,
                 ac_sanctions := None\<rparr>"
  shows "is_restricted a 8000000" and "\<not> is_restricted (fst (sanctioned ''position.not_a_place'' 2000 a)) 8000000"
  by (simp_all add: a_def demo_restricted_def is_restricted_def restriction_of_def sanctioned_def escalate_def
      one_rung_up_def decay_def sheet_or_empty_def empty_record_def Let_def ladder_hours_def year_hours_def hour_def)

end
