(* ===== verification/Social.thy ===== *)
theory Social
  imports Prelude
begin

text \<open>
  Friends, blocks and friend requests (\<open>src/social.js\<close> and the friend methods of
  \<open>src/rpc-handlers.js\<close>). The three lists of an account are stored as JSON text; the model keeps the
  numbers they hold. What an account holds is what storage has: a change counts when it is saved, as it
  does for every account that is not in play. Who is online and where (\<open>presence.js\<close>), the next
  object id, the trophies' and names' other uses, and what a new account starts with, are arguments.
\<close>

section \<open>Accounts, as far as friends go\<close>

record friend_request =
  fq_id :: int
  fq_account :: int
  fq_to :: "int option"
  fq_state :: "int option"
  fq_name :: string
  fq_trophies :: int
  fq_skin :: int
  fq_facebook :: "string option"
  fq_code :: "string option"
  fq_created :: "int option"

record profile =
  pf_id :: int
  pf_name :: string
  pf_trophies :: int
  pf_avatars :: "(int \<times> int) list"
  pf_active :: int
  pf_friends :: "int list"
  pf_ignored :: "int list"
  pf_requests :: "friend_request list"

text \<open>The accounts the server holds, and every change of a friendship that was announced, in order.\<close>

record community =
  co_people :: "int \<Rightarrow> profile option"
  co_changes :: "(int \<times> int \<times> bool) list"

definition put_profile :: "int \<Rightarrow> profile \<Rightarrow> community \<Rightarrow> community" where
  "put_profile i p s = s\<lparr>co_people := (co_people s)(i \<mapsto> p)\<rparr>"

interpretation profiles: keyed_store co_people put_profile
  by unfold_locales (simp add: put_profile_def)

definition save_profile :: "profile \<Rightarrow> community \<Rightarrow> community" where
  "save_profile p s = put_profile (pf_id p) p s"

definition load_existing :: "community \<Rightarrow> int \<Rightarrow> profile option" where
  "load_existing s i = (if i \<le> 0 then None else co_people s i)"

text \<open>
  \<open>loadAccount\<close> makes and stores the account of an id nobody has, with empty lists; \<open>look\<close> is the name
  and the avatars of the template. An id no account can have is refused: \<open>None\<close>.
\<close>

definition new_profile :: "(int \<Rightarrow> string \<times> (int \<times> int) list \<times> int) \<Rightarrow> int \<Rightarrow> profile" where
  "new_profile look i =
     (case look i of (name, avatars, active) \<Rightarrow>
       \<lparr>pf_id = i, pf_name = name, pf_trophies = 0, pf_avatars = avatars, pf_active = active,
        pf_friends = [], pf_ignored = [], pf_requests = []\<rparr>)"

definition load_or_make ::
  "(int \<Rightarrow> string \<times> (int \<times> int) list \<times> int) \<Rightarrow> community \<Rightarrow> int \<Rightarrow> (profile \<times> community) option" where
  "load_or_make look s i =
     (case co_people s i of
        Some p \<Rightarrow> Some (p, s)
      | None \<Rightarrow> if i \<le> 0 \<or> 4294967295 < i then None
                else Some (new_profile look i, put_profile i (new_profile look i) s))"

section \<open>Friend codes\<close>

definition alphabet :: string where
  "alphabet = ''ABCDEFGHJKLMNPQRTUVWXY0123456789''"

fun code_digits :: "nat \<Rightarrow> string" where
  "code_digits i = (if i = 0 then [] else code_digits (i div 32) @ [alphabet ! (i mod 32)])"

declare code_digits.simps [simp del]

definition pad_start :: "nat \<Rightarrow> char \<Rightarrow> string \<Rightarrow> string" where
  "pad_start n c s = replicate (n - length s) c @ s"

definition friend_code_of :: "int \<Rightarrow> string option" where
  "friend_code_of i = (if i \<le> 0 then None else Some (pad_start 6 (alphabet ! 0) (code_digits (nat i))))"

fun position_of :: "char \<Rightarrow> string \<Rightarrow> nat option" where
  "position_of c [] = None"
| "position_of c (d # ds) = (if c = d then Some 0 else map_option Suc (position_of c ds))"

fun read_code :: "int \<Rightarrow> string \<Rightarrow> int option" where
  "read_code i [] = Some i"
| "read_code i (c # cs) =
     (case position_of c alphabet of
        None \<Rightarrow> None
      | Some digit \<Rightarrow>
          let i = i * int (length alphabet) + int digit in
          if \<not> is_safe_integer (Whole i) then None else read_code i cs)"

definition account_id_from_code :: "string \<Rightarrow> int option" where
  "account_id_from_code code =
     (let text = map to_upper (trim code) in
      if text = [] then None
      else case read_code 0 text of None \<Rightarrow> None | Some i \<Rightarrow> if 0 < i then Some i else None)"

text \<open>What the invite box or the summary screen names.\<close>

datatype named = By_Number int | By_Text string

definition digit_value :: "char \<Rightarrow> nat" where
  "digit_value c = of_char c - 48"

definition all_digits :: "string \<Rightarrow> bool" where
  "all_digits s = (s \<noteq> [] \<and> (\<forall>c \<in> set s. 48 \<le> (of_char c :: nat) \<and> (of_char c :: nat) \<le> 57))"

definition number_of :: "string \<Rightarrow> int" where
  "number_of s = foldl (\<lambda>n c. n * 10 + int (digit_value c)) 0 s"

definition holds_account :: "community \<Rightarrow> int option \<Rightarrow> int option" where
  "holds_account s i = (case i of None \<Rightarrow> None | Some i \<Rightarrow> if i \<noteq> 0 \<and> co_people s i \<noteq> None then Some i else None)"

definition named_account_id :: "community \<Rightarrow> named \<Rightarrow> int option" where
  "named_account_id s value =
     (case value of
        By_Number n \<Rightarrow> holds_account s (Some n)
      | By_Text typed \<Rightarrow>
          let text = trim typed in
          if text = [] then None
          else case (if all_digits text then holds_account s (Some (number_of text)) else None) of
            Some i \<Rightarrow> Some i
          | None \<Rightarrow> holds_account s (account_id_from_code text))"

section \<open>Rows the client is shown\<close>

definition active_skin_of :: "profile \<Rightarrow> int" where
  "active_skin_of p =
     (case find_row (\<lambda>(i, _). i = pf_active p) (pf_avatars p) of
        Some (_, skin) \<Rightarrow> skin
      | None \<Rightarrow> (case pf_avatars p of [] \<Rightarrow> 0 | (_, skin) # _ \<Rightarrow> skin))"

record friend_row =
  fr_account :: int
  fr_name :: string
  fr_trophies :: int
  fr_skin :: int
  fr_ingame :: bool
  fr_code :: "string option"
  fr_online :: bool
  fr_dungeon :: int

text \<open>\<open>roll\<close> is the presence roll: where an account that is online is.\<close>

definition friend_row_of :: "(int \<Rightarrow> int option) \<Rightarrow> profile \<Rightarrow> bool \<Rightarrow> friend_row" where
  "friend_row_of roll p ingame =
     \<lparr>fr_account = pf_id p, fr_name = pf_name p, fr_trophies = pf_trophies p, fr_skin = active_skin_of p,
      fr_ingame = ingame, fr_code = friend_code_of (pf_id p),
      fr_online = (ingame \<and> roll (pf_id p) \<noteq> None),
      fr_dungeon = (if ingame then (case roll (pf_id p) of None \<Rightarrow> 0 | Some node \<Rightarrow> node) else 0)\<rparr>"

definition request_row_of :: "friend_request \<Rightarrow> int \<Rightarrow> friend_request" where
  "request_row_of r recipient =
     r\<lparr>fq_facebook := Some (case fq_facebook r of None \<Rightarrow> [] | Some t \<Rightarrow> t),
       fq_to := Some (case fq_to r of None \<Rightarrow> recipient | Some t \<Rightarrow> t),
       fq_state := Some (case fq_state r of None \<Rightarrow> 0 | Some n \<Rightarrow> n)\<rparr>"

definition load_known :: "community \<Rightarrow> int list \<Rightarrow> profile list" where
  "load_known s ids = List.map_filter (co_people s) ids"

definition friend_data_for :: "(int \<Rightarrow> int option) \<Rightarrow> community \<Rightarrow> profile \<Rightarrow> friend_row list" where
  "friend_data_for roll s p = map (\<lambda>q. friend_row_of roll q True) (load_known s (pf_friends p))"

definition ignored_data_for :: "(int \<Rightarrow> int option) \<Rightarrow> community \<Rightarrow> profile \<Rightarrow> friend_row list" where
  "ignored_data_for roll s p = map (\<lambda>q. friend_row_of roll q False) (load_known s (pf_ignored p))"

text \<open>\<open>DRFriendRequestPending\<close>: nothing pending is \<open>false\<close>.\<close>

definition pending_for :: "profile \<Rightarrow> friend_request list option" where
  "pending_for p =
     (case map (\<lambda>r. request_row_of r (pf_id p)) (filter (\<lambda>r. fq_account r \<notin> set (pf_ignored p)) (pf_requests p)) of
        [] \<Rightarrow> None
      | rows \<Rightarrow> Some rows)"

section \<open>Friendships, made and undone\<close>

definition blocked_between :: "profile \<Rightarrow> profile \<Rightarrow> bool" where
  "blocked_between p q = (pf_id q \<in> set (pf_ignored p) \<or> pf_id p \<in> set (pf_ignored q))"

definition are_friends :: "profile \<Rightarrow> profile \<Rightarrow> bool" where
  "are_friends p q = (pf_id q \<in> set (pf_friends p) \<and> pf_id p \<in> set (pf_friends q) \<and> \<not> blocked_between p q)"

definition followable_among :: "community \<Rightarrow> profile option \<Rightarrow> int list \<Rightarrow> int list" where
  "followable_among s account ids =
     (case account of
        None \<Rightarrow> []
      | Some p \<Rightarrow> filter (\<lambda>i. i \<in> set (pf_friends p) \<and> (case load_existing s i of None \<Rightarrow> False | Some q \<Rightarrow> are_friends p q))
          (rev (remdups (rev ids))))"

definition announce_change :: "int \<Rightarrow> int \<Rightarrow> bool \<Rightarrow> community \<Rightarrow> community" where
  "announce_change i j made s = s\<lparr>co_changes := co_changes s @ [(i, j, made)]\<rparr>"

text \<open>Of each pair, whether it changed; those that did are saved, together.\<close>

definition save_touched :: "bool \<times> profile \<Rightarrow> bool \<times> profile \<Rightarrow> community \<Rightarrow> community" where
  "save_touched x y s =
     (let s = (if fst x then save_profile (snd x) s else s) in if fst y then save_profile (snd y) s else s)"

definition add_friend :: "profile \<Rightarrow> int \<Rightarrow> bool \<times> profile" where
  "add_friend p other =
     (if other \<in> set (pf_friends p) then (False, p) else (True, p\<lparr>pf_friends := pf_friends p @ [other]\<rparr>))"

definition drop_friend :: "profile \<Rightarrow> int \<Rightarrow> bool \<times> profile" where
  "drop_friend p other =
     (if other \<notin> set (pf_friends p) then (False, p)
      else (True, p\<lparr>pf_friends := filter (\<lambda>i. i \<noteq> other) (pf_friends p)\<rparr>))"

definition drop_requests_from :: "profile \<Rightarrow> int \<Rightarrow> bool \<times> profile" where
  "drop_requests_from p sender =
     (let kept = filter (\<lambda>r. fq_account r \<noteq> sender) (pf_requests p) in
      if length kept = length (pf_requests p) then (False, p) else (True, p\<lparr>pf_requests := kept\<rparr>))"

definition befriend :: "profile \<Rightarrow> profile \<Rightarrow> community \<Rightarrow> bool \<times> community" where
  "befriend p q s =
     (if blocked_between p q then (False, s)
      else let x = add_friend p (pf_id q); y = add_friend q (pf_id p); touched = (fst x \<or> fst y);
               s = save_touched x y s in
        (touched, if touched then announce_change (pf_id p) (pf_id q) True s else s))"

definition unfriend :: "profile \<Rightarrow> int \<Rightarrow> community \<Rightarrow> bool \<times> community" where
  "unfriend p former s =
     (if former \<notin> set (pf_friends p) then (False, s)
      else let x = drop_friend p former;
               y = (case load_existing s former of None \<Rightarrow> (False, p) | Some q \<Rightarrow> drop_friend q (pf_id p)) in
        (True, announce_change (pf_id p) former False (save_touched x y s)))"

definition ignore :: "profile \<Rightarrow> int \<Rightarrow> community \<Rightarrow> bool \<times> profile \<times> community" where
  "ignore p other s =
     (if other \<le> 0 \<or> other = pf_id p then (False, p, s)
      else case load_existing s other of
        None \<Rightarrow> (False, p, s)
      | Some q \<Rightarrow>
          let blocked = other \<notin> set (pf_ignored p);
              p1 = (if blocked then p\<lparr>pf_ignored := pf_ignored p @ [other]\<rparr> else p);
              (f1, p2) = drop_friend p1 other; (f2, q2) = drop_friend q (pf_id p);
              (r1, p3) = drop_requests_from p2 other; (r2, q3) = drop_requests_from q2 (pf_id p);
              s = save_touched (blocked \<or> f1 \<or> r1, p3) (f2 \<or> r2, q3) s in
            (blocked, p3, if f1 \<or> f2 then announce_change (pf_id p) other False s else s))"

definition unignore :: "profile \<Rightarrow> int \<Rightarrow> community \<Rightarrow> bool \<times> profile \<times> community" where
  "unignore p other s =
     (if other \<notin> set (pf_ignored p) then (False, p, s)
      else let p = p\<lparr>pf_ignored := filter (\<lambda>i. i \<noteq> other) (pf_ignored p)\<rparr> in (True, p, save_profile p s))"

section \<open>What a client may ask\<close>

type_synonym template = "int \<Rightarrow> string \<times> (int \<times> int) list \<times> int"

text \<open>\<open>null\<close>, \<open>[]\<close>, the request, the new friend's row with the request that was waiting, or thrown.\<close>

datatype asked = Already | Unknown | Waiting friend_request | Made friend_row friend_request | Invalid_Account

definition new_request :: "(profile \<Rightarrow> int) \<Rightarrow> int \<Rightarrow> profile \<Rightarrow> profile \<Rightarrow> friend_request" where
  "new_request next_id now p q =
     request_row_of
       \<lparr>fq_id = next_id q, fq_account = pf_id p, fq_to = None, fq_state = None, fq_name = pf_name p,
        fq_trophies = pf_trophies p, fq_skin = active_skin_of p, fq_facebook = None,
        fq_code = friend_code_of (pf_id p), fq_created = Some now\<rparr> (pf_id q)"

text \<open>Under the locks of both, the recipient known.\<close>

definition ask_known ::
  "(profile \<Rightarrow> int) \<Rightarrow> int \<Rightarrow> (int \<Rightarrow> int option) \<Rightarrow> profile \<Rightarrow> profile \<Rightarrow> community \<Rightarrow> asked \<times> community" where
  "ask_known next_id now roll p q s =
     (if pf_id q \<in> set (pf_friends p) then (Already, s)
      else if blocked_between p q then (Waiting (new_request next_id now p q), s)
      else if find_row (\<lambda>r. fq_account r = pf_id p) (pf_requests q) \<noteq> None then (Already, s)
      else case find_row (\<lambda>r. fq_account r = pf_id q) (pf_requests p) of
        Some theirs \<Rightarrow>
          let p = p\<lparr>pf_requests := remove1 theirs (pf_requests p)\<rparr> in
            (case befriend p q s of (made, s) \<Rightarrow>
              (Made (friend_row_of roll q True) (request_row_of theirs (pf_id p)), if made then s else save_profile p s))
      | None \<Rightarrow>
          let r = new_request next_id now p q in
            (Waiting r, save_profile (q\<lparr>pf_requests := pf_requests q @ [r]\<rparr>) s))"

definition ask_friend ::
  "(profile \<Rightarrow> int) \<Rightarrow> int \<Rightarrow> (int \<Rightarrow> int option) \<Rightarrow> template \<Rightarrow> int \<Rightarrow> named \<Rightarrow> community \<Rightarrow> asked \<times> community" where
  "ask_friend next_id now roll look asker value s =
     (case named_account_id s value of
        None \<Rightarrow> (Unknown, s)
      | Some wanted \<Rightarrow>
          if wanted = asker then (Already, s)
          else case load_or_make look s asker of
            None \<Rightarrow> (Invalid_Account, s)
          | Some (p, s) \<Rightarrow>
              (case load_existing s wanted of
                 None \<Rightarrow> (Unknown, s)
               | Some q \<Rightarrow> ask_known next_id now roll p q s))"

datatype answered = New_Friend friend_row | Declined | Nothing_Done

definition answer_held ::
  "(int \<Rightarrow> int option) \<Rightarrow> profile \<Rightarrow> int \<Rightarrow> int \<Rightarrow> bool \<Rightarrow> community \<Rightarrow> answered \<times> community" where
  "answer_held roll p request requester accept s =
     (let p = p\<lparr>pf_requests := filter (\<lambda>r. fq_id r \<noteq> request) (pf_requests p)\<rparr>;
          unmade = (if accept then Nothing_Done else Declined, save_profile p s) in
      case (if accept then load_existing s requester else None) of
        None \<Rightarrow> unmade
      | Some q \<Rightarrow>
          if blocked_between p q then unmade
          else case befriend p q s of (made, s) \<Rightarrow>
            (New_Friend (friend_row_of roll q True), if made then s else save_profile p s))"

definition answer_one_request ::
  "(int \<Rightarrow> int option) \<Rightarrow> template \<Rightarrow> int \<Rightarrow> int option \<Rightarrow> int \<Rightarrow> bool \<Rightarrow> community \<Rightarrow> answered \<times> community" where
  "answer_one_request roll look owner request requester accept s =
     (case load_or_make look s owner of
        None \<Rightarrow> (Nothing_Done, s)
      | Some (p, s) \<Rightarrow>
          (case find_row (\<lambda>r. Some (fq_id r) = request \<and> fq_account r = requester) (pf_requests p) of
             None \<Rightarrow> (Nothing_Done, s)
           | Some r \<Rightarrow> answer_held roll p (fq_id r) requester accept s))"

text \<open>\<open>DRFriendRequestUpdate\<close>: one after another; a request of one's own is passed over.\<close>

fun update_requests ::
  "(int \<Rightarrow> int option) \<Rightarrow> template \<Rightarrow> int \<Rightarrow> (int option \<times> int) list \<Rightarrow> bool \<Rightarrow> community \<Rightarrow> friend_row list \<times> community" where
  "update_requests roll look owner [] accept s = ([], s)"
| "update_requests roll look owner ((request, requester) # more_requests) accept s =
     (if requester = owner then update_requests roll look owner more_requests accept s
      else case answer_one_request roll look owner request requester accept s of (answer, s) \<Rightarrow>
        (case update_requests roll look owner more_requests accept s of (rows, s) \<Rightarrow>
          ((case answer of New_Friend row \<Rightarrow> row # rows | _ \<Rightarrow> rows), s)))"

text \<open>The row of a friend removed; only its id when that account is gone.\<close>

definition remove_one_friend ::
  "(int \<Rightarrow> int option) \<Rightarrow> template \<Rightarrow> int \<Rightarrow> int \<Rightarrow> community \<Rightarrow> (friend_row + int) option \<times> community" where
  "remove_one_friend roll look owner friend s =
     (case load_or_make look s owner of
        None \<Rightarrow> (None, s)
      | Some (p, s) \<Rightarrow>
          (case unfriend p friend s of (done_so, s) \<Rightarrow>
            if \<not> done_so then (None, s)
            else (Some (case load_existing s friend of
                          None \<Rightarrow> Inr friend
                        | Some q \<Rightarrow> Inl (friend_row_of roll q False)), s)))"

fun remove_friends ::
  "(int \<Rightarrow> bool) \<Rightarrow> (int \<Rightarrow> int option) \<Rightarrow> template \<Rightarrow> int \<Rightarrow> int list \<Rightarrow> community \<Rightarrow> (friend_row + int) list \<times> community" where
  "remove_friends is_system roll look owner [] s = ([], s)"
| "remove_friends is_system roll look owner (friend # friends) s =
     (if friend = owner \<or> is_system friend then remove_friends is_system roll look owner friends s
      else case remove_one_friend roll look owner friend s of (row, s) \<Rightarrow>
        (case remove_friends is_system roll look owner friends s of (rows, s) \<Rightarrow>
          ((case row of None \<Rightarrow> rows | Some r \<Rightarrow> r # rows), s)))"

text \<open>\<open>IgnoreFriend\<close>: the block list as it now stands, or \<open>null\<close>.\<close>

definition ignore_friend :: "template \<Rightarrow> int \<Rightarrow> int \<Rightarrow> community \<Rightarrow> int list option \<times> community" where
  "ignore_friend look owner other s =
     (case load_or_make look s owner of
        None \<Rightarrow> (None, s)
      | Some (p, s) \<Rightarrow>
          (case ignore p other s of (blocked, p, s) \<Rightarrow> (if blocked then Some (pf_ignored p) else None, s)))"

fun unblock_each :: "profile \<Rightarrow> int list \<Rightarrow> community \<Rightarrow> nat \<times> profile \<times> community" where
  "unblock_each p [] s = (0, p, s)"
| "unblock_each p (i # ids) s =
     (case unignore p i s of (unblocked, p, s) \<Rightarrow>
      case unblock_each p ids s of (n, p, s) \<Rightarrow> ((if unblocked then n + 1 else n), p, s))"

definition unblock_friends ::
  "(int \<Rightarrow> int option) \<Rightarrow> template \<Rightarrow> int \<Rightarrow> int list \<Rightarrow> community \<Rightarrow> friend_row list \<times> community" where
  "unblock_friends roll look owner ids s =
     (case load_or_make look s owner of
        None \<Rightarrow> ([], s)
      | Some (p, s) \<Rightarrow> (case unblock_each p ids s of (_, p, s) \<Rightarrow> (friend_data_for roll s p, s)))"

section \<open>The bonds between accounts\<close>

definition friend_of :: "community \<Rightarrow> int \<Rightarrow> int \<Rightarrow> bool" where
  "friend_of s i j = (case co_people s i of None \<Rightarrow> False | Some p \<Rightarrow> j \<in> set (pf_friends p))"

definition blocks :: "community \<Rightarrow> int \<Rightarrow> int \<Rightarrow> bool" where
  "blocks s i j = (case co_people s i of None \<Rightarrow> False | Some p \<Rightarrow> j \<in> set (pf_ignored p))"

text \<open>A request of the first is waiting with the second.\<close>

definition asks :: "community \<Rightarrow> int \<Rightarrow> int \<Rightarrow> bool" where
  "asks s i j = (case co_people s j of None \<Rightarrow> False | Some p \<Rightarrow> i \<in> fq_account ` set (pf_requests p))"

definition filed :: "community \<Rightarrow> bool" where
  "filed s = (\<forall>i p. co_people s i = Some p \<longrightarrow>
     pf_id p = i \<and> 0 < i \<and> distinct (pf_friends p) \<and> distinct (map fq_account (pf_requests p)))"

text \<open>
  Friendship is mutual and between two; it and a waiting request are never between accounts one of which
  blocks the other; a request waits only between strangers, and in one direction.
\<close>

definition bonds_ok :: "(int \<Rightarrow> int \<Rightarrow> bool) \<Rightarrow> (int \<Rightarrow> int \<Rightarrow> bool) \<Rightarrow> (int \<Rightarrow> int \<Rightarrow> bool) \<Rightarrow> bool" where
  "bonds_ok friend block ask \<longleftrightarrow>
     (\<forall>i j. friend i j \<longrightarrow> i \<noteq> j \<and> friend j i \<and> \<not> block i j \<and> \<not> ask i j)
     \<and> (\<forall>i j. ask i j \<longrightarrow> i \<noteq> j \<and> \<not> ask j i \<and> \<not> block i j \<and> \<not> block j i)"

definition sound :: "community \<Rightarrow> bool" where
  "sound s = (filed s \<and> bonds_ok (friend_of s) (blocks s) (asks s))"

lemma put_profile_people [simp]:
  "co_people (put_profile i p s) = (co_people s)(i \<mapsto> p)" "co_changes (put_profile i p s) = co_changes s"
  by (simp_all add: put_profile_def)

lemma bonds_put [simp]:
  "friend_of (put_profile i p s) a b = (if a = i then b \<in> set (pf_friends p) else friend_of s a b)"
  "blocks (put_profile i p s) a b = (if a = i then b \<in> set (pf_ignored p) else blocks s a b)"
  "asks (put_profile i p s) a b = (if b = i then a \<in> fq_account ` set (pf_requests p) else asks s a b)"
  by (simp_all add: friend_of_def blocks_def asks_def)

lemma bonds_announce [simp]:
  "co_people (announce_change i j m s) = co_people s"
  "friend_of (announce_change i j m s) = friend_of s" "blocks (announce_change i j m s) = blocks s" "asks (announce_change i j m s) = asks s"
  "filed (announce_change i j m s) = filed s" "co_changes (announce_change i j m s) = co_changes s @ [(i, j, m)]"
  by (auto simp: announce_change_def friend_of_def blocks_def asks_def filed_def fun_eq_iff)

lemma bonds_of:
  assumes "co_people s i = Some p"
  shows "friend_of s i j = (j \<in> set (pf_friends p))" "blocks s i j = (j \<in> set (pf_ignored p))"
    "asks s j i = (j \<in> fq_account ` set (pf_requests p))"
  using assms by (simp_all add: friend_of_def blocks_def asks_def)

lemma filed_put:
  "filed s \<Longrightarrow> pf_id p = i \<Longrightarrow> 0 < i \<Longrightarrow> distinct (pf_friends p) \<Longrightarrow> distinct (map fq_account (pf_requests p)) \<Longrightarrow>
   filed (put_profile i p s)"
  by (auto simp: filed_def)

lemma filedD:
  "filed s \<Longrightarrow> co_people s i = Some p \<Longrightarrow>
   pf_id p = i \<and> 0 < i \<and> distinct (pf_friends p) \<and> distinct (map fq_account (pf_requests p))"
  by (simp add: filed_def)

lemma load_existing_Some: "load_existing s i = Some p \<longleftrightarrow> 0 < i \<and> co_people s i = Some p"
  by (auto simp: load_existing_def)

text \<open>
  One change of the bonds by an account: nothing of its friendships, announced as nothing; a friendship
  with one whose request was waiting with it; or one of its own undone. Requests appear only in its name.
\<close>

definition bond_change :: "int \<Rightarrow> community \<Rightarrow> community \<Rightarrow> bool" where
  "bond_change i s s' \<longleftrightarrow> sound s' \<and> (\<forall>a b. asks s' a b \<longrightarrow> asks s a b \<or> a = i)
     \<and> ((friend_of s' = friend_of s \<and> co_changes s' = co_changes s)
        \<or> (\<exists>j. asks s j i \<and> friend_of s' = (\<lambda>a b. friend_of s a b \<or> (a = i \<and> b = j) \<or> (a = j \<and> b = i))
              \<and> co_changes s' = co_changes s @ [(i, j, True)])
        \<or> (\<exists>j. friend_of s i j \<and> friend_of s' = (\<lambda>a b. friend_of s a b \<and> \<not> (a = i \<and> b = j) \<and> \<not> (a = j \<and> b = i))
              \<and> co_changes s' = co_changes s @ [(i, j, False)]))"

lemma bond_change_none:
  "sound s' \<Longrightarrow> (\<And>a b. asks s' a b \<Longrightarrow> asks s a b \<or> a = i) \<Longrightarrow> friend_of s' = friend_of s \<Longrightarrow> co_changes s' = co_changes s \<Longrightarrow>
   bond_change i s s'"
  unfolding bond_change_def by blast

lemma bond_change_friends:
  "sound s' \<Longrightarrow> (\<And>a b. asks s' a b \<Longrightarrow> asks s a b \<or> a = i) \<Longrightarrow> asks s j i \<Longrightarrow>
   friend_of s' = (\<lambda>a b. friend_of s a b \<or> (a = i \<and> b = j) \<or> (a = j \<and> b = i)) \<Longrightarrow>
   co_changes s' = co_changes s @ [(i, j, True)] \<Longrightarrow> bond_change i s s'"
  unfolding bond_change_def by blast

lemma bond_change_parted:
  "sound s' \<Longrightarrow> (\<And>a b. asks s' a b \<Longrightarrow> asks s a b \<or> a = i) \<Longrightarrow> friend_of s i j \<Longrightarrow>
   friend_of s' = (\<lambda>a b. friend_of s a b \<and> \<not> (a = i \<and> b = j) \<and> \<not> (a = j \<and> b = i)) \<Longrightarrow>
   co_changes s' = co_changes s @ [(i, j, False)] \<Longrightarrow> bond_change i s s'"
  unfolding bond_change_def by blast

lemma bond_change_refl: "sound s \<Longrightarrow> bond_change i s s"
  by (simp add: bond_change_def)

lemma load_or_make_sound:
  assumes "load_or_make look s i = Some (p, s')" and "sound s"
  shows "sound s'" and "co_people s' i = Some p" and "co_changes s' = co_changes s"
    and "friend_of s' = friend_of s" and "blocks s' = blocks s" and "asks s' = asks s"
proof -
  have new: "pf_id (new_profile look i) = i" "pf_friends (new_profile look i) = []"
    "pf_ignored (new_profile look i) = []" "pf_requests (new_profile look i) = []"
    by (simp_all add: new_profile_def split: prod.split)
  show people: "co_people s' i = Some p" "co_changes s' = co_changes s"
    using assms(1) by (auto simp: load_or_make_def split: option.splits if_splits)
  show bonds: "friend_of s' = friend_of s" "blocks s' = blocks s" "asks s' = asks s"
    using assms(1) new by (auto simp: load_or_make_def fun_eq_iff friend_of_def blocks_def asks_def split: option.splits if_splits)
  have "filed s'"
    using assms new filed_put [of s "new_profile look i" i] by (auto simp: load_or_make_def sound_def split: option.splits if_splits)
  then show "sound s'" using assms(2) by (simp add: sound_def bonds)
qed

lemma bond_change_made:
  assumes "load_or_make look s i = Some (p, s1)" and "sound s" and "bond_change i s1 s2"
  shows "bond_change i s s2"
  using assms(3) load_or_make_sound [OF assms(1,2)] by (simp add: bond_change_def)

lemma befriend_change:
  assumes ok: "sound s" and i: "co_people s i = Some p0" and j: "co_people s j = Some q"
    and p: "pf_id p = i" "pf_friends p = pf_friends p0" "pf_ignored p = pf_ignored p0"
      "distinct (map fq_account (pf_requests p))" "fq_account ` set (pf_requests p) \<subseteq> fq_account ` set (pf_requests p0) - {j}"
    and asked: "asks s j i"
  shows "fst (befriend p q s)" and "bond_change i s (snd (befriend p q s))" and "\<not> blocked_between p q"
proof -
  have bonds: "bonds_ok (friend_of s) (blocks s) (asks s)" and filed: "filed s" using ok by (simp_all add: sound_def)
  have ij: "i \<noteq> j" "\<not> friend_of s i j" "\<not> friend_of s j i" "\<not> blocks s i j" "\<not> blocks s j i" "\<not> asks s i j"
    using bonds asked by (auto simp: bonds_ok_def)
  have ids: "pf_id p0 = i" "pf_id q = j" "0 < i" "0 < j" "distinct (pf_friends p0)" "distinct (pf_friends q)"
    "distinct (map fq_account (pf_requests q))"
    using filedD [OF filed i] filedD [OF filed j] by auto
  have strangers: "j \<notin> set (pf_friends p)" "i \<notin> set (pf_friends q)"
    using ij bonds_of(1) [OF i] bonds_of(1) [OF j] by (simp_all add: p)
  show unblocked: "\<not> blocked_between p q"
    using ij bonds_of(2) [OF i] bonds_of(2) [OF j] by (simp add: blocked_between_def p ids)
  define s' where "s' = put_profile j (q\<lparr>pf_friends := pf_friends q @ [i]\<rparr>) (put_profile i (p\<lparr>pf_friends := pf_friends p @ [j]\<rparr>) s)"
  have made: "befriend p q s = (True, announce_change i j True s')"
    using unblocked strangers
    by (simp add: befriend_def add_friend_def save_touched_def save_profile_def p ids Let_def s'_def)
  then show "fst (befriend p q s)" by simp
  have F: "friend_of s' = (\<lambda>a b. friend_of s a b \<or> (a = i \<and> b = j) \<or> (a = j \<and> b = i))"
    using ij(1) bonds_of(1) [OF i] bonds_of(1) [OF j] by (auto simp: s'_def p fun_eq_iff)
  have B: "blocks s' = blocks s"
    using ij(1) bonds_of(2) [OF i] bonds_of(2) [OF j] by (auto simp: s'_def p fun_eq_iff)
  have A: "asks s' a b \<Longrightarrow> asks s a b \<and> \<not> (a = j \<and> b = i)" for a b
    using ij(1) p(5) bonds_of(3) [OF i] bonds_of(3) [OF j] by (auto simp: s'_def split: if_splits)
  have "filed s'"
    unfolding s'_def by (intro filed_put filed) (use ids p strangers in auto)
  moreover have "bonds_ok (friend_of s') (blocks s') (asks s')"
    using bonds asked A unfolding F B bonds_ok_def by blast
  ultimately show "bond_change i s (snd (befriend p q s))"
    unfolding made snd_conv
    by (intro bond_change_friends [where j = j] asked) (auto simp: sound_def F dest: A, simp add: s'_def)
qed

text \<open>Saving one's own account with requests taken out, or one's own blocks taken out, changes no friendship.\<close>

lemma own_change:
  assumes ok: "sound s" and i: "co_people s i = Some p0"
    and p: "pf_id p = i" "pf_friends p = pf_friends p0" "set (pf_ignored p) \<subseteq> set (pf_ignored p0)"
      "distinct (map fq_account (pf_requests p))" "fq_account ` set (pf_requests p) \<subseteq> fq_account ` set (pf_requests p0)"
  shows "bond_change i s (save_profile p s)"
proof -
  have bonds: "bonds_ok (friend_of s) (blocks s) (asks s)" and filed: "filed s" using ok by (simp_all add: sound_def)
  let ?s = "put_profile i p s"
  have F: "friend_of ?s = friend_of s" using bonds_of(1) [OF i] by (auto simp: p fun_eq_iff)
  have B: "blocks ?s a b \<Longrightarrow> blocks s a b" for a b using bonds_of(2) [OF i] p(3) by (auto split: if_splits)
  have A: "asks ?s a b \<Longrightarrow> asks s a b" for a b using bonds_of(3) [OF i] p(5) by (auto split: if_splits)
  have "filed ?s" using filedD [OF filed i] by (intro filed_put filed) (auto simp: p)
  moreover have "bonds_ok (friend_of ?s) (blocks ?s) (asks ?s)"
    using bonds F A B unfolding bonds_ok_def by metis
  ultimately show ?thesis
    unfolding save_profile_def p(1) by (intro bond_change_none F) (use A in \<open>auto simp: sound_def simp del: bonds_put\<close>)
qed

lemma unignore_change:
  assumes "sound s" and "co_people s i = Some p" and "unignore p j s = (u, p', s')"
  shows "bond_change i s s'" and "co_people s' i = Some p'"
  using assms own_change [OF assms(1,2), of "p\<lparr>pf_ignored := filter (\<lambda>k. k \<noteq> j) (pf_ignored p)\<rparr>"] filedD [of s i p]
  by (auto simp: unignore_def Let_def sound_def save_profile_def bond_change_refl split: if_splits)

lemma filter_absent:
  "k \<notin> set xs \<Longrightarrow> filter (\<lambda>x. x \<noteq> k) xs = xs"
  "k \<notin> f ` set ys \<Longrightarrow> filter (\<lambda>y. f y \<noteq> k) ys = ys"
  by (auto intro: filter_True)

text \<open>What is dropped and what was there to drop.\<close>

lemma drop_friend_eq: "drop_friend p k = (k \<in> set (pf_friends p), p\<lparr>pf_friends := filter (\<lambda>i. i \<noteq> k) (pf_friends p)\<rparr>)"
proof (cases "k \<in> set (pf_friends p)")
  case False
  then show ?thesis by (simp add: drop_friend_def filter_absent)
qed (simp add: drop_friend_def)

lemma drop_requests_from_eq:
  "drop_requests_from p k =
     (k \<in> fq_account ` set (pf_requests p), p\<lparr>pf_requests := filter (\<lambda>r. fq_account r \<noteq> k) (pf_requests p)\<rparr>)"
proof (cases "k \<in> fq_account ` set (pf_requests p)")
  case True
  then have "length (filter (\<lambda>r. fq_account r \<noteq> k) (pf_requests p)) < length (pf_requests p)"
    by (auto intro: length_filter_less)
  then show ?thesis using True by (simp add: drop_requests_from_def Let_def)
next
  case False
  then show ?thesis by (simp add: drop_requests_from_def Let_def filter_absent)
qed

lemma put_profile_same: "co_people s i = Some p \<Longrightarrow> put_profile i p s = s"
  by (simp add: put_profile_def fun_upd_idem)

lemma save_touched_eq:
  assumes "co_people s i = Some p" "co_people s j = Some q" "i \<noteq> j" "pf_id p' = i" "pf_id q' = j"
    and "\<not> c \<Longrightarrow> p' = p" "\<not> d \<Longrightarrow> q' = q"
  shows "save_touched (c, p') (d, q') s = put_profile j q' (put_profile i p' s)"
  using assms by (cases c; cases d) (auto simp: save_touched_def save_profile_def put_profile_same)

lemma distinct_map_filter: "distinct (map f xs) \<Longrightarrow> distinct (map f (filter P xs))"
  by (induction xs) auto

lemma unfriend_change:
  assumes ok: "sound s" and i: "co_people s i = Some p"
  shows "bond_change i s (snd (unfriend p j s))"
proof (cases "j \<in> set (pf_friends p)")
  case False
  then show ?thesis by (simp add: unfriend_def bond_change_refl ok)
next
  case True
  have bonds: "bonds_ok (friend_of s) (blocks s) (asks s)" and filed: "filed s" using ok by (simp_all add: sound_def)
  have friends: "friend_of s i j" "friend_of s j i" "i \<noteq> j"
    using True bonds_of(1) [OF i] bonds by (auto simp: bonds_ok_def)
  then obtain q where j: "co_people s j = Some q" by (auto simp: friend_of_def split: option.splits)
  note ids = filedD [OF filed i] filedD [OF filed j]
  let ?p = "p\<lparr>pf_friends := filter (\<lambda>k. k \<noteq> j) (pf_friends p)\<rparr>" and ?q = "q\<lparr>pf_friends := filter (\<lambda>k. k \<noteq> i) (pf_friends q)\<rparr>"
  have mine: "i \<in> set (pf_friends q)" using friends bonds_of(1) [OF j] by simp
  define s' where "s' = put_profile j ?q (put_profile i ?p s)"
  have eq: "snd (unfriend p j s) = announce_change i j False s'"
    using True mine ids by (simp add: unfriend_def drop_friend_eq load_existing_Some j Let_def s'_def save_touched_def save_profile_def
        load_existing_def)
  have F: "friend_of s' = (\<lambda>a b. friend_of s a b \<and> \<not> (a = i \<and> b = j) \<and> \<not> (a = j \<and> b = i))"
    using friends bonds_of(1) [OF i] bonds_of(1) [OF j] by (auto simp: s'_def fun_eq_iff)
  have B: "blocks s' = blocks s" and A: "asks s' = asks s"
    using bonds_of(2,3) [OF i] bonds_of(2,3) [OF j] by (auto simp: s'_def fun_eq_iff)
  have "filed s'" unfolding s'_def by (intro filed_put filed) (use ids in auto)
  moreover have "bonds_ok (friend_of s') (blocks s') (asks s')" using bonds unfolding F B A bonds_ok_def by blast
  ultimately show ?thesis
    unfolding eq by (intro bond_change_parted [where j = j] friends) (auto simp: sound_def F A, simp add: s'_def)
qed

lemma ignore_change:
  assumes ok: "sound s" and i: "co_people s i = Some p" and ig: "ignore p j s = (b, p', s')"
  shows "bond_change i s s'"
proof (cases "j \<le> 0 \<or> j = pf_id p \<or> co_people s j = None")
  case True
  then have "s' = s" using ig by (auto simp: ignore_def load_existing_def split: if_splits)
  then show ?thesis by (simp add: bond_change_refl ok)
next
  case False
  then obtain q where j: "co_people s j = Some q" by auto
  have bonds: "bonds_ok (friend_of s) (blocks s) (asks s)" and filed: "filed s" using ok by (simp_all add: sound_def)
  note ids = filedD [OF filed i] filedD [OF filed j]
  have ij: "i \<noteq> j" using False ids by auto
  have sym: "j \<in> set (pf_friends p) \<longleftrightarrow> i \<in> set (pf_friends q)"
    using bonds bonds_of(1) [OF i] bonds_of(1) [OF j] by (auto simp: bonds_ok_def)
  let ?ign = "if j \<notin> set (pf_ignored p) then pf_ignored p @ [j] else pf_ignored p"
  let ?p = "p\<lparr>pf_ignored := ?ign, pf_friends := filter (\<lambda>k. k \<noteq> j) (pf_friends p), pf_requests := filter (\<lambda>r. fq_account r \<noteq> j) (pf_requests p)\<rparr>"
  let ?q = "q\<lparr>pf_friends := filter (\<lambda>k. k \<noteq> i) (pf_friends q), pf_requests := filter (\<lambda>r. fq_account r \<noteq> i) (pf_requests q)\<rparr>"
  define u where "u = put_profile j ?q (put_profile i ?p s)"
  let ?c = "j \<notin> set (pf_ignored p) \<or> j \<in> set (pf_friends p) \<or> j \<in> fq_account ` set (pf_requests p)"
  let ?d = "i \<in> set (pf_friends q) \<or> i \<in> fq_account ` set (pf_requests q)"
  have "save_touched (?c, ?p) (?d, ?q) s = u"
    unfolding u_def by (rule save_touched_eq [OF i j ij]) (use ids in \<open>simp_all add: filter_absent\<close>)
  moreover have "load_existing s j = Some q" using False j by (simp add: load_existing_Some)
  ultimately have s': "s' = (if j \<in> set (pf_friends p) then announce_change i j False u else u)"
    using ig False ids sym
    by (auto simp: ignore_def drop_friend_eq drop_requests_from_eq Let_def split: if_splits)
  have F: "friend_of u = (\<lambda>a b. friend_of s a b \<and> \<not> (a = i \<and> b = j) \<and> \<not> (a = j \<and> b = i))"
    using ij bonds_of(1) [OF i] bonds_of(1) [OF j] by (auto simp: u_def fun_eq_iff)
  have B: "blocks u = (\<lambda>a b. blocks s a b \<or> (a = i \<and> b = j))"
    using ij bonds_of(2) [OF i] bonds_of(2) [OF j] by (auto simp: u_def fun_eq_iff)
  have A: "asks u = (\<lambda>a b. asks s a b \<and> \<not> (a = i \<and> b = j) \<and> \<not> (a = j \<and> b = i))"
    using ij bonds_of(3) [OF i] bonds_of(3) [OF j] by (auto simp: u_def fun_eq_iff)
  have "filed u" unfolding u_def by (intro filed_put filed) (use ids in \<open>auto simp: distinct_map_filter\<close>)
  moreover have "bonds_ok (friend_of u) (blocks u) (asks u)" using bonds unfolding F B A bonds_ok_def by blast
  ultimately have u: "sound u" by (simp add: sound_def)
  show ?thesis
  proof (cases "j \<in> set (pf_friends p)")
    case True
    then show ?thesis
      using u bonds_of(1) [OF i] unfolding s'
      by (intro bond_change_parted [where j = j]) (auto simp: sound_def F A, simp add: u_def)
  next
    case nf: False
    then have "friend_of u = friend_of s"
      using sym bonds_of(1) [OF i] bonds_of(1) [OF j] by (auto simp: F fun_eq_iff)
    then show ?thesis using u nf unfolding s' by (intro bond_change_none) (auto simp: A, simp add: u_def)
  qed
qed

lemma new_request_account [simp]: "fq_account (new_request next_id now p q) = pf_id p"
  by (simp add: new_request_def request_row_of_def)

text \<open>A request that waits: a new one, between strangers that do not block each other.\<close>

lemma new_request_change:
  assumes ok: "sound s" and i: "co_people s i = Some p" and j: "co_people s j = Some q" and ij: "i \<noteq> j"
    and free: "j \<notin> set (pf_friends p)" "\<not> blocked_between p q" "i \<notin> fq_account ` set (pf_requests q)"
      "j \<notin> fq_account ` set (pf_requests p)" and r: "fq_account r = i"
  shows "bond_change i s (save_profile (q\<lparr>pf_requests := pf_requests q @ [r]\<rparr>) s)"
proof -
  have bonds: "bonds_ok (friend_of s) (blocks s) (asks s)" and filed: "filed s" using ok by (simp_all add: sound_def)
  note ids = filedD [OF filed i] filedD [OF filed j]
  let ?s = "put_profile j (q\<lparr>pf_requests := pf_requests q @ [r]\<rparr>) s"
  have F: "friend_of ?s = friend_of s" and B: "blocks ?s = blocks s"
    using bonds_of(1,2) [OF j] by (auto simp: fun_eq_iff)
  have A: "asks ?s = (\<lambda>a b. asks s a b \<or> (a = i \<and> b = j))"
    using bonds_of(3) [OF j] r by (auto simp: fun_eq_iff)
  have "\<not> friend_of s i j" "\<not> blocks s i j" "\<not> blocks s j i" "\<not> asks s j i"
    using free ids bonds_of(1,2,3) [OF i] bonds_of(2) [OF j] by (auto simp: blocked_between_def)
  then have "bonds_ok (friend_of ?s) (blocks ?s) (asks ?s)"
    using bonds ij unfolding F B A bonds_ok_def by blast
  moreover have "filed ?s" by (intro filed_put filed) (use ids free r in auto)
  ultimately have "bond_change i s ?s" by (intro bond_change_none F) (auto simp: sound_def A simp del: bonds_put)
  then show ?thesis using ids by (simp add: save_profile_def)
qed

lemma ask_known_change:
  assumes ok: "sound s" and i: "co_people s i = Some p" and j: "co_people s j = Some q" and ij: "i \<noteq> j"
  shows "bond_change i s (snd (ask_known next_id now roll p q s))"
proof -
  have filed: "filed s" using ok by (simp add: sound_def)
  note ids = filedD [OF filed i] filedD [OF filed j]
  show ?thesis
  proof (cases "pf_id q \<in> set (pf_friends p) \<or> blocked_between p q
      \<or> find_row (\<lambda>r. fq_account r = pf_id p) (pf_requests q) \<noteq> None")
    case True
    then show ?thesis by (auto simp: ask_known_def bond_change_refl ok)
  next
    case False
    then have free: "j \<notin> set (pf_friends p)" "\<not> blocked_between p q" "i \<notin> fq_account ` set (pf_requests q)"
      using ids by auto
    show ?thesis
    proof (cases "find_row (\<lambda>r. fq_account r = pf_id q) (pf_requests p)")
      case None
      then have "j \<notin> fq_account ` set (pf_requests p)" using ids by auto
      moreover have "snd (ask_known next_id now roll p q s)
          = save_profile (q\<lparr>pf_requests := pf_requests q @ [new_request next_id now p q]\<rparr>) s"
        using False None by (simp add: ask_known_def Let_def del: find_row_None)
      ultimately show ?thesis
        using new_request_change [OF ok i j ij free, of "new_request next_id now p q"] ids by simp
    next
      case (Some theirs)
      then have theirs: "theirs \<in> set (pf_requests p)" "fq_account theirs = j" using ids by auto
      let ?p = "p\<lparr>pf_requests := remove1 theirs (pf_requests p)\<rparr>"
      have d: "distinct (pf_requests p)" "inj_on fq_account (set (pf_requests p))"
        using ids by (simp_all add: distinct_map)
      then have kept: "set (pf_requests ?p) = set (pf_requests p) - {theirs}" by (simp add: set_remove1_eq)
      have others: "fq_account ` set (pf_requests ?p) = fq_account ` set (pf_requests p) - {j}"
        unfolding kept using d(2) theirs by (auto simp: inj_on_def)
      have "inj_on fq_account (set (pf_requests p) - {theirs})" using d(2) by (rule inj_on_diff)
      then have dd: "distinct (map fq_account (pf_requests ?p))"
        using d(1) kept by (simp add: distinct_map)
      have "asks s j i" using theirs bonds_of(3) [OF i] by auto
      then show ?thesis
        using befriend_change [OF ok i j, of ?p] others dd ids False Some
        by (auto simp: ask_known_def Let_def split: prod.splits)
    qed
  qed
qed

lemma answer_held_change:
  assumes ok: "sound s" and i: "co_people s i = Some p" and held: "r \<in> set (pf_requests p)" "fq_account r = j"
  shows "bond_change i s (snd (answer_held roll p (fq_id r) j accept s))"
proof -
  have filed: "filed s" using ok by (simp add: sound_def)
  note ids = filedD [OF filed i]
  let ?p = "p\<lparr>pf_requests := filter (\<lambda>x. fq_id x \<noteq> fq_id r) (pf_requests p)\<rparr>"
  have dd: "distinct (map fq_account (pf_requests ?p))" using ids by (simp add: distinct_map_filter)
  have own: "bond_change i s (save_profile ?p s)"
    using ids dd by (intro own_change [OF ok i]) auto
  have asked: "asks s j i" using held bonds_of(3) [OF i] by auto
  show ?thesis
  proof (cases "if accept then load_existing s j else None")
    case None
    then show ?thesis using own by (simp add: answer_held_def Let_def)
  next
    case (Some q)
    then have j: "co_people s j = Some q" by (auto simp: load_existing_Some split: if_splits)
    have accounts: "fq_account ` set (pf_requests ?p) \<subseteq> fq_account ` set (pf_requests p) - {j}"
      using held ids by (auto simp: distinct_map inj_on_def)
    have "answer_held roll p (fq_id r) j accept s
        = (New_Friend (friend_row_of roll q True), snd (befriend ?p q s))"
      using befriend_change(1,3) [OF ok i j, of ?p] accounts dd ids asked Some
      by (auto simp: answer_held_def Let_def split: prod.splits)
    then show ?thesis
      using befriend_change(2) [OF ok i j, of ?p] accounts dd ids asked by simp
  qed
qed

section \<open>Any number of clients, one operation after another\<close>

datatype friend_op =
    Ask named int
  | Answer "(int option \<times> int) list" bool
  | Remove "int list"
  | Block int
  | Unblock "int list"

definition do_op ::
  "(profile \<Rightarrow> int) \<Rightarrow> (int \<Rightarrow> bool) \<Rightarrow> (int \<Rightarrow> int option) \<Rightarrow> template \<Rightarrow> int \<Rightarrow> friend_op \<Rightarrow> community \<Rightarrow> community" where
  "do_op next_id is_system roll look i op s =
     (case op of
        Ask value now \<Rightarrow> snd (ask_friend next_id now roll look i value s)
      | Answer requests accept \<Rightarrow> snd (update_requests roll look i requests accept s)
      | Remove friends \<Rightarrow> snd (remove_friends is_system roll look i friends s)
      | Block other \<Rightarrow> snd (ignore_friend look i other s)
      | Unblock others \<Rightarrow> snd (unblock_friends roll look i others s))"

abbreviation changes_by :: "int \<Rightarrow> community \<Rightarrow> community \<Rightarrow> bool" where
  "changes_by i \<equiv> (bond_change i)\<^sup>*\<^sup>*"

lemma changes_sound: "changes_by i s s' \<Longrightarrow> sound s \<Longrightarrow> sound s'"
  by (induction rule: rtranclp_induct) (auto simp: bond_change_def)

lemma ask_friend_change:
  assumes "sound s"
  shows "bond_change i s (snd (ask_friend next_id now roll look i value s))"
proof -
  have known: "bond_change i s (snd (ask_known next_id now roll p q s1))"
    if "load_or_make look s i = Some (p, s1)" "co_people s1 w = Some q" "w \<noteq> i" for p s1 q w
    using that load_or_make_sound [OF that(1) assms] ask_known_change [of s1 i p w q]
    by (auto intro: bond_change_made [OF that(1) assms])
  have made: "bond_change i s s1" if "load_or_make look s i = Some (p, s1)" for p s1
    using load_or_make_sound [OF that assms] by (intro bond_change_made [OF that assms] bond_change_refl)
  show ?thesis
    unfolding ask_friend_def
    by (auto simp: bond_change_refl assms load_existing_Some intro: known made split: option.split)
qed

lemma answer_one_request_change:
  assumes "sound s"
  shows "bond_change i s (snd (answer_one_request roll look i request j accept s))"
proof (cases "load_or_make look s i")
  case (Some y)
  obtain p s1 where y: "load_or_make look s i = Some (p, s1)" using Some by (cases y) auto
  note made = load_or_make_sound [OF y assms] bond_change_made [OF y assms]
  show ?thesis
  proof (cases "find_row (\<lambda>r. Some (fq_id r) = request \<and> fq_account r = j) (pf_requests p)")
    case None
    then show ?thesis using made by (simp add: answer_one_request_def y bond_change_refl del: find_row_None)
  next
    case (Some r)
    then have "r \<in> set (pf_requests p)" "fq_account r = j" by auto
    then show ?thesis
      using answer_held_change [OF made(1,2)] made(7) by (simp add: answer_one_request_def y Some)
  qed
qed (simp add: answer_one_request_def bond_change_refl assms)

lemma changes_one: "bond_change i s s1 \<Longrightarrow> changes_by i s1 s2 \<Longrightarrow> changes_by i s s2"
  by (rule converse_rtranclp_into_rtranclp)

lemma bond_change_sound: "bond_change i s s' \<Longrightarrow> sound s'"
  by (simp add: bond_change_def)

lemma update_requests_changes: "sound s \<Longrightarrow> changes_by i s (snd (update_requests roll look i requests accept s))"
proof (induction requests arbitrary: s)
  case (Cons x requests)
  obtain request j where x: "x = (request, j)" by force
  obtain a s1 where a: "answer_one_request roll look i request j accept s = (a, s1)" by force
  have step: "bond_change i s s1" using answer_one_request_change [OF Cons.prems, of i roll look request j accept] by (simp add: a)
  show ?case
    using Cons.IH [OF Cons.prems] changes_one [OF step Cons.IH [OF bond_change_sound [OF step]]]
    by (auto simp: x a split: prod.splits)
qed simp

lemma remove_one_friend_change:
  assumes "sound s"
  shows "bond_change i s (snd (remove_one_friend roll look i j s))"
proof (cases "load_or_make look s i")
  case (Some y)
  obtain p s1 where y: "load_or_make look s i = Some (p, s1)" using Some by (cases y) auto
  note made = load_or_make_sound [OF y assms] bond_change_made [OF y assms]
  show ?thesis
    using made(7) [OF unfriend_change [OF made(1,2), of j]] by (auto simp: remove_one_friend_def y split: prod.splits)
qed (simp add: remove_one_friend_def bond_change_refl assms)

lemma remove_friends_changes: "sound s \<Longrightarrow> changes_by i s (snd (remove_friends is_system roll look i friends s))"
proof (induction friends arbitrary: s)
  case (Cons j friends)
  obtain a s1 where a: "remove_one_friend roll look i j s = (a, s1)" by force
  have step: "bond_change i s s1" using remove_one_friend_change [OF Cons.prems, of i roll look j] by (simp add: a)
  show ?case
    using Cons.IH [OF Cons.prems] changes_one [OF step Cons.IH [OF bond_change_sound [OF step]]]
    by (auto simp: a split: prod.splits)
qed simp

lemma ignore_friend_change:
  assumes "sound s"
  shows "bond_change i s (snd (ignore_friend look i j s))"
proof (cases "load_or_make look s i")
  case (Some y)
  obtain p s1 where y: "load_or_make look s i = Some (p, s1)" using Some by (cases y) auto
  note made = load_or_make_sound [OF y assms] bond_change_made [OF y assms]
  show ?thesis
    using made(7) [OF ignore_change [OF made(1,2)]] by (auto simp: ignore_friend_def y split: prod.splits)
qed (simp add: ignore_friend_def bond_change_refl assms)

lemma unblock_each_changes:
  "sound s \<Longrightarrow> co_people s i = Some p \<Longrightarrow> changes_by i s (snd (snd (unblock_each p ids s)))"
proof (induction ids arbitrary: p s)
  case (Cons j ids)
  obtain u p1 s1 where u: "unignore p j s = (u, p1, s1)" by (metis prod_cases3)
  note step = unignore_change [OF Cons.prems u]
  show ?case
    using changes_one [OF step(1) Cons.IH [OF bond_change_sound [OF step(1)] step(2)]]
    by (auto simp: u split: prod.splits)
qed simp

lemma unblock_friends_changes:
  assumes "sound s"
  shows "changes_by i s (snd (unblock_friends roll look i ids s))"
proof (cases "load_or_make look s i")
  case (Some y)
  obtain p s1 where y: "load_or_make look s i = Some (p, s1)" using Some by (cases y) auto
  note made = load_or_make_sound [OF y assms] bond_change_made [OF y assms]
  have "changes_by i s s1" using made by (intro r_into_rtranclp made(7) bond_change_refl)
  from rtranclp_trans [OF this unblock_each_changes [OF made(1,2), of ids]] show ?thesis
    by (auto simp: unblock_friends_def y split: prod.splits)
qed (simp add: unblock_friends_def)

lemma do_op_changes: "sound s \<Longrightarrow> changes_by i s (do_op next_id is_system roll look i op s)"
  using ask_friend_change ignore_friend_change update_requests_changes remove_friends_changes unblock_friends_changes
  by (cases op) (auto simp: do_op_def intro!: r_into_rtranclp)

fun do_ops ::
  "(profile \<Rightarrow> int) \<Rightarrow> (int \<Rightarrow> bool) \<Rightarrow> (int \<Rightarrow> int option) \<Rightarrow> template \<Rightarrow> (int \<times> friend_op) list \<Rightarrow> community \<Rightarrow> community" where
  "do_ops next_id is_system roll look [] s = s"
| "do_ops next_id is_system roll look ((i, op) # ops) s =
     do_ops next_id is_system roll look ops (do_op next_id is_system roll look i op s)"

text \<open>Who are friends after some announcements, when it is known who were.\<close>

fun after_news :: "(int \<Rightarrow> int \<Rightarrow> bool) \<Rightarrow> (int \<times> int \<times> bool) list \<Rightarrow> int \<Rightarrow> int \<Rightarrow> bool" where
  "after_news friend [] = friend"
| "after_news friend ((i, j, made) # news) =
     after_news (\<lambda>a b. if (a = i \<and> b = j) \<or> (a = j \<and> b = i) then made else friend a b) news"

lemma announced_append: "after_news friend (xs @ ys) = after_news (after_news friend xs) ys"
  by (induction friend xs rule: after_news.induct) auto

definition heard :: "community \<Rightarrow> community \<Rightarrow> bool" where
  "heard s s' \<longleftrightarrow> (\<exists>news. co_changes s' = co_changes s @ news \<and> friend_of s' = after_news (friend_of s) news)"

lemma heard_trans: "heard s s1 \<Longrightarrow> heard s1 s2 \<Longrightarrow> heard s s2"
  unfolding heard_def by (metis announced_append append.assoc)

lemma bond_change_heard: "bond_change i s s' \<Longrightarrow> heard s s'"
proof -
  assume "bond_change i s s'"
  then consider "friend_of s' = friend_of s" "co_changes s' = co_changes s"
    | j where "friend_of s' = (\<lambda>a b. friend_of s a b \<or> (a = i \<and> b = j) \<or> (a = j \<and> b = i))"
        "co_changes s' = co_changes s @ [(i, j, True)]"
    | j where "friend_of s' = (\<lambda>a b. friend_of s a b \<and> \<not> (a = i \<and> b = j) \<and> \<not> (a = j \<and> b = i))"
        "co_changes s' = co_changes s @ [(i, j, False)]"
    unfolding bond_change_def by blast
  then show ?thesis
  proof cases
    case 1
    then show ?thesis unfolding heard_def by (intro exI [of _ "[]"]) simp
  next
    case (2 j)
    then show ?thesis unfolding heard_def by (intro exI [of _ "[(i, j, True)]"]) (auto simp: fun_eq_iff)
  next
    case (3 j)
    then show ?thesis unfolding heard_def by (intro exI [of _ "[(i, j, False)]"]) (auto simp: fun_eq_iff)
  qed
qed

lemma changes_heard: "changes_by i s s' \<Longrightarrow> heard s s'"
  by (induction rule: rtranclp_induct) (auto simp: heard_def [of s s] intro: exI [of _ "[]"] heard_trans bond_change_heard)

text \<open>What an account can bring about alone.\<close>

lemma changes_need_both:
  assumes "changes_by i s s'" and "sound s"
  shows "(\<forall>a b. asks s' a b \<longrightarrow> asks s a b \<or> a = i)
    \<and> (\<forall>a b. friend_of s' a b \<longrightarrow> friend_of s a b \<or> (a = i \<and> asks s b i) \<or> (b = i \<and> asks s a i))"
  using assms
proof (induction rule: rtranclp_induct)
  case (step s1 s2)
  then have "sound s1" by (metis changes_sound)
  then have "\<not> asks s1 i i" by (auto simp: sound_def bonds_ok_def)
  then show ?case using step.IH [OF step.prems] step.hyps(2) unfolding bond_change_def by (elim conjE disjE exE) (simp, blast)+
qed simp

text \<open>C32: Over everything any number of players ask, accept, decline, remove, block and unblock, in any order, the
  bonds between accounts stay sound: friendship is mutual, nobody is a friend of, or has a request
  waiting with, anyone either of them blocks, a request waits only between strangers and in one
  direction; and who are friends is what the announced changes say, so that no change goes unannounced.\<close>

theorem community_stays_sound:
  assumes "sound s"
  shows "sound (do_ops next_id is_system roll look ops s)
    \<and> (\<exists>news. co_changes (do_ops next_id is_system roll look ops s) = co_changes s @ news
        \<and> friend_of (do_ops next_id is_system roll look ops s) = after_news (friend_of s) news)"
proof -
  have "sound (do_ops next_id is_system roll look ops s) \<and> heard s (do_ops next_id is_system roll look ops s)"
    using assms
  proof (induction ops arbitrary: s)
    case (Cons x ops)
    obtain i op where x: "x = (i, op)" by force
    note step = do_op_changes [OF Cons.prems, of i next_id is_system roll look op]
    show ?case
      using Cons.IH [OF changes_sound [OF step Cons.prems]] heard_trans [OF changes_heard [OF step]] by (simp add: x)
  qed (auto simp: heard_def intro: exI [of _ "[]"])
  then show ?thesis by (simp add: heard_def)
qed

text \<open>C33: Nobody can make a friend alone. Whatever one account does, a friendship it brings about is its own, with
  somebody whose request was waiting with it; and a request that comes to wait is in its own name.\<close>

theorem friendship_needs_both:
  assumes "sound s"
  shows "(friend_of (do_op next_id is_system roll look i op s) a b \<and> \<not> friend_of s a b \<longrightarrow>
      (a = i \<and> asks s b i) \<or> (b = i \<and> asks s a i))
    \<and> (asks (do_op next_id is_system roll look i op s) a b \<and> \<not> asks s a b \<longrightarrow> a = i)"
  using changes_need_both [OF do_op_changes [OF assms] assms, of next_id is_system roll look i op] by blast

definition demo_template :: template where
  "demo_template i = (''Player'', [(10 * i, 151)], 10 * i)"

definition demo_community :: community where
  "demo_community = \<lparr>co_people = [1 \<mapsto> new_profile demo_template 1, 2 \<mapsto> new_profile demo_template 2], co_changes = []\<rparr>"

lemma demo_community_sound: "sound demo_community"
  by (auto simp: sound_def filed_def bonds_ok_def demo_community_def new_profile_def demo_template_def friend_of_def
      blocks_def asks_def split: if_splits)

definition demo_ops :: "(int \<times> friend_op) list" where
  "demo_ops = [(1, Ask (By_Text ''2'') 5), (2, Answer [(Some 7, 1)] True), (1, Block 2)]"

definition demo_run :: "nat \<Rightarrow> community" where
  "demo_run n = do_ops (\<lambda>_. 7) (\<lambda>_. False) (\<lambda>_. None) demo_template (take n demo_ops) demo_community"

theorem community_stays_sound_witness:
  "sound (demo_run 3) \<and> co_changes (demo_run 3) = [(2, 1, True), (1, 2, False)] \<and> blocks (demo_run 3) 1 2"
proof -
  have "co_changes (demo_run 3) = [(2, 1, True), (1, 2, False)]" "blocks (demo_run 3) 1 2" by code_simp+
  moreover have "sound (demo_run 3)" unfolding demo_run_def using community_stays_sound [OF demo_community_sound] by blast
  ultimately show ?thesis by blast
qed

theorem friendship_needs_both_witness:
  "friend_of (do_op (\<lambda>_. 7) (\<lambda>_. False) (\<lambda>_. None) demo_template 2 (Answer [(Some 7, 1)] True) (demo_run 1)) 2 1
   \<and> asks (demo_run 1) 1 2"
proof -
  have "sound (demo_run 1)" unfolding demo_run_def using community_stays_sound [OF demo_community_sound] by blast
  note both = friendship_needs_both [OF this, of "\<lambda>_. 7" "\<lambda>_. False" "\<lambda>_. None" demo_template 2 "Answer [(Some 7, 1)] True" 2 1]
  have "friend_of (do_op (\<lambda>_. 7) (\<lambda>_. False) (\<lambda>_. None) demo_template 2 (Answer [(Some 7, 1)] True) (demo_run 1)) 2 1"
    "\<not> friend_of (demo_run 1) 2 1"
    by code_simp+
  with both show ?thesis by auto
qed

section \<open>A friend code names its account\<close>

lemma position_of_digit: "k < 32 \<Longrightarrow> position_of (alphabet ! k) alphabet = Some k"
proof -
  have "list_all (\<lambda>k. position_of (alphabet ! k) alphabet = Some k) [0..<32]" by code_simp
  then show "k < 32 \<Longrightarrow> position_of (alphabet ! k) alphabet = Some k" by (simp add: list_all_iff)
qed

lemma length_alphabet [simp]: "length alphabet = 32"
  by (simp add: alphabet_def)

lemma code_characters: "c \<in> set alphabet \<Longrightarrow> \<not> blank c \<and> to_upper c = c"
proof -
  have "list_all (\<lambda>c. \<not> blank c \<and> to_upper c = c) alphabet" by code_simp
  then show "c \<in> set alphabet \<Longrightarrow> \<not> blank c \<and> to_upper c = c" by (simp add: list_all_iff)
qed

lemma code_digits_0 [simp]: "code_digits 0 = []"
  by (simp add: code_digits.simps)

lemma set_code_digits: "set (code_digits n) \<subseteq> set alphabet"
proof (induction n rule: code_digits.induct)
  case (1 n)
  show ?case
  proof (cases "n = 0")
    case False
    then have "alphabet ! (n mod 32) \<in> set alphabet" by (intro nth_mem) simp
    then show ?thesis using False 1 by (subst code_digits.simps) auto
  qed simp
qed

lemma read_code_append: "read_code i (xs @ ys) = (case read_code i xs of None \<Rightarrow> None | Some j \<Rightarrow> read_code j ys)"
  by (induction xs arbitrary: i) (auto simp: Let_def split: option.split)

lemma read_code_digits: "int n \<le> max_safe_integer \<Longrightarrow> read_code 0 (code_digits n) = Some (int n)"
proof (induction n rule: code_digits.induct)
  case (1 n)
  show ?case
  proof (cases "n = 0")
    case False
    have "int (n div 32) \<le> max_safe_integer" using 1(2) by (simp add: max_safe_integer_def)
    moreover have "n mod 32 < 32" by simp
    moreover have "int (n div 32) * 32 + int (n mod 32) = int n" by (metis div_mult_mod_eq of_nat_add of_nat_mult of_nat_numeral)
    ultimately show ?thesis
      using False 1 by (subst code_digits.simps) (simp add: read_code_append position_of_digit Let_def)
  qed simp
qed

lemma read_code_pad: "read_code 0 (replicate n (alphabet ! 0) @ s) = read_code 0 s"
proof -
  have "read_code 0 (replicate n (alphabet ! 0)) = Some 0"
    by (induction n) (simp_all add: position_of_digit Let_def max_safe_integer_def)
  then show ?thesis by (simp add: read_code_append)
qed

text \<open>A friend code names its account and no other: what is read out for any id an account can have is read
  back as that id, however many letters A somebody puts in front.\<close>

lemma code_names_its_account:
  assumes "0 < i" and "i \<le> max_safe_integer"
  shows "\<exists>code. friend_code_of i = Some code \<and> 6 \<le> length code
    \<and> (\<forall>n. account_id_from_code (replicate n CHR ''A'' @ code) = Some i)"
proof -
  define code where "code = pad_start 6 (alphabet ! 0) (code_digits (nat i))"
  have A: "alphabet ! 0 = CHR ''A''" by (simp add: alphabet_def)
  have "account_id_from_code (replicate n CHR ''A'' @ code) = Some i" for n
  proof -
    have "set (replicate n CHR ''A'' @ code) \<subseteq> set alphabet"
      using set_code_digits [of "nat i"] by (auto simp: code_def pad_start_def A) (auto simp: alphabet_def)
    then have plain: "\<forall>c \<in> set (replicate n CHR ''A'' @ code). \<not> blank c \<and> to_upper c = c"
      using code_characters by blast
    then have "map to_upper (trim (replicate n CHR ''A'' @ code)) = replicate n CHR ''A'' @ code"
      by (subst trim_id) (auto intro: map_idI)
    moreover have "read_code 0 (replicate n CHR ''A'' @ code) = Some i"
      using read_code_digits [of "nat i"] assms by (simp add: code_def pad_start_def read_code_pad flip: A)
    moreover have "code \<noteq> []" using assms by (subst code_def, subst code_digits.simps) (auto simp: pad_start_def)
    ultimately show ?thesis using assms(1) by (simp add: account_id_from_code_def Let_def)
  qed
  then show ?thesis using assms(1) by (simp add: friend_code_of_def code_def [symmetric]) (simp add: code_def pad_start_def)
qed

lemma code_names_its_account_witness:
  "\<exists>code. friend_code_of 1234567890 = Some code \<and> account_id_from_code (replicate 2 CHR ''A'' @ code) = Some 1234567890"
  using code_names_its_account [of 1234567890] by (auto simp: max_safe_integer_def)

section \<open>Where the code departs from its description\<close>

text \<open>
  Accepting is said to consume the request. Where an imported friendship is one-sided, the friend is
  saved and the account that accepted is not: its request waits on.
\<close>

lemma accepted_and_still_waiting:
  defines "r \<equiv> \<lparr>fq_id = 7, fq_account = 2, fq_to = Some 1, fq_state = Some 0, fq_name = ''Player'', fq_trophies = 0,
             fq_skin = 151, fq_facebook = Some [], fq_code = None, fq_created = None\<rparr>"
  defines "s \<equiv> \<lparr>co_people = [1 \<mapsto> (new_profile demo_template 1)\<lparr>pf_friends := [2], pf_requests := [r]\<rparr>,
             2 \<mapsto> new_profile demo_template 2], co_changes = []\<rparr>"
  shows "asks (snd (answer_one_request (\<lambda>_. None) demo_template 1 (Some 7) 2 True s)) 2 1"
    and "fst (answer_one_request (\<lambda>_. None) demo_template 1 (Some 7) 2 True s) \<noteq> Nothing_Done"
  unfolding r_def s_def by code_simp+

end
