(* ===== verification/Presence.thy ===== *)
theory Presence
  imports Prelude
begin

text \<open>
  Who is online and who is told (\<open>src/socket/presence.js\<close>), with the two ways a connection comes to
  follow somebody: the client's own list, checked against storage while friendships may change, and the
  friends seeded at login (\<open>src/socket/index.js\<close>). Connections are numbered; what is sent to one about
  another account is what it is shown. The clock of the restating tick and the copies on other threads are
  left out; a tick is an event that may come at any time.
\<close>

section \<open>The roll\<close>

text \<open>Online or not, whom, and where.\<close>

type_synonym friend_state = "bool \<times> int \<times> int"

record viewer =
  vw_account :: int
  vw_doid :: int
  vw_closed :: bool
  vw_watched :: "int list"
  vw_revisions :: "int \<Rightarrow> nat"
  vw_pending :: "int \<Rightarrow> nat"
  vw_sent :: "friend_state list"

record roll =
  rl_online :: "int \<Rightarrow> int option"
  rl_sessions :: "int list"
  rl_viewers :: "int \<Rightarrow> viewer"

definition max_watched :: nat where
  "max_watched = 512"

definition add_to :: "int \<Rightarrow> int list \<Rightarrow> int list" where
  "add_to x xs = (if x \<in> set xs then xs else xs @ [x])"

definition is_online :: "roll \<Rightarrow> int \<Rightarrow> bool" where
  "is_online r a = (rl_online r a \<noteq> None)"

definition dungeon_of :: "roll \<Rightarrow> int \<Rightarrow> int" where
  "dungeon_of r a = (case rl_online r a of None \<Rightarrow> 0 | Some node \<Rightarrow> node)"

definition state_of :: "(int \<Rightarrow> int option) \<Rightarrow> int \<Rightarrow> friend_state" where
  "state_of online a = (online a \<noteq> None, a, (case online a of None \<Rightarrow> 0 | Some node \<Rightarrow> node))"

definition send_state :: "friend_state \<Rightarrow> viewer \<Rightarrow> viewer" where
  "send_state f v = v\<lparr>vw_sent := vw_sent v @ [f]\<rparr>"

definition tell :: "(int \<Rightarrow> int option) \<Rightarrow> int \<Rightarrow> viewer \<Rightarrow> viewer" where
  "tell online a v = (if vw_doid v = 0 \<or> a \<notin> set (vw_watched v) then v else send_state (state_of online a) v)"

definition each_session :: "(viewer \<Rightarrow> viewer) \<Rightarrow> roll \<Rightarrow> roll" where
  "each_session f r = r\<lparr>rl_viewers := (\<lambda>k. if k \<in> set (rl_sessions r) then f (rl_viewers r k) else rl_viewers r k)\<rparr>"

definition update_viewer :: "int \<Rightarrow> (viewer \<Rightarrow> viewer) \<Rightarrow> roll \<Rightarrow> roll" where
  "update_viewer k f r = r\<lparr>rl_viewers := (rl_viewers r)(k := f (rl_viewers r k))\<rparr>"

definition tell_watchers :: "int \<Rightarrow> roll \<Rightarrow> roll" where
  "tell_watchers a r = each_session (tell (rl_online r) a) r"

text \<open>Everyone a connection watches who is online, said again.\<close>

definition reassert :: "(int \<Rightarrow> int option) \<Rightarrow> viewer \<Rightarrow> viewer" where
  "reassert online v = fold (\<lambda>a v. if online a \<noteq> None then tell online a v else v) (vw_watched v) v"

definition reassert_all :: "roll \<Rightarrow> roll" where
  "reassert_all r = each_session (reassert (rl_online r)) r"

definition enter_presence :: "int \<Rightarrow> roll \<Rightarrow> roll" where
  "enter_presence k r =
     (let r = r\<lparr>rl_sessions := add_to k (rl_sessions r)\<rparr>; a = vw_account (rl_viewers r k) in
      if a = 0 then r else tell_watchers a (r\<lparr>rl_online := (rl_online r)(a \<mapsto> 0)\<rparr>))"

definition leave_presence :: "int \<Rightarrow> roll \<Rightarrow> roll" where
  "leave_presence k r =
     (let r = r\<lparr>rl_sessions := filter (\<lambda>j. j \<noteq> k) (rl_sessions r)\<rparr>; a = vw_account (rl_viewers r k) in
      if a = 0 then r
      else if \<exists>j \<in> set (rl_sessions r). vw_account (rl_viewers r j) = a then r
      else if rl_online r a = None then r
      else tell_watchers a (r\<lparr>rl_online := (rl_online r)(a := None)\<rparr>))"

definition set_presence_location :: "int \<Rightarrow> int \<Rightarrow> roll \<Rightarrow> roll" where
  "set_presence_location k node r =
     (let a = vw_account (rl_viewers r k) in
      if a = 0 \<or> k \<notin> set (rl_sessions r) then r
      else if rl_online r a = Some node then r
      else tell_watchers a (r\<lparr>rl_online := (rl_online r)(a \<mapsto> node)\<rparr>))"

text \<open>How many are online, how many of them in a dungeon, and how many in each.\<close>

definition presence_summary :: "int list \<Rightarrow> roll \<Rightarrow> nat \<times> nat \<times> (int \<Rightarrow> nat)" where
  "presence_summary everyone r =
     (let present = filter (is_online r) everyone; afield = filter (\<lambda>a. dungeon_of r a \<noteq> 0) present in
      (length present, length afield, (\<lambda>node. length (filter (\<lambda>a. dungeon_of r a = node) afield))))"

section \<open>Following\<close>

definition begin_pending :: "int \<Rightarrow> viewer \<Rightarrow> viewer" where
  "begin_pending a v = v\<lparr>vw_pending := (vw_pending v)(a := vw_pending v a + 1)\<rparr>"

definition finish_pending :: "int \<Rightarrow> viewer \<Rightarrow> viewer" where
  "finish_pending a v =
     (if 1 < vw_pending v a then v\<lparr>vw_pending := (vw_pending v)(a := vw_pending v a - 1)\<rparr>
      else v\<lparr>vw_pending := (vw_pending v)(a := 0), vw_revisions := (vw_revisions v)(a := 0)\<rparr>)"

definition cancel_pending :: "int \<Rightarrow> viewer \<Rightarrow> viewer" where
  "cancel_pending a v =
     (if vw_pending v a = 0 then v else v\<lparr>vw_revisions := (vw_revisions v)(a := vw_revisions v a + 1)\<rparr>)"

text \<open>A list the client sent, being checked: whom it names, their revisions then, and the friends found so far.\<close>

record check =
  ck_asked :: "int list"
  ck_revisions :: "int \<Rightarrow> nat"
  ck_found :: "int list"

definition begin_check :: "int list \<Rightarrow> viewer \<Rightarrow> check \<times> viewer" where
  "begin_check ids v =
     (let asked = rev (remdups (rev (take max_watched ids))) in
      (\<lparr>ck_asked = asked, ck_revisions = vw_revisions v, ck_found = []\<rparr>, fold begin_pending asked v))"

fun admit_up_to :: "int list \<Rightarrow> int list \<Rightarrow> int list" where
  "admit_up_to watched [] = watched"
| "admit_up_to watched (a # wanted) =
     (if max_watched \<le> length watched then watched else admit_up_to (add_to a watched) wanted)"

definition admit_watched :: "(int \<Rightarrow> int option) \<Rightarrow> int list \<Rightarrow> viewer \<Rightarrow> viewer" where
  "admit_watched online wanted v =
     (if vw_closed v then v
      else fold (tell online) wanted (v\<lparr>vw_watched := admit_up_to (vw_watched v) wanted\<rparr>))"

definition finish_check :: "(int \<Rightarrow> int option) \<Rightarrow> check \<Rightarrow> viewer \<Rightarrow> viewer" where
  "finish_check online c v =
     fold finish_pending (ck_asked c)
       (admit_watched online (filter (\<lambda>a. vw_revisions v a = ck_revisions c a) (ck_found c)) v)"

definition fail_check :: "check \<Rightarrow> viewer \<Rightarrow> viewer" where
  "fail_check c v = fold finish_pending (ck_asked c) v"

text \<open>The friends seeded at login: only those who are on are spoken of.\<close>

fun watch_friends :: "(int \<Rightarrow> int option) \<Rightarrow> int list \<Rightarrow> viewer \<Rightarrow> viewer" where
  "watch_friends online [] v = v"
| "watch_friends online (a # ids) v =
     (if a \<le> 0 then watch_friends online ids v
      else if max_watched \<le> length (vw_watched v) then v
      else let v = v\<lparr>vw_watched := add_to a (vw_watched v)\<rparr> in
        watch_friends online ids (if online a \<noteq> None then tell online a v else v))"

definition hear_change :: "(int \<Rightarrow> int option) \<Rightarrow> int \<Rightarrow> bool \<Rightarrow> viewer \<Rightarrow> viewer" where
  "hear_change online a made v =
     (let v = cancel_pending a v in
      if made then tell online a (v\<lparr>vw_watched := add_to a (vw_watched v)\<rparr>)
      else if a \<notin> set (vw_watched v) then v
      else let v = v\<lparr>vw_watched := filter (\<lambda>b. b \<noteq> a) (vw_watched v)\<rparr> in
        if vw_doid v = 0 then v else send_state (False, a, 0) v)"

definition one_side :: "(int \<Rightarrow> int option) \<Rightarrow> int \<Rightarrow> int \<Rightarrow> bool \<Rightarrow> viewer \<Rightarrow> viewer" where
  "one_side online who other made v = (if vw_account v = who then hear_change online other made v else v)"

definition friendship_changed :: "int \<Rightarrow> int \<Rightarrow> bool \<Rightarrow> roll \<Rightarrow> roll" where
  "friendship_changed i j made r =
     each_session (one_side (rl_online r) j i made) (each_session (one_side (rl_online r) i j made) r)"

section \<open>The server around it\<close>

text \<open>
  Who are friends, as storage has it; the changes of that which are saved but not announced yet; the
  checks under way for each connection, the friends read so far at its login, and, of a connection, that a
  friendship ended which its login check had already read.
\<close>

record scene =
  sc_roll :: roll
  sc_friends :: "int \<Rightarrow> int \<Rightarrow> bool"
  sc_news :: "(int \<times> int \<times> bool) list"
  sc_checks :: "int \<Rightarrow> check list"
  sc_login :: "int \<Rightarrow> int list option"
  sc_stale :: "int \<Rightarrow> bool"

datatype event =
    Enter int int
  | Generate int int
  | Leave int
  | Move int int
  | Reassert
  | Ask_For int "int list"
  | Check_Reads int nat int
  | Check_Done int nat
  | Check_Fails int nat
  | Login_Begins int
  | Login_Reads int int
  | Login_Done int
  | Friendship int int bool
  | Announce

definition viewer_of :: "scene \<Rightarrow> int \<Rightarrow> viewer" where
  "viewer_of s k = rl_viewers (sc_roll s) k"

definition here :: "scene \<Rightarrow> int \<Rightarrow> bool" where
  "here s k = (k \<in> set (rl_sessions (sc_roll s)))"

definition on_roll :: "(roll \<Rightarrow> roll) \<Rightarrow> scene \<Rightarrow> scene" where
  "on_roll f s = s\<lparr>sc_roll := f (sc_roll s)\<rparr>"

definition drop_nth :: "nat \<Rightarrow> 'a list \<Rightarrow> 'a list" where
  "drop_nth n xs = take n xs @ drop (Suc n) xs"

text \<open>\<open>handleAddFriends\<close>, from a connection that has its presence object.\<close>

definition ask_for :: "int \<Rightarrow> int list \<Rightarrow> scene \<Rightarrow> scene" where
  "ask_for k ids s =
     (if \<not> here s k \<or> vw_doid (viewer_of s k) = 0 then s
      else case begin_check ids (viewer_of s k) of (c, v) \<Rightarrow>
        s\<lparr>sc_roll := update_viewer k (\<lambda>_. v) (sc_roll s), sc_checks := (sc_checks s)(k := sc_checks s k @ [c])\<rparr>)"

text \<open>The check of one id finds a friend, as storage has it then.\<close>

definition check_reads :: "int \<Rightarrow> nat \<Rightarrow> int \<Rightarrow> scene \<Rightarrow> scene" where
  "check_reads k n a s =
     (if n < length (sc_checks s k) \<and> a \<in> set (ck_asked (sc_checks s k ! n)) \<and> sc_friends s (vw_account (viewer_of s k)) a
      then s\<lparr>sc_checks := (sc_checks s)(k := (sc_checks s k)[n := (sc_checks s k ! n)\<lparr>ck_found := add_to a (ck_found (sc_checks s k ! n))\<rparr>])\<rparr>
      else s)"

definition check_over :: "(check \<Rightarrow> viewer \<Rightarrow> viewer) \<Rightarrow> int \<Rightarrow> nat \<Rightarrow> scene \<Rightarrow> scene" where
  "check_over f k n s =
     (if n < length (sc_checks s k)
      then s\<lparr>sc_roll := update_viewer k (f (sc_checks s k ! n)) (sc_roll s),
             sc_checks := (sc_checks s)(k := drop_nth n (sc_checks s k))\<rparr>
      else s)"

text \<open>\<open>tellHimAboutHisFriends\<close>: read one after another, then watched, all that were read.\<close>

definition login_begins :: "int \<Rightarrow> scene \<Rightarrow> scene" where
  "login_begins k s =
     (if here s k \<and> vw_doid (viewer_of s k) \<noteq> 0 \<and> sc_login s k = None then s\<lparr>sc_login := (sc_login s)(k \<mapsto> [])\<rparr> else s)"

definition login_reads :: "int \<Rightarrow> int \<Rightarrow> scene \<Rightarrow> scene" where
  "login_reads k a s =
     (case sc_login s k of
        Some ids \<Rightarrow> if sc_friends s (vw_account (viewer_of s k)) a then s\<lparr>sc_login := (sc_login s)(k \<mapsto> add_to a ids)\<rparr> else s
      | None \<Rightarrow> s)"

definition login_done :: "int \<Rightarrow> scene \<Rightarrow> scene" where
  "login_done k s =
     (case sc_login s k of
        None \<Rightarrow> s
      | Some ids \<Rightarrow>
          let s' = s\<lparr>sc_login := (sc_login s)(k := None)\<rparr> in
          if ids = [] \<or> vw_closed (viewer_of s k) then s'
          else s'\<lparr>sc_roll := update_viewer k (watch_friends (rl_online (sc_roll s)) ids) (sc_roll s)\<rparr>)"

definition change_friendship :: "int \<Rightarrow> int \<Rightarrow> bool \<Rightarrow> scene \<Rightarrow> scene" where
  "change_friendship i j made s =
     s\<lparr>sc_friends := (\<lambda>a b. if (a = i \<and> b = j) \<or> (a = j \<and> b = i) then made else sc_friends s a b),
       sc_news := sc_news s @ [(i, j, made)]\<rparr>"

definition ends_login :: "scene \<Rightarrow> int \<Rightarrow> int \<Rightarrow> int \<Rightarrow> bool \<Rightarrow> bool" where
  "ends_login s k i j made = (\<not> made \<and> (case sc_login s k of None \<Rightarrow> False | Some ids \<Rightarrow>
     (vw_account (viewer_of s k) = i \<and> j \<in> set ids) \<or> (vw_account (viewer_of s k) = j \<and> i \<in> set ids)))"

definition announce_next :: "scene \<Rightarrow> scene" where
  "announce_next s =
     (case sc_news s of
        [] \<Rightarrow> s
      | (i, j, made) # news \<Rightarrow>
          s\<lparr>sc_roll := friendship_changed i j made (sc_roll s), sc_news := news,
            sc_stale := (\<lambda>k. sc_stale s k \<or> ends_login s k i j made)\<rparr>)"

text \<open>A login claims a connection nobody has logged in on; closing takes it off the roll.\<close>

definition enter_as :: "int \<Rightarrow> int \<Rightarrow> scene \<Rightarrow> scene" where
  "enter_as k a s =
     (if vw_account (viewer_of s k) \<noteq> 0 \<or> vw_closed (viewer_of s k) \<or> a \<le> 0 then s
      else on_roll (enter_presence k \<circ> update_viewer k (\<lambda>v. v\<lparr>vw_account := a\<rparr>)) s)"

definition generate_presence :: "int \<Rightarrow> int \<Rightarrow> scene \<Rightarrow> scene" where
  "generate_presence k doid s =
     (if here s k \<and> vw_doid (viewer_of s k) = 0 \<and> 0 < doid then on_roll (update_viewer k (\<lambda>v. v\<lparr>vw_doid := doid\<rparr>)) s else s)"

definition leave_for_good :: "int \<Rightarrow> scene \<Rightarrow> scene" where
  "leave_for_good k s = on_roll (leave_presence k \<circ> update_viewer k (\<lambda>v. v\<lparr>vw_closed := True\<rparr>)) s"

definition happens :: "event \<Rightarrow> scene \<Rightarrow> scene" where
  "happens e s =
     (case e of
        Enter k a \<Rightarrow> enter_as k a s
      | Generate k doid \<Rightarrow> generate_presence k doid s
      | Leave k \<Rightarrow> leave_for_good k s
      | Move k node \<Rightarrow> on_roll (set_presence_location k node) s
      | Reassert \<Rightarrow> on_roll reassert_all s
      | Ask_For k ids \<Rightarrow> ask_for k ids s
      | Check_Reads k n a \<Rightarrow> check_reads k n a s
      | Check_Done k n \<Rightarrow> check_over (finish_check (rl_online (sc_roll s))) k n s
      | Check_Fails k n \<Rightarrow> check_over fail_check k n s
      | Login_Begins k \<Rightarrow> login_begins k s
      | Login_Reads k a \<Rightarrow> login_reads k a s
      | Login_Done k \<Rightarrow> login_done k s
      | Friendship i j made \<Rightarrow> if i = j then s else change_friendship i j made s
      | Announce \<Rightarrow> announce_next s)"

definition new_viewer :: viewer where
  "new_viewer = \<lparr>vw_account = 0, vw_doid = 0, vw_closed = False, vw_watched = [], vw_revisions = (\<lambda>_. 0),
     vw_pending = (\<lambda>_. 0), vw_sent = []\<rparr>"

definition at_start :: "(int \<Rightarrow> int \<Rightarrow> bool) \<Rightarrow> scene" where
  "at_start friends = \<lparr>sc_roll = \<lparr>rl_online = Map.empty, rl_sessions = [], rl_viewers = (\<lambda>_. new_viewer)\<rparr>,
     sc_friends = friends, sc_news = [], sc_checks = (\<lambda>_. []), sc_login = (\<lambda>_. None), sc_stale = (\<lambda>_. False)\<rparr>"

section \<open>What each operation touches\<close>

lemma send_state_fields [simp]:
  "vw_account (send_state f v) = vw_account v" "vw_doid (send_state f v) = vw_doid v"
  "vw_closed (send_state f v) = vw_closed v" "vw_watched (send_state f v) = vw_watched v"
  "vw_revisions (send_state f v) = vw_revisions v" "vw_pending (send_state f v) = vw_pending v"
  "vw_sent (send_state f v) = vw_sent v @ [f]"
  by (simp_all add: send_state_def)

lemma tell_fields [simp]:
  "vw_account (tell online a v) = vw_account v" "vw_doid (tell online a v) = vw_doid v"
  "vw_closed (tell online a v) = vw_closed v" "vw_watched (tell online a v) = vw_watched v"
  "vw_revisions (tell online a v) = vw_revisions v" "vw_pending (tell online a v) = vw_pending v"
  by (simp_all add: tell_def)

lemma fold_tell_fields [simp]:
  "vw_account (fold (tell online) ids v) = vw_account v" "vw_doid (fold (tell online) ids v) = vw_doid v"
  "vw_closed (fold (tell online) ids v) = vw_closed v" "vw_watched (fold (tell online) ids v) = vw_watched v"
  "vw_revisions (fold (tell online) ids v) = vw_revisions v" "vw_pending (fold (tell online) ids v) = vw_pending v"
  by (induction ids arbitrary: v) simp_all

lemma reassert_tells: "reassert online v = fold (tell online) (filter (\<lambda>a. online a \<noteq> None) (vw_watched v)) v"
proof -
  have "fold (\<lambda>a v. if online a \<noteq> None then tell online a v else v) ids v
      = fold (tell online) (filter (\<lambda>a. online a \<noteq> None) ids) v" for ids
    by (induction ids arbitrary: v) simp_all
  then show ?thesis by (simp add: reassert_def)
qed

lemma pending_fields [simp]:
  "vw_account (begin_pending a v) = vw_account v" "vw_doid (begin_pending a v) = vw_doid v"
  "vw_closed (begin_pending a v) = vw_closed v" "vw_watched (begin_pending a v) = vw_watched v"
  "vw_sent (begin_pending a v) = vw_sent v" "vw_revisions (begin_pending a v) = vw_revisions v"
  "vw_account (finish_pending a v) = vw_account v" "vw_doid (finish_pending a v) = vw_doid v"
  "vw_closed (finish_pending a v) = vw_closed v" "vw_watched (finish_pending a v) = vw_watched v"
  "vw_sent (finish_pending a v) = vw_sent v"
  "vw_account (cancel_pending a v) = vw_account v" "vw_doid (cancel_pending a v) = vw_doid v"
  "vw_closed (cancel_pending a v) = vw_closed v" "vw_watched (cancel_pending a v) = vw_watched v"
  "vw_sent (cancel_pending a v) = vw_sent v" "vw_pending (cancel_pending a v) = vw_pending v"
  by (simp_all add: begin_pending_def finish_pending_def cancel_pending_def)

lemma fold_pending_fields [simp]:
  "vw_account (fold begin_pending ids v) = vw_account v" "vw_doid (fold begin_pending ids v) = vw_doid v"
  "vw_closed (fold begin_pending ids v) = vw_closed v" "vw_watched (fold begin_pending ids v) = vw_watched v"
  "vw_sent (fold begin_pending ids v) = vw_sent v" "vw_revisions (fold begin_pending ids v) = vw_revisions v"
  "vw_account (fold finish_pending ids v) = vw_account v" "vw_doid (fold finish_pending ids v) = vw_doid v"
  "vw_closed (fold finish_pending ids v) = vw_closed v" "vw_watched (fold finish_pending ids v) = vw_watched v"
  "vw_sent (fold finish_pending ids v) = vw_sent v"
  by (induction ids arbitrary: v) simp_all

lemma set_add_to [simp]: "set (add_to x xs) = insert x (set xs)"
  by (auto simp: add_to_def)

lemma begin_all:
  "distinct ids \<Longrightarrow> vw_pending (fold begin_pending ids v) a = vw_pending v a + (if a \<in> set ids then 1 else 0)"
  by (induction ids arbitrary: v) (auto simp: begin_pending_def)

lemma finish_all:
  "distinct ids \<Longrightarrow> vw_pending (fold finish_pending ids v) a = (if a \<in> set ids then vw_pending v a - 1 else vw_pending v a)"
  "distinct ids \<Longrightarrow> vw_revisions (fold finish_pending ids v) a
     = (if a \<in> set ids \<and> vw_pending v a \<le> 1 then 0 else vw_revisions v a)"
  by (induction ids arbitrary: v) (auto simp: finish_pending_def)

section \<open>The books of the checks under way\<close>

text \<open>
  Of every account, as many pending as checks name it; a check's revisions are never ahead of the
  connection's; and it finds only whom it asked for.
\<close>

definition books_ok :: "viewer \<Rightarrow> check list \<Rightarrow> bool" where
  "books_ok v checks \<longleftrightarrow> (\<forall>a. vw_pending v a = length (filter (\<lambda>c. a \<in> set (ck_asked c)) checks))
     \<and> (\<forall>c \<in> set checks. distinct (ck_asked c) \<and> set (ck_found c) \<subseteq> set (ck_asked c)
          \<and> (\<forall>a \<in> set (ck_asked c). ck_revisions c a \<le> vw_revisions v a))"

lemma set_drop_nth: "set (drop_nth n xs) \<subseteq> set xs"
  by (auto simp: drop_nth_def dest: in_set_takeD in_set_dropD)

lemma length_filter_drop_nth:
  "n < length xs \<Longrightarrow> length (filter p (drop_nth n xs)) = length (filter p xs) - (if p (xs ! n) then 1 else 0)"
proof -
  assume n: "n < length xs"
  have "length (filter p xs) = length (filter p (take n xs @ xs ! n # drop (Suc n) xs))"
    using n by (simp add: id_take_nth_drop [symmetric])
  then show ?thesis by (simp add: drop_nth_def)
qed

lemma books_over:
  assumes "books_ok v checks" and "n < length checks"
    and "vw_pending v' = vw_pending v" and "vw_revisions v' = vw_revisions v"
  shows "books_ok (fold finish_pending (ck_asked (checks ! n)) v') (drop_nth n checks)"
proof -
  let ?c = "checks ! n" and ?w = "fold finish_pending (ck_asked (checks ! n)) v'"
  have c: "distinct (ck_asked ?c)" using assms(1,2) by (simp add: books_ok_def)
  have count: "vw_pending ?w a = length (filter (\<lambda>c. a \<in> set (ck_asked c)) (drop_nth n checks))" for a
    using assms(1) by (simp add: finish_all(1) [OF c] assms(3) books_ok_def length_filter_drop_nth [OF assms(2)])
  have "ck_revisions c a \<le> vw_revisions ?w a" if c': "c \<in> set (drop_nth n checks)" "a \<in> set (ck_asked c)" for c a
  proof -
    have "filter (\<lambda>c. a \<in> set (ck_asked c)) (drop_nth n checks) \<noteq> []" using c' by (auto simp: filter_empty_conv)
    then have "vw_pending ?w a \<noteq> 0" by (simp add: count)
    then have "\<not> (a \<in> set (ck_asked ?c) \<and> vw_pending v a \<le> 1)"
      by (auto simp: finish_all(1) [OF c] assms(3))
    moreover have "ck_revisions c a \<le> vw_revisions v a"
      using assms(1) c' set_drop_nth [of n checks] by (auto simp: books_ok_def)
    ultimately show ?thesis by (auto simp: finish_all(2) [OF c] assms(3,4))
  qed
  then show ?thesis using assms(1) count set_drop_nth [of n checks] by (auto simp: books_ok_def)
qed

lemma books_begin:
  assumes "books_ok v checks" and "begin_check ids v = (c, v')"
  shows "books_ok v' (checks @ [c])" and "ck_found c = []"
  using assms by (auto simp: begin_check_def Let_def books_ok_def begin_all)

lemma books_cancel: "books_ok v checks \<Longrightarrow> books_ok (cancel_pending a v) checks"
  by (auto simp: books_ok_def cancel_pending_def intro: le_SucI)

section \<open>Only friends are followed\<close>

definition about :: "int \<Rightarrow> int \<Rightarrow> int \<times> int \<times> bool \<Rightarrow> bool" where
  "about a b = (\<lambda>(i, j, _). (i = a \<and> j = b) \<or> (i = b \<and> j = a))"

text \<open>Friends, or a change between the two is saved and still to be announced.\<close>

definition due :: "scene \<Rightarrow> int \<Rightarrow> int \<Rightarrow> bool" where
  "due s a b = (sc_friends s a b \<or> filter (about a b) (sc_news s) \<noteq> [])"

text \<open>The last change still to be announced between two is the one storage has.\<close>

definition honest :: "scene \<Rightarrow> bool" where
  "honest s = (\<forall>a b. filter (about a b) (sc_news s) \<noteq> [] \<longrightarrow>
     snd (snd (last (filter (about a b) (sc_news s)))) = sc_friends s a b)"

definition follows_ok :: "(int \<Rightarrow> bool) \<Rightarrow> viewer \<Rightarrow> check list \<Rightarrow> int list option \<Rightarrow> bool \<Rightarrow> bool" where
  "follows_ok fine v checks login stale \<longleftrightarrow>
     (\<forall>c \<in> set checks. \<forall>a \<in> set (ck_found c). ck_revisions c a = vw_revisions v a \<longrightarrow> fine a)
     \<and> (\<not> stale \<longrightarrow> (\<forall>a \<in> set (vw_watched v). fine a) \<and> (\<forall>ids. login = Some ids \<longrightarrow> (\<forall>a \<in> set ids. fine a)))"

definition unused :: "viewer \<Rightarrow> check list \<Rightarrow> int list option \<Rightarrow> bool" where
  "unused v checks login \<longleftrightarrow> vw_watched v = [] \<and> checks = [] \<and> login = None \<and> vw_doid v = 0 \<and> vw_sent v = []"

definition standing_ok :: "scene \<Rightarrow> int \<Rightarrow> bool" where
  "standing_ok s k \<longleftrightarrow> books_ok (viewer_of s k) (sc_checks s k)
     \<and> (vw_account (viewer_of s k) = 0 \<longrightarrow> \<not> here s k \<and> unused (viewer_of s k) (sc_checks s k) (sc_login s k))
     \<and> (vw_account (viewer_of s k) \<noteq> 0 \<longrightarrow> here s k \<noteq> vw_closed (viewer_of s k))
     \<and> (here s k \<longrightarrow> follows_ok (due s (vw_account (viewer_of s k))) (viewer_of s k) (sc_checks s k) (sc_login s k) (sc_stale s k))"

definition scene_ok :: "scene \<Rightarrow> bool" where
  "scene_ok s \<longleftrightarrow> honest s \<and> (\<forall>k. standing_ok s k)"

text \<open>An event that leaves friendships and news alone, and every connection's books and following in order.\<close>

lemma viewer_of_update [simp]:
  "viewer_of (s\<lparr>sc_checks := c\<rparr>) k = viewer_of s k" "viewer_of (s\<lparr>sc_login := l\<rparr>) k = viewer_of s k"
  "viewer_of (s\<lparr>sc_stale := t\<rparr>) k = viewer_of s k" "viewer_of (s\<lparr>sc_news := n\<rparr>) k = viewer_of s k"
  "viewer_of (s\<lparr>sc_friends := f\<rparr>) k = viewer_of s k"
  "viewer_of (s\<lparr>sc_roll := r\<rparr>) k = rl_viewers r k"
  "viewer_of (on_roll g s) k = rl_viewers (g (sc_roll s)) k"
  by (simp_all add: viewer_of_def on_roll_def)

lemma here_update [simp]:
  "here (s\<lparr>sc_checks := c\<rparr>) k = here s k" "here (s\<lparr>sc_login := l\<rparr>) k = here s k"
  "here (s\<lparr>sc_stale := t\<rparr>) k = here s k" "here (s\<lparr>sc_news := n\<rparr>) k = here s k"
  "here (s\<lparr>sc_friends := f\<rparr>) k = here s k"
  "here (s\<lparr>sc_roll := r\<rparr>) k = (k \<in> set (rl_sessions r))"
  "here (on_roll g s) k = (k \<in> set (rl_sessions (g (sc_roll s))))"
  by (simp_all add: here_def on_roll_def)

lemma on_roll_fields [simp]:
  "sc_friends (on_roll g s) = sc_friends s" "sc_news (on_roll g s) = sc_news s" "sc_checks (on_roll g s) = sc_checks s"
  "sc_login (on_roll g s) = sc_login s" "sc_stale (on_roll g s) = sc_stale s" "sc_roll (on_roll g s) = g (sc_roll s)"
  by (simp_all add: on_roll_def)

lemma update_viewer_fields [simp]:
  "rl_sessions (update_viewer k f r) = rl_sessions r" "rl_online (update_viewer k f r) = rl_online r"
  "rl_viewers (update_viewer k f r) j = (if j = k then f (rl_viewers r k) else rl_viewers r j)"
  by (simp_all add: update_viewer_def)

lemma each_session_fields [simp]:
  "rl_sessions (each_session f r) = rl_sessions r" "rl_online (each_session f r) = rl_online r"
  "rl_viewers (each_session f r) j = (if j \<in> set (rl_sessions r) then f (rl_viewers r j) else rl_viewers r j)"
  by (simp_all add: each_session_def)

lemma due_cong: "sc_friends s' = sc_friends s \<Longrightarrow> sc_news s' = sc_news s \<Longrightarrow> due s' = due s"
  by (simp add: due_def fun_eq_iff)

lemma due_update [simp]:
  "due (s\<lparr>sc_checks := c\<rparr>) = due s" "due (s\<lparr>sc_login := l\<rparr>) = due s" "due (s\<lparr>sc_stale := t\<rparr>) = due s"
  "due (s\<lparr>sc_roll := r\<rparr>) = due s" "due (on_roll g s) = due s"
  by (rule due_cong; simp)+

lemma honest_cong: "sc_friends s' = sc_friends s \<Longrightarrow> sc_news s' = sc_news s \<Longrightarrow> honest s' = honest s"
  by (simp add: honest_def)

text \<open>A connection whose fields but for what it is sent stay as they are stays in order.\<close>

definition same_viewer :: "viewer \<Rightarrow> viewer \<Rightarrow> bool" where
  "same_viewer v v' \<longleftrightarrow> vw_account v' = vw_account v \<and> vw_doid v' = vw_doid v \<and> vw_closed v' = vw_closed v
     \<and> vw_watched v' = vw_watched v \<and> vw_revisions v' = vw_revisions v \<and> vw_pending v' = vw_pending v"

lemma books_same: "same_viewer v v' \<Longrightarrow> books_ok v' checks = books_ok v checks"
  by (simp add: books_ok_def same_viewer_def)

lemma follows_same: "same_viewer v v' \<Longrightarrow> follows_ok fine v' checks login stale = follows_ok fine v checks login stale"
  by (simp add: follows_ok_def same_viewer_def)

lemma follows_mono: "follows_ok fine v checks login stale \<Longrightarrow> (\<And>a. fine a \<Longrightarrow> fine' a) \<Longrightarrow> follows_ok fine' v checks login stale"
  by (auto simp: follows_ok_def)

lemma same_tell [simp]: "same_viewer v (tell online a v)" "same_viewer v (fold (tell online) ids v)" "same_viewer v v"
  by (simp_all add: same_viewer_def)

lemma standing_same:
  assumes "standing_ok s k" and "same_viewer (viewer_of s k) (viewer_of s' k)"
    and "here s' k = here s k" and "sc_checks s' k = sc_checks s k" and "sc_login s' k = sc_login s k"
    and "sc_stale s' k = sc_stale s k" and "\<And>b. due s (vw_account (viewer_of s k)) b \<Longrightarrow> due s' (vw_account (viewer_of s k)) b"
    and "vw_account (viewer_of s k) = 0 \<Longrightarrow> vw_sent (viewer_of s' k) = vw_sent (viewer_of s k)"
  shows "standing_ok s' k"
  using assms(1,3-6,8) books_same [OF assms(2)] follows_same [OF assms(2)] follows_mono [OF _ assms(7)] assms(2)
  by (auto simp: standing_ok_def same_viewer_def unused_def)

lemma scene_okD:
  assumes "scene_ok s"
  shows "honest s" and "standing_ok s k" and "books_ok (viewer_of s k) (sc_checks s k)"
    and "here s k \<Longrightarrow> vw_account (viewer_of s k) \<noteq> 0 \<and> \<not> vw_closed (viewer_of s k)"
    and "here s k \<Longrightarrow> follows_ok (due s (vw_account (viewer_of s k))) (viewer_of s k) (sc_checks s k) (sc_login s k) (sc_stale s k)"
  using assms by (auto simp: scene_ok_def standing_ok_def)

lemma not_here_unwatched: "scene_ok s \<Longrightarrow> vw_account (viewer_of s k) = 0 \<Longrightarrow> vw_watched (viewer_of s k) = [] \<and> vw_doid (viewer_of s k) = 0"
  by (auto simp: scene_ok_def standing_ok_def unused_def)

lemma tell_unwatched: "vw_doid v = 0 \<Longrightarrow> tell online a v = v"
  by (simp add: tell_def)

lemma fold_tell_unwatched: "vw_doid v = 0 \<Longrightarrow> fold (tell online) ids v = v"
  by (induction ids) (simp_all add: tell_unwatched)

text \<open>An event of one connection: the others are as they were.\<close>

lemma scene_ok_one:
  assumes "scene_ok s" and "sc_friends s' = sc_friends s" and "sc_news s' = sc_news s"
    and "\<And>j. j \<noteq> k \<Longrightarrow> same_viewer (viewer_of s j) (viewer_of s' j) \<and> here s' j = here s j \<and> sc_checks s' j = sc_checks s j
          \<and> sc_login s' j = sc_login s j \<and> sc_stale s' j = sc_stale s j
          \<and> (vw_account (viewer_of s j) = 0 \<longrightarrow> vw_sent (viewer_of s' j) = vw_sent (viewer_of s j))"
    and "standing_ok s' k"
  shows "scene_ok s'"
proof -
  have "standing_ok s' j" for j
  proof (cases "j = k")
    case False
    show ?thesis
      by (rule standing_same [OF scene_okD(2) [OF assms(1)]]) (use assms(4) [OF False] due_cong [OF assms(2,3)] in auto)
  qed (use assms(5) in simp)
  then show ?thesis using assms(1) honest_cong [OF assms(2,3)] by (simp add: scene_ok_def)
qed

lemma tell_watchers_fields [simp]:
  "rl_sessions (tell_watchers a r) = rl_sessions r" "rl_online (tell_watchers a r) = rl_online r"
  "rl_viewers (tell_watchers a r) j = (if j \<in> set (rl_sessions r) then tell (rl_online r) a (rl_viewers r j) else rl_viewers r j)"
  by (simp_all add: tell_watchers_def)

text \<open>Telling everybody something changes nothing that is kept.\<close>

lemma scene_ok_told:
  assumes "scene_ok s" and "\<And>j. same_viewer (viewer_of s j) (viewer_of s' j) \<and> here s' j = here s j
      \<and> (\<not> here s j \<longrightarrow> viewer_of s' j = viewer_of s j)"
    and "sc_friends s' = sc_friends s" "sc_news s' = sc_news s" "sc_checks s' = sc_checks s" "sc_login s' = sc_login s"
      "sc_stale s' = sc_stale s"
  shows "scene_ok s'"
proof -
  have "standing_ok s' k" for k
    by (rule standing_same [OF scene_okD(2) [OF assms(1)]])
      (use assms(2) [of k] scene_okD(4) [OF assms(1), of k] assms(3-7) due_cong [OF assms(3,4)] in auto)
  then show ?thesis using assms(1) honest_cong [OF assms(3,4)] by (simp add: scene_ok_def)
qed

lemma move_ok: "scene_ok s \<Longrightarrow> scene_ok (on_roll (set_presence_location k node) s)"
  by (rule scene_ok_told) (auto simp: set_presence_location_def Let_def here_def viewer_of_def)

lemma reassert_ok: "scene_ok s \<Longrightarrow> scene_ok (on_roll reassert_all s)"
  by (rule scene_ok_told) (auto simp: reassert_all_def reassert_tells here_def viewer_of_def)

lemma entering_ok:
  assumes ok: "scene_ok s"
  shows "scene_ok (enter_as k a s)"
proof (cases "vw_account (viewer_of s k) \<noteq> 0 \<or> vw_closed (viewer_of s k) \<or> a \<le> 0")
  case False
  then have k: "\<not> here s k" "unused (viewer_of s k) (sc_checks s k) (sc_login s k)" "\<not> vw_closed (viewer_of s k)"
    using ok by (auto simp: scene_ok_def standing_ok_def)
  show ?thesis
  proof (rule scene_ok_one [OF ok, where k = k])
    have "books_ok (viewer_of s k) []" using k(2) scene_okD(3) [OF ok, of k] by (simp add: unused_def)
    then show "standing_ok (enter_as k a s) k"
      using False k
      by (auto simp: enter_as_def standing_ok_def enter_presence_def Let_def tell_unwatched unused_def follows_ok_def
          viewer_of_def books_ok_def)
  next
    fix j assume "j \<noteq> k"
    moreover have "vw_account (viewer_of s j) = 0 \<longrightarrow> vw_doid (viewer_of s j) = 0" using not_here_unwatched [OF ok] by blast
    ultimately show "same_viewer (viewer_of s j) (viewer_of (enter_as k a s) j) \<and> here (enter_as k a s) j = here s j
        \<and> sc_checks (enter_as k a s) j = sc_checks s j \<and> sc_login (enter_as k a s) j = sc_login s j
        \<and> sc_stale (enter_as k a s) j = sc_stale s j
        \<and> (vw_account (viewer_of s j) = 0 \<longrightarrow> vw_sent (viewer_of (enter_as k a s) j) = vw_sent (viewer_of s j))"
      using False by (auto simp: enter_as_def enter_presence_def Let_def here_def viewer_of_def tell_unwatched)
  qed (simp_all add: enter_as_def)
qed (simp add: enter_as_def ok)

lemma generate_ok:
  assumes ok: "scene_ok s"
  shows "scene_ok (generate_presence k doid s)"
proof (cases "here s k \<and> vw_doid (viewer_of s k) = 0 \<and> 0 < doid")
  case True
  show ?thesis
    by (rule scene_ok_one [OF ok, where k = k])
      (use scene_okD(2) [OF ok, of k] True in
        \<open>auto simp: generate_presence_def standing_ok_def books_ok_def follows_ok_def due_def here_def viewer_of_def unused_def\<close>)
qed (auto simp: generate_presence_def ok)

lemma leaving_ok:
  assumes ok: "scene_ok s"
  shows "scene_ok (leave_for_good k s)"
proof (rule scene_ok_one [OF ok, where k = k])
  show "standing_ok (leave_for_good k s) k"
    using scene_okD(2) [OF ok, of k]
    by (auto simp: leave_for_good_def standing_ok_def leave_presence_def Let_def viewer_of_def books_ok_def unused_def)
next
  fix j assume "j \<noteq> k"
  moreover have "vw_account (viewer_of s j) = 0 \<longrightarrow> vw_doid (viewer_of s j) = 0" using not_here_unwatched [OF ok] by blast
  ultimately show "same_viewer (viewer_of s j) (viewer_of (leave_for_good k s) j) \<and> here (leave_for_good k s) j = here s j
      \<and> sc_checks (leave_for_good k s) j = sc_checks s j \<and> sc_login (leave_for_good k s) j = sc_login s j
      \<and> sc_stale (leave_for_good k s) j = sc_stale s j
      \<and> (vw_account (viewer_of s j) = 0 \<longrightarrow> vw_sent (viewer_of (leave_for_good k s) j) = vw_sent (viewer_of s j))"
    by (auto simp: leave_for_good_def leave_presence_def Let_def here_def viewer_of_def tell_unwatched)
qed (simp_all add: leave_for_good_def)

lemma begin_check_fields:
  assumes "begin_check ids v = (c, v')"
  shows "vw_account v' = vw_account v" "vw_doid v' = vw_doid v" "vw_closed v' = vw_closed v"
    "vw_watched v' = vw_watched v" "vw_revisions v' = vw_revisions v" "vw_sent v' = vw_sent v"
  using assms by (auto simp: begin_check_def Let_def)

lemma ask_ok:
  assumes ok: "scene_ok s"
  shows "scene_ok (ask_for k ids s)"
proof (cases "here s k \<and> vw_doid (viewer_of s k) \<noteq> 0")
  case True
  obtain c v where c: "begin_check ids (viewer_of s k) = (c, v)" by force
  note books = books_begin [OF scene_okD(3) [OF ok, of k] c] and fields = begin_check_fields [OF c]
  have s': "ask_for k ids s = s\<lparr>sc_roll := update_viewer k (\<lambda>_. v) (sc_roll s), sc_checks := (sc_checks s)(k := sc_checks s k @ [c])\<rparr>"
    using True by (simp add: ask_for_def c)
  show ?thesis
  proof (rule scene_ok_one [OF ok, where k = k])
    show "standing_ok (ask_for k ids s) k"
      using scene_okD(4,5) [OF ok, of k] True books fields
      by (auto simp: s' standing_ok_def follows_ok_def due_def here_def)
  qed (auto simp: s' here_def viewer_of_def)
qed (auto simp: ask_for_def ok)

lemma check_reads_ok:
  assumes ok: "scene_ok s"
  shows "scene_ok (check_reads k n a s)"
proof (cases "n < length (sc_checks s k) \<and> a \<in> set (ck_asked (sc_checks s k ! n)) \<and> sc_friends s (vw_account (viewer_of s k)) a")
  case True
  let ?c = "(sc_checks s k ! n)\<lparr>ck_found := add_to a (ck_found (sc_checks s k ! n))\<rparr>"
  have c: "sc_checks s k ! n \<in> set (sc_checks s k)" using True by simp
  have s': "check_reads k n a s = s\<lparr>sc_checks := (sc_checks s)(k := (sc_checks s k)[n := ?c])\<rparr>"
    using True by (simp add: check_reads_def)
  have set: "set ((sc_checks s k)[n := ?c]) \<subseteq> insert ?c (set (sc_checks s k))" by (rule set_update_subset_insert)
  have count: "length (filter (\<lambda>c. b \<in> set (ck_asked c)) ((sc_checks s k)[n := ?c]))
      = length (filter (\<lambda>c. b \<in> set (ck_asked c)) (sc_checks s k))" for b
  proof -
    have "map ck_asked ((sc_checks s k)[n := ?c]) = map ck_asked (sc_checks s k)"
      using True by (intro nth_equalityI) (auto simp: nth_list_update)
    then have "length (filter (\<lambda>as. b \<in> set as) (map ck_asked ((sc_checks s k)[n := ?c])))
        = length (filter (\<lambda>as. b \<in> set as) (map ck_asked (sc_checks s k)))" by simp
    then show ?thesis by (simp add: filter_map comp_def)
  qed
  have books: "books_ok (viewer_of s k) ((sc_checks s k)[n := ?c])"
  proof -
    have "distinct (ck_asked c') \<and> set (ck_found c') \<subseteq> set (ck_asked c')
        \<and> (\<forall>b \<in> set (ck_asked c'). ck_revisions c' b \<le> vw_revisions (viewer_of s k) b)"
      if "c' \<in> set ((sc_checks s k)[n := ?c])" for c'
    proof (cases "c' = ?c")
      case True
      then show ?thesis using scene_okD(3) [OF ok, of k] c \<open>n < length (sc_checks s k) \<and> _\<close> by (auto simp: books_ok_def)
    next
      case False
      then have "c' \<in> set (sc_checks s k)" using that set by auto
      then show ?thesis using scene_okD(3) [OF ok, of k] by (auto simp: books_ok_def)
    qed
    then show ?thesis using scene_okD(3) [OF ok, of k] by (simp add: books_ok_def count)
  qed
  have follows: "follows_ok (due s (vw_account (viewer_of s k))) (viewer_of s k) ((sc_checks s k)[n := ?c]) (sc_login s k) (sc_stale s k)"
    if "here s k"
  proof -
    have a: "due s (vw_account (viewer_of s k)) a" using True by (simp add: due_def)
    have "due s (vw_account (viewer_of s k)) b"
      if "c' \<in> set ((sc_checks s k)[n := ?c])" "b \<in> set (ck_found c')" "ck_revisions c' b = vw_revisions (viewer_of s k) b" for c' b
      using scene_okD(5) [OF ok \<open>here s k\<close>] a c set that by (cases "c' = ?c") (auto simp: follows_ok_def)
    then show ?thesis using scene_okD(5) [OF ok that] by (auto simp: follows_ok_def)
  qed
  show ?thesis
  proof (rule scene_ok_one [OF ok, where k = k])
    show "standing_ok (check_reads k n a s) k"
      using scene_okD(2) [OF ok, of k] True books follows
      by (auto simp: s' standing_ok_def due_def unused_def simp del: set_update_subset_insert)
  qed (auto simp: s' same_viewer_def)
qed (auto simp: check_reads_def ok)

lemma set_admit_up_to: "set (admit_up_to watched wanted) \<subseteq> set watched \<union> set wanted"
proof (induction wanted arbitrary: watched)
  case (Cons a wanted)
  then show ?case using Cons.IH [of "add_to a watched"] by auto
qed simp

lemma admit_watched_fields:
  "vw_account (admit_watched online ids v) = vw_account v" "vw_doid (admit_watched online ids v) = vw_doid v"
  "vw_closed (admit_watched online ids v) = vw_closed v" "vw_revisions (admit_watched online ids v) = vw_revisions v"
  "vw_pending (admit_watched online ids v) = vw_pending v"
  "set (vw_watched (admit_watched online ids v)) \<subseteq> set (vw_watched v) \<union> set ids"
  using set_admit_up_to by (auto simp: admit_watched_def)

text \<open>A check that is over, however it ended: it has let in at most friends it found and nobody has parted from since.\<close>

lemma check_over_ok:
  assumes ok: "scene_ok s" and n: "n < length (sc_checks s k)"
    and f: "f = (\<lambda>c v. fold finish_pending (ck_asked c) (g c v))"
    and g: "\<And>c v. vw_account (g c v) = vw_account v" "\<And>c v. vw_doid (g c v) = vw_doid v"
      "\<And>c v. vw_closed (g c v) = vw_closed v" "\<And>c v. vw_revisions (g c v) = vw_revisions v"
      "\<And>c v. vw_pending (g c v) = vw_pending v"
      "\<And>c v. set (vw_watched (g c v)) \<subseteq> set (vw_watched v) \<union> {a \<in> set (ck_found c). ck_revisions c a = vw_revisions v a}"
  shows "scene_ok (check_over f k n s)"
proof (rule scene_ok_one [OF ok, where k = k])
  let ?c = "sc_checks s k ! n" and ?v = "viewer_of s k"
  have s': "check_over f k n s = s\<lparr>sc_roll := update_viewer k (f ?c) (sc_roll s), sc_checks := (sc_checks s)(k := drop_nth n (sc_checks s k))\<rparr>"
    using n by (simp add: check_over_def)
  have v': "viewer_of (check_over f k n s) k = fold finish_pending (ck_asked ?c) (g ?c ?v)"
    using n by (simp add: check_over_def f viewer_of_def)
  have c: "?c \<in> set (sc_checks s k)" using n by simp
  have books: "books_ok (fold finish_pending (ck_asked ?c) (g ?c ?v)) (drop_nth n (sc_checks s k))"
    by (rule books_over [OF scene_okD(3) [OF ok] n g(5,4)])
  have "follows_ok (due s (vw_account ?v)) (fold finish_pending (ck_asked ?c) (g ?c ?v)) (drop_nth n (sc_checks s k)) (sc_login s k) (sc_stale s k)"
    if here: "here s k"
  proof -
    note follows = scene_okD(5) [OF ok here]
    have d: "distinct (ck_asked ?c)" using scene_okD(3) [OF ok, of k] c by (simp add: books_ok_def)
    have "due s (vw_account ?v) a"
      if "c' \<in> set (drop_nth n (sc_checks s k))" "a \<in> set (ck_found c')"
        "ck_revisions c' a = vw_revisions (fold finish_pending (ck_asked ?c) (g ?c ?v)) a" for c' a
    proof -
      have c': "c' \<in> set (sc_checks s k)" using that(1) set_drop_nth by fastforce
      have asked: "a \<in> set (ck_asked c')" using scene_okD(3) [OF ok, of k] c' that(2) by (auto simp: books_ok_def)
      have "filter (\<lambda>x. a \<in> set (ck_asked x)) (drop_nth n (sc_checks s k)) \<noteq> []"
        using that(1) asked by (auto simp: filter_empty_conv)
      then have "vw_pending (fold finish_pending (ck_asked ?c) (g ?c ?v)) a \<noteq> 0" using books by (simp add: books_ok_def)
      then have "\<not> (a \<in> set (ck_asked ?c) \<and> vw_pending ?v a \<le> 1)" by (auto simp: finish_all(1) [OF d] g(5))
      then have "ck_revisions c' a = vw_revisions ?v a" using that(3) by (auto simp: finish_all(2) [OF d] g(4,5) split: if_splits)
      then show ?thesis using follows c' that(2) by (auto simp: follows_ok_def)
    qed
    moreover have "due s (vw_account ?v) a" if "\<not> sc_stale s k" "a \<in> set (vw_watched (g ?c ?v))" for a
      using follows that g(6) [of ?c ?v] c by (auto simp: follows_ok_def)
    ultimately show ?thesis using follows by (auto simp: follows_ok_def)
  qed
  then show "standing_ok (check_over f k n s) k"
    using scene_okD(2) [OF ok, of k] books n v' due_cong [of "check_over f k n s" s]
    by (auto simp: standing_ok_def g s' unused_def here_def)
qed (use n in \<open>auto simp: check_over_def here_def viewer_of_def\<close>)

lemma check_done_ok: "scene_ok s \<Longrightarrow> scene_ok (check_over (finish_check online) k n s)"
proof (cases "n < length (sc_checks s k)")
  case True
  assume "scene_ok s"
  then show ?thesis
    by (rule check_over_ok [OF _ True, where g = "\<lambda>c v. admit_watched online (filter (\<lambda>a. vw_revisions v a = ck_revisions c a) (ck_found c)) v"])
      (use admit_watched_fields in \<open>fastforce simp: finish_check_def fun_eq_iff\<close>)+
qed (simp add: check_over_def)

lemma check_fails_ok: "scene_ok s \<Longrightarrow> scene_ok (check_over fail_check k n s)"
proof (cases "n < length (sc_checks s k)")
  case True
  assume "scene_ok s"
  then show ?thesis
    by (rule check_over_ok [OF _ True, where g = "\<lambda>c v. v"]) (auto simp: fail_check_def fun_eq_iff)
qed (simp add: check_over_def)

lemma watch_friends_fields:
  "vw_account (watch_friends online ids v) = vw_account v" "vw_doid (watch_friends online ids v) = vw_doid v"
  "vw_closed (watch_friends online ids v) = vw_closed v" "vw_revisions (watch_friends online ids v) = vw_revisions v"
  "vw_pending (watch_friends online ids v) = vw_pending v"
  by (induction online ids v rule: watch_friends.induct) (simp_all add: Let_def)

lemma watch_friends_watched: "set (vw_watched (watch_friends online ids v)) \<subseteq> set (vw_watched v) \<union> set ids"
proof (induction online ids v rule: watch_friends.induct)
  case (2 online a ids v)
  then show ?case by (cases "a \<le> 0") (auto simp: Let_def)
qed simp

lemma login_begins_ok: "scene_ok s \<Longrightarrow> scene_ok (login_begins k s)"
proof (cases "here s k \<and> vw_doid (viewer_of s k) \<noteq> 0 \<and> sc_login s k = None")
  case True
  assume ok: "scene_ok s"
  show ?thesis
    by (rule scene_ok_one [OF ok, where k = k])
      (use scene_okD(2,4) [OF ok, of k] True in \<open>auto simp: login_begins_def standing_ok_def follows_ok_def\<close>)
qed (auto simp: login_begins_def)

lemma login_reads_ok:
  assumes ok: "scene_ok s"
  shows "scene_ok (login_reads k a s)"
proof (cases "\<exists>ids. sc_login s k = Some ids \<and> sc_friends s (vw_account (viewer_of s k)) a")
  case True
  then obtain ids where ids: "sc_login s k = Some ids" "due s (vw_account (viewer_of s k)) a"
    "login_reads k a s = s\<lparr>sc_login := (sc_login s)(k \<mapsto> add_to a ids)\<rparr>"
    by (auto simp: login_reads_def due_def)
  show ?thesis
    by (rule scene_ok_one [OF ok, where k = k])
      (use scene_okD(2) [OF ok, of k] ids in \<open>auto simp: standing_ok_def follows_ok_def unused_def\<close>)
next
  case False
  then have "login_reads k a s = s" by (auto simp: login_reads_def split: option.split)
  then show ?thesis using ok by simp
qed

lemma login_done_ok:
  assumes ok: "scene_ok s"
  shows "scene_ok (login_done k s)"
proof (cases "sc_login s k")
  case (Some ids)
  show ?thesis
  proof (rule scene_ok_one [OF ok, where k = k])
    show "standing_ok (login_done k s) k"
      using scene_okD(2) [OF ok, of k] Some watch_friends_watched [of "rl_online (sc_roll s)" ids "viewer_of s k"]
      by (auto simp: login_done_def Let_def standing_ok_def follows_ok_def unused_def watch_friends_fields books_ok_def
          here_def viewer_of_def dest!: subsetD)
  qed (auto simp: login_done_def Some Let_def here_def viewer_of_def)
qed (simp add: login_done_def ok)

lemma about_between: "about a b (i, j, m) \<longleftrightarrow> (i = a \<and> j = b) \<or> (i = b \<and> j = a)"
  by (simp add: about_def)

lemma changing_ok:
  assumes ok: "scene_ok s"
  shows "scene_ok (change_friendship i j made s)"
proof -
  let ?s = "change_friendship i j made s"
  have due: "due s a b \<Longrightarrow> due ?s a b" for a b
    by (auto simp: due_def change_friendship_def about_between)
  have "honest ?s"
    using scene_okD(1) [OF ok] by (auto simp: honest_def change_friendship_def about_between)
  moreover have "standing_ok ?s k" for k
  proof (rule standing_same [OF scene_okD(2) [OF ok]])
    show "due s (vw_account (viewer_of s k)) b \<Longrightarrow> due ?s (vw_account (viewer_of s k)) b" for b by (rule due)
  qed (auto simp: change_friendship_def)
  ultimately show ?thesis by (simp add: scene_ok_def)
qed

lemma hear_change_fields:
  "vw_account (hear_change online a made v) = vw_account v" "vw_doid (hear_change online a made v) = vw_doid v"
  "vw_closed (hear_change online a made v) = vw_closed v" "vw_pending (hear_change online a made v) = vw_pending v"
  "vw_revisions (hear_change online a made v) = vw_revisions (cancel_pending a v)"
  "set (vw_watched (hear_change online a made v)) = (if made then insert a (set (vw_watched v)) else set (vw_watched v) - {a})"
  by (auto simp: hear_change_def Let_def)

text \<open>A session of one of the two hears of the other.\<close>

lemma friendship_changed_viewer:
  assumes "i \<noteq> j"
  shows "rl_viewers (friendship_changed i j made r) k =
    (if k \<notin> set (rl_sessions r) then rl_viewers r k
     else if vw_account (rl_viewers r k) = i then hear_change (rl_online r) j made (rl_viewers r k)
     else if vw_account (rl_viewers r k) = j then hear_change (rl_online r) i made (rl_viewers r k)
     else rl_viewers r k)"
  using assms by (simp add: friendship_changed_def one_side_def hear_change_fields)

lemma friendship_changed_sessions [simp]:
  "rl_sessions (friendship_changed i j made r) = rl_sessions r" "rl_online (friendship_changed i j made r) = rl_online r"
  by (simp_all add: friendship_changed_def)

text \<open>What one connection makes of the news that its account and another made or ended a friendship.\<close>

lemma follows_hear:
  assumes books: "books_ok v checks" and follows: "follows_ok fine v checks login stale"
    and fine: "\<And>a. a \<noteq> b \<Longrightarrow> fine a \<Longrightarrow> fine' a" and made: "made \<Longrightarrow> fine' b"
    and stale: "stale' \<longleftrightarrow> stale \<or> (\<not> made \<and> (case login of None \<Rightarrow> False | Some ids \<Rightarrow> b \<in> set ids))"
  shows "follows_ok fine' (hear_change online b made v) checks login stale'"
proof -
  have "fine' a" if c: "c \<in> set checks" "a \<in> set (ck_found c)" "ck_revisions c a = vw_revisions (cancel_pending b v) a" for c a
  proof -
    have asked: "a \<in> set (ck_asked c)" "ck_revisions c a \<le> vw_revisions v a" using books c(1,2) by (auto simp: books_ok_def)
    have "filter (\<lambda>c. a \<in> set (ck_asked c)) checks \<noteq> []" using c(1) asked by (auto simp: filter_empty_conv)
    then have "vw_pending v a \<noteq> 0" using books by (simp add: books_ok_def)
    then have "a \<noteq> b" using c(3) asked(2) by (auto simp: cancel_pending_def)
    moreover from this have "ck_revisions c a = vw_revisions v a" using c(3) by (simp add: cancel_pending_def split: if_splits)
    ultimately show ?thesis using follows c fine by (auto simp: follows_ok_def)
  qed
  moreover have kept: "fine' a" if "fine a" "a \<noteq> b \<or> made" for a
    using that fine made by (cases "a = b") auto
  moreover have "fine' a" if "\<not> stale'" "a \<in> set (vw_watched (hear_change online b made v))" for a
    using that follows kept made stale by (cases made; cases "a = b") (auto simp: follows_ok_def hear_change_fields)
  moreover have "fine' a" if "\<not> stale'" "login = Some ids" "a \<in> set ids" for ids a
    using that follows kept stale by (intro kept) (auto simp: follows_ok_def)
  ultimately show ?thesis by (simp add: follows_ok_def hear_change_fields)
qed

lemma announce_ok:
  assumes ok: "scene_ok s" and between: "\<forall>(i, j, m) \<in> set (sc_news s). i \<noteq> j"
  shows "scene_ok (announce_next s)"
proof (cases "sc_news s")
  case (Cons x news)
  obtain i j made where x: "x = (i, j, made)" by (metis prod_cases3)
  have ij: "i \<noteq> j" using between Cons x by auto
  let ?s = "announce_next s"
  have s': "sc_roll ?s = friendship_changed i j made (sc_roll s)" "sc_news ?s = news" "sc_friends ?s = sc_friends s"
    "sc_checks ?s = sc_checks s" "sc_login ?s = sc_login s" "\<And>k. sc_stale ?s k = (sc_stale s k \<or> ends_login s k i j made)"
    by (simp_all add: announce_next_def Cons x)
  have tail: "filter (about a b) (sc_news s) = (if about a b (i, j, made) then (i, j, made) # filter (about a b) news else filter (about a b) news)" for a b
    by (simp add: Cons x)
  have "honest ?s"
    unfolding honest_def s'
  proof (intro allI impI)
    fix a b assume left: "filter (about a b) news \<noteq> []"
    then have "last (filter (about a b) (sc_news s)) = last (filter (about a b) news)" "filter (about a b) (sc_news s) \<noteq> []"
      by (simp_all add: tail)
    then show "snd (snd (last (filter (about a b) news))) = sc_friends s a b"
      using scene_okD(1) [OF ok] by (metis honest_def)
  qed
  have last: "due ?s a b" if "about a b (i, j, made)" made for a b
  proof (cases "filter (about a b) news = []")
    case True
    then have "snd (snd (last (filter (about a b) (sc_news s)))) = made" "filter (about a b) (sc_news s) \<noteq> []"
      using that(1) by (simp_all add: tail)
    then have "sc_friends s a b" using scene_okD(1) [OF ok] that(2) by (metis honest_def)
    then show ?thesis by (simp add: due_def s')
  qed (simp add: due_def s')
  have others: "due s a b \<Longrightarrow> \<not> about a b (i, j, made) \<Longrightarrow> due ?s a b" for a b
    by (simp add: due_def s' tail)
  have "standing_ok ?s k" for k
  proof -
    let ?v = "viewer_of s k"
    note k = scene_okD(2) [OF ok, of k] and books = scene_okD(3) [OF ok, of k]
    show ?thesis
    proof (cases "here s k \<and> (vw_account ?v = i \<or> vw_account ?v = j)")
      case False
      then have "viewer_of ?s k = ?v"
        by (auto simp: viewer_of_def s' friendship_changed_viewer [OF ij] here_def)
      moreover have "here ?s k = here s k" by (simp add: here_def s')
      moreover have "\<not> ends_login s k i j made" if "here s k"
        using False that by (auto simp: ends_login_def split: option.split)
      moreover have "due s (vw_account ?v) b \<Longrightarrow> due ?s (vw_account ?v) b" if "here s k" for b
        using False that by (intro others) (auto simp: about_between)
      ultimately show ?thesis
        using k by (auto simp: standing_ok_def s' elim!: follows_mono)
    next
      case True
      define b where "b = (if vw_account ?v = i then j else i)"
      have v': "viewer_of ?s k = hear_change (rl_online (sc_roll s)) b made ?v"
        using True by (auto simp: viewer_of_def s' friendship_changed_viewer [OF ij] here_def b_def)
      have about: "about (vw_account ?v) a (i, j, made) \<longleftrightarrow> a = b" for a
        using True ij by (auto simp: about_between b_def)
      have "follows_ok (due ?s (vw_account ?v)) (viewer_of ?s k) (sc_checks s k) (sc_login s k) (sc_stale ?s k)"
        unfolding v'
      proof (rule follows_hear [OF books])
        show "follows_ok (due s (vw_account ?v)) ?v (sc_checks s k) (sc_login s k) (sc_stale s k)"
          using scene_okD(5) [OF ok] True by blast
        show "sc_stale ?s k \<longleftrightarrow> sc_stale s k \<or> (\<not> made \<and> (case sc_login s k of None \<Rightarrow> False | Some ids \<Rightarrow> b \<in> set ids))"
          using True ij by (auto simp: s' ends_login_def b_def split: option.split)
      qed (use about last others in auto)
      moreover have "books_ok (viewer_of ?s k) (sc_checks s k)"
        using books_cancel [OF books, of b] by (simp add: v' books_ok_def hear_change_fields)
      ultimately show ?thesis
        using scene_okD(4) [OF ok, of k] True by (auto simp: standing_ok_def s' v' hear_change_fields here_def)
    qed
  qed
  then show ?thesis using \<open>honest ?s\<close> by (simp add: scene_ok_def)
qed (simp add: announce_next_def ok)

section \<open>What is sent\<close>

text \<open>From one viewer to the next, whoever is shown as online is among some.\<close>

definition tells_of :: "int set \<Rightarrow> viewer \<Rightarrow> viewer \<Rightarrow> bool" where
  "tells_of whom v v' \<longleftrightarrow> (\<exists>new. vw_sent v' = vw_sent v @ new \<and> (\<forall>(shown, a, _) \<in> set new. shown \<longrightarrow> a \<in> whom))"

lemma tells_same [simp]: "vw_sent v' = vw_sent v \<Longrightarrow> tells_of whom v v'"
  by (simp add: tells_of_def)

lemma tells_trans: "tells_of whom v u \<Longrightarrow> tells_of whom u w \<Longrightarrow> tells_of whom v w"
proof -
  assume "tells_of whom v u" "tells_of whom u w"
  then obtain xs ys where "vw_sent u = vw_sent v @ xs" "vw_sent w = vw_sent u @ ys"
    "\<forall>(shown, a, _) \<in> set xs. shown \<longrightarrow> a \<in> whom" "\<forall>(shown, a, _) \<in> set ys. shown \<longrightarrow> a \<in> whom"
    unfolding tells_of_def by blast
  then show ?thesis unfolding tells_of_def by (intro exI [of _ "xs @ ys"]) auto
qed

lemma tells_mono: "tells_of whom v w \<Longrightarrow> whom \<subseteq> whom' \<Longrightarrow> tells_of whom' v w"
  unfolding tells_of_def by fast

lemma tell_tells: "tells_of (set (vw_watched v)) v (tell online a v)"
  by (auto simp: tells_of_def tell_def state_of_def)

lemma fold_tell_tells: "tells_of (set (vw_watched v)) v (fold (tell online) ids v)"
proof (induction ids arbitrary: v)
  case (Cons a ids)
  show ?case using tells_trans [OF tell_tells Cons.IH [of "tell online a v", simplified tell_fields]] by simp
qed simp

lemma admit_tells: "tells_of (set (vw_watched (admit_watched online ids v))) v (admit_watched online ids v)"
  using fold_tell_tells [of "v\<lparr>vw_watched := admit_up_to (vw_watched v) ids\<rparr>" online ids]
  by (auto simp: admit_watched_def tells_of_def)

lemma watch_friends_grows: "set (vw_watched v) \<subseteq> set (vw_watched (watch_friends online ids v))"
proof (induction online ids v rule: watch_friends.induct)
  case (2 online a ids v)
  then show ?case by (cases "a \<le> 0") (auto simp: Let_def)
qed simp

lemma watch_friends_tells: "tells_of (set (vw_watched (watch_friends online ids v))) v (watch_friends online ids v)"
proof (induction online ids v rule: watch_friends.induct)
  case (2 online a ids v)
  let ?u = "v\<lparr>vw_watched := add_to a (vw_watched v)\<rparr>"
  let ?t = "if online a \<noteq> None then tell online a ?u else ?u"
  show ?case
  proof (cases "a \<le> 0 \<or> max_watched \<le> length (vw_watched v)")
    case False
    then have eq: "watch_friends online (a # ids) v = watch_friends online ids ?t" by (simp add: Let_def)
    have "tells_of (set (vw_watched ?u)) ?u ?t" using tell_tells [of ?u online a] by (auto simp del: set_add_to)
    then have "tells_of (set (vw_watched ?u)) v ?t" by (simp add: tells_of_def)
    then have "tells_of (set (vw_watched (watch_friends online ids ?t))) v ?t"
      by (rule tells_mono) (use watch_friends_grows [of ?t online ids] in \<open>auto split: if_splits\<close>)
    then show ?thesis unfolding eq by (rule tells_trans) (use 2(2) False in simp)
  qed (use 2(1) in auto)
qed simp

lemma hear_tells: "tells_of (set (vw_watched (hear_change online b made v))) v (hear_change online b made v)"
  using tell_tells [of "(cancel_pending b v)\<lparr>vw_watched := add_to b (vw_watched (cancel_pending b v))\<rparr>" online b]
  by (auto simp: hear_change_def Let_def tells_of_def)

text \<open>Whatever happens, a connection is only told about those it follows then, and one that is gone nothing.\<close>

definition tells_rightly :: "scene \<Rightarrow> scene \<Rightarrow> int \<Rightarrow> bool" where
  "tells_rightly s s' k \<longleftrightarrow> tells_of (set (vw_watched (viewer_of s' k))) (viewer_of s k) (viewer_of s' k)
     \<and> (\<not> here s' k \<longrightarrow> vw_sent (viewer_of s' k) = vw_sent (viewer_of s k))"

lemma tells_rightly_same: "vw_sent (viewer_of s' k) = vw_sent (viewer_of s k) \<Longrightarrow> tells_rightly s s' k"
  by (simp add: tells_rightly_def)

lemma tells_rightly_tell:
  assumes "viewer_of s' k = (if here s' k then fold (tell online) ids u else u)" and "vw_sent u = vw_sent (viewer_of s k)"
  shows "tells_rightly s s' k"
  using fold_tell_tells [of u online ids] assms by (auto simp: tells_rightly_def tells_of_def)

lemma tells_rightly_tell_one:
  assumes "viewer_of s' k = (if here s' k then tell online a u else u)" and "vw_sent u = vw_sent (viewer_of s k)"
  shows "tells_rightly s s' k"
  by (rule tells_rightly_tell [where ids = "[a]" and online = online and u = u]) (use assms in simp_all)

lemma enter_tells: "tells_rightly s (enter_as k a s) j"
proof (cases "vw_account (viewer_of s k) \<noteq> 0 \<or> vw_closed (viewer_of s k) \<or> a \<le> 0")
  case False
  show ?thesis
    by (rule tells_rightly_tell_one [where a = a and online = "(rl_online (sc_roll s))(a \<mapsto> 0)"
          and u = "if j = k then (viewer_of s k)\<lparr>vw_account := a\<rparr> else viewer_of s j"])
      (use False in \<open>auto simp: enter_as_def enter_presence_def Let_def viewer_of_def here_def\<close>)
qed (auto simp: enter_as_def intro: tells_rightly_same)

lemma leave_tells: "tells_rightly s (leave_for_good k s) j"
proof -
  let ?u = "if j = k then (viewer_of s k)\<lparr>vw_closed := True\<rparr> else viewer_of s j" and ?a = "vw_account (viewer_of s k)"
  have "viewer_of (leave_for_good k s) j = ?u
      \<or> viewer_of (leave_for_good k s) j
        = (if here (leave_for_good k s) j then tell ((rl_online (sc_roll s))(?a := None)) ?a ?u else ?u)"
    by (auto simp: leave_for_good_def leave_presence_def Let_def viewer_of_def here_def)
  then show ?thesis
    by (elim disjE tells_rightly_tell_one) (auto intro: tells_rightly_same)
qed

lemma move_tells: "tells_rightly s (on_roll (set_presence_location k node) s) j"
proof -
  let ?a = "vw_account (viewer_of s k)" and ?s = "on_roll (set_presence_location k node) s"
  have "viewer_of ?s j = viewer_of s j
      \<or> viewer_of ?s j = (if here ?s j then tell ((rl_online (sc_roll s))(?a \<mapsto> node)) ?a (viewer_of s j) else viewer_of s j)"
    by (auto simp: set_presence_location_def Let_def viewer_of_def here_def)
  then show ?thesis by (elim disjE tells_rightly_tell_one) (auto intro: tells_rightly_same)
qed

lemma reassert_tells_rightly: "tells_rightly s (on_roll reassert_all s) j"
  by (rule tells_rightly_tell [where u = "viewer_of s j"]) (auto simp: reassert_all_def reassert_tells viewer_of_def here_def)

lemma ask_tells: "tells_rightly s (ask_for k ids s) j"
  by (rule tells_rightly_same) (auto simp: ask_for_def viewer_of_def split: prod.split dest: begin_check_fields(6))

lemma check_done_tells:
  assumes "scene_ok s"
  shows "tells_rightly s (check_over (finish_check online) k n s) j"
proof (cases "j = k \<and> n < length (sc_checks s k)")
  case True
  let ?ids = "filter (\<lambda>a. vw_revisions (viewer_of s k) a = ck_revisions (sc_checks s k ! n) a) (ck_found (sc_checks s k ! n))"
  have "sc_checks s k \<noteq> []" using True by auto
  then have gone: "\<not> here s k \<Longrightarrow> vw_closed (viewer_of s k)"
    using scene_okD(2) [OF assms, of k] by (auto simp: standing_ok_def unused_def)
  show ?thesis
    using True gone admit_tells [of online ?ids "viewer_of s k"]
    by (auto simp: tells_rightly_def check_over_def finish_check_def tells_of_def viewer_of_def here_def admit_watched_def)
next
  case False
  then show ?thesis by (intro tells_rightly_same) (auto simp: check_over_def viewer_of_def)
qed

lemma check_fails_tells: "tells_rightly s (check_over fail_check k n s) j"
  by (rule tells_rightly_same) (auto simp: check_over_def viewer_of_def fail_check_def)

lemma login_done_tells:
  assumes "scene_ok s"
  shows "tells_rightly s (login_done k s) j"
proof (cases "j = k \<and> (\<exists>ids. sc_login s k = Some ids \<and> ids \<noteq> []) \<and> \<not> vw_closed (viewer_of s k)")
  case True
  then obtain ids where ids: "sc_login s k = Some ids" "ids \<noteq> []" by blast
  then have "here s k" using scene_okD(2) [OF assms, of k] True by (auto simp: standing_ok_def unused_def)
  then show ?thesis
    using True ids watch_friends_tells [of "rl_online (sc_roll s)" ids "viewer_of s k"]
    by (auto simp: tells_rightly_def login_done_def Let_def viewer_of_def here_def)
next
  case False
  then show ?thesis by (intro tells_rightly_same) (auto simp: login_done_def Let_def viewer_of_def split: option.split)
qed

lemma announce_tells:
  assumes "\<forall>(i, j, m) \<in> set (sc_news s). i \<noteq> j"
  shows "tells_rightly s (announce_next s) k"
proof (cases "sc_news s")
  case (Cons x news)
  obtain i j made where x: "x = (i, j, made)" by (metis prod_cases3)
  have ij: "i \<noteq> j" using assms Cons x by auto
  have "viewer_of (announce_next s) k = viewer_of s k
      \<or> here s k \<and> (\<exists>b. viewer_of (announce_next s) k = hear_change (rl_online (sc_roll s)) b made (viewer_of s k))"
    by (auto simp: announce_next_def Cons x viewer_of_def friendship_changed_viewer [OF ij] here_def)
  moreover have "here (announce_next s) k = here s k" by (simp add: announce_next_def Cons x here_def)
  ultimately show ?thesis using hear_tells by (auto simp: tells_rightly_def)
qed (simp add: announce_next_def tells_rightly_same)

lemma happens_ok:
  assumes "scene_ok s" and "\<forall>(i, j, m) \<in> set (sc_news s). i \<noteq> j"
  shows "scene_ok (happens e s)" and "\<forall>(i, j, m) \<in> set (sc_news (happens e s)). i \<noteq> j" and "tells_rightly s (happens e s) k"
proof -
  show "scene_ok (happens e s)"
    using assms entering_ok generate_ok leaving_ok move_ok reassert_ok ask_ok check_reads_ok check_done_ok check_fails_ok
      login_begins_ok login_reads_ok login_done_ok changing_ok announce_ok
    by (cases e) (simp_all add: happens_def)
  show "tells_rightly s (happens e s) k"
    using assms enter_tells leave_tells move_tells reassert_tells_rightly ask_tells check_done_tells check_fails_tells
      login_done_tells announce_tells
    by (cases e)
      (simp_all add: happens_def, auto simp: generate_presence_def check_reads_def login_begins_def login_reads_def
        change_friendship_def viewer_of_def intro!: tells_rightly_same split: option.split)
  show "\<forall>(i, j, m) \<in> set (sc_news (happens e s)). i \<noteq> j"
    using assms(2)
    by (cases e) (auto simp: happens_def enter_as_def generate_presence_def leave_for_good_def ask_for_def check_reads_def
        check_over_def login_begins_def login_reads_def login_done_def change_friendship_def announce_next_def Let_def
        split: option.split list.split prod.split)
qed

section \<open>What is shown is so\<close>

definition last_about :: "int \<Rightarrow> friend_state list \<Rightarrow> friend_state option" where
  "last_about a sent = find_row (\<lambda>(_, b, _). b = a) (rev sent)"

lemma last_about_simps [simp]:
  "last_about a [] = None"
  "last_about a (sent @ [f]) = (if fst (snd f) = a then Some f else last_about a sent)"
  by (simp_all add: last_about_def split: prod.split)

definition told :: "(int \<Rightarrow> int option) \<Rightarrow> viewer \<Rightarrow> int \<Rightarrow> friend_state" where
  "told online v a = (if a \<in> set (vw_watched v) then state_of online a else (False, a, 0))"

definition right_about :: "(int \<Rightarrow> int option) \<Rightarrow> viewer \<Rightarrow> int \<Rightarrow> bool" where
  "right_about online v a = (last_about a (vw_sent v) = None \<or> last_about a (vw_sent v) = Some (told online v a))"

definition truthful :: "(int \<Rightarrow> int option) \<Rightarrow> viewer \<Rightarrow> bool" where
  "truthful online v \<longleftrightarrow> (vw_doid v = 0 \<longrightarrow> vw_sent v = []) \<and> (\<forall>a. right_about online v a)"

lemma state_of_about [simp]: "fst (snd (state_of online a)) = a"
  by (simp add: state_of_def)

lemma told_tell [simp]: "told online (tell online' b v) a = told online v a"
  by (simp add: told_def)

lemma last_about_tell:
  "last_about a (vw_sent (tell online b v))
     = (if a = b \<and> vw_doid v \<noteq> 0 \<and> b \<in> set (vw_watched v) then Some (state_of online b) else last_about a (vw_sent v))"
  by (simp add: tell_def)

lemma truthful_tell: "truthful online v \<Longrightarrow> truthful online (tell online a v)"
  unfolding truthful_def right_about_def last_about_tell told_tell
  by (simp add: told_def) (simp add: tell_def)

lemma truthful_fold_tell: "truthful online v \<Longrightarrow> truthful online (fold (tell online) ids v)"
  by (induction ids arbitrary: v) (simp_all add: truthful_tell)

lemma truthful_same:
  "truthful online v \<Longrightarrow> vw_doid v' = vw_doid v \<Longrightarrow> vw_sent v' = vw_sent v \<Longrightarrow> vw_watched v' = vw_watched v \<Longrightarrow> truthful online v'"
  by (simp add: truthful_def right_about_def told_def)

text \<open>Somebody's state changes, and everyone who watches is told.\<close>

lemma truthful_moved:
  assumes "truthful online v"
  shows "truthful (online(a := x)) (tell (online(a := x)) a v)"
proof -
  have other: "b \<noteq> a \<Longrightarrow> told (online(a := x)) v b = told online v b" for b by (simp add: told_def state_of_def)
  have "right_about (online(a := x)) (tell (online(a := x)) a v) b" for b
  proof (cases "b = a")
    case False
    then show ?thesis using assms other by (simp add: truthful_def right_about_def last_about_tell)
  next
    case True
    have "last_about a (vw_sent v) = None" if "vw_doid v = 0" using assms that by (simp add: truthful_def)
    moreover have "told (online(a := x)) v a = told online v a" if "a \<notin> set (vw_watched v)" using that by (simp add: told_def)
    ultimately show ?thesis using True assms by (simp add: truthful_def right_about_def last_about_tell) (simp add: told_def)
  qed
  then show ?thesis using assms by (simp add: truthful_def) (simp add: tell_def)
qed

text \<open>Those added are told of, or were shown offline and are.\<close>

lemma truthful_told:
  assumes "vw_doid u = 0 \<longrightarrow> vw_sent u = []"
    and "\<And>a. right_about online u a \<or> a \<in> set ids \<and> a \<in> set (vw_watched u)"
  shows "truthful online (fold (tell online) ids u)"
  using assms
proof (induction ids arbitrary: u)
  case Nil
  then show ?case by (simp add: truthful_def)
next
  case (Cons b ids)
  have "right_about online (tell online b u) a \<or> a \<in> set ids \<and> a \<in> set (vw_watched u)" for a
  proof (cases "a = b \<and> a \<in> set (vw_watched u)")
    case True
    then have "b \<in> set (vw_watched u)" "told online u b = state_of online b" by (auto simp: told_def)
    then have "right_about online (tell online b u) b"
      using Cons.prems(1) by (cases "vw_doid u = 0") (simp_all add: right_about_def last_about_tell)
    then show ?thesis using True by simp
  next
    case False
    then have "right_about online (tell online b u) a = right_about online u a" by (auto simp: right_about_def last_about_tell)
    then show ?thesis using Cons.prems(2) [of a] False by auto
  qed
  then have "truthful online (fold (tell online) ids (tell online b u))"
    using Cons.prems(1) by (intro Cons.IH) (simp_all, simp add: tell_def)
  then show ?case by simp
qed

lemma truthful_added:
  assumes "truthful online v" and "\<And>a. a \<in> set ws - set (vw_watched v) \<Longrightarrow> a \<in> set ids" and "set (vw_watched v) \<subseteq> set ws"
  shows "truthful online (fold (tell online) ids (v\<lparr>vw_watched := ws\<rparr>))"
proof (rule truthful_told)
  fix a
  have v: "right_about online v a" using assms(1) by (simp add: truthful_def)
  show "right_about online (v\<lparr>vw_watched := ws\<rparr>) a \<or> a \<in> set ids \<and> a \<in> set (vw_watched (v\<lparr>vw_watched := ws\<rparr>))"
  proof (cases "a \<in> set ws - set (vw_watched v)")
    case True
    then show ?thesis using assms(2) by auto
  next
    case False
    then have "told online (v\<lparr>vw_watched := ws\<rparr>) a = told online v a" using assms(3) by (auto simp: told_def)
    then show ?thesis using v by (simp add: right_about_def)
  qed
qed (use assms(1) in \<open>simp add: truthful_def\<close>)

lemma admit_up_to_grows: "set watched \<subseteq> set (admit_up_to watched ids)"
proof (induction ids arbitrary: watched)
  case (Cons a ids)
  then show ?case using Cons.IH [of "add_to a watched"] by auto
qed simp

lemma truthful_admit: "truthful online v \<Longrightarrow> truthful online (admit_watched online ids v)"
  using truthful_added [of online v "admit_up_to (vw_watched v) ids" ids] set_admit_up_to [of "vw_watched v" ids]
    admit_up_to_grows [of "vw_watched v" ids]
  by (auto simp: admit_watched_def)

lemma truthful_watch_friends: "truthful online v \<Longrightarrow> truthful online (watch_friends online ids v)"
proof (induction online ids v rule: watch_friends.induct)
  case (2 online a ids v)
  let ?u = "v\<lparr>vw_watched := add_to a (vw_watched v)\<rparr>"
  have "truthful online (if online a \<noteq> None then tell online a ?u else ?u)"
  proof (cases "online a")
    case None
    then have "told online ?u b = told online v b" for b by (simp add: told_def state_of_def)
    then show ?thesis using 2(3) None by (simp add: truthful_def right_about_def)
  next
    case (Some node)
    have "truthful online (fold (tell online) [a] ?u)" by (rule truthful_added [OF 2(3)]) auto
    then show ?thesis using Some by simp
  qed
  then show ?case using 2 by (simp add: Let_def)
qed simp

lemma truthful_hear: "truthful online v \<Longrightarrow> truthful online (hear_change online a made v)"
proof -
  assume "truthful online v"
  then have c: "truthful online (cancel_pending a v)" by (rule truthful_same) simp_all
  show ?thesis
  proof (cases made)
    case True
    have "truthful online (fold (tell online) [a] ((cancel_pending a v)\<lparr>vw_watched := add_to a (vw_watched (cancel_pending a v))\<rparr>))"
      by (rule truthful_added [OF c]) auto
    then show ?thesis using True by (simp add: hear_change_def Let_def)
  next
    case False
    let ?u = "(cancel_pending a v)\<lparr>vw_watched := filter (\<lambda>b. b \<noteq> a) (vw_watched v)\<rparr>"
    have "told online ?u b = told online (cancel_pending a v) b" if "b \<noteq> a" for b using that by (simp add: told_def)
    moreover have "told online ?u a = (False, a, 0)" by (simp add: told_def)
    ultimately show ?thesis
      using c False by (simp add: hear_change_def Let_def truthful_def right_about_def) (simp add: told_def send_state_def)
  qed
qed


text \<open>The roll and every connection on it: those on are those with a connection, and what was shown is so.\<close>

definition roll_ok :: "roll \<Rightarrow> bool" where
  "roll_ok r \<longleftrightarrow> (\<forall>a. (rl_online r a \<noteq> None) \<longleftrightarrow> a \<noteq> 0 \<and> a \<in> (\<lambda>k. vw_account (rl_viewers r k)) ` set (rl_sessions r))
     \<and> (\<forall>k \<in> set (rl_sessions r). truthful (rl_online r) (rl_viewers r k))"

lemma roll_ok_each:
  assumes "roll_ok r" and "\<And>v. vw_account (f v) = vw_account v" and "\<And>v. truthful (rl_online r) v \<Longrightarrow> truthful (rl_online r) (f v)"
  shows "roll_ok (each_session f r)"
  using assms by (auto simp: roll_ok_def image_iff)

lemma roll_ok_update:
  assumes "roll_ok r" and "vw_account (f (rl_viewers r k)) = vw_account (rl_viewers r k)"
    and "truthful (rl_online r) (rl_viewers r k) \<Longrightarrow> truthful (rl_online r) (f (rl_viewers r k))"
  shows "roll_ok (update_viewer k f r)"
proof -
  have accounts: "(\<lambda>j. vw_account (rl_viewers (update_viewer k f r) j)) = (\<lambda>j. vw_account (rl_viewers r j))"
    using assms(2) by auto
  show ?thesis
    unfolding roll_ok_def accounts using assms(1,3) by (simp add: roll_ok_def)
qed

lemma truthful_silent: "vw_sent v = [] \<Longrightarrow> truthful online v"
  by (simp add: truthful_def right_about_def)

text \<open>An account's place on the roll is changed and its watchers told.\<close>

lemma roll_ok_moved:
  assumes "\<forall>k \<in> set (rl_sessions r). truthful (rl_online r) (rl_viewers r k)"
    and "\<And>b. (((rl_online r)(a := x)) b \<noteq> None) \<longleftrightarrow> b \<noteq> 0 \<and> b \<in> (\<lambda>k. vw_account (rl_viewers r k)) ` set (rl_sessions r)"
  shows "roll_ok (tell_watchers a (r\<lparr>rl_online := (rl_online r)(a := x)\<rparr>))"
proof -
  have "(\<lambda>k. vw_account (rl_viewers (tell_watchers a (r\<lparr>rl_online := (rl_online r)(a := x)\<rparr>)) k)) = (\<lambda>k. vw_account (rl_viewers r k))"
    by auto
  then show ?thesis
    unfolding roll_ok_def using assms(1) assms(2) truthful_moved [of "rl_online r" _ a x] by (simp del: fun_upd_apply)
qed

lemma roll_ok_move:
  assumes "roll_ok r"
  shows "roll_ok (set_presence_location k node r)"
proof -
  let ?a = "vw_account (rl_viewers r k)"
  have "roll_ok (tell_watchers ?a (r\<lparr>rl_online := (rl_online r)(?a \<mapsto> node)\<rparr>))"
    if "?a \<noteq> 0" "k \<in> set (rl_sessions r)"
    by (rule roll_ok_moved) (use assms that in \<open>auto simp: roll_ok_def image_iff\<close>)
  then show ?thesis using assms by (simp add: set_presence_location_def Let_def)
qed

lemma roll_ok_enter:
  assumes "roll_ok r" and "vw_sent (rl_viewers r k) = []"
  shows "roll_ok (enter_presence k r)"
proof -
  let ?r = "r\<lparr>rl_sessions := add_to k (rl_sessions r)\<rparr>" and ?a = "vw_account (rl_viewers r k)"
  have "\<forall>j \<in> set (rl_sessions ?r). truthful (rl_online ?r) (rl_viewers ?r j)"
    using assms truthful_silent by (auto simp: roll_ok_def)
  then have "roll_ok (tell_watchers ?a (?r\<lparr>rl_online := (rl_online ?r)(?a := Some 0)\<rparr>))" if "?a \<noteq> 0"
    by (rule roll_ok_moved) (use assms that in \<open>auto simp: roll_ok_def image_iff\<close>)
  then show ?thesis using assms truthful_silent by (auto simp: enter_presence_def Let_def roll_ok_def image_iff)
qed

lemma roll_ok_leave:
  assumes "roll_ok r"
  shows "roll_ok (leave_presence k r)"
proof -
  let ?r = "r\<lparr>rl_sessions := filter (\<lambda>j. j \<noteq> k) (rl_sessions r)\<rparr>" and ?a = "vw_account (rl_viewers r k)"
  have t: "\<forall>j \<in> set (rl_sessions ?r). truthful (rl_online ?r) (rl_viewers ?r j)" using assms by (auto simp: roll_ok_def)
  show ?thesis
  proof (cases "?a = 0 \<or> ?a \<in> (\<lambda>j. vw_account (rl_viewers r j)) ` set (rl_sessions ?r) \<or> rl_online r ?a = None")
    case True
    then have "leave_presence k r = ?r" by (auto simp: leave_presence_def Let_def)
    moreover have "b \<noteq> 0 \<and> b \<in> (\<lambda>j. vw_account (rl_viewers r j)) ` set (rl_sessions r)
        \<longleftrightarrow> b \<noteq> 0 \<and> b \<in> (\<lambda>j. vw_account (rl_viewers r j)) ` set (rl_sessions ?r)" for b
    proof (cases "b = ?a \<and> k \<in> set (rl_sessions r)")
      case True
      then have "?a \<noteq> 0 \<Longrightarrow> rl_online r ?a \<noteq> None" using assms by (simp add: roll_ok_def)
      then show ?thesis using \<open>?a = 0 \<or> _\<close> True by auto
    qed auto
    ultimately show ?thesis using t assms by (simp add: roll_ok_def)
  next
    case False
    have "roll_ok (tell_watchers ?a (?r\<lparr>rl_online := (rl_online ?r)(?a := None)\<rparr>))"
      by (rule roll_ok_moved [OF t]) (use assms False in \<open>auto simp: roll_ok_def image_iff\<close>)
    moreover have "leave_presence k r = tell_watchers ?a (?r\<lparr>rl_online := (rl_online ?r)(?a := None)\<rparr>)"
      using False by (simp add: leave_presence_def Let_def) (auto simp: image_iff)
    ultimately show ?thesis by simp
  qed
qed

lemma one_side_account [simp]: "vw_account (one_side online i j m v) = vw_account v"
  by (simp add: one_side_def hear_change_fields)

lemma roll_ok_friendship: "roll_ok r \<Longrightarrow> roll_ok (friendship_changed i j made r)"
  unfolding friendship_changed_def
  by (intro roll_ok_each) (simp_all, simp_all add: one_side_def truthful_hear)


lemma finish_check_truthful: "truthful online v \<Longrightarrow> truthful online (finish_check online c v)"
  unfolding finish_check_def by (rule truthful_same [OF truthful_admit]) simp_all

lemma roll_ok_enter_as:
  assumes "scene_ok s" and "roll_ok (sc_roll s)"
  shows "roll_ok (sc_roll (enter_as k a s))"
proof (cases "vw_account (viewer_of s k) \<noteq> 0 \<or> vw_closed (viewer_of s k) \<or> a \<le> 0")
  case False
  have k: "k \<notin> set (rl_sessions (sc_roll s))" "vw_sent (rl_viewers (sc_roll s) k) = []"
    using scene_okD(2) [OF assms(1), of k] False by (auto simp: standing_ok_def unused_def here_def viewer_of_def)
  then have "roll_ok (update_viewer k (\<lambda>v. v\<lparr>vw_account := a\<rparr>) (sc_roll s))"
    using assms(2) by (auto simp: roll_ok_def image_iff)
  then show ?thesis using False k(2) by (simp add: enter_as_def roll_ok_enter)
qed (simp add: enter_as_def assms(2))

lemma happens_roll_ok:
  assumes "scene_ok s" and "roll_ok (sc_roll s)"
  shows "roll_ok (sc_roll (happens e s))"
proof -
  let ?v = "viewer_of s"
  have "roll_ok (sc_roll (generate_presence k doid s))" for k doid
    using assms(2) by (auto simp: generate_presence_def viewer_of_def truthful_def right_about_def told_def intro!: roll_ok_update)
  moreover have "roll_ok (sc_roll (leave_for_good k s))" for k
    using assms(2) by (auto simp: leave_for_good_def intro!: roll_ok_leave roll_ok_update elim!: truthful_same)
  moreover have "roll_ok (sc_roll (on_roll reassert_all s))"
    using assms(2) by (simp add: reassert_all_def roll_ok_each reassert_tells truthful_fold_tell)
  moreover have "roll_ok (sc_roll (ask_for k ids s))" for k ids
  proof -
    obtain c v where "begin_check ids (viewer_of s k) = (c, v)" by force
    then show ?thesis
      using assms(2) begin_check_fields [of ids "viewer_of s k" c v]
      by (auto simp: ask_for_def viewer_of_def intro!: roll_ok_update elim!: truthful_same)
  qed
  moreover have "roll_ok (sc_roll (check_over (finish_check (rl_online (sc_roll s))) k n s))" for k n
    using assms(2) by (auto simp: check_over_def intro!: roll_ok_update finish_check_truthful)
      (simp add: finish_check_def admit_watched_fields)
  moreover have "roll_ok (sc_roll (check_over fail_check k n s))" for k n
    using assms(2) by (auto simp: check_over_def fail_check_def intro!: roll_ok_update elim!: truthful_same)
  moreover have "roll_ok (sc_roll (login_done k s))" for k
    using assms(2)
    by (auto simp: login_done_def Let_def watch_friends_fields split: option.split intro!: roll_ok_update truthful_watch_friends)
  ultimately show ?thesis
    using assms roll_ok_enter_as roll_ok_move roll_ok_friendship
    by (cases e) (auto simp: happens_def check_reads_def login_begins_def login_reads_def change_friendship_def announce_next_def
        split: option.split list.split prod.split)
qed


section \<open>The server as it runs\<close>

definition run_events :: "event list \<Rightarrow> (int \<Rightarrow> int \<Rightarrow> bool) \<Rightarrow> scene" where
  "run_events es friends = fold happens es (at_start friends)"

lemma at_start_ok: "scene_ok (at_start friends)" "roll_ok (sc_roll (at_start friends))" "sc_news (at_start friends) = []"
  by (simp_all add: at_start_def scene_ok_def honest_def standing_ok_def viewer_of_def here_def new_viewer_def books_ok_def
      unused_def roll_ok_def)

lemma run_events_ok:
  "scene_ok (run_events es friends) \<and> roll_ok (sc_roll (run_events es friends))
     \<and> (\<forall>(i, j, m) \<in> set (sc_news (run_events es friends)). i \<noteq> j)"
proof (induction es rule: rev_induct)
  case (snoc e es)
  then show ?case
    using happens_ok(1,2) [of "run_events es friends" e] happens_roll_ok [of "run_events es friends" e] by (simp add: run_events_def)
qed (simp add: run_events_def at_start_ok)



definition two_friends :: "int \<Rightarrow> int \<Rightarrow> bool" where
  "two_friends a b = ((a = 1 \<and> b = 2) \<or> (a = 2 \<and> b = 1))"

definition both_on :: "event list" where
  "both_on = [Enter 10 1, Generate 10 100, Enter 20 2, Generate 20 200]"

text \<open>A check asked for a friend and a stranger; the friendship ends while it is under way, and nothing is shown.\<close>

definition parted :: "event list" where
  "parted = both_on @ [Ask_For 10 [2, 3], Check_Reads 10 0 2, Check_Reads 10 0 3, Friendship 1 2 False, Announce]"


text \<open>C35: What a connection was last shown about anybody is so: someone shown as online is followed, has a
  connection that is logged in, and stands where the roll has them; someone shown as offline is not followed
  any more or has no connection. And an account is on the roll exactly while a connection of it is.
\<close>

theorem presence_shown_is_so:
  "let s = run_events es friends in
    (here s k \<and> last_about a (vw_sent (viewer_of s k)) = Some (True, b, node)
       \<longrightarrow> b = a \<and> a \<in> set (vw_watched (viewer_of s k)) \<and> is_online (sc_roll s) a \<and> dungeon_of (sc_roll s) a = node)
    \<and> (here s k \<and> last_about a (vw_sent (viewer_of s k)) = Some (False, b, node)
       \<longrightarrow> b = a \<and> (a \<notin> set (vw_watched (viewer_of s k)) \<or> \<not> is_online (sc_roll s) a))
    \<and> (is_online (sc_roll s) a \<longleftrightarrow> a \<noteq> 0 \<and> (\<exists>j \<in> set (rl_sessions (sc_roll s)). vw_account (viewer_of s j) = a))"
proof -
  define s where "s = run_events es friends"
  have ok: "roll_ok (sc_roll s)" using run_events_ok by (simp add: s_def)
  have right: "right_about (rl_online (sc_roll s)) (viewer_of s k) a" if "here s k"
    using ok that by (simp add: roll_ok_def truthful_def here_def viewer_of_def)
  have on: "is_online (sc_roll s) a \<longleftrightarrow> a \<noteq> 0 \<and> (\<exists>j \<in> set (rl_sessions (sc_roll s)). vw_account (viewer_of s j) = a)"
    using ok by (auto simp: roll_ok_def is_online_def viewer_of_def image_iff)
  have "told (rl_online (sc_roll s)) (viewer_of s k) a = (shown, b, node) \<Longrightarrow> b = a \<and>
      (if shown then a \<in> set (vw_watched (viewer_of s k)) \<and> is_online (sc_roll s) a \<and> dungeon_of (sc_roll s) a = node
       else a \<notin> set (vw_watched (viewer_of s k)) \<or> \<not> is_online (sc_roll s) a)" for shown
    by (auto simp: told_def state_of_def is_online_def dungeon_of_def split: if_splits)
  then have "here s k \<Longrightarrow> last_about a (vw_sent (viewer_of s k)) = Some (shown, b, node) \<Longrightarrow> b = a \<and>
      (if shown then a \<in> set (vw_watched (viewer_of s k)) \<and> is_online (sc_roll s) a \<and> dungeon_of (sc_roll s) a = node
       else a \<notin> set (vw_watched (viewer_of s k)) \<or> \<not> is_online (sc_roll s) a)" for shown
    using right by (metis right_about_def option.distinct(1) option.inject)
  from this [of True] this [of False] on show ?thesis by (simp add: Let_def s_def [symmetric])
qed

theorem presence_shown_is_so_witness:
  "let s = run_events (both_on @ [Login_Begins 10, Login_Reads 10 2, Login_Done 10, Move 20 7]) two_friends in
   last_about 2 (vw_sent (viewer_of s 10)) = Some (True, 2, 7) \<and> is_online (sc_roll s) 2 \<and> dungeon_of (sc_roll s) 2 = 7"
proof -
  let ?es = "both_on @ [Login_Begins 10, Login_Reads 10 2, Login_Done 10, Move 20 7]"
  have "here (run_events ?es two_friends) 10" "last_about 2 (vw_sent (viewer_of (run_events ?es two_friends) 10)) = Some (True, 2, 7)"
    by code_simp+
  then show ?thesis using presence_shown_is_so [of ?es two_friends 10 2 2 7] by (simp add: Let_def)
qed

text \<open>
  The exception is real: a login check is not set aside by the end of a friendship, so an ended one whose
  friend it had read is followed on, and told about, for as long as the connection lasts.
\<close>

lemma parted_and_still_told:
  "let s = run_events (both_on @ [Login_Begins 10, Login_Reads 10 2, Friendship 1 2 False, Announce, Login_Done 10, Move 20 7])
      two_friends in
   \<not> due s 1 2 \<and> 2 \<in> set (vw_watched (viewer_of s 10)) \<and> vw_sent (viewer_of s 10) = [(True, 2, 0), (True, 2, 7)]"
  by code_simp

text \<open>The same events with the client's own list instead of the login's: nothing is followed and nothing told.\<close>

lemma parted_and_not_told:
  "let s = run_events (parted @ [Check_Done 10 0, Move 20 7]) two_friends in
   vw_watched (viewer_of s 10) = [] \<and> vw_sent (viewer_of s 10) = []"
  by code_simp

end
