(* ===== verification/AccountRows.thy ===== *)
theory AccountRows
  imports Prelude "HOL-Library.AList"
begin

text \<open>
  An account as rows, and what a save of it has to write (\<open>src/storage/account-rows.js\<close>): the values of a
  row and the text two of them are compared by, the account taken apart into the rows of its tables, and the
  plan of a save against a picture of what storage is believed to hold. Text is the list of its code units.
  A list or an object an account account_held (its gifts, its friend requests) is the JSON text it is written as.
  Dates are the ISO text accounts hold them as.
\<close>

section \<open>Values and their text\<close>

type_synonym text_units = "nat list"

definition units :: "string \<Rightarrow> text_units" where
  "units = map of_char"

datatype datum = Null | Truth bool | Number int | Words text_units | Listed text_units | Keyed text_units

text \<open>A field of a row: \<open>undefined\<close> when the row does not carry it.\<close>

type_synonym row = "string \<Rightarrow> datum option"

text \<open>The digits of a number.\<close>

fun decimal :: "nat \<Rightarrow> text_units" where
  "decimal n = (if n < 10 then [48 + n] else decimal (n div 10) @ [48 + n mod 10])"

declare decimal.simps [simp del]

definition number_text :: "int \<Rightarrow> text_units" where
  "number_text i = (if i < 0 then 45 # decimal (nat (- i)) else decimal (nat i))"

text \<open>A string as \<open>JSON.stringify\<close> writes it: quotes, backslashes, control characters and lone surrogates escaped.\<close>

definition high_surrogate :: "nat \<Rightarrow> bool" where
  "high_surrogate u = (0xD800 \<le> u \<and> u \<le> 0xDBFF)"

definition low_surrogate :: "nat \<Rightarrow> bool" where
  "low_surrogate u = (0xDC00 \<le> u \<and> u \<le> 0xDFFF)"

definition hex_unit :: "nat \<Rightarrow> nat" where
  "hex_unit d = (if d < 10 then 48 + d else 87 + d)"

definition unicode_escape :: "nat \<Rightarrow> text_units" where
  "unicode_escape u = [92, 117, hex_unit (u div 4096 mod 16), hex_unit (u div 256 mod 16), hex_unit (u div 16 mod 16), hex_unit (u mod 16)]"

definition escape :: "nat \<Rightarrow> text_units" where
  "escape u =
     (if u = 34 then [92, 34] else if u = 92 then [92, 92]
      else if u = 8 then [92, 98] else if u = 9 then [92, 116] else if u = 10 then [92, 110]
      else if u = 12 then [92, 102] else if u = 13 then [92, 114]
      else if u < 32 \<or> high_surrogate u \<or> low_surrogate u then unicode_escape u else [u])"

fun escaped :: "text_units \<Rightarrow> text_units" where
  "escaped [] = []"
| "escaped [u] = escape u"
| "escaped (u # v # us) =
     (if high_surrogate u \<and> low_surrogate v then u # v # escaped us else escape u @ escaped (v # us))"

definition quoted :: "text_units \<Rightarrow> text_units" where
  "quoted us = 34 # escaped us @ [34]"

fun json :: "datum \<Rightarrow> text_units" where
  "json Null = units ''null''"
| "json (Truth b) = units (if b then ''true'' else ''false'')"
| "json (Number i) = number_text i"
| "json (Words us) = quoted us"
| "json (Listed us) = us"
| "json (Keyed us) = us"

definition defaulted :: text_units where
  "defaulted = 0 # units ''default''"

definition comparable :: "datum option \<Rightarrow> text_units" where
  "comparable v = (case v of None \<Rightarrow> defaulted | Some v \<Rightarrow> json v)"

definition joined :: "nat \<Rightarrow> text_units list \<Rightarrow> text_units" where
  "joined sep ts = concat (map (\<lambda>t. t @ [sep]) (butlast ts)) @ (if ts = [] then [] else last ts)"

definition row_text :: "string list \<Rightarrow> row \<Rightarrow> text_units" where
  "row_text columns r = joined 1 (map (\<lambda>c. comparable (r c)) columns)"

text \<open>A value in a template literal; what is put in one here is a number, a text, \<open>null\<close> or nothing.\<close>

definition shown :: "datum option \<Rightarrow> text_units" where
  "shown v = (case v of None \<Rightarrow> units ''undefined'' | Some Null \<Rightarrow> units ''null'' | Some (Words us) \<Rightarrow> us | Some v \<Rightarrow> json v)"

section \<open>The tables\<close>

datatype table = Account_Avatars | Account_Items | Account_Stackables | Account_Chests | Account_Pets | Account_Skins
  | Account_Attributes | Market_Listings | Market_Sold_Listings

definition listing_columns :: "string list" where
  "listing_columns = [''id'', ''account_id'', ''item_id'', ''price'', ''listed_at'', ''sold_to'', ''sold_at'', ''tax'', ''proceeds'',
     ''power'', ''requiredlevel'', ''rarity'', ''modifier1'', ''modifier2'', ''legendarymodifier'', ''created'']"

fun columns_of :: "table \<Rightarrow> string list" where
  "columns_of Account_Avatars = [''id'', ''account_id'', ''avatar_id'', ''skin_type'', ''experience'',
     ''completed_mapnode_mask'', ''statupgrade1'', ''statupgrade2'', ''statupgrade3'', ''statupgrade4'',
     ''consumable1_id'', ''consumable1_count'', ''consumable2_id'', ''consumable2_count'', ''created'']"
| "columns_of Account_Items = [''id'', ''account_id'', ''item_id'', ''power'', ''avatar_id'', ''avatar_slot'', ''is_new'',
     ''requiredlevel'', ''rarity'', ''modifier1'', ''modifier2'', ''legendarymodifier'', ''created'']"
| "columns_of Account_Stackables = [''id'', ''account_id'', ''stack_id'', ''count'', ''is_new'']"
| "columns_of Account_Chests = [''id'', ''account_id'', ''chest_id'', ''is_new'']"
| "columns_of Account_Pets = [''id'', ''account_id'', ''npc_id'', ''equipped_hero'', ''is_new'']"
| "columns_of Account_Skins = [''id'', ''account_id'', ''skin_type'']"
| "columns_of Account_Attributes = [''id'', ''account_id'', ''name'', ''value'']"
| "columns_of Market_Listings = listing_columns"
| "columns_of Market_Sold_Listings = listing_columns"

definition child_tables :: "table list" where
  "child_tables = [Account_Avatars, Account_Items, Account_Stackables, Account_Chests, Account_Pets, Account_Skins,
     Account_Attributes, Market_Listings]"

definition row_tables :: "table list" where
  "row_tables = child_tables @ [Market_Sold_Listings]"

definition account_columns :: "string list" where
  "account_columns = [''id'', ''name'', ''campaign'', ''ancestor_campaign'', ''demographic'', ''trophies'',
     ''completed_mapnode_mask'', ''basic_currency'', ''premium_currency'', ''basic_keys'',
     ''uncommon_keys'', ''rare_keys'', ''legendary_keys'', ''highest_avatar'',
     ''buckets_weapon'', ''buckets_other'', ''active_avatar'', ''admin_flags'',
     ''ingame_friends'', ''ignore_friends'', ''friend_requests'', ''infinite_progress'', ''gifts'', ''gift_sends'',
     ''account_flags'', ''market_barred'', ''completed_dungeons'', ''matchmaker_group'', ''concurrent_days'',
     ''last_reward_date'', ''last_login'', ''created'', ''restriction'', ''sanctions'', ''web_client'']"

definition rewritten_on_change :: "table \<Rightarrow> bool" where
  "rewritten_on_change t = (t = Account_Attributes \<or> t = Market_Sold_Listings)"

definition is_sold :: "row \<Rightarrow> bool" where
  "is_sold r = (r ''sold_to'' \<noteq> None \<and> r ''sold_to'' \<noteq> Some Null)"

definition sale_key :: "row \<Rightarrow> text_units" where
  "sale_key r = shown (r ''id'') @ [124] @ shown (r ''sold_at'')"

section \<open>An account taken apart\<close>

text \<open>The account as the rest of the server holds it: its fields and its lists.\<close>

record document =
  doc_fields :: row
  doc_lists :: "table \<Rightarrow> row list"

definition mask_column :: string where
  "mask_column = ''completed_mapnode_mask''"

definition empty_byte :: nat where
  "empty_byte = 256"

definition stored_mask :: "datum option \<Rightarrow> datum option" where
  "stored_mask v = (case v of Some (Words us) \<Rightarrow> Some (Words (map (\<lambda>u. if u = 0 then empty_byte else u) us)) | _ \<Rightarrow> v)"

definition loaded_mask :: "datum option \<Rightarrow> datum option" where
  "loaded_mask v = (case v of Some (Words us) \<Rightarrow> Some (Words (map (\<lambda>u. if u = empty_byte then 0 else u) us)) | _ \<Rightarrow> v)"

definition as_json_list :: "datum option \<Rightarrow> datum option" where
  "as_json_list v = Some (Words (case v of Some (Listed us) \<Rightarrow> us | _ \<Rightarrow> units ''[]''))"

definition or_empty_list :: "datum option \<Rightarrow> datum option" where
  "or_empty_list v = (if v = None \<or> v = Some Null then Some (Words (units ''[]'')) else v)"

definition as_json_object :: "datum option \<Rightarrow> datum option" where
  "as_json_object v = (case v of Some (Listed us) \<Rightarrow> Some (Words us) | Some (Keyed us) \<Rightarrow> Some (Words us) | None \<Rightarrow> None | _ \<Rightarrow> Some Null)"

definition progress_text :: "datum option \<Rightarrow> datum option" where
  "progress_text v = Some (Words (case v of Some (Listed us) \<Rightarrow> us | Some (Keyed us) \<Rightarrow> us | _ \<Rightarrow> units ''{}''))"

definition account_row_of :: "document \<Rightarrow> row" where
  "account_row_of d = (\<lambda>c. let v = doc_fields d c in
     if c = mask_column then stored_mask v
     else if c = ''ingame_friends'' \<or> c = ''ignore_friends'' then or_empty_list v
     else if c = ''friend_requests'' \<or> c = ''gifts'' \<or> c = ''gift_sends'' then as_json_list v
     else if c = ''infinite_progress'' then progress_text v
     else if c = ''restriction'' \<or> c = ''sanctions'' \<or> c = ''web_client'' then as_json_object v
     else v)"

definition hero_reference :: "table \<Rightarrow> (string \<times> string list) option" where
  "hero_reference t =
     (case t of Account_Items \<Rightarrow> Some (''avatar_id'', [''avatar_slot'']) | Account_Pets \<Rightarrow> Some (''equipped_hero'', []) | _ \<Rightarrow> None)"

definition heroes_of :: "document \<Rightarrow> text_units set" where
  "heroes_of d = (\<lambda>r. shown (r ''id'')) ` set (doc_lists d Account_Avatars)"

text \<open>A row naming a hero the account does not hold is written as unequipped.\<close>

definition unheld_hero :: "text_units set \<Rightarrow> table \<Rightarrow> row \<Rightarrow> bool" where
  "unheld_hero heroes t r =
     (case hero_reference t of None \<Rightarrow> False
      | Some (hero, _) \<Rightarrow> r hero \<noteq> None \<and> r hero \<noteq> Some Null \<and> shown (r hero) \<notin> heroes)"

definition unequipped :: "table \<Rightarrow> row \<Rightarrow> row" where
  "unequipped t r =
     (case hero_reference t of None \<Rightarrow> r
      | Some (hero, with_it) \<Rightarrow> (\<lambda>c. if c \<in> set (hero # with_it) then Some Null else r c))"

definition child_row :: "document \<Rightarrow> table \<Rightarrow> row \<Rightarrow> row" where
  "child_row d t r =
     (let copy = r(''account_id'' := doc_fields d ''id'');
          copy = copy(mask_column := stored_mask (copy mask_column)) in
      if unheld_hero (heroes_of d) t copy then unequipped t copy else copy)"

text \<open>Which table a row of a list goes to, under which key.\<close>

definition table_for :: "table \<Rightarrow> row \<Rightarrow> table" where
  "table_for field r = (if field = Market_Listings \<and> is_sold r then Market_Sold_Listings else field)"

definition key_in :: "table \<Rightarrow> row \<Rightarrow> text_units" where
  "key_in t r = (if t = Market_Sold_Listings then sale_key r else shown (r ''id''))"

text \<open>Every row of every list, with the table and the key it goes to.\<close>

definition placed_rows :: "document \<Rightarrow> (table \<times> text_units \<times> row) list" where
  "placed_rows d = concat (map (\<lambda>field. map (\<lambda>r. let t = table_for field r in (t, key_in t r, child_row d t r)) (doc_lists d field)) child_tables)"

definition child_rows_of :: "document \<Rightarrow> table \<Rightarrow> (text_units \<times> row) list" where
  "child_rows_of d t = fold (\<lambda>(u, k, r) rows. if u = t then AList.update k r rows else rows) (placed_rows d) []"

definition unheld_of :: "document \<Rightarrow> nat" where
  "unheld_of d = length (filter (\<lambda>(field, r). unheld_hero (heroes_of d) (table_for field r) (r(''account_id'' := doc_fields d ''id'')))
     (concat (map (\<lambda>field. map (\<lambda>r. (field, r)) (doc_lists d field)) child_tables)))"

section \<open>The plan of a save\<close>

text \<open>A picture of storage: the account's own row and the rows of its tables, as comparable text.\<close>

record picture =
  pc_account :: "text_units list"
  pc_tables :: "table \<Rightarrow> (text_units \<times> text_units) list"

text \<open>What identifies a row that has to go: its id, and of a sold listing when it sold.\<close>

datatype removal = By_Id int | By_Sale int datum

definition read_digits :: "text_units \<Rightarrow> nat" where
  "read_digits us = fold (\<lambda>u n. 10 * n + (u - 48)) us 0"

definition read_number :: "text_units \<Rightarrow> int" where
  "read_number us = (case us of [] \<Rightarrow> 0 | u # rest \<Rightarrow> if u = 45 then - int (read_digits rest) else int (read_digits us))"

definition removal_of :: "table \<Rightarrow> text_units \<Rightarrow> removal" where
  "removal_of t key =
     (if t \<noteq> Market_Sold_Listings then By_Id (read_number key)
      else let sold_at = drop 1 (dropWhile (\<lambda>u. u \<noteq> 124) key) in
        By_Sale (read_number (takeWhile (\<lambda>u. u \<noteq> 124) key))
          (if sold_at = units ''undefined'' \<or> sold_at = units ''null'' then Null else Words sold_at))"

record plan =
  pl_full :: bool
  pl_version :: "int option"
  pl_id :: "datum option"
  pl_unheld :: nat
  pl_row :: row
  pl_columns :: "string list"
  pl_removes :: "table \<Rightarrow> removal list"
  pl_inserts :: "table \<Rightarrow> row list"
  pl_updates :: "table \<Rightarrow> row list"
  pl_next :: picture

definition picture_of :: "document \<Rightarrow> picture" where
  "picture_of d = \<lparr>pc_account = map (\<lambda>c. comparable (account_row_of d c)) account_columns,
     pc_tables = (\<lambda>t. map (\<lambda>(k, r). (k, row_text (columns_of t) r)) (child_rows_of d t))\<rparr>"

definition gone_rows :: "(text_units \<times> text_units) list \<Rightarrow> (text_units \<times> row) list \<Rightarrow> table \<Rightarrow> removal list" where
  "gone_rows before after t = map (removal_of t) (filter (\<lambda>k. k \<notin> fst ` set after) (map fst before))"

definition changed_row :: "(text_units \<times> text_units) list \<Rightarrow> table \<Rightarrow> text_units \<times> row \<Rightarrow> bool" where
  "changed_row before t = (\<lambda>(k, r). map_of before k \<noteq> None \<and> map_of before k \<noteq> Some (row_text (columns_of t) r))"

definition plan_table :: "(text_units \<times> text_units) list \<Rightarrow> (text_units \<times> row) list \<Rightarrow> table \<Rightarrow> removal list \<times> row list \<times> row list" where
  "plan_table before after t =
     (let changed = filter (changed_row before t) after in
      if rewritten_on_change t
      then (gone_rows before after t @ map (\<lambda>(k, _). removal_of t k) changed,
            map snd (filter (\<lambda>(k, r). map_of before k = None \<or> changed_row before t (k, r)) after), [])
      else (gone_rows before after t, map snd (filter (\<lambda>(k, _). map_of before k = None) after), map snd changed))"

definition plan_write :: "(int \<times> picture) option \<Rightarrow> document \<Rightarrow> plan" where
  "plan_write snapshot d =
     (let rows = child_rows_of d; texts = picture_of d in
      case snapshot of
        None \<Rightarrow> \<lparr>pl_full = True, pl_version = None, pl_id = doc_fields d ''id'', pl_unheld = unheld_of d, pl_row = account_row_of d,
          pl_columns = [], pl_removes = (\<lambda>_. []), pl_inserts = (\<lambda>t. map snd (rows t)), pl_updates = (\<lambda>_. []), pl_next = texts\<rparr>
      | Some (version, before) \<Rightarrow>
          \<lparr>pl_full = False, pl_version = Some version, pl_id = doc_fields d ''id'', pl_unheld = unheld_of d, pl_row = account_row_of d,
          pl_columns = map fst (filter (\<lambda>(_, was, is). was \<noteq> is) (zip account_columns (zip (pc_account before) (pc_account texts)))),
          pl_removes = (\<lambda>t. fst (plan_table (pc_tables before t) (rows t) t)),
          pl_inserts = (\<lambda>t. fst (snd (plan_table (pc_tables before t) (rows t) t))),
          pl_updates = (\<lambda>t. snd (snd (plan_table (pc_tables before t) (rows t) t))),
          pl_next = texts\<rparr>)"

definition snapshot_of :: "document \<Rightarrow> int \<Rightarrow> int \<times> picture" where
  "snapshot_of d version = (version, pl_next (plan_write None d))"


section \<open>Texts tell values apart\<close>

fun unhex :: "nat \<Rightarrow> nat" where
  "unhex u = (if u < 58 then u - 48 else u - 87)"

text \<open>Reading an escaped string back, the way a JSON reader does.\<close>

fun unescaped :: "text_units \<Rightarrow> text_units" where
  "unescaped [] = []"
| "unescaped (u # us) =
     (if u \<noteq> 92 then u # unescaped us
      else case us of
          [] \<Rightarrow> []
        | e # us \<Rightarrow>
            (if e = 117 then
               (case us of
                  a # b # c # d # us \<Rightarrow> (4096 * unhex a + 256 * unhex b + 16 * unhex c + unhex d) # unescaped us
                | _ \<Rightarrow> [])
             else (if e = 98 then 8 else if e = 116 then 9 else if e = 110 then 10 else if e = 102 then 12
                   else if e = 114 then 13 else e) # unescaped us))"

lemma unhex_hex: "d < 16 \<Longrightarrow> unhex (hex_unit d) = d"
  by (simp add: hex_unit_def)

lemma hex_value:
  fixes u :: nat
  assumes "u < 65536"
  shows "4096 * (u div 4096 mod 16) + 256 * (u div 256 mod 16) + 16 * (u div 16 mod 16) + u mod 16 = u"
proof -
  define a b c where "a = u div 16" and "b = u div 256" and "c = u div 4096"
  have steps: "a div 16 = b" "b div 16 = c" "c < 16"
    using assms by (simp_all add: a_def b_def c_def div_mult2_eq [symmetric] less_mult_imp_div_less)
  have "16 * a + u mod 16 = u" "16 * b + a mod 16 = a" "16 * c + b mod 16 = b" "c mod 16 = c"
    using mult_div_mod_eq [of 16 u] mult_div_mod_eq [of 16 a] mult_div_mod_eq [of 16 b] steps by (simp_all only: a_def [symmetric] mod_less)
  then have "4096 * (c mod 16) + 256 * (b mod 16) + 16 * (a mod 16) + u mod 16 = u" by linarith
  then show ?thesis by (simp only: a_def b_def c_def)
qed

lemma unescaped_simps:
  "unescaped [] = []" "u \<noteq> 92 \<Longrightarrow> unescaped (u # us) = u # unescaped us"
  "unescaped (92 # 117 # a # b # c # d # us) = (4096 * unhex a + 256 * unhex b + 16 * unhex c + unhex d) # unescaped us"
  "e \<noteq> 117 \<Longrightarrow> unescaped (92 # e # us) = (if e = 98 then 8 else if e = 116 then 9 else if e = 110 then 10 else if e = 102 then 12
     else if e = 114 then 13 else e) # unescaped us"
  by simp_all

lemma unescaped_unicode: "u < 65536 \<Longrightarrow> unescaped (unicode_escape u @ us) = u # unescaped us"
  using hex_value [of u] by (simp add: unicode_escape_def unescaped_simps unhex_hex del: unescaped.simps unhex.simps)

lemma unescaped_escape: "unescaped (escape u @ us) = u # unescaped us"
  by (simp add: escape_def unescaped_simps unescaped_unicode high_surrogate_def low_surrogate_def del: unescaped.simps)

lemma unescaped_escaped: "unescaped (escaped us @ vs) = us @ unescaped vs"
proof (induction us rule: escaped.induct)
  case (3 u v us)
  have "high_surrogate u \<Longrightarrow> u \<noteq> 92" "low_surrogate v \<Longrightarrow> v \<noteq> 92" by (auto simp: high_surrogate_def low_surrogate_def)
  then show ?case using 3 by (simp add: unescaped_escape unescaped_simps del: unescaped.simps)
qed (simp_all add: unescaped_escape del: unescaped.simps)

lemma escaped_inject: "escaped us = escaped vs \<Longrightarrow> us = vs"
  using unescaped_escaped [of us "[]"] unescaped_escaped [of vs "[]"] by simp


lemma decimal_digits: "\<forall>u \<in> set (decimal n). 48 \<le> u \<and> u \<le> 57"
  by (induction n rule: decimal.induct) (subst decimal.simps, auto)

lemma decimal_not_nil: "decimal n \<noteq> []"
  by (subst decimal.simps) simp

lemma read_digits_snoc: "read_digits (us @ [u]) = 10 * read_digits us + (u - 48)"
  by (simp add: read_digits_def)

lemma read_decimal: "read_digits (decimal n) = n"
proof (induction n rule: decimal.induct)
  case (1 n)
  then show ?case by (subst decimal.simps) (auto simp: read_digits_snoc, simp add: read_digits_def)
qed

lemma read_number_text: "read_number (number_text i) = i"
proof -
  obtain u us where u: "decimal (nat i) = u # us" by (cases "decimal (nat i)") (simp_all add: decimal_not_nil)
  then have "u \<noteq> 45" using decimal_digits [of "nat i"] by auto
  then show ?thesis using u read_decimal [of "nat i"] by (auto simp: number_text_def read_number_def read_decimal)
qed

text \<open>Only digits and a sign: nothing a string, a word or a separator begins or ends with.\<close>

lemma number_text_units: "\<forall>u \<in> set (number_text i). u = 45 \<or> 48 \<le> u \<and> u \<le> 57"
  using decimal_digits by (auto simp: number_text_def)

lemma number_text_not_nil: "number_text i \<noteq> []"
  by (simp add: number_text_def decimal_not_nil)

lemma number_text_inject: "number_text i = number_text j \<Longrightarrow> i = j"
  by (metis read_number_text)

text \<open>A value a row may hold: no list and no object, which are text before they get there.\<close>

fun plain :: "datum \<Rightarrow> bool" where
  "plain (Listed _) = False"
| "plain (Keyed _) = False"
| "plain _ = True"

lemma units_word:
  "units ''null'' = [110, 117, 108, 108]" "units ''true'' = [116, 114, 117, 101]"
  "units ''false'' = [102, 97, 108, 115, 101]" "units ''default'' = [100, 101, 102, 97, 117, 108, 116]"
  "units ''undefined'' = [117, 110, 100, 101, 102, 105, 110, 101, 100]"
  "units ''[]'' = [91, 93]" "units ''{}'' = [123, 125]"
  by (simp_all add: units_def)

lemma hd_number_text: "hd (number_text i) = 45 \<or> 48 \<le> hd (number_text i) \<and> hd (number_text i) \<le> 57"
  using number_text_units [of i] number_text_not_nil [of i] hd_in_set by blast

lemma number_not_word: "number_text i \<noteq> u # us" if "u \<noteq> 45" "u < 48 \<or> 57 < u"
  using hd_number_text [of i] that by auto

lemma json_inject: "plain v \<Longrightarrow> plain w \<Longrightarrow> json v = json w \<Longrightarrow> v = w"
  by (cases v; cases w) (auto simp: units_word quoted_def number_not_word number_not_word [symmetric]
      dest: number_text_inject escaped_inject split: if_splits)


lemma hex_digit_32: "32 \<le> hex_unit d"
  by (simp add: hex_unit_def)

lemma escape_32: "w \<in> set (escape u) \<Longrightarrow> 32 \<le> w"
  using hex_digit_32 by (auto simp: escape_def unicode_escape_def split: if_splits)

lemma escaped_32: "w \<in> set (escaped us) \<Longrightarrow> 32 \<le> w"
proof (induction us rule: escaped.induct)
  case (3 u v us)
  then show ?case using escape_32 by (auto simp: high_surrogate_def low_surrogate_def split: if_splits)
qed (simp_all add: escape_32)

definition plain_field :: "datum option \<Rightarrow> bool" where
  "plain_field v = (case v of None \<Rightarrow> True | Some v \<Rightarrow> plain v)"

lemma plain_field_simps [simp]: "plain_field None" "plain_field (Some v) = plain v"
  by (simp_all add: plain_field_def)

lemma json_32: "plain v \<Longrightarrow> w \<in> set (json v) \<Longrightarrow> 32 \<le> w"
  using number_text_units escaped_32 by (cases v) (fastforce simp: units_word quoted_def split: if_splits)+

lemma comparable_no_separator: "plain_field v \<Longrightarrow> 1 \<notin> set (comparable v)"
  using json_32 by (cases v) (fastforce simp: comparable_def defaulted_def units_word)+

lemma comparable_inject: "plain_field v \<Longrightarrow> plain_field w \<Longrightarrow> comparable v = comparable w \<Longrightarrow> v = w"
proof -
  have "json x \<noteq> defaulted" if "plain x" for x
    using json_32 [OF that, of 0] by (auto simp: defaulted_def)
  then show "plain_field v \<Longrightarrow> plain_field w \<Longrightarrow> comparable v = comparable w \<Longrightarrow> v = w"
    using json_inject by (cases v; cases w) (auto simp: comparable_def dest: sym)
qed

lemma joined_simps:
  "joined sep [] = []" "joined sep [t] = t" "joined sep (t # u # ts) = t @ sep # joined sep (u # ts)"
  by (simp_all add: joined_def)

lemma append_separated:
  "sep \<notin> set t \<Longrightarrow> sep \<notin> set u \<Longrightarrow> t @ sep # ts = u @ sep # us \<longleftrightarrow> t = u \<and> ts = us"
proof (rule iffI)
  assume "sep \<notin> set t" "sep \<notin> set u" and eq: "t @ sep # ts = u @ sep # us"
  then have "takeWhile (\<lambda>x. x \<noteq> sep) (t @ sep # ts) = t" "takeWhile (\<lambda>x. x \<noteq> sep) (u @ sep # us) = u"
    by (subst takeWhile_append2; auto)+
  then show "t = u \<and> ts = us" using eq by simp
qed simp

lemma joined_inject:
  assumes "length ts = length us" and "\<forall>t \<in> set ts \<union> set us. sep \<notin> set t" and "joined sep ts = joined sep us"
  shows "ts = us"
  using assms
proof (induction ts us rule: list_induct2)
  case (Cons t ts u us)
  show ?case
  proof (cases ts)
    case Nil
    then show ?thesis using Cons by (simp add: joined_simps)
  next
    case t': (Cons t' ts')
    then obtain u' us' where u': "us = u' # us'" using Cons.hyps by (cases us) auto
    have "t @ sep # joined sep ts = u @ sep # joined sep us" using Cons.prems(2) by (simp add: t' u' joined_simps)
    then have "t = u" "joined sep ts = joined sep us" using Cons.prems(1) append_separated by (metis UnCI list.set_intros(1))+
    then show ?thesis using Cons by auto
  qed
qed simp

text \<open>Rows of a table are told apart by their text: the same text is the same value in every column.\<close>

lemma row_text_inject:
  assumes "\<forall>c \<in> set columns. plain_field (r c) \<and> plain_field (r' c)" and "row_text columns r = row_text columns r'"
  shows "\<forall>c \<in> set columns. r c = r' c"
proof -
  have "map (\<lambda>c. comparable (r c)) columns = map (\<lambda>c. comparable (r' c)) columns"
    using assms comparable_no_separator by (intro joined_inject [of _ _ 1]) (auto simp: row_text_def)
  then have "\<forall>c \<in> set columns. comparable (r c) = comparable (r' c)" by simp
  then show ?thesis using assms(1) comparable_inject by blast
qed

lemma row_text_cong: "\<forall>c \<in> set columns. r c = r' c \<Longrightarrow> row_text columns r = row_text columns r'"
  unfolding row_text_def by (metis (no_types, lifting) map_cong)

lemma mask_kept: "(\<forall>us. v = Some (Words us) \<longrightarrow> (\<forall>u \<in> set us. u < empty_byte)) \<Longrightarrow> loaded_mask (stored_mask v) = v"
  by (auto simp: loaded_mask_def stored_mask_def empty_byte_def comp_def split: option.split datum.split intro!: map_idI)

section \<open>The rows of a table\<close>

lemma child_rows_fold: "child_rows_of d t = fold (\<lambda>(k, r). AList.update k r) (map snd (filter (\<lambda>(u, _). u = t) (placed_rows d))) []"
proof -
  have "fold (\<lambda>(u, k, r) rows. if u = t then AList.update k r rows else rows) xs rows
      = fold (\<lambda>(k, r). AList.update k r) (map snd (filter (\<lambda>(u, _). u = t) xs)) rows" for xs rows
    by (induction xs arbitrary: rows) auto
  then show ?thesis by (simp add: child_rows_of_def)
qed

lemma child_rows_distinct: "distinct (map fst (child_rows_of d t))"
proof -
  have "distinct (map fst rows) \<Longrightarrow> distinct (map fst (fold (\<lambda>(k, r). AList.update k r) xs rows))" for xs :: "(text_units \<times> row) list" and rows
    by (induction xs arbitrary: rows) (auto simp: distinct_update)
  then show ?thesis by (simp add: child_rows_fold)
qed

text \<open>Rows under different keys are all there, in their order.\<close>

lemma update_fresh: "k \<notin> fst ` set rows \<Longrightarrow> AList.update k v rows = rows @ [(k, v)]"
  by (induction rows) auto

lemma fold_update_fresh:
  "distinct (map fst (rows @ xs)) \<Longrightarrow> fold (\<lambda>(k, r). AList.update k r) xs rows = rows @ xs"
proof (induction xs arbitrary: rows)
  case (Cons x xs)
  have "AList.update (fst x) (snd x) rows = rows @ [x]" using Cons.prems by (simp add: update_fresh)
  then show ?case using Cons.IH [of "rows @ [x]"] Cons.prems by (simp add: case_prod_unfold)
qed simp

lemma child_rows_plain:
  "distinct (map (fst \<circ> snd) (filter (\<lambda>(u, _). u = t) (placed_rows d)))
     \<Longrightarrow> child_rows_of d t = map snd (filter (\<lambda>(u, _). u = t) (placed_rows d))"
  by (simp add: child_rows_fold fold_update_fresh)

lemma columns_with_key: "''id'' \<in> set (columns_of t) \<and> ''account_id'' \<in> set (columns_of t)"
  by (induction t) (simp_all add: listing_columns_def)

lemma columns_with_key_too: "''sold_at'' \<in> set (columns_of Market_Sold_Listings)" "''name'' \<in> set (columns_of Account_Attributes)"
  by code_simp+

lemma hero_reference_cases:
  assumes "hero_reference t = Some (hero, with_it)"
  obtains "t = Account_Items" "hero = ''avatar_id''" "with_it = [''avatar_slot'']" | "t = Account_Pets" "hero = ''equipped_hero''" "with_it = []"
  using assms by (cases t) (simp_all add: hero_reference_def)

lemma hero_column:
  "hero_reference t = Some (hero, with_it) \<Longrightarrow> hero \<in> set (columns_of t) \<and> hero \<notin> {''id'', ''account_id'', ''sold_at'', ''name''}"
  by (erule hero_reference_cases) simp_all

lemma columns_distinct: "distinct (columns_of t)"
  by (induction t) code_simp+

lemma unequipped_other: "c \<notin> {''avatar_id'', ''avatar_slot'', ''equipped_hero''} \<Longrightarrow> unequipped t r c = r c"
  by (cases t) (simp_all add: unequipped_def hero_reference_def)

lemma child_row_other:
  "c \<notin> {''avatar_id'', ''avatar_slot'', ''equipped_hero''} \<Longrightarrow>
     child_row d t r c = (let v = (r(''account_id'' := doc_fields d ''id'')) c in if c = mask_column then stored_mask v else v)"
  by (simp add: child_row_def Let_def unequipped_other mask_column_def)

lemma child_row_kept:
  "c \<notin> {''account_id'', ''completed_mapnode_mask'', ''avatar_id'', ''avatar_slot'', ''equipped_hero''} \<Longrightarrow> child_row d t r c = r c"
  by (simp add: child_row_other mask_column_def)

lemma child_row_account: "child_row d t r ''account_id'' = doc_fields d ''id''"
  by (simp add: child_row_other mask_column_def)

lemma child_row_hero:
  assumes "hero_reference t = Some (hero, with_it)"
  shows "child_row d t r hero = None \<or> child_row d t r hero = Some Null \<or> shown (child_row d t r hero) \<in> heroes_of d"
  using assms
  by (auto simp: child_row_def Let_def unequipped_def unheld_hero_def mask_column_def split: if_splits)

lemma in_placed_rows: "(t, k, r) \<in> set (placed_rows d) \<Longrightarrow> \<exists>r'. k = key_in t r' \<and> r = child_row d t r'"
  by (auto simp: placed_rows_def Let_def)

lemma child_rows_mem: "(k, r) \<in> set (child_rows_of d t) \<Longrightarrow> (t, k, r) \<in> set (placed_rows d)"
proof -
  have "(k, r) \<in> set (fold (\<lambda>(k, r). AList.update k r) xs rows) \<Longrightarrow> (k, r) \<in> set xs \<union> set rows" for xs :: "(text_units \<times> row) list" and rows
  proof (induction xs arbitrary: rows)
    case (Cons x xs)
    have "set (AList.update k v rows) \<subseteq> insert (k, v) (set rows)" for k v and rows :: "(text_units \<times> row) list"
      by (induction rows) auto
    then show ?case using Cons by (cases x) fastforce
  qed simp
  then show "(k, r) \<in> set (child_rows_of d t) \<Longrightarrow> (t, k, r) \<in> set (placed_rows d)" by (fastforce simp: child_rows_fold)
qed

lemma child_rows_facts:
  assumes "(k, r) \<in> set (child_rows_of d t)"
  shows "k = key_in t r" and "r ''account_id'' = doc_fields d ''id''"
    and "hero_reference t = Some (hero, with_it) \<Longrightarrow> r hero = None \<or> r hero = Some Null \<or> shown (r hero) \<in> heroes_of d"
proof -
  obtain r' where r': "k = key_in t r'" "r = child_row d t r'" using in_placed_rows child_rows_mem [OF assms] by blast
  show "k = key_in t r" using r' by (simp add: key_in_def sale_key_def child_row_kept)
  show "r ''account_id'' = doc_fields d ''id''" using r'(2) by (simp add: child_row_account)
  show "hero_reference t = Some (hero, with_it) \<Longrightarrow> r hero = None \<or> r hero = Some Null \<or> shown (r hero) \<in> heroes_of d"
    unfolding r'(2) by (rule child_row_hero)
qed

text \<open>Every hero of the account has its row.\<close>

lemma heroes_are_rows: "heroes_of d = fst ` set (child_rows_of d Account_Avatars)"
proof -
  have keys: "fst ` set (fold (\<lambda>(k, r). AList.update k r) xs rows) = fst ` set xs \<union> fst ` set rows" for xs :: "(text_units \<times> row) list" and rows
    by (induction xs arbitrary: rows) (simp_all add: dom_update case_prod_unfold)
  have "filter (\<lambda>(u, _). u = Account_Avatars) (placed_rows d)
      = map (\<lambda>r. (Account_Avatars, shown (r ''id''), child_row d Account_Avatars r)) (doc_lists d Account_Avatars)"
    by (simp add: placed_rows_def child_tables_def filter_concat comp_def table_for_def Let_def key_in_def filter_map
        map_concat case_prod_unfold)
  then show ?thesis by (simp add: child_rows_fold keys heroes_of_def image_image)
qed

text \<open>A key names one row, and what is removed under it is that row.\<close>

lemma number_text_no_bar: "124 \<notin> set (number_text i)"
  using number_text_units [of i] by auto

lemma shown_number [simp]: "shown (Some (Number i)) = number_text i"
  by (simp add: shown_def)

lemma removal_of_key:
  assumes "r ''id'' = Some (Number i)"
    and "t = Market_Sold_Listings \<Longrightarrow> r ''sold_at'' = Some (Words us) \<and> us \<noteq> units ''undefined'' \<and> us \<noteq> units ''null''"
  shows "removal_of t (key_in t r) = (if t = Market_Sold_Listings then By_Sale i (Words us) else By_Id i)"
proof (cases "t = Market_Sold_Listings")
  case True
  let ?key = "number_text i @ 124 # us"
  have "key_in t r = ?key" using True assms by (simp add: key_in_def sale_key_def) (simp add: shown_def)
  moreover have "takeWhile (\<lambda>u. u \<noteq> 124) ?key = number_text i" "dropWhile (\<lambda>u. u \<noteq> 124) ?key = 124 # us"
    using number_text_no_bar by (subst takeWhile_append2 dropWhile_append2; auto)+
  ultimately show ?thesis using True assms(2) by (simp add: removal_of_def Let_def read_number_text)
qed (use assms(1) in \<open>simp add: removal_of_def key_in_def read_number_text\<close>)


section \<open>What a plan touches\<close>

definition inserted :: "(text_units \<times> text_units) list \<Rightarrow> table \<Rightarrow> text_units \<times> row \<Rightarrow> bool" where
  "inserted before t x = (map_of before (fst x) = None \<or> (changed_row before t x \<and> rewritten_on_change t))"

definition updated :: "(text_units \<times> text_units) list \<Rightarrow> table \<Rightarrow> text_units \<times> row \<Rightarrow> bool" where
  "updated before t x = (changed_row before t x \<and> \<not> rewritten_on_change t)"

lemma plan_table_parts:
  "fst (snd (plan_table before rows t)) = map snd (filter (inserted before t) rows)"
  "snd (snd (plan_table before rows t)) = map snd (filter (updated before t) rows)"
  "set (fst (plan_table before rows t)) = removal_of t `
     (fst ` set before - fst ` set rows \<union> fst ` {x \<in> set rows. changed_row before t x \<and> rewritten_on_change t})"
  by (auto simp: plan_table_def Let_def inserted_def updated_def gone_rows_def case_prod_unfold changed_row_def image_iff
      intro!: arg_cong [where f = "map snd"] filter_cong)

text \<open>A row the plan neither inserts nor updates is one the picture has, with the same text.\<close>

lemma untouched_row:
  "\<not> inserted before t (k, r) \<Longrightarrow> \<not> updated before t (k, r) \<Longrightarrow> map_of before k = Some (row_text (columns_of t) r)"
  by (auto simp: inserted_def updated_def changed_row_def)

lemma inserted_not_updated: "inserted before t x \<Longrightarrow> \<not> updated before t x"
  by (auto simp: inserted_def updated_def changed_row_def)

text \<open>A save against the picture of the very account touches nothing: after no change, the version alone is sent.\<close>

theorem saved_again_touches_nothing:
  "let p = plan_write (Some (version, picture_of d)) d in
   pl_columns p = [] \<and> pl_removes p t = [] \<and> pl_inserts p t = [] \<and> pl_updates p t = []"
proof -
  let ?before = "pc_tables (picture_of d) t"
  have same: "map_of ?before k = Some (row_text (columns_of t) r)" if "(k, r) \<in> set (child_rows_of d t)" for k r
  proof -
    have "distinct (map fst ?before)" using child_rows_distinct [of d t] by (simp add: picture_of_def comp_def case_prod_unfold)
    moreover have "(k, row_text (columns_of t) r) \<in> set ?before" using that by (force simp: picture_of_def)
    ultimately show ?thesis by (rule map_of_is_SomeI)
  qed
  have "fst ` set ?before = fst ` set (child_rows_of d t)" by (force simp: picture_of_def)
  then have "plan_table ?before (child_rows_of d t) t = ([], [], [])"
    using same by (force simp: plan_table_def Let_def gone_rows_def changed_row_def filter_empty_conv)
  moreover have "filter (\<lambda>(_, was, is). was \<noteq> is) (zip xs (zip ys ys)) = []" for xs :: "string list" and ys :: "text_units list"
    by (auto simp: filter_empty_conv in_set_zip)
  ultimately show ?thesis by (simp add: plan_write_def Let_def)
qed

section \<open>Listings read from two tables\<close>

text \<open>One sale is one listing, whichever table it was read from (\<open>mergeMarketListings\<close> of \<open>postgres.js\<close>).\<close>

definition unique_sold :: "row list \<Rightarrow> row list" where
  "unique_sold sold = map snd (fold (\<lambda>r. AList.update (sale_key r) r) sold [])"

definition merge_market_listings :: "row list \<Rightarrow> row list \<Rightarrow> row list" where
  "merge_market_listings listings sold =
     filter (\<lambda>r. \<not> is_sold r \<or> sale_key r \<notin> sale_key ` set (unique_sold sold)) listings @ unique_sold sold"

lemma unique_sold_keys: "distinct (map sale_key (unique_sold sold))" "sale_key ` set (unique_sold sold) = sale_key ` set sold"
    "set (unique_sold sold) \<subseteq> set sold"
proof -
  let ?after = "\<lambda>rows. fold (\<lambda>r. AList.update (sale_key r) r) sold rows"
  have dist: "distinct (map fst rows) \<Longrightarrow> distinct (map fst (?after rows))" for rows :: "(text_units \<times> row) list"
    by (induction sold arbitrary: rows) (simp_all add: distinct_update)
  have doms: "fst ` set (?after rows) = fst ` set rows \<union> sale_key ` set sold" for rows :: "(text_units \<times> row) list"
    by (induction sold arbitrary: rows) (simp_all add: dom_update)
  have sub: "set (AList.update k r rows) \<subseteq> insert (k, r) (set rows)" for k r and rows :: "(text_units \<times> row) list"
    by (induction rows) auto
  have "x \<in> set (?after rows) \<Longrightarrow> x \<in> set rows \<or> (\<exists>r \<in> set sold. x = (sale_key r, r))" for x and rows :: "(text_units \<times> row) list"
  proof (induction sold arbitrary: rows)
    case (Cons r sold)
    then show ?case using Cons.IH [of "AList.update (sale_key r) r rows"] sub [of "sale_key r" r rows] by auto
  qed simp
  then have mem: "\<exists>r \<in> set sold. x = (sale_key r, r)" if "x \<in> set (?after [])" for x using that by fastforce
  then have "map sale_key (unique_sold sold) = map fst (?after [])" by (fastforce simp: unique_sold_def)
  note keys = this
  show "distinct (map sale_key (unique_sold sold))" using dist [of "[]"] by (simp only: keys) simp
  show "sale_key ` set (unique_sold sold) = sale_key ` set sold" using arg_cong [OF keys, of set] doms [of "[]"] by simp
  show "set (unique_sold sold) \<subseteq> set sold" using mem by (fastforce simp: unique_sold_def)
qed

lemma sale_counted_once:
  assumes "\<forall>r \<in> set sold. is_sold r"
  shows "length (filter (\<lambda>r. is_sold r \<and> sale_key r = key) (merge_market_listings listings sold))
      = (if key \<in> sale_key ` set sold then 1 else length (filter (\<lambda>r. is_sold r \<and> sale_key r = key) listings))"
proof -
  let ?hit = "\<lambda>r. is_sold r \<and> sale_key r = key"
  have sold: "filter ?hit (unique_sold sold) = filter (\<lambda>r. sale_key r = key) (unique_sold sold)"
    using assms unique_sold_keys(3) [of sold] by (intro filter_cong) auto
  have "length (filter (\<lambda>r. f r = k) xs) = (if k \<in> f ` set xs then 1 else 0)" if "distinct (map f xs)" for f :: "row \<Rightarrow> text_units" and k xs
    using that by (induction xs) (auto simp: filter_empty_conv)
  from this [OF unique_sold_keys(1)] have "length (filter ?hit (unique_sold sold)) = (if key \<in> sale_key ` set sold then 1 else 0)"
    by (simp only: sold unique_sold_keys(2))
  moreover have "filter ?hit (filter (\<lambda>r. \<not> is_sold r \<or> sale_key r \<notin> sale_key ` set sold) listings)
      = (if key \<in> sale_key ` set sold then [] else filter ?hit listings)"
    by (auto simp: filter_empty_conv intro!: filter_cong)
  ultimately show ?thesis by (simp add: merge_market_listings_def unique_sold_keys(2) del: filter_filter)
qed

lemma open_listings_kept: "filter (\<lambda>r. \<not> is_sold r) (merge_market_listings listings sold)
    = filter (\<lambda>r. \<not> is_sold r) listings @ filter (\<lambda>r. \<not> is_sold r) (unique_sold sold)"
  by (auto simp: merge_market_listings_def intro!: filter_cong)

end
