(* ===== verification/AccountWrites.thy ===== *)
theory AccountWrites
  imports AccountRows
begin

text \<open>
  A planned write, carried out (\<open>src/storage/account-writes.js\<close>), and the accounts saved together as one
  transaction against the pictures a thread keeps of storage (\<open>src/storage/postgres.js\<close>). The database is a
  parameter: what it does with a statement is its own, held to what the language of the statements and
  \<open>db/schema.sql\<close> say of it as far as the statement is one they do not refuse. A JSON column is the text
  written to it, whose layout the database may change and no reader sees; a transaction that could not be
  committed counts with the statements that failed.
\<close>

section \<open>Statements\<close>

text \<open>A value that is not given is \<open>DEFAULT\<close>.\<close>

datatype statement =
    Insert_Rows table "string list" "datum list list"
  | Update_Row table "(string \<times> datum option) list" datum datum
  | Delete_Rows table datum "int list"
  | Delete_Sale datum int datum
  | Delete_All table datum
  | Upsert_Account "(string \<times> datum option) list"
  | Advance_Account "(string \<times> datum option) list" datum int

definition max_parameters :: nat where
  "max_parameters = 20000"

text \<open>The columns a row carries, and the rows by the columns they carry.\<close>

definition present :: "table \<Rightarrow> row \<Rightarrow> string list" where
  "present t r = filter (\<lambda>c. r c \<noteq> None) (columns_of t)"

definition add_alike :: "table \<Rightarrow> row \<Rightarrow> (string list \<times> row list) list \<Rightarrow> (string list \<times> row list) list" where
  "add_alike t r shapes =
     (if present t r = [] then shapes
      else AList.update (present t r) ((case map_of shapes (present t r) of None \<Rightarrow> [] | Some rows \<Rightarrow> rows) @ [r]) shapes)"

definition shapes_of :: "table \<Rightarrow> row list \<Rightarrow> (string list \<times> row list) list" where
  "shapes_of t rows = fold (add_alike t) rows []"

definition per_statement :: "string list \<Rightarrow> nat" where
  "per_statement columns = max 1 (max_parameters div length columns)"

function in_pieces :: "nat \<Rightarrow> 'a list \<Rightarrow> 'a list list" where
  "in_pieces n xs = (if xs = [] \<or> n = 0 then [] else take n xs # in_pieces n (drop n xs))"
  by pat_completeness auto
termination by (relation "measure (\<lambda>(n, xs). length xs)") auto

declare in_pieces.simps [simp del]

definition insert_rows :: "table \<Rightarrow> row list \<Rightarrow> statement list" where
  "insert_rows t rows = concat (map (\<lambda>(columns, alike).
     map (\<lambda>piece. Insert_Rows t columns (map (\<lambda>r. map (\<lambda>c. the (r c)) columns) piece)) (in_pieces (per_statement columns) alike))
     (shapes_of t rows))"

definition update_row :: "table \<Rightarrow> row \<Rightarrow> statement" where
  "update_row t r = Update_Row t (map (\<lambda>c. (c, r c)) (filter (\<lambda>c. c \<noteq> ''id'' \<and> c \<noteq> ''account_id'') (columns_of t)))
     (the (r ''account_id'')) (the (r ''id''))"

fun removed_id :: "removal \<Rightarrow> int" where
  "removed_id (By_Id i) = i"
| "removed_id (By_Sale i _) = i"

fun removed_at :: "removal \<Rightarrow> datum" where
  "removed_at (By_Id _) = Null"
| "removed_at (By_Sale _ at_time) = at_time"

definition delete_rows :: "table \<Rightarrow> datum \<Rightarrow> removal list \<Rightarrow> statement list" where
  "delete_rows t a removals =
     (if t \<noteq> Market_Sold_Listings then [Delete_Rows t a (map removed_id removals)]
      else map (\<lambda>x. Delete_Sale a (removed_id x) (removed_at x)) removals)"

definition upsert_account_row :: "row \<Rightarrow> statement" where
  "upsert_account_row r = Upsert_Account (map (\<lambda>c. (c, r c)) account_columns)"

definition advance_account_row :: "plan \<Rightarrow> statement" where
  "advance_account_row p = Advance_Account (map (\<lambda>c. (c, pl_row p c)) (pl_columns p)) (the (pl_id p)) (the (pl_version p))"

section \<open>Carrying a plan out\<close>

text \<open>What a query answers: the version it returns, if a row came back. \<open>None\<close> is a query that failed.\<close>

type_synonym 'db executor = "statement \<Rightarrow> 'db \<Rightarrow> (int option \<times> 'db) option"

fun run_statements :: "'db executor \<Rightarrow> statement list \<Rightarrow> 'db \<Rightarrow> 'db option" where
  "run_statements exec [] db = Some db"
| "run_statements exec (s # ss) db = (case exec s db of None \<Rightarrow> None | Some (_, db') \<Rightarrow> run_statements exec ss db')"

definition version_of :: "int option \<Rightarrow> int" where
  "version_of answer = (case answer of None \<Rightarrow> 0 | Some v \<Rightarrow> v)"

definition write_whole :: "'db executor \<Rightarrow> plan \<Rightarrow> 'db \<Rightarrow> (plan \<times> int \<times> 'db) option" where
  "write_whole exec p db =
     (case exec (upsert_account_row (pl_row p)) db of None \<Rightarrow> None | Some (answer, db') \<Rightarrow> Some (p, version_of answer, db'))"

definition write_account_row :: "'db executor \<Rightarrow> document \<Rightarrow> plan \<Rightarrow> 'db \<Rightarrow> (plan \<times> int \<times> 'db) option" where
  "write_account_row exec d p db =
     (if pl_full p then write_whole exec p db
      else case exec (advance_account_row p) db of
          None \<Rightarrow> None
        | Some (Some v, db') \<Rightarrow> Some (p, v, db')
        | Some (None, db') \<Rightarrow> write_whole exec (plan_write None d) db')"

fun write_account_rows :: "'db executor \<Rightarrow> (document \<times> plan) list \<Rightarrow> 'db \<Rightarrow> ((plan \<times> int) list \<times> 'db) option" where
  "write_account_rows exec [] db = Some ([], db)"
| "write_account_rows exec ((d, p) # rest) db =
     (case write_account_row exec d p db of
        None \<Rightarrow> None
      | Some (p', v, db') \<Rightarrow>
          (case write_account_rows exec rest db' of None \<Rightarrow> None | Some (ps, db'') \<Rightarrow> Some ((p', v) # ps, db'')))"

definition removing :: "plan \<Rightarrow> statement list" where
  "removing p =
     (if pl_full p then map (\<lambda>t. Delete_All t (the (pl_id p))) row_tables
      else concat (map (\<lambda>t. if pl_removes p t = [] then [] else delete_rows t (the (pl_id p)) (pl_removes p t)) row_tables))"

definition writing :: "table \<Rightarrow> plan \<Rightarrow> statement list" where
  "writing t p = insert_rows t (pl_inserts p t) @ map (update_row t) (pl_updates p t)"

definition run_plans :: "'db executor \<Rightarrow> (document \<times> plan) list \<Rightarrow> 'db \<Rightarrow> ((plan \<times> int) list \<times> 'db) option" where
  "run_plans exec work db =
     (case write_account_rows exec work db of
        None \<Rightarrow> None
      | Some (ps, db') \<Rightarrow>
          (case run_statements exec (concat (map (removing \<circ> fst) ps)
               @ concat (map (\<lambda>t. concat (map (writing t \<circ> fst) ps)) row_tables)) db' of
             None \<Rightarrow> None
           | Some db'' \<Rightarrow> Some (ps, db'')))"

section \<open>The pictures a thread keeps\<close>

definition snapshot_limit :: nat where
  "snapshot_limit = 2000"

type_synonym snapshots = "(int \<times> int \<times> picture) list"

definition remember :: "int \<Rightarrow> int \<times> picture \<Rightarrow> snapshots \<Rightarrow> snapshots" where
  "remember i snapshot xs =
     (let xs = filter (\<lambda>x. fst x \<noteq> i) xs @ [(i, snapshot)] in if snapshot_limit < length xs then tl xs else xs)"

definition forget :: "int list \<Rightarrow> snapshots \<Rightarrow> snapshots" where
  "forget ids xs = filter (\<lambda>x. fst x \<notin> set ids) xs"

definition doc_id :: "document \<Rightarrow> int" where
  "doc_id d = (case doc_fields d ''id'' of Some (Number i) \<Rightarrow> i | _ \<Rightarrow> 0)"

text \<open>Whether it was saved, the pictures kept afterwards, and storage.\<close>

definition save_accounts_as_rows :: "'db executor \<Rightarrow> document list \<Rightarrow> snapshots \<Rightarrow> 'db \<Rightarrow> bool \<times> snapshots \<times> 'db" where
  "save_accounts_as_rows exec ds xs db =
     (case run_plans exec (map (\<lambda>d. (d, plan_write (map_of xs (doc_id d)) d)) ds) db of
        None \<Rightarrow> (False, forget (map doc_id ds) xs, db)
      | Some (ps, db') \<Rightarrow>
          (True, fold (\<lambda>(d, p, v). remember (doc_id d) (v, pl_next p)) (zip ds ps) xs, db'))"

section \<open>What the database says it does\<close>

type_synonym stored_row = "string \<Rightarrow> datum"

record tables =
  tb_accounts :: "int \<Rightarrow> (int \<times> stored_row) option"
  tb_rows :: "table \<Rightarrow> stored_row set"

definition rows_of_account :: "table \<Rightarrow> datum \<Rightarrow> tables \<Rightarrow> stored_row set" where
  "rows_of_account t a db = {s \<in> tb_rows db t. s ''account_id'' = a}"

text \<open>The values a statement gives, the column's default where it gives none.\<close>

definition sql_filled :: "stored_row \<Rightarrow> (string \<Rightarrow> datum option option) \<Rightarrow> stored_row \<Rightarrow> stored_row" where
  "sql_filled dflt given old = (\<lambda>c. case given c of None \<Rightarrow> old c | Some None \<Rightarrow> dflt c | Some (Some v) \<Rightarrow> v)"

definition new_row :: "stored_row \<Rightarrow> string list \<Rightarrow> datum list \<Rightarrow> stored_row" where
  "new_row dflt columns tuple = sql_filled dflt (map_of (zip columns (map Some tuple))) dflt"

text \<open>A hero that goes takes the references to it along: \<open>ON DELETE SET NULL\<close>.\<close>

definition dropped :: "table \<Rightarrow> datum set \<Rightarrow> stored_row \<Rightarrow> stored_row" where
  "dropped t heroes s =
     (case hero_reference t of None \<Rightarrow> s
      | Some (hero, _) \<Rightarrow> if s hero \<in> heroes then s(hero := Null) else s)"

definition delete_where :: "table \<Rightarrow> (stored_row \<Rightarrow> bool) \<Rightarrow> tables \<Rightarrow> tables" where
  "delete_where t sql_gone db =
     (let rows = (tb_rows db)(t := {s \<in> tb_rows db t. \<not> sql_gone s});
          heroes = (if t = Account_Avatars then (\<lambda>s. s ''id'') ` {s \<in> tb_rows db t. sql_gone s} else {}) in
      db\<lparr>tb_rows := (\<lambda>u. dropped u heroes ` rows u)\<rparr>)"

definition given_id :: "(string \<times> datum option) list \<Rightarrow> int" where
  "given_id assigns = (case map_of assigns ''id'' of Some (Some (Number i)) \<Rightarrow> i | _ \<Rightarrow> 0)"

fun performed :: "(table option \<Rightarrow> stored_row) \<Rightarrow> statement \<Rightarrow> tables \<Rightarrow> tables" where
  "performed dflt (Insert_Rows t columns tuples) db =
     db\<lparr>tb_rows := (tb_rows db)(t := tb_rows db t \<union> new_row (dflt (Some t)) columns ` set tuples)\<rparr>"
| "performed dflt (Update_Row t assigns a i) db =
     db\<lparr>tb_rows := (tb_rows db)(t := (\<lambda>s. if s ''account_id'' = a \<and> s ''id'' = i then sql_filled (dflt (Some t)) (map_of assigns) s else s) ` tb_rows db t)\<rparr>"
| "performed dflt (Delete_Rows t a ids) db = delete_where t (\<lambda>s. s ''account_id'' = a \<and> s ''id'' \<in> Number ` set ids) db"
| "performed dflt (Delete_Sale a i at_time) db =
     delete_where Market_Sold_Listings (\<lambda>s. s ''account_id'' = a \<and> s ''id'' = Number i \<and> s ''sold_at'' = at_time) db"
| "performed dflt (Delete_All t a) db = delete_where t (\<lambda>s. s ''account_id'' = a) db"
| "performed dflt (Upsert_Account assigns) db =
     (let i = given_id assigns in
      db\<lparr>tb_accounts := (tb_accounts db)(i \<mapsto>
        (case tb_accounts db i of None \<Rightarrow> (1, sql_filled (dflt None) (map_of assigns) (dflt None))
         | Some (v, old) \<Rightarrow> (v + 1, sql_filled (dflt None) (map_of assigns) old)))\<rparr>)"
| "performed dflt (Advance_Account assigns a v) db =
     (case a of Number i \<Rightarrow>
        (case tb_accounts db i of
           Some (w, old) \<Rightarrow> if w = v then db\<lparr>tb_accounts := (tb_accounts db)(i \<mapsto> (w + 1, sql_filled (dflt None) (map_of assigns) old))\<rparr> else db
         | None \<Rightarrow> db)
      | _ \<Rightarrow> db)"

fun sql_answered :: "statement \<Rightarrow> tables \<Rightarrow> int option" where
  "sql_answered (Upsert_Account assigns) db = Some (case tb_accounts db (given_id assigns) of None \<Rightarrow> 1 | Some (v, _) \<Rightarrow> v + 1)"
| "sql_answered (Advance_Account assigns a v) db =
     (case a of Number i \<Rightarrow>
        (case tb_accounts db i of Some (w, _) \<Rightarrow> if w = v then Some (w + 1) else None | None \<Rightarrow> None) | _ \<Rightarrow> None)"
| "sql_answered _ db = None"

text \<open>
  What a statement has to keep for the database to be sure to take it: the types and the \<open>NOT NULL\<close> of its columns, the keys, the
  references to an account and to a hero, and that no two accounts have names the index takes for one.
\<close>

definition refers_ok :: "table \<Rightarrow> tables \<Rightarrow> datum \<Rightarrow> bool" where
  "refers_ok t db hero \<longleftrightarrow> hero = Null \<or> hero \<in> (\<lambda>s. s ''id'') ` tb_rows db Account_Avatars"

definition key_columns :: "table \<Rightarrow> string list list" where
  "key_columns t = (if t = Market_Sold_Listings then [[''account_id'', ''id'', ''sold_at'']]
     else if t = Account_Attributes then [[''id''], [''account_id'', ''name'']] else [[''id'']])"

definition key_free :: "table \<Rightarrow> (string \<Rightarrow> datum option) list \<Rightarrow> stored_row set \<Rightarrow> bool" where
  "key_free t given rows \<longleftrightarrow> (\<forall>key \<in> set (key_columns t).
     distinct (map (\<lambda>r. map r key) given) \<and> (\<forall>r \<in> set given. \<forall>s \<in> rows. \<exists>c \<in> set key. r c \<noteq> Some (s c)))"

definition fitting :: "(table option \<Rightarrow> string \<Rightarrow> datum option \<Rightarrow> bool) \<Rightarrow> table \<Rightarrow> tables \<Rightarrow> (string \<Rightarrow> datum option) \<Rightarrow> bool" where
  "fitting fits t db r \<longleftrightarrow> (\<forall>c \<in> set (columns_of t). fits (Some t) c (r c))
     \<and> (\<exists>i. r ''account_id'' = Some (Number i) \<and> tb_accounts db i \<noteq> None)
     \<and> (case hero_reference t of None \<Rightarrow> True | Some (hero, _) \<Rightarrow> (case r hero of None \<Rightarrow> True | Some h \<Rightarrow> refers_ok t db h))"

definition name_free :: "(datum \<Rightarrow> datum \<Rightarrow> bool) \<Rightarrow> (string \<times> datum option) list \<Rightarrow> int \<Rightarrow> tables \<Rightarrow> bool" where
  "name_free same assigns i db \<longleftrightarrow> (case map_of assigns ''name'' of Some (Some name) \<Rightarrow>
     (\<forall>j v s. j \<noteq> i \<longrightarrow> tb_accounts db j = Some (v, s) \<longrightarrow> \<not> same name (s ''name'')) | _ \<Rightarrow> True)"

fun taken :: "(table option \<Rightarrow> string \<Rightarrow> datum option \<Rightarrow> bool) \<Rightarrow> (datum \<Rightarrow> datum \<Rightarrow> bool) \<Rightarrow> statement \<Rightarrow> tables \<Rightarrow> bool" where
  "taken fits same (Insert_Rows t columns tuples) db \<longleftrightarrow>
     (let given = map (\<lambda>tuple. map_of (zip columns tuple)) tuples in
      tuples \<noteq> [] \<and> (\<forall>tuple \<in> set tuples. length tuple = length columns)
      \<and> (\<forall>r \<in> set given. fitting fits t db r) \<and> key_free t given (tb_rows db t))"
| "taken fits same (Update_Row t assigns a i) db \<longleftrightarrow>
     key_columns t = [[''id'']] \<and> (\<forall>(c, v) \<in> set assigns. c \<noteq> ''id'' \<and> c \<noteq> ''account_id'' \<and> fits (Some t) c v)
     \<and> (case hero_reference t of None \<Rightarrow> True
        | Some (hero, _) \<Rightarrow> (case map_of assigns hero of Some (Some h) \<Rightarrow> refers_ok t db h | _ \<Rightarrow> True))"
| "taken fits same (Upsert_Account assigns) db \<longleftrightarrow>
     (\<forall>(c, v) \<in> set assigns. fits None c v) \<and> (\<exists>i. map_of assigns ''id'' = Some (Some (Number i)))
     \<and> name_free same assigns (given_id assigns) db"
| "taken fits same (Advance_Account assigns a v) db \<longleftrightarrow>
     (\<forall>(c, v) \<in> set assigns. fits None c v \<and> c \<noteq> ''id'') \<and> (\<exists>i. a = Number i \<and> name_free same assigns i db)"
| "taken fits same s db \<longleftrightarrow> True"

text \<open>The defaults of a reference is none; of the others it is whatever it is when the statement runs.\<close>

definition defaults_ok :: "(table option \<Rightarrow> stored_row) \<Rightarrow> bool" where
  "defaults_ok dflt \<longleftrightarrow> (\<forall>t hero with_it. hero_reference t = Some (hero, with_it) \<longrightarrow> dflt (Some t) hero = Null)"

definition sql_database ::
    "(table option \<Rightarrow> string \<Rightarrow> datum option \<Rightarrow> bool) \<Rightarrow> (datum \<Rightarrow> datum \<Rightarrow> bool) \<Rightarrow> ('db \<Rightarrow> tables) \<Rightarrow> 'db executor \<Rightarrow> bool" where
  "sql_database fits same content exec \<longleftrightarrow> (\<forall>s db. taken fits same s (content db) \<longrightarrow>
     (\<exists>dflt db'. defaults_ok dflt \<and> exec s db = Some (sql_answered s (content db), db') \<and> content db' = performed dflt s (content db)))"


section \<open>A stored row and a row of an account\<close>

definition agrees :: "table \<Rightarrow> row \<Rightarrow> stored_row \<Rightarrow> bool" where
  "agrees t r s \<longleftrightarrow> (\<forall>c \<in> set (columns_of t). case r c of
     Some v \<Rightarrow> s c = v | None \<Rightarrow> (case hero_reference t of Some (hero, _) \<Rightarrow> c = hero \<longrightarrow> s c = Null | None \<Rightarrow> True))"

definition stored_key :: "table \<Rightarrow> stored_row \<Rightarrow> text_units" where
  "stored_key t s = key_in t (\<lambda>c. Some (s c))"

text \<open>The stored rows are the account's: each under a key of its own, and no other.\<close>

definition stored_as :: "table \<Rightarrow> (text_units \<times> row) list \<Rightarrow> stored_row set \<Rightarrow> bool" where
  "stored_as t rows S \<longleftrightarrow> inj_on (stored_key t) S \<and> stored_key t ` S = fst ` set rows
     \<and> (\<forall>s \<in> S. \<forall>r. (stored_key t s, r) \<in> set rows \<longrightarrow> agrees t r s)"

lemma agreesD: "agrees t r s \<Longrightarrow> c \<in> set (columns_of t) \<Longrightarrow> r c = Some v \<Longrightarrow> s c = v"
  by (auto simp: agrees_def)

lemma agrees_cong: "\<forall>c \<in> set (columns_of t). r c = r' c \<Longrightarrow> agrees t r s = agrees t r' s"
  by (simp add: agrees_def)

lemma stored_key_cong: "s ''id'' = s' ''id'' \<Longrightarrow> s ''sold_at'' = s' ''sold_at'' \<Longrightarrow> stored_key t s = stored_key t s'"
  by (simp add: stored_key_def key_in_def sale_key_def)

text \<open>What a row of an account has to be for storage to keep it.\<close>

definition row_ok :: "(table option \<Rightarrow> string \<Rightarrow> datum option \<Rightarrow> bool) \<Rightarrow> table \<Rightarrow> row \<Rightarrow> bool" where
  "row_ok fits t r \<longleftrightarrow> (\<forall>c \<in> set (columns_of t). plain_field (r c) \<and> fits (Some t) c (r c))
     \<and> (\<exists>i. r ''id'' = Some (Number i))
     \<and> (t = Market_Sold_Listings \<longrightarrow> (\<exists>us. r ''sold_at'' = Some (Words us) \<and> us \<noteq> units ''undefined'' \<and> us \<noteq> units ''null''))
     \<and> (t = Account_Attributes \<longrightarrow> r ''name'' \<noteq> None)
     \<and> (\<forall>hero with_it v. hero_reference t = Some (hero, with_it) \<longrightarrow> r hero = Some v \<longrightarrow> v = Null \<or> (\<exists>h. v = Number h))"

definition doc_ok :: "(table option \<Rightarrow> string \<Rightarrow> datum option \<Rightarrow> bool) \<Rightarrow> document \<Rightarrow> bool" where
  "doc_ok fits d \<longleftrightarrow> (\<exists>i. doc_fields d ''id'' = Some (Number i))
     \<and> (\<forall>c \<in> set account_columns. plain_field (account_row_of d c) \<and> fits None c (account_row_of d c))
     \<and> (\<forall>t. (\<forall>(k, r) \<in> set (child_rows_of d t). row_ok fits t r)
          \<and> (\<forall>key \<in> set (key_columns t). distinct (map (\<lambda>(k, r). map r key) (child_rows_of d t))))"

lemma doc_ok_id: "doc_ok fits d \<Longrightarrow> doc_fields d ''id'' = Some (Number (doc_id d))"
  by (auto simp: doc_ok_def doc_id_def)

lemma doc_ok_row:
  assumes "doc_ok fits d" and "(k, r) \<in> set (child_rows_of d t)"
  shows "row_ok fits t r" and "k = key_in t r" and "r ''account_id'' = Some (Number (doc_id d))"
  using assms child_rows_facts(1,2) [OF assms(2)] doc_ok_id [OF assms(1)] by (auto simp: doc_ok_def)

lemma doc_ok_keys: "doc_ok fits d \<Longrightarrow> key \<in> set (key_columns t) \<Longrightarrow> distinct (map (\<lambda>(k, r). map r key) (child_rows_of d t))"
  by (simp add: doc_ok_def)

lemma key_columns_given:
  assumes "row_ok fits t r" "r ''account_id'' \<noteq> None" "key \<in> set (key_columns t)" "c \<in> set key"
  shows "c \<in> set (columns_of t)" and "r c \<noteq> None"
  using assms columns_with_key [of t] columns_with_key_too by (auto simp: key_columns_def row_ok_def split: if_splits)

lemma agrees_key:
  assumes "row_ok fits t r" and "agrees t r s"
  shows "stored_key t s = key_in t r"
proof -
  obtain i where i: "r ''id'' = Some (Number i)" using assms(1) by (auto simp: row_ok_def)
  then have "s ''id'' = Number i" using agreesD [OF assms(2)] columns_with_key by blast
  moreover have "t = Market_Sold_Listings \<Longrightarrow> r ''sold_at'' = Some (s ''sold_at'')"
    using assms agreesD [OF assms(2)] columns_with_key_too by (fastforce simp: row_ok_def)
  ultimately show ?thesis using i by (simp add: stored_key_def key_in_def sale_key_def)
qed

section \<open>Rows that are inserted\<close>

lemma run_statements_append:
  "run_statements exec (xs @ ys) db = (case run_statements exec xs db of None \<Rightarrow> None | Some db' \<Rightarrow> run_statements exec ys db')"
  by (induction xs arbitrary: db) (auto split: option.split)

text \<open>The rows in groups, each as it was.\<close>

lemma concat_in_pieces: "0 < n \<Longrightarrow> concat (in_pieces n xs) = xs"
  by (induction n xs rule: in_pieces.induct) (subst in_pieces.simps, simp)

lemma in_pieces_parts: "piece \<in> set (in_pieces n xs) \<Longrightarrow> piece \<noteq> [] \<and> length piece \<le> n \<and> set piece \<subseteq> set xs"
proof (induction n xs rule: in_pieces.induct)
  case (1 n xs)
  then show ?case by (subst (asm) (2) in_pieces.simps) (auto split: if_splits dest: in_set_takeD in_set_dropD)
qed

definition grouped :: "table \<Rightarrow> (string list \<times> row list) list \<Rightarrow> bool" where
  "grouped t shapes \<longleftrightarrow> (\<forall>columns alike r. (columns, alike) \<in> set shapes \<longrightarrow> r \<in> set alike \<longrightarrow> present t r = columns \<and> columns \<noteq> [])"

lemma add_alike_grouped:
  assumes "grouped t shapes"
  shows "grouped t (add_alike t r shapes)"
  unfolding grouped_def
proof (intro allI impI)
  fix columns alike x assume x: "(columns, alike) \<in> set (add_alike t r shapes)" "x \<in> set alike"
  let ?old = "case map_of shapes (present t r) of None \<Rightarrow> [] | Some rows \<Rightarrow> rows"
  have "set (AList.update k v xs) \<subseteq> insert (k, v) (set xs)" for k v and xs :: "(string list \<times> row list) list"
    by (induction xs) auto
  then have cases: "(columns, alike) \<in> set shapes \<or> present t r \<noteq> [] \<and> (columns, alike) = (present t r, ?old @ [r])"
    using x(1) by (auto simp: add_alike_def split: if_splits)
  have old: "present t x = present t r" if "x \<in> set ?old"
    using assms that unfolding grouped_def by (cases "map_of shapes (present t r)") (auto dest!: map_of_SomeD)
  from cases show "present t x = columns \<and> columns \<noteq> []"
  proof
    assume "(columns, alike) \<in> set shapes"
    then show ?thesis using assms x(2) by (simp add: grouped_def)
  next
    assume new: "present t r \<noteq> [] \<and> (columns, alike) = (present t r, ?old @ [r])"
    then have "x \<in> set ?old \<or> x = r" using x(2) by auto
    then have "present t x = present t r" using old by (elim disjE) simp_all
    then show ?thesis using new by simp
  qed
qed

lemma shapes_grouped: "grouped t (shapes_of t rows)"
proof -
  have "grouped t shapes \<Longrightarrow> grouped t (fold (add_alike t) rows shapes)" for shapes
  proof (induction rows arbitrary: shapes)
    case (Cons r rows)
    show ?case using Cons.IH [OF add_alike_grouped [OF Cons.prems]] by simp
  qed simp
  moreover have "grouped t []" by (simp add: grouped_def)
  ultimately show ?thesis by (simp only: shapes_of_def)
qed

lemma mset_add_alike:
  "mset (concat (map snd (add_alike t r shapes))) = mset (concat (map snd shapes)) + (if present t r = [] then {#} else {#r#})"
proof -
  have "mset (concat (map snd (AList.update k ((case map_of xs k of None \<Rightarrow> [] | Some rows \<Rightarrow> rows) @ [r]) xs)))
      = mset (concat (map snd xs)) + {#r#}" for k and xs :: "(string list \<times> row list) list"
    by (induction xs) auto
  then show ?thesis by (simp add: add_alike_def)
qed

lemma mset_shapes: "mset (concat (map snd (shapes_of t rows))) = mset (filter (\<lambda>r. present t r \<noteq> []) rows)"
proof -
  have "mset (concat (map snd (fold (add_alike t) rows shapes)))
      = mset (concat (map snd shapes)) + mset (filter (\<lambda>r. present t r \<noteq> []) rows)" for shapes
    by (induction rows arbitrary: shapes) (simp_all add: mset_add_alike)
  then show ?thesis by (simp add: shapes_of_def)
qed

text \<open>The statements of an insertion, as pieces of the rows, each with the columns its rows carry.\<close>

definition insert_piece :: "table \<Rightarrow> string list \<times> row list \<Rightarrow> statement" where
  "insert_piece t = (\<lambda>(columns, piece). Insert_Rows t columns (map (\<lambda>r. map (\<lambda>c. the (r c)) columns) piece))"

lemma insert_rows_shapes:
  obtains pieces where "insert_rows t rows = map (insert_piece t) pieces"
    and "\<forall>(columns, piece) \<in> set pieces. piece \<noteq> [] \<and> (\<forall>r \<in> set piece. present t r = columns)
      \<and> length piece * length columns \<le> max max_parameters (length columns)"
    and "mset (concat (map snd pieces)) = mset (filter (\<lambda>r. present t r \<noteq> []) rows)"
proof -
  define pieces where "pieces = concat (map (\<lambda>(columns, alike). map (Pair columns) (in_pieces (per_statement columns) alike)) (shapes_of t rows))"
  have n: "0 < per_statement columns" "per_statement columns * length columns \<le> max max_parameters (length columns)" for columns
  proof -
    show "0 < per_statement columns" by (simp add: per_statement_def)
    have "max_parameters div length columns * length columns \<le> max_parameters" by simp
    then show "per_statement columns * length columns \<le> max max_parameters (length columns)"
      by (cases "max_parameters div length columns = 0") (auto simp: per_statement_def le_max_iff_disj simp del: div_eq_0_iff)
  qed
  show thesis
  proof (rule that)
    show "insert_rows t rows = map (insert_piece t) pieces"
      by (simp add: insert_rows_def pieces_def insert_piece_def map_concat comp_def case_prod_unfold)
    show "\<forall>(columns, piece) \<in> set pieces. piece \<noteq> [] \<and> (\<forall>r \<in> set piece. present t r = columns)
      \<and> length piece * length columns \<le> max max_parameters (length columns)"
    proof (clarify)
      fix columns piece assume "(columns, piece) \<in> set pieces"
      then obtain alike where "(columns, alike) \<in> set (shapes_of t rows)" "piece \<in> set (in_pieces (per_statement columns) alike)"
        by (auto simp: pieces_def)
      moreover from this(2) have "piece \<noteq> []" "set piece \<subseteq> set alike" "length piece \<le> per_statement columns"
        using in_pieces_parts by blast+
      moreover from this(3) have "length piece * length columns \<le> per_statement columns * length columns" by simp
      ultimately show "piece \<noteq> [] \<and> (\<forall>r \<in> set piece. present t r = columns)
          \<and> length piece * length columns \<le> max max_parameters (length columns)"
        using shapes_grouped [of t rows] n(2) [of columns] unfolding grouped_def by (meson le_trans subsetD)
    qed
    have "concat (map snd (concat (map (\<lambda>(columns, alike). map (Pair columns) (in_pieces (per_statement columns) alike)) shapes)))
        = concat (map snd shapes)" for shapes :: "(string list \<times> row list) list"
      by (induction shapes) (auto simp: comp_def concat_in_pieces n(1))
    then have "concat (map snd pieces) = concat (map snd (shapes_of t rows))" by (simp add: pieces_def)
    then show "mset (concat (map snd pieces)) = mset (filter (\<lambda>r. present t r \<noteq> []) rows)"
      using mset_shapes [of t rows] by simp
  qed
qed

lemma insert_rows_pieces:
  assumes "\<forall>r \<in> set rows. present t r \<noteq> []"
  obtains pieces where "insert_rows t rows = map (insert_piece t) pieces"
    and "\<forall>(columns, piece) \<in> set pieces. piece \<noteq> [] \<and> (\<forall>r \<in> set piece. present t r = columns)
      \<and> length piece * length columns \<le> max max_parameters (length columns)"
    and "mset (concat (map snd pieces)) = mset rows"
proof -
  have "filter (\<lambda>r. present t r \<noteq> []) rows = rows" using assms by (simp add: filter_id_conv)
  then show thesis using insert_rows_shapes [of t rows thesis] by (simp only: that)
qed




text \<open>What a piece gives is its rows, column by column.\<close>

lemma piece_given:
  assumes "present t r = columns" and "c \<in> set (columns_of t)"
  shows "map_of (zip columns (map (\<lambda>c. the (r c)) columns)) c = r c"
proof (cases "r c")
  case None
  then have "c \<notin> set columns" using assms(1) by (auto simp: present_def)
  then show ?thesis using None by (simp add: map_of_zip_map)
next
  case (Some v)
  then have "c \<in> set columns" using assms by (auto simp: present_def)
  then show ?thesis using Some by (simp add: map_of_zip_map)
qed

lemma key_in_columns: "key \<in> set (key_columns t) \<Longrightarrow> set key \<subseteq> set (columns_of t)"
  using columns_with_key [of t] columns_with_key_too by (auto simp: key_columns_def split: if_splits)

lemma key_free_cong:
  assumes "\<forall>r \<in> set rows. \<forall>c \<in> set (columns_of t). f r c = r c"
  shows "key_free t (map f rows) R = key_free t rows R"
proof -
  have same: "map (\<lambda>r. map (f r) key) rows = map (\<lambda>r. map r key) rows" if "key \<in> set (key_columns t)" for key
    using assms key_in_columns [OF that] by auto
  have other: "(\<exists>c \<in> set key. f r c \<noteq> Some (s c)) = (\<exists>c \<in> set key. r c \<noteq> Some (s c))"
    if "key \<in> set (key_columns t)" "r \<in> set rows" for key r s
    using assms key_in_columns [OF that(1)] that(2) by (metis subsetD)
  show ?thesis
    unfolding key_free_def
  proof (rule ball_cong [OF refl])
    fix key assume key: "key \<in> set (key_columns t)"
    have a: "map (\<lambda>r. map r key) (map f rows) = map (\<lambda>r. map r key) rows" using same [OF key] by (simp add: comp_def)
    have b: "(\<forall>r \<in> set (map f rows). \<forall>s \<in> R. \<exists>c \<in> set key. r c \<noteq> Some (s c)) = (\<forall>r \<in> set rows. \<forall>s \<in> R. \<exists>c \<in> set key. r c \<noteq> Some (s c))"
      using other [OF key] by simp
    show "(distinct (map (\<lambda>r. map r key) (map f rows)) \<and> (\<forall>r \<in> set (map f rows). \<forall>s \<in> R. \<exists>c \<in> set key. r c \<noteq> Some (s c)))
        = (distinct (map (\<lambda>r. map r key) rows) \<and> (\<forall>r \<in> set rows. \<forall>s \<in> R. \<exists>c \<in> set key. r c \<noteq> Some (s c)))"
      unfolding a b by (rule refl)
  qed
qed

definition fitting_row :: "(table option \<Rightarrow> string \<Rightarrow> datum option \<Rightarrow> bool) \<Rightarrow> table \<Rightarrow> tables \<Rightarrow> row \<Rightarrow> bool" where
  "fitting_row fits t db r \<longleftrightarrow> fitting fits t db r \<and> present t r \<noteq> [] \<and> (\<forall>key \<in> set (key_columns t). \<forall>c \<in> set key. r c \<noteq> None)"

lemma fitting_cong: "\<forall>c \<in> set (columns_of t). f c = r c \<Longrightarrow> fitting fits t db f = fitting fits t db r"
  using columns_with_key [of t] hero_column [of t]
  by (cases "hero_reference t") (auto simp: fitting_def)

lemma new_row_agrees:
  assumes "present t r = columns" and "defaults_ok dflt"
  shows "agrees t r (new_row (dflt (Some t)) columns (map (\<lambda>c. the (r c)) columns))"
proof -
  have zip: "map_of (zip columns (map (\<lambda>c. Some (the (r c))) columns)) c = (if c \<in> set columns then Some (Some (the (r c))) else None)" for c
    by (simp add: map_of_zip_map)
  have "agrees t r (\<lambda>c. if c \<in> set columns then the (r c) else dflt (Some t) c)"
    using assms by (auto simp: agrees_def present_def defaults_ok_def split: option.split)
  moreover have "new_row (dflt (Some t)) columns (map (\<lambda>c. the (r c)) columns) = (\<lambda>c. if c \<in> set columns then the (r c) else dflt (Some t) c)"
    by (simp add: new_row_def sql_filled_def comp_def zip fun_eq_iff)
  ultimately show ?thesis by simp
qed

text \<open>One statement puts in a row for each of its rows.\<close>

lemma insert_one:
  assumes sql: "sql_database fits same content exec" and piece: "piece \<noteq> []" "\<forall>r \<in> set piece. present t r = columns"
    and fit: "\<forall>r \<in> set piece. fitting_row fits t (content db) r" and free: "key_free t piece (tb_rows (content db) t)"
  shows "\<exists>db' f answer. exec (insert_piece t (columns, piece)) db = Some (answer, db')
    \<and> content db' = (content db)\<lparr>tb_rows := (tb_rows (content db))(t := tb_rows (content db) t \<union> f ` set piece)\<rparr>
    \<and> (\<forall>r \<in> set piece. agrees t r (f r))"
proof -
  let ?tuple = "\<lambda>r. map (\<lambda>c. the (r c)) columns"
  let ?given = "\<lambda>r. map_of (zip columns (?tuple r))"
  have given: "\<forall>r \<in> set piece. \<forall>c \<in> set (columns_of t). ?given r c = r c" using piece(2) piece_given by blast
  have "key_free t (map ?given piece) (tb_rows (content db) t)" using free key_free_cong [OF given] by blast
  moreover have "\<forall>r \<in> set (map ?given piece). fitting fits t (content db) r"
    using fit given fitting_cong by (fastforce simp: fitting_row_def)
  ultimately have "taken fits same (insert_piece t (columns, piece)) (content db)"
    using piece(1) by (simp add: insert_piece_def comp_def)
  then obtain dflt db' where db': "defaults_ok dflt"
    "exec (insert_piece t (columns, piece)) db = Some (sql_answered (insert_piece t (columns, piece)) (content db), db')"
    "content db' = performed dflt (insert_piece t (columns, piece)) (content db)"
    using sql unfolding sql_database_def by blast
  then have "content db' = (content db)\<lparr>tb_rows := (tb_rows (content db))(t := tb_rows (content db) t
      \<union> (\<lambda>r. new_row (dflt (Some t)) columns (?tuple r)) ` set piece)\<rparr>"
    by (simp add: insert_piece_def image_image)
  then show ?thesis using db'(2) piece(2) new_row_agrees [OF _ db'(1)] by blast
qed


lemma key_columns_some: "\<exists>key. key \<in> set (key_columns t)"
  by (auto simp: key_columns_def)

lemma key_free_distinct: "key_free t rows R \<Longrightarrow> distinct rows"
  using key_columns_some [of t] by (auto simp: key_free_def distinct_map)

lemma key_free_append:
  "key_free t (xs @ ys) R \<longleftrightarrow> key_free t xs R \<and> key_free t ys R
     \<and> (\<forall>key \<in> set (key_columns t). \<forall>x \<in> set xs. \<forall>y \<in> set ys. map x key \<noteq> map y key)"
proof -
  have "distinct (map (\<lambda>r. map r key) (xs @ ys)) \<longleftrightarrow> distinct (map (\<lambda>r. map r key) xs) \<and> distinct (map (\<lambda>r. map r key) ys)
      \<and> (\<forall>x \<in> set xs. \<forall>y \<in> set ys. map x key \<noteq> map y key)" for key
    by (simp only: map_append distinct_append set_map) blast
  then show ?thesis
    unfolding key_free_def ball_conj_distrib [symmetric] by (intro ball_cong refl) (simp only: set_append ball_Un, argo)
qed

lemma key_free_added:
  assumes free: "key_free t (xs @ ys) R" and f: "\<forall>x \<in> set xs. agrees t x (f x)"
    and given: "\<forall>x \<in> set xs. \<forall>key \<in> set (key_columns t). \<forall>c \<in> set key. x c \<noteq> None"
  shows "key_free t ys (R \<union> f ` set xs)"
  unfolding key_free_def
proof (intro ballI conjI)
  fix key assume key: "key \<in> set (key_columns t)"
  show "distinct (map (\<lambda>r. map r key) ys)" using free key by (auto simp: key_free_def)
  fix r s assume r: "r \<in> set ys" and s: "s \<in> R \<union> f ` set xs"
  show "\<exists>c \<in> set key. r c \<noteq> Some (s c)"
  proof (cases "s \<in> R")
    case True
    then show ?thesis using free key r by (auto simp: key_free_def)
  next
    case False
    then obtain x where x: "x \<in> set xs" "s = f x" using s by blast
    then have "map x key \<noteq> map r key" using free key r by (auto simp: key_free_append)
    then obtain c where c: "c \<in> set key" "x c \<noteq> r c" by auto
    have "x c = Some (s c)" using f given x key c(1) key_in_columns [OF key] agreesD by (metis not_None_eq subsetD)
    then show ?thesis using c by metis
  qed
qed

lemma fitting_row_grows:
  assumes "fitting_row fits t db r" and "tb_accounts db' = tb_accounts db"
    and "(\<lambda>s. s ''id'') ` tb_rows db Account_Avatars \<subseteq> (\<lambda>s. s ''id'') ` tb_rows db' Account_Avatars"
  shows "fitting_row fits t db' r"
proof -
  have "refers_ok t db h \<Longrightarrow> refers_ok t db' h" for h using assms(3) unfolding refers_ok_def by blast
  then show ?thesis using assms by (auto simp: fitting_row_def fitting_def split: option.splits)
qed

lemma insert_pieces:
  assumes sql: "sql_database fits same content exec"
    and pieces: "\<forall>(columns, piece) \<in> set pieces. piece \<noteq> [] \<and> (\<forall>r \<in> set piece. present t r = columns)"
    and fit: "\<forall>r \<in> set (concat (map snd pieces)). fitting_row fits t (content db) r"
    and free: "key_free t (concat (map snd pieces)) (tb_rows (content db) t)"
  shows "\<exists>db' f. run_statements exec (map (insert_piece t) pieces) db = Some db'
    \<and> content db' = (content db)\<lparr>tb_rows := (tb_rows (content db))(t := tb_rows (content db) t \<union> f ` set (concat (map snd pieces)))\<rparr>
    \<and> (\<forall>r \<in> set (concat (map snd pieces)). agrees t r (f r))"
  using pieces fit free
proof (induction pieces arbitrary: db)
  case Nil
  then show ?case by simp
next
  case (Cons p pieces)
  obtain columns piece where p: "p = (columns, piece)" by force
  let ?rest = "concat (map snd pieces)" and ?R = "tb_rows (content db) t"
  have free: "key_free t (piece @ ?rest) ?R" using Cons.prems(3) by (simp add: p)
  then have frees: "key_free t piece ?R" by (simp add: key_free_append)
  obtain db1 f1 answer where one: "exec (insert_piece t p) db = Some (answer, db1)"
    "content db1 = (content db)\<lparr>tb_rows := (tb_rows (content db))(t := ?R \<union> f1 ` set piece)\<rparr>" "\<forall>r \<in> set piece. agrees t r (f1 r)"
    using insert_one [OF sql, of piece t columns db] Cons.prems frees by (auto simp: p)
  have given: "\<forall>r \<in> set piece. \<forall>key \<in> set (key_columns t). \<forall>c \<in> set key. r c \<noteq> None"
    using Cons.prems(2) by (auto simp: p fitting_row_def)
  have "\<forall>(columns, piece) \<in> set pieces. piece \<noteq> [] \<and> (\<forall>r \<in> set piece. present t r = columns)" using Cons.prems(1) by simp
  moreover have "\<forall>r \<in> set ?rest. fitting_row fits t (content db1) r"
    using Cons.prems(2) one(2) fitting_row_grows [of fits t "content db" _ "content db1"] by (simp add: p image_mono)
  moreover have "key_free t ?rest (tb_rows (content db1) t)"
    using key_free_added [OF free one(3) given] by (simp add: one(2))
  ultimately obtain db' f2 where two: "run_statements exec (map (insert_piece t) pieces) db1 = Some db'"
    "content db' = (content db1)\<lparr>tb_rows := (tb_rows (content db1))(t := tb_rows (content db1) t \<union> f2 ` set ?rest)\<rparr>"
    "\<forall>r \<in> set ?rest. agrees t r (f2 r)"
    using Cons.IH [of db1] by blast
  define f where "f = (\<lambda>r. if r \<in> set piece then f1 r else f2 r)"
  have "set piece \<inter> set ?rest = {}" using key_free_distinct [OF free] by simp
  then have "f ` set (piece @ ?rest) = f1 ` set piece \<union> f2 ` set ?rest" by (auto simp: f_def image_iff)
  then have "run_statements exec (map (insert_piece t) (p # pieces)) db = Some db'
    \<and> content db' = (content db)\<lparr>tb_rows := (tb_rows (content db))(t := ?R \<union> f ` set (concat (map snd (p # pieces))))\<rparr>
    \<and> (\<forall>r \<in> set (concat (map snd (p # pieces))). agrees t r (f r))"
    using one two by (auto simp: p f_def Un_assoc)
  then show ?case by blast
qed

lemma key_free_mset:
  assumes "mset xs = mset ys"
  shows "key_free t xs R = key_free t ys R"
proof -
  have "distinct (map g xs) = distinct (map g ys)" for g :: "row \<Rightarrow> datum option list"
    using assms by (metis mset_eq_imp_distinct_iff mset_map)
  moreover have "set xs = set ys" using assms by (rule mset_eq_setD)
  ultimately show ?thesis by (simp add: key_free_def)
qed

text \<open>And so does the whole insertion.\<close>

lemma insert_all:
  assumes sql: "sql_database fits same content exec"
    and fit: "\<forall>r \<in> set rows. fitting_row fits t (content db) r" and free: "key_free t rows (tb_rows (content db) t)"
  shows "\<exists>db' f. run_statements exec (insert_rows t rows) db = Some db'
    \<and> content db' = (content db)\<lparr>tb_rows := (tb_rows (content db))(t := tb_rows (content db) t \<union> f ` set rows)\<rparr>
    \<and> (\<forall>r \<in> set rows. agrees t r (f r))"
proof -
  have "\<forall>r \<in> set rows. present t r \<noteq> []" using fit by (simp add: fitting_row_def)
  then obtain pieces where pieces: "insert_rows t rows = map (insert_piece t) pieces"
    "\<forall>(columns, piece) \<in> set pieces. piece \<noteq> [] \<and> (\<forall>r \<in> set piece. present t r = columns)
      \<and> length piece * length columns \<le> max max_parameters (length columns)"
    "mset (concat (map snd pieces)) = mset rows"
    by (rule insert_rows_pieces)
  have set: "set (concat (map snd pieces)) = set rows" using pieces(3) by (rule mset_eq_setD)
  show ?thesis
    using insert_pieces [OF sql, of pieces t db] pieces(2) fit free key_free_mset [OF pieces(3)] unfolding set pieces(1) by fastforce
qed


section \<open>Rows that are updated\<close>

definition matches :: "row \<Rightarrow> stored_row \<Rightarrow> bool" where
  "matches r s \<longleftrightarrow> r ''account_id'' = Some (s ''account_id'') \<and> r ''id'' = Some (s ''id'')"

lemma update_one_row:
  assumes sql: "sql_database fits same content exec" and t: "key_columns t = [[''id'']]"
    and r: "fitting_row fits t (content db) r"
  shows "\<exists>db' h answer. exec (update_row t r) db = Some (answer, db')
    \<and> content db' = (content db)\<lparr>tb_rows := (tb_rows (content db))(t := h ` tb_rows (content db) t)\<rparr>
    \<and> (\<forall>s. h s ''id'' = s ''id'' \<and> h s ''account_id'' = s ''account_id'' \<and> (if matches r s then agrees t r (h s) else h s = s))"
proof -
  define columns where "columns = filter (\<lambda>c. c \<noteq> ''id'' \<and> c \<noteq> ''account_id'') (columns_of t)"
  have in_columns: "c \<in> set columns \<longleftrightarrow> c \<in> set (columns_of t) \<and> c \<noteq> ''id'' \<and> c \<noteq> ''account_id''" for c
    by (auto simp: columns_def)
  have assigned: "map_of (map (\<lambda>c. (c, r c)) columns) c = (if c \<in> set columns then Some (r c) else None)" for c
    by (simp add: map_of_map_restrict)
  have given: "r ''account_id'' = Some (the (r ''account_id''))" "r ''id'' = Some (the (r ''id''))"
    using r t by (auto simp: fitting_row_def fitting_def)
  have fit: "fits (Some t) c (r c)" if "c \<in> set (columns_of t)" for c using r that by (simp add: fitting_row_def fitting_def)
  have "taken fits same (update_row t r) (content db)"
    using r t fit by (auto simp: update_row_def columns_def [symmetric] assigned fitting_row_def fitting_def split: option.split)
      (auto simp: columns_def)
  then obtain dflt db' where db': "defaults_ok dflt" "exec (update_row t r) db = Some (sql_answered (update_row t r) (content db), db')"
    "content db' = performed dflt (update_row t r) (content db)"
    using sql unfolding sql_database_def by blast
  define h where "h = (\<lambda>s. if s ''account_id'' = the (r ''account_id'') \<and> s ''id'' = the (r ''id'')
    then sql_filled (dflt (Some t)) (map_of (map (\<lambda>c. (c, r c)) columns)) s else s)"
  have "content db' = (content db)\<lparr>tb_rows := (tb_rows (content db))(t := h ` tb_rows (content db) t)\<rparr>"
    by (simp add: db'(3) update_row_def columns_def [symmetric] h_def)
  moreover have "''id'' \<notin> set columns" "''account_id'' \<notin> set columns" by (simp_all add: columns_def)
  then have "h s ''id'' = s ''id''" "h s ''account_id'' = s ''account_id''" for s by (simp_all add: h_def sql_filled_def assigned)
  moreover have "if matches r s then agrees t r (h s) else h s = s" for s
  proof (cases "matches r s")
    case True
    then have h: "h s = sql_filled (dflt (Some t)) (map_of (map (\<lambda>c. (c, r c)) columns)) s" by (simp add: matches_def h_def)
    have "agrees t r (h s)"
      using True db'(1) by (auto simp: agrees_def h sql_filled_def assigned in_columns matches_def defaults_ok_def split: option.split)
    then show ?thesis using True by simp
  next
    case False
    then show ?thesis using given by (auto simp: matches_def h_def)
  qed
  ultimately show ?thesis using db'(2) by blast
qed

lemma update_all:
  assumes sql: "sql_database fits same content exec" and t: "rs \<noteq> [] \<Longrightarrow> key_columns t = [[''id'']]"
    and fit: "\<forall>r \<in> set rs. fitting_row fits t (content db) r" and apart: "distinct (map (\<lambda>r. r ''id'') rs)"
  shows "\<exists>db' g. run_statements exec (map (update_row t) rs) db = Some db'
    \<and> content db' = (content db)\<lparr>tb_rows := (tb_rows (content db))(t := g ` tb_rows (content db) t)\<rparr>
    \<and> (\<forall>s. g s ''id'' = s ''id'' \<and> g s ''account_id'' = s ''account_id''
        \<and> ((\<forall>r \<in> set rs. \<not> matches r s) \<longrightarrow> g s = s) \<and> (\<forall>r \<in> set rs. matches r s \<longrightarrow> agrees t r (g s)))"
  using t fit apart
proof (induction rs arbitrary: db)
  case Nil
  have "run_statements exec (map (update_row t) []) db = Some db \<and> content db = (content db)\<lparr>tb_rows := (tb_rows (content db))(t := id ` tb_rows (content db) t)\<rparr>"
    by simp
  then show ?case by (metis empty_iff id_apply list.set(1))
next
  case (Cons r rs)
  have t: "key_columns t = [[''id'']]" using Cons.prems(1) by simp
  obtain db1 h answer where one: "exec (update_row t r) db = Some (answer, db1)"
    "content db1 = (content db)\<lparr>tb_rows := (tb_rows (content db))(t := h ` tb_rows (content db) t)\<rparr>"
    "\<And>s. h s ''id'' = s ''id''" "\<And>s. h s ''account_id'' = s ''account_id''" "\<And>s. if matches r s then agrees t r (h s) else h s = s"
    using update_one_row [OF sql t, of db r] Cons.prems(2) by (metis list.set_intros(1))
  have "(\<lambda>s. s ''id'') ` tb_rows (content db1) Account_Avatars = (\<lambda>s. s ''id'') ` tb_rows (content db) Account_Avatars"
    by (simp add: one(2) image_image one(3))
  then have "\<forall>r \<in> set rs. fitting_row fits t (content db1) r"
    using Cons.prems(2) fitting_row_grows [of fits t "content db" _ "content db1"] by (simp add: one(2))
  then obtain db' g where two: "run_statements exec (map (update_row t) rs) db1 = Some db'"
    "content db' = (content db1)\<lparr>tb_rows := (tb_rows (content db1))(t := g ` tb_rows (content db1) t)\<rparr>"
    "\<And>s. g s ''id'' = s ''id'' \<and> g s ''account_id'' = s ''account_id''
        \<and> ((\<forall>r \<in> set rs. \<not> matches r s) \<longrightarrow> g s = s) \<and> (\<forall>r \<in> set rs. matches r s \<longrightarrow> agrees t r (g s))"
  proof -
    assume fit: "\<forall>r \<in> set rs. fitting_row fits t (content db1) r"
    have "distinct (map (\<lambda>r. r ''id'') rs)" using Cons.prems(3) by simp
    from Cons.IH [OF t fit this] show thesis using that by blast
  qed
  have h_matches: "matches x (h s) = matches x s" for x s by (simp add: matches_def one(3,4))
  have only: "\<not> matches x s" if "matches r s" "x \<in> set rs" for x s
  proof -
    have "r ''id'' \<notin> (\<lambda>r. r ''id'') ` set rs" using Cons.prems(3) by simp
    then have "x ''id'' \<noteq> r ''id''" using that(2) by (metis image_eqI)
    then show ?thesis using that(1) by (auto simp: matches_def)
  qed
  have "g (h s) ''id'' = s ''id'' \<and> g (h s) ''account_id'' = s ''account_id''
      \<and> ((\<forall>r \<in> set (r # rs). \<not> matches r s) \<longrightarrow> g (h s) = s) \<and> (\<forall>x \<in> set (r # rs). matches x s \<longrightarrow> agrees t x (g (h s)))" for s
  proof (cases "matches r s")
    case True
    then have "\<forall>x \<in> set rs. \<not> matches x (h s)" using only h_matches by blast
    then have "g (h s) = h s" using two(3) [of "h s"] by blast
    then show ?thesis using True one(3-5) [of s] only by auto
  next
    case False
    then have "h s = s" using one(5) [of s] by simp
    then show ?thesis using False two(3) [of s] by auto
  qed
  moreover have "content db' = (content db)\<lparr>tb_rows := (tb_rows (content db))(t := (\<lambda>s. g (h s)) ` tb_rows (content db) t)\<rparr>"
    by (simp add: two(2) one(2) image_image)
  moreover have "run_statements exec (map (update_row t) (r # rs)) db = Some db'" using one(1) two(1) by simp
  ultimately show ?case by blast
qed


section \<open>One table of one plan\<close>

text \<open>
  What the removals leave of an account's rows of a table, for its insertions and updates: the rows that are neither are
  as the account has them, those to be updated are there under their key, those to be inserted are not.
\<close>

definition left_with :: "(text_units \<times> row \<Rightarrow> bool) \<Rightarrow> (text_units \<times> row \<Rightarrow> bool) \<Rightarrow> (text_units \<times> row) list \<Rightarrow> table \<Rightarrow> plan \<Rightarrow> stored_row set \<Rightarrow> bool" where
  "left_with I U rows t p own \<longleftrightarrow> (pl_inserts p t = map snd (filter I rows) \<and> pl_updates p t = map snd (filter U rows)
     \<and> (\<forall>x. I x \<longrightarrow> \<not> U x) \<and> (\<forall>x \<in> set rows. U x \<longrightarrow> key_columns t = [[''id'']])
     \<and> inj_on (stored_key t) own \<and> stored_key t ` own = fst ` {x \<in> set rows. \<not> I x}
     \<and> (\<forall>s \<in> own. \<forall>r. (stored_key t s, r) \<in> set rows \<longrightarrow> r ''id'' = Some (s ''id'') \<and> (\<not> U (stored_key t s, r) \<longrightarrow> agrees t r s)))"

definition left_for :: "(text_units \<times> row) list \<Rightarrow> table \<Rightarrow> plan \<Rightarrow> stored_row set \<Rightarrow> bool" where
  "left_for rows t p own \<longleftrightarrow> (\<exists>I U. left_with I U rows t p own)"

lemma left_withD:
  assumes "left_with I U rows t p own"
  shows "pl_inserts p t = map snd (filter I rows)" "pl_updates p t = map snd (filter U rows)" "I x \<Longrightarrow> \<not> U x"
    "x \<in> set rows \<Longrightarrow> U x \<Longrightarrow> key_columns t = [[''id'']]" "inj_on (stored_key t) own"
    "stored_key t ` own = fst ` {x \<in> set rows. \<not> I x}"
    "s \<in> own \<Longrightarrow> (stored_key t s, r) \<in> set rows \<Longrightarrow> r ''id'' = Some (s ''id'')"
    "s \<in> own \<Longrightarrow> (stored_key t s, r) \<in> set rows \<Longrightarrow> \<not> U (stored_key t s, r) \<Longrightarrow> agrees t r s"
proof -
  have "\<forall>x. I x \<longrightarrow> \<not> U x" using assms unfolding left_with_def by (elim conjE) assumption
  moreover have "\<forall>x \<in> set rows. U x \<longrightarrow> key_columns t = [[''id'']]" using assms unfolding left_with_def by (elim conjE) assumption
  ultimately show "I x \<Longrightarrow> \<not> U x" "x \<in> set rows \<Longrightarrow> U x \<Longrightarrow> key_columns t = [[''id'']]" by blast+
qed (use assms in \<open>simp_all add: left_with_def\<close>)

lemma fitting_row_of:
  assumes doc: "doc_ok fits d" and r: "(k, r) \<in> set (child_rows_of d t)"
    and account: "tb_accounts db (doc_id d) \<noteq> None"
    and heroes: "hero_reference t \<noteq> None \<Longrightarrow> stored_as Account_Avatars (child_rows_of d Account_Avatars) (rows_of_account Account_Avatars (Number (doc_id d)) db)"
  shows "fitting_row fits t db r"
proof -
  note row = doc_ok_row [OF doc r]
  have "case hero_reference t of None \<Rightarrow> True | Some (hero, _) \<Rightarrow> (case r hero of None \<Rightarrow> True | Some h \<Rightarrow> refers_ok t db h)"
  proof (cases "hero_reference t")
    case (Some x)
    then obtain hero with_it where x: "hero_reference t = Some (hero, with_it)" by (cases x) simp
    have "refers_ok t db h" if h: "r hero = Some h" "h \<noteq> Null" for h
    proof -
      obtain i where i: "h = Number i" using row(1) h x unfolding row_ok_def by blast
      have "shown (r hero) \<in> heroes_of d" using child_rows_facts(3) [OF r x] h by auto
      then have "number_text i \<in> fst ` set (child_rows_of d Account_Avatars)" using h i by (simp add: heroes_are_rows)
      then obtain s where s: "s \<in> rows_of_account Account_Avatars (Number (doc_id d)) db" "stored_key Account_Avatars s = number_text i"
        using heroes Some unfolding stored_as_def by (metis imageE option.distinct(1))
      then obtain r' where r': "(number_text i, r') \<in> set (child_rows_of d Account_Avatars)"
        using \<open>number_text i \<in> fst ` _\<close> by auto
      then have "agrees Account_Avatars r' s" using heroes Some s unfolding stored_as_def by (metis option.distinct(1))
      moreover obtain j where j: "r' ''id'' = Some (Number j)" using doc_ok_row(1) [OF doc r'] by (auto simp: row_ok_def)
      ultimately have "s ''id'' = Number j" using agreesD columns_with_key by blast
      moreover have "j = i" using doc_ok_row(2) [OF doc r'] j by (auto simp: key_in_def dest: number_text_inject)
      ultimately have "h = s ''id''" using i by simp
      then show ?thesis using s(1) by (simp add: refers_ok_def rows_of_account_def)
    qed
    then show ?thesis using x by (auto simp: refers_ok_def split: option.split)
  qed simp
  moreover have "r ''id'' \<noteq> None" using row(1) by (auto simp: row_ok_def)
  then have "present t r \<noteq> []" using columns_with_key [of t] by (auto simp: present_def filter_empty_conv)
  moreover have "\<forall>key \<in> set (key_columns t). \<forall>c \<in> set key. r c \<noteq> None"
    using key_columns_given(2) [OF row(1)] row(3) by simp
  ultimately show ?thesis using row account by (auto simp: fitting_row_def fitting_def row_ok_def)
qed

lemma stored_key_by_id: "t \<noteq> Market_Sold_Listings \<Longrightarrow> stored_key t s = shown (Some (s ''id''))"
  by (simp add: stored_key_def key_in_def)

lemma single_key: "key_columns t = [[''id'']] \<Longrightarrow> t \<noteq> Market_Sold_Listings"
  by (auto simp: key_columns_def)

lemma inserts_key_free:
  assumes doc: "doc_ok fits d" and a: "a = Number (doc_id d)"
    and I: "stored_key t ` own = fst ` {x \<in> set (child_rows_of d t). \<not> I x}" "own = {s \<in> R. s ''account_id'' = a}"
    and agree: "t = Account_Attributes \<Longrightarrow> \<forall>s \<in> own. \<forall>r. (stored_key t s, r) \<in> set (child_rows_of d t) \<longrightarrow> agrees t r s"
    and others: "t \<noteq> Market_Sold_Listings \<Longrightarrow> \<forall>(k, r) \<in> set (child_rows_of d t). \<forall>s \<in> R. s ''account_id'' \<noteq> a \<longrightarrow> r ''id'' \<noteq> Some (s ''id'')"
  shows "key_free t (map snd (filter I (child_rows_of d t))) R"
  unfolding key_free_def
proof (intro ballI conjI)
  let ?rows = "child_rows_of d t"
  fix key assume key: "key \<in> set (key_columns t)"
  have apart: "distinct (map (\<lambda>(k, r). map r key) ?rows)" using doc key by (simp add: doc_ok_def)
  then show "distinct (map (\<lambda>r. map r key) (map snd (filter I ?rows)))"
    by (simp add: comp_def case_prod_unfold distinct_map_filter)
  fix r s assume "r \<in> set (map snd (filter I ?rows))" and s: "s \<in> R"
  then obtain k where r: "(k, r) \<in> set ?rows" "I (k, r)" by auto
  note row = doc_ok_row [OF doc r(1)]
  show "\<exists>c \<in> set key. r c \<noteq> Some (s c)"
  proof (rule ccontr)
    assume "\<not> ?thesis"
    then have same: "r c = Some (s c)" if "c \<in> set key" for c using that by blast
    have "''id'' \<in> set key \<or> t = Account_Attributes \<and> key = [''account_id'', ''name'']" using key by (auto simp: key_columns_def split: if_splits)
    then show False
    proof
      assume by_id: "''id'' \<in> set key"
      have own: "s ''account_id'' = a"
      proof (cases "t = Market_Sold_Listings")
        case True
        then show ?thesis using same [of "''account_id''"] key row(3) a by (simp add: key_columns_def)
      next
        case False
        then show ?thesis using others r(1) s same [OF by_id] by fastforce
      qed
      have "stored_key t s = key_in t r"
        using same [OF by_id] same [of "''sold_at''"] key by (auto simp: stored_key_def key_in_def sale_key_def key_columns_def)
      moreover have "s \<in> own" using own s I(2) by simp
      ultimately have "k \<in> stored_key t ` own" using row(2) by (metis image_eqI)
      then obtain r' where "(k, r') \<in> set ?rows" "\<not> I (k, r')" using I(1) by auto
      then show False using r child_rows_distinct [of d t] by (metis eq_key_imp_eq_value)
    next
      assume named: "t = Account_Attributes \<and> key = [''account_id'', ''name'']"
      then have own: "s \<in> own" using same [of "''account_id''"] row(3) a s I(2) by simp
      then obtain r' where r': "(stored_key t s, r') \<in> set ?rows" "\<not> I (stored_key t s, r')" using I(1) by force
      then have "agrees t r' s" using agree named own by blast
      moreover have "r' ''name'' \<noteq> None" using doc_ok_row(1) [OF doc r'(1)] named by (simp add: row_ok_def)
      ultimately have "r' ''name'' = Some (s ''name'')" using agreesD columns_with_key_too(2) named by fastforce
      then have "map r' key = map r key" using same named doc_ok_row(3) [OF doc r'(1)] row(3) by simp
      then have "(\<lambda>(k, r). map r key) (stored_key t s, r') = (\<lambda>(k, r). map r key) (k, r)" by simp
      moreover have "inj_on (\<lambda>(k, r). map r key) (set ?rows)" using apart by (simp add: distinct_map)
      ultimately have "(stored_key t s, r') = (k, r)" using r(1) r'(1) by (metis inj_onD)
      then show False using r(2) r'(2) by simp
    qed
  qed
qed


lemma inj_on_same_key:
  assumes "\<And>s. key (g s) = key s" and "inj_on key A"
  shows "inj_on key (g ` A)"
proof (rule inj_onI)
  fix y z assume "y \<in> g ` A" "z \<in> g ` A" "key y = key z"
  then obtain s u where "s \<in> A" "u \<in> A" "y = g s" "z = g u" "key s = key u" using assms(1) by auto
  then show "y = z" using inj_onD [OF assms(2)] by blast
qed

lemma write_table:
  assumes sql: "sql_database fits same content exec" and doc: "doc_ok fits d"
    and account: "tb_accounts (content db) (doc_id d) \<noteq> None"
    and heroes: "hero_reference t \<noteq> None \<Longrightarrow>
      stored_as Account_Avatars (child_rows_of d Account_Avatars) (rows_of_account Account_Avatars (Number (doc_id d)) (content db))"
    and left: "left_for (child_rows_of d t) t p (rows_of_account t (Number (doc_id d)) (content db))"
    and others: "t \<noteq> Market_Sold_Listings \<Longrightarrow> \<forall>(k, r) \<in> set (child_rows_of d t). \<forall>s \<in> tb_rows (content db) t.
      s ''account_id'' \<noteq> Number (doc_id d) \<longrightarrow> r ''id'' \<noteq> Some (s ''id'')"
  shows "\<exists>db' R. run_statements exec (writing t p) db = Some db'
    \<and> content db' = (content db)\<lparr>tb_rows := (tb_rows (content db))(t := R)\<rparr>
    \<and> stored_as t (child_rows_of d t) (rows_of_account t (Number (doc_id d)) (content db'))
    \<and> (\<forall>b. b \<noteq> Number (doc_id d) \<longrightarrow> rows_of_account t b (content db') = rows_of_account t b (content db))"
proof -
  let ?rows = "child_rows_of d t" and ?a = "Number (doc_id d)" and ?R = "tb_rows (content db) t"
  let ?own = "rows_of_account t ?a (content db)"
  obtain I U where L: "left_with I U ?rows t p ?own" using left by (auto simp: left_for_def)
  note p = left_withD(1,2) [OF L] and IU = left_withD(3,4) [OF L] and own = left_withD(5,6) [OF L] and agree = left_withD(7,8) [OF L]
  let ?ins = "map snd (filter I ?rows)" and ?ups = "map snd (filter U ?rows)"
  note row = doc_ok_row [OF doc]
  have unique: "(k, r) = (k', r')" if "(k, r) \<in> set ?rows" "(k', r') \<in> set ?rows" "key_in t r = key_in t r'" for k r k' r'
    using that row(2) child_rows_distinct [of d t] by (metis eq_key_imp_eq_value)
  have fit: "fitting_row fits t (content db) r" if "(k, r) \<in> set ?rows" for k r
    by (rule fitting_row_of [OF doc that account heroes])
  have "\<not> U x" if "t = Account_Attributes" "x \<in> set ?rows" for x
    using IU(2) [OF that(2)] that(1) by (auto simp: key_columns_def)
  then have "\<forall>s \<in> ?own. \<forall>r. (stored_key t s, r) \<in> set ?rows \<longrightarrow> agrees t r s" if "t = Account_Attributes"
    using agree that by blast
  then have free: "key_free t ?ins ?R"
    using inserts_key_free [OF doc refl own(2)] others by (auto simp: rows_of_account_def)
  obtain db1 f where one: "run_statements exec (insert_rows t ?ins) db = Some db1"
    "content db1 = (content db)\<lparr>tb_rows := (tb_rows (content db))(t := ?R \<union> f ` set ?ins)\<rparr>" "\<forall>r \<in> set ?ins. agrees t r (f r)"
    using insert_all [OF sql _ free] fit by fastforce
  have fits_up: "\<forall>r \<in> set ?ups. fitting_row fits t (content db1) r"
    using fit fitting_row_grows [of fits t "content db" _ "content db1"] by (auto simp: one(2) image_Un)
  have keyed: "key_columns t = [[''id'']]" if "?ups \<noteq> []"
    using that IU(2) by (auto simp: filter_empty_conv)
  have apart_up: "distinct (map (\<lambda>r. r ''id'') ?ups)"
  proof (cases "?ups = []")
    case False
    have "distinct (map (\<lambda>(k, r). map r [''id'']) ?rows)" using doc_ok_keys [OF doc, of _ t] keyed [OF False] by simp
    then have "distinct (map (\<lambda>x. snd x ''id'') ?rows)" by (simp add: distinct_map inj_on_def case_prod_unfold)
    then show ?thesis by (simp add: comp_def distinct_map_filter)
  qed simp
  obtain db2 g where two: "run_statements exec (map (update_row t) ?ups) db1 = Some db2"
    "content db2 = (content db1)\<lparr>tb_rows := (tb_rows (content db1))(t := g ` tb_rows (content db1) t)\<rparr>"
    "\<And>s. g s ''id'' = s ''id'' \<and> g s ''account_id'' = s ''account_id''
        \<and> ((\<forall>r \<in> set ?ups. \<not> matches r s) \<longrightarrow> g s = s) \<and> (\<forall>r \<in> set ?ups. matches r s \<longrightarrow> agrees t r (g s))"
    using update_all [OF sql keyed fits_up apart_up] by blast
  have run: "run_statements exec (writing t p) db = Some db2"
    by (simp add: writing_def p run_statements_append one(1) two(1) del: map_map)
  have rows2: "tb_rows (content db2) t = g ` (?R \<union> f ` set ?ins)" by (simp add: two(2) one(2))
  have key_g: "stored_key t (g s) = stored_key t s" for s
  proof (cases "?ups = []")
    case True
    then show ?thesis using two(3) [of s] by simp
  next
    case False
    then have "t \<noteq> Market_Sold_Listings" using single_key keyed by blast
    then show ?thesis using two(3) [of s] by (simp add: stored_key_by_id)
  qed
  have key_f: "stored_key t (f r) = k" "f r ''account_id'' = ?a" "f r ''id'' = the (r ''id'')" if "(k, r) \<in> set ?rows" "I (k, r)" for k r
  proof -
    have "agrees t r (f r)" using one(3) that by force
    then show "stored_key t (f r) = k" "f r ''account_id'' = ?a" "f r ''id'' = the (r ''id'')"
      using agrees_key row [OF that(1)] agreesD columns_with_key by (auto simp: row_ok_def)
  qed
  have own2: "rows_of_account t ?a (content db2) = g ` (?own \<union> f ` set ?ins)"
    using two(3) key_f(2) by (auto simp: rows_of_account_def rows2)
  have inserted_row: "s = f r \<and> r \<in> set ?ins" if "s \<in> f ` set ?ins" "(stored_key t s, r) \<in> set ?rows" for s r
  proof -
    obtain k r' where r': "(k, r') \<in> set ?rows" "I (k, r')" "s = f r'" using \<open>s \<in> f ` set ?ins\<close> by auto
    then have "(k, r) \<in> set ?rows" using key_f(1) that(2) by simp
    then have "r = r'" using r'(1) child_rows_distinct [of d t] by (metis eq_key_imp_eq_value)
    then show ?thesis using r' by force
  qed
  have updated_only: "x = (k, r)"
    if "x \<in> set ?rows" "U x" "(k, r) \<in> set ?rows" "r ''id'' = Some (s ''id'')" "matches (snd x) s" for x k r s
  proof -
    have "t \<noteq> Market_Sold_Listings" using single_key IU(2) [OF that(1,2)] by blast
    then have "key_in t (snd x) = key_in t r" using that(4,5) by (simp add: key_in_def matches_def)
    then show ?thesis using unique [of "fst x" "snd x" k r] that(1,3) by simp
  qed
  have "stored_as t ?rows (rows_of_account t ?a (content db2))"
    unfolding stored_as_def
  proof (intro conjI ballI allI impI)
    have ins: "stored_key t ` f ` set ?ins = fst ` {x \<in> set ?rows. I x}"
      using key_f(1) by (force simp: image_image)
    then show "stored_key t ` rows_of_account t ?a (content db2) = fst ` set ?rows"
      unfolding own2 image_image key_g image_Un own(2) by force
    have "inj_on (stored_key t) (f ` set ?ins)"
    proof (rule inj_onI)
      fix y z assume "y \<in> f ` set ?ins" "z \<in> f ` set ?ins" and eq: "stored_key t y = stored_key t z"
      then obtain k r where "(k, r) \<in> set ?rows" "I (k, r)" "y = f r" by auto
      then have "(stored_key t y, r) \<in> set ?rows" using key_f(1) by simp
      then show "y = z" using inserted_row [of y r] inserted_row [of z r] \<open>y \<in> _\<close> \<open>z \<in> _\<close> eq by simp
    qed
    moreover have "fst ` {x \<in> set ?rows. \<not> I x} \<inter> fst ` {x \<in> set ?rows. I x} = {}"
      using child_rows_distinct [of d t] by (auto dest: eq_key_imp_eq_value)
    ultimately have "inj_on (stored_key t) (?own \<union> f ` set ?ins)"
      using own ins unfolding inj_on_Un by blast
    then show "inj_on (stored_key t) (rows_of_account t ?a (content db2))"
      unfolding own2 by (rule inj_on_same_key [where key = "stored_key t" and g = g, OF key_g])
  next
    fix y r assume y: "y \<in> rows_of_account t ?a (content db2)" and yr: "(stored_key t y, r) \<in> set ?rows"
    obtain s where s: "s \<in> ?own \<union> f ` set ?ins" "y = g s" using y own2 by blast
    then have sr: "(stored_key t s, r) \<in> set ?rows" using yr key_g by simp
    have id_s: "r ''id'' = Some (s ''id'')"
    proof (cases "s \<in> ?own")
      case False
      then have new: "s = f r" "r \<in> set ?ins" using s(1) inserted_row [OF _ sr] by blast+
      obtain k where "(k, r) \<in> set ?rows" "I (k, r)" using new(2) by auto
      then have "f r ''id'' = the (r ''id'')" by (rule key_f(3))
      moreover have "r ''id'' \<noteq> None" using row(1) [OF sr] by (auto simp: row_ok_def)
      ultimately show ?thesis using new(1) by auto
    qed (use agree(1) sr in blast)
    have acc: "s ''account_id'' = ?a" using s(1) key_f(2) by (auto simp: rows_of_account_def)
    show "agrees t r y"
    proof (cases "U (stored_key t s, r)")
      case True
      then have "r \<in> set ?ups" using sr by force
      moreover have "matches r s" using id_s acc row(3) [OF sr] by (simp add: matches_def)
      ultimately show ?thesis using two(3) [of s] s(2) by blast
    next
      case False
      have "\<not> matches r' s" if up: "r' \<in> set ?ups" for r'
      proof
        assume m: "matches r' s"
        obtain k where "(k, r') \<in> set ?rows" "U (k, r')" using up by auto
        then show False using updated_only [of "(k, r')" "stored_key t s" r s] sr id_s m False by simp
      qed
      then have "g s = s" using two(3) [of s] by blast
      moreover have "agrees t r s"
      proof (cases "s \<in> ?own")
        case False
        then have "s = f r" "r \<in> set ?ins" using s(1) inserted_row [OF _ sr] by blast+
        then show ?thesis using one(3) by (metis (no_types))
      qed (rule agree(2) [OF _ sr False])
      ultimately show ?thesis using s(2) by simp
    qed
  qed
  moreover have "rows_of_account t b (content db2) = rows_of_account t b (content db)" if b: "b \<noteq> ?a" for b
  proof -
    have same: "g s = s" if "s ''account_id'' = b" for s
    proof -
      have "\<not> matches r s" if up: "r \<in> set ?ups" for r
      proof -
        obtain k where "(k, r) \<in> set ?rows" using up by auto
        then have "r ''account_id'' = Some ?a" by (rule row(3))
        then show ?thesis using \<open>s ''account_id'' = b\<close> b by (simp add: matches_def)
      qed
      then show ?thesis using two(3) [of s] by blast
    qed
    have ins: "s ''account_id'' \<noteq> b" if in_f: "s \<in> f ` set ?ins" for s
    proof -
      obtain k r where "(k, r) \<in> set ?rows" "I (k, r)" "s = f r" using in_f by auto
      then show ?thesis using key_f(2) b by simp
    qed
    show ?thesis
    proof (intro equalityI subsetI)
      fix y assume "y \<in> rows_of_account t b (content db2)"
      then obtain s where s: "s \<in> ?R \<union> f ` set ?ins" "y = g s" "y ''account_id'' = b" unfolding rows_of_account_def rows2 by blast
      then have "s ''account_id'' = b" using two(3) by simp
      then show "y \<in> rows_of_account t b (content db)" using s ins same [of s] by (auto simp: rows_of_account_def)
    next
      fix y assume y: "y \<in> rows_of_account t b (content db)"
      then have "g y = y" using same by (simp add: rows_of_account_def)
      moreover have "y \<in> ?R" "y ''account_id'' = b" using y by (simp_all add: rows_of_account_def)
      ultimately have "y \<in> g ` (?R \<union> f ` set ?ins)" by (intro image_eqI [of _ _ y]) simp_all
      then show "y \<in> rows_of_account t b (content db2)" using \<open>y ''account_id'' = b\<close> by (simp add: rows_of_account_def rows2)
    qed
  qed
  moreover have "content db2 = (content db)\<lparr>tb_rows := (tb_rows (content db))(t := tb_rows (content db2) t)\<rparr>"
    by (simp add: two(2) one(2))
  ultimately show ?thesis using run by blast
qed


section \<open>Rows that go\<close>

fun deletes :: "statement \<Rightarrow> table \<Rightarrow> stored_row \<Rightarrow> bool" where
  "deletes (Delete_Rows u a ids) t s \<longleftrightarrow> u = t \<and> s ''account_id'' = a \<and> s ''id'' \<in> Number ` set ids"
| "deletes (Delete_Sale a i at_time) t s \<longleftrightarrow>
     t = Market_Sold_Listings \<and> s ''account_id'' = a \<and> s ''id'' = Number i \<and> s ''sold_at'' = at_time"
| "deletes (Delete_All u a) t s \<longleftrightarrow> u = t \<and> s ''account_id'' = a"
| "deletes st t s \<longleftrightarrow> False"

fun is_delete :: "statement \<Rightarrow> bool" where
  "is_delete (Delete_Rows _ _ _) = True"
| "is_delete (Delete_Sale _ _ _) = True"
| "is_delete (Delete_All _ _) = True"
| "is_delete _ = False"

definition sql_gone :: "statement list \<Rightarrow> table \<Rightarrow> stored_row \<Rightarrow> bool" where
  "sql_gone ds t s \<longleftrightarrow> (\<exists>st \<in> set ds. deletes st t s)"

definition gone_heroes :: "statement list \<Rightarrow> tables \<Rightarrow> datum set" where
  "gone_heroes ds db = (\<lambda>s. s ''id'') ` {s \<in> tb_rows db Account_Avatars. sql_gone ds Account_Avatars s}"

lemma dropped_other: "c \<in> {''id'', ''account_id'', ''sold_at'', ''name''} \<Longrightarrow> dropped t D s c = s c"
  using hero_column [of t] by (cases "hero_reference t") (auto simp: dropped_def)

lemma deletes_dropped [simp]: "deletes st t (dropped u D s) = deletes st t s"
  by (cases st) (simp_all add: dropped_other)

lemma gone_dropped [simp]: "sql_gone ds t (dropped u D s) = sql_gone ds t s"
  by (simp add: sql_gone_def)

lemma stored_key_dropped [simp]: "stored_key t (dropped u D s) = stored_key t s"
  by (rule stored_key_cong) (simp_all add: dropped_other)

lemma dropped_avatars [simp]: "dropped Account_Avatars D s = s"
  by (simp add: dropped_def hero_reference_def)

lemma dropped_twice: "dropped t D (dropped t E s) = dropped t (E \<union> D) s"
  by (cases "hero_reference t") (auto simp: dropped_def fun_eq_iff)

lemma performed_delete:
  assumes "is_delete st"
  shows "tb_accounts (performed dflt st db) = tb_accounts db"
    and "tb_rows (performed dflt st db) t = dropped t (gone_heroes [st] db) ` {s \<in> tb_rows db t. \<not> deletes st t s}"
proof -
  have none: "dropped t {} s = s" for s by (simp add: dropped_def split: option.split)
  show "tb_accounts (performed dflt st db) = tb_accounts db" using assms by (cases st) (simp_all add: delete_where_def Let_def)
  show "tb_rows (performed dflt st db) t = dropped t (gone_heroes [st] db) ` {s \<in> tb_rows db t. \<not> deletes st t s}"
    using assms by (cases st) (auto simp: delete_where_def Let_def gone_heroes_def sql_gone_def none)
qed

lemma run_deletes:
  assumes sql: "sql_database fits same content exec" and ds: "\<forall>st \<in> set ds. is_delete st"
  shows "\<exists>db'. run_statements exec ds db = Some db' \<and> tb_accounts (content db') = tb_accounts (content db)
    \<and> (\<forall>t. tb_rows (content db') t = dropped t (gone_heroes ds (content db)) ` {s \<in> tb_rows (content db) t. \<not> sql_gone ds t s})"
  using ds
proof (induction ds arbitrary: db)
  case Nil
  have "dropped t {} s = s" for t s by (simp add: dropped_def split: option.split)
  then show ?case by (simp add: sql_gone_def gone_heroes_def)
next
  case (Cons st ds)
  have st: "is_delete st" using Cons.prems by simp
  then have "taken fits same st (content db)" by (cases st) simp_all
  then obtain dflt db1 where one: "exec st db = Some (sql_answered st (content db), db1)" "content db1 = performed dflt st (content db)"
    using sql unfolding sql_database_def by blast
  obtain db' where rest: "run_statements exec ds db1 = Some db'" "tb_accounts (content db') = tb_accounts (content db1)"
    "\<And>t. tb_rows (content db') t = dropped t (gone_heroes ds (content db1)) ` {s \<in> tb_rows (content db1) t. \<not> sql_gone ds t s}"
    using Cons.IH [of db1] Cons.prems by auto
  have rows1: "tb_rows (content db1) t = dropped t (gone_heroes [st] (content db)) ` {s \<in> tb_rows (content db) t. \<not> deletes st t s}" for t
    unfolding one(2) by (rule performed_delete(2) [OF st])
  have heroes: "gone_heroes (st # ds) (content db) = gone_heroes [st] (content db) \<union> gone_heroes ds (content db1)"
    by (auto simp: gone_heroes_def rows1 sql_gone_def)
  have "tb_rows (content db') t = dropped t (gone_heroes (st # ds) (content db)) ` {s \<in> tb_rows (content db) t. \<not> sql_gone (st # ds) t s}" for t
  proof -
    have "{s \<in> tb_rows (content db1) t. \<not> sql_gone ds t s}
        = dropped t (gone_heroes [st] (content db)) ` {s \<in> tb_rows (content db) t. \<not> sql_gone (st # ds) t s}"
      unfolding rows1 by (auto simp: sql_gone_def)
    then show ?thesis unfolding rest(3) heroes by (simp add: image_image dropped_twice)
  qed
  then show ?case using one rest(1,2) performed_delete(1) [OF st] by auto
qed

lemma removing_deletes: "\<forall>st \<in> set (removing p). is_delete st"
  by (auto simp: removing_def delete_rows_def)

lemma all_tables: "set row_tables = UNIV"
proof -
  have "t \<in> set row_tables" for t by (cases t) (simp_all add: row_tables_def child_tables_def)
  then show ?thesis by blast
qed

text \<open>What the removals of one plan take: everything of its account, or the rows it names.\<close>

lemma gone_full: "pl_full p \<Longrightarrow> sql_gone (removing p) t s \<longleftrightarrow> s ''account_id'' = the (pl_id p)"
  using all_tables by (auto simp: sql_gone_def removing_def)

lemma gone_named:
  assumes "\<not> pl_full p"
  shows "sql_gone (removing p) t s \<longleftrightarrow> s ''account_id'' = the (pl_id p) \<and> (\<exists>x \<in> set (pl_removes p t).
    s ''id'' = Number (removed_id x) \<and> (t = Market_Sold_Listings \<longrightarrow> s ''sold_at'' = removed_at x))"
proof -
  let ?named = "\<exists>x \<in> set (pl_removes p t). s ''id'' = Number (removed_id x) \<and> (t = Market_Sold_Listings \<longrightarrow> s ''sold_at'' = removed_at x)"
  have of_table: "sql_gone (delete_rows u a xs) t s \<longleftrightarrow> u = t \<and> s ''account_id'' = a \<and> (\<exists>x \<in> set xs.
      s ''id'' = Number (removed_id x) \<and> (t = Market_Sold_Listings \<longrightarrow> s ''sold_at'' = removed_at x))" for u a xs
    by (auto simp: sql_gone_def delete_rows_def)
  have "sql_gone (if pl_removes p u = [] then [] else delete_rows u (the (pl_id p)) (pl_removes p u)) t s
      \<longleftrightarrow> u = t \<and> s ''account_id'' = the (pl_id p) \<and> ?named" for u
    by (cases "pl_removes p u = []"; cases "u = t") (simp_all add: of_table, simp_all add: sql_gone_def)
  moreover have "sql_gone (concat (map f us)) t s \<longleftrightarrow> (\<exists>u \<in> set us. sql_gone (f u) t s)" for f and us :: "table list"
    by (auto simp: sql_gone_def)
  ultimately show ?thesis using assms all_tables by (simp add: removing_def)
qed

lemma gone_account: "sql_gone (removing p) t s \<Longrightarrow> s ''account_id'' = the (pl_id p)"
  by (cases "pl_full p") (simp_all add: gone_full gone_named)

end
