(* ===== verification/AccountSaves.thy ===== *)
theory AccountSaves
  imports AccountWrites
begin

text \<open>
  What a save of several accounts leaves in storage (\<open>src/storage/postgres.js\<close> over \<open>account-writes.js\<close> and
  \<open>account-rows.js\<close>): whichever plans it ran, differences or everything, storage account_held the accounts.
\<close>

section \<open>Storage and an account\<close>

definition account_agrees :: "row \<Rightarrow> stored_row \<Rightarrow> bool" where
  "account_agrees r s \<longleftrightarrow> (\<forall>c \<in> set account_columns. \<forall>v. r c = Some v \<longrightarrow> s c = v)"

definition account_held :: "tables \<Rightarrow> document \<Rightarrow> bool" where
  "account_held db d \<longleftrightarrow> (\<exists>v s. tb_accounts db (doc_id d) = Some (v, s) \<and> account_agrees (account_row_of d) s)
     \<and> (\<forall>t. stored_as t (child_rows_of d t) (rows_of_account t (Number (doc_id d)) db))"

text \<open>The ids of a table are keys, and a row that names a hero names one of its own account's.\<close>

definition storage_ok :: "tables \<Rightarrow> bool" where
  "storage_ok db \<longleftrightarrow> (\<forall>t. t \<noteq> Market_Sold_Listings \<longrightarrow> inj_on (\<lambda>s. s ''id'') (tb_rows db t))
     \<and> (\<forall>t hero with_it. hero_reference t = Some (hero, with_it) \<longrightarrow> (\<forall>s \<in> tb_rows db t. s hero \<noteq> Null \<longrightarrow>
          (\<exists>h \<in> tb_rows db Account_Avatars. h ''id'' = s hero \<and> h ''account_id'' = s ''account_id'')))"

lemma storage_ok_hero:
  "storage_ok db \<Longrightarrow> hero_reference t = Some (hero, with_it) \<Longrightarrow> s \<in> tb_rows db t \<Longrightarrow> s hero \<noteq> Null
     \<Longrightarrow> \<exists>h \<in> tb_rows db Account_Avatars. h ''id'' = s hero \<and> h ''account_id'' = s ''account_id''"
  unfolding storage_ok_def by blast

lemma storage_ok_key: "storage_ok db \<Longrightarrow> t \<noteq> Market_Sold_Listings \<Longrightarrow> inj_on (\<lambda>s. s ''id'') (tb_rows db t)"
  unfolding storage_ok_def by blast

lemma stored_asD:
  assumes "stored_as t rows S"
  shows "inj_on (stored_key t) S" "stored_key t ` S = fst ` set rows" "s \<in> S \<Longrightarrow> (stored_key t s, r) \<in> set rows \<Longrightarrow> agrees t r s"
  using assms unfolding stored_as_def by blast+

text \<open>A stored row of an account and the row it is.\<close>

lemma stored_row_of:
  assumes "doc_ok fits d" and "stored_as t (child_rows_of d t) S" and "s \<in> S"
  obtains r where "(stored_key t s, r) \<in> set (child_rows_of d t)" "agrees t r s" "r ''id'' = Some (s ''id'')"
    "\<exists>i. s ''id'' = Number i" "t = Market_Sold_Listings \<Longrightarrow> r ''sold_at'' = Some (s ''sold_at'')"
proof -
  have "stored_key t s \<in> fst ` set (child_rows_of d t)" using stored_asD(2) [OF assms(2)] assms(3) by blast
  then obtain r where r: "(stored_key t s, r) \<in> set (child_rows_of d t)" by auto
  note ok = doc_ok_row(1) [OF assms(1) r] and agree = stored_asD(3) [OF assms(2,3) r]
  obtain i where "r ''id'' = Some (Number i)" using ok by (auto simp: row_ok_def)
  then have "r ''id'' = Some (s ''id'')" "\<exists>i. s ''id'' = Number i" using agreesD [OF agree] columns_with_key [of t] by auto
  moreover have "r ''sold_at'' = Some (s ''sold_at'')" if "t = Market_Sold_Listings"
    using ok that agreesD [OF agree, of "''sold_at''"] columns_with_key_too(1) by (auto simp: row_ok_def)
  ultimately show thesis using that r agree by blast
qed

lemma removal_of_row:
  assumes "row_ok fits t r" and "r ''id'' = Some (s ''id'')" and "t = Market_Sold_Listings \<Longrightarrow> r ''sold_at'' = Some (s ''sold_at'')"
  shows "s ''id'' = Number (removed_id (removal_of t (key_in t r)))"
    and "t = Market_Sold_Listings \<Longrightarrow> s ''sold_at'' = removed_at (removal_of t (key_in t r))"
proof -
  obtain i where i: "r ''id'' = Some (Number i)" using assms(1) by (auto simp: row_ok_def)
  obtain us where us: "t = Market_Sold_Listings \<Longrightarrow> r ''sold_at'' = Some (Words us) \<and> us \<noteq> units ''undefined'' \<and> us \<noteq> units ''null''"
    using assms(1) unfolding row_ok_def by blast
  note key = removal_of_key [OF i us]
  show "s ''id'' = Number (removed_id (removal_of t (key_in t r)))" using key i assms(2) by simp
  show "t = Market_Sold_Listings \<Longrightarrow> s ''sold_at'' = removed_at (removal_of t (key_in t r))" using key us assms(3) by simp
qed

text \<open>Removals name a row exactly when they name its key.\<close>

lemma removal_names_key:
  assumes "row_ok fits t r" "row_ok fits t r'"
    and "r ''id'' = Some (s ''id'')" and "t = Market_Sold_Listings \<Longrightarrow> r ''sold_at'' = Some (s ''sold_at'')"
  shows "s ''id'' = Number (removed_id (removal_of t (key_in t r')))
      \<and> (t = Market_Sold_Listings \<longrightarrow> s ''sold_at'' = removed_at (removal_of t (key_in t r'))) \<longleftrightarrow> key_in t r' = key_in t r"
proof -
  obtain i where i: "r' ''id'' = Some (Number i)" using assms(2) by (auto simp: row_ok_def)
  obtain us where us: "t = Market_Sold_Listings \<Longrightarrow> r' ''sold_at'' = Some (Words us) \<and> us \<noteq> units ''undefined'' \<and> us \<noteq> units ''null''"
    using assms(2) unfolding row_ok_def by blast
  note key = removal_of_key [OF i us]
  show ?thesis
  proof
    assume "s ''id'' = Number (removed_id (removal_of t (key_in t r')))
      \<and> (t = Market_Sold_Listings \<longrightarrow> s ''sold_at'' = removed_at (removal_of t (key_in t r')))"
    then have "s ''id'' = Number i" "t = Market_Sold_Listings \<longrightarrow> s ''sold_at'' = Words us"
      by (simp_all add: key split: if_splits)
    then show "key_in t r' = key_in t r" using assms(3,4) i us by (simp add: key_in_def sale_key_def)
  next
    assume same: "key_in t r' = key_in t r"
    show "s ''id'' = Number (removed_id (removal_of t (key_in t r')))
      \<and> (t = Market_Sold_Listings \<longrightarrow> s ''sold_at'' = removed_at (removal_of t (key_in t r')))"
      unfolding same using removal_of_row [OF assms(1,3,4)] by blast
  qed
qed

section \<open>What the removals leave\<close>

definition before_of :: "document \<Rightarrow> table \<Rightarrow> (text_units \<times> text_units) list" where
  "before_of d t = map (\<lambda>(k, r). (k, row_text (columns_of t) r)) (child_rows_of d t)"

lemma before_of_picture: "pc_tables (picture_of d) t = before_of d t"
  by (simp add: picture_of_def before_of_def)

lemma keys_before: "fst ` set (before_of d t) = fst ` set (child_rows_of d t)"
  by (force simp: before_of_def)

lemma before_row:
  assumes "(k, r) \<in> set (child_rows_of d t)"
  shows "map_of (before_of d t) k = Some (row_text (columns_of t) r)"
proof -
  have "distinct (map fst (before_of d t))" using child_rows_distinct [of d t] by (simp add: before_of_def comp_def case_prod_unfold)
  moreover have "(k, row_text (columns_of t) r) \<in> set (before_of d t)" using assms by (force simp: before_of_def)
  ultimately show ?thesis by (rule map_of_is_SomeI)
qed

text \<open>The keys a plan takes out of a table.\<close>

definition taken_keys :: "document \<Rightarrow> document \<Rightarrow> table \<Rightarrow> text_units set" where
  "taken_keys d0 d t = fst ` set (child_rows_of d0 t) - {k. \<exists>r. (k, r) \<in> set (child_rows_of d t) \<and> \<not> inserted (before_of d0 t) t (k, r)}"

lemma removes_of_plan:
  "set (pl_removes (plan_write (Some (v, picture_of d0)) d) t) = removal_of t ` taken_keys d0 d t"
proof -
  have "fst ` set (before_of d0 t) - fst ` set (child_rows_of d t)
      \<union> fst ` {x \<in> set (child_rows_of d t). changed_row (before_of d0 t) t x \<and> rewritten_on_change t} = taken_keys d0 d t"
  proof -
    have keyed: "map_of (before_of d0 t) k = None \<longleftrightarrow> k \<notin> fst ` set (child_rows_of d0 t)" for k
      by (simp add: map_of_eq_None_iff keys_before)
    have one: "r = r'" if "(k, r) \<in> set (child_rows_of d t)" "(k, r') \<in> set (child_rows_of d t)" for k r r'
      using that child_rows_distinct [of d t] by (metis eq_key_imp_eq_value)
    have "changed_row (before_of d0 t) t (k, r) \<Longrightarrow> k \<in> fst ` set (child_rows_of d0 t)" for k r
      using keyed by (auto simp: changed_row_def)
    then have changed: "k \<in> fst ` {x \<in> set (child_rows_of d t). changed_row (before_of d0 t) t x \<and> rewritten_on_change t}
        \<longleftrightarrow> (\<exists>r. (k, r) \<in> set (child_rows_of d t) \<and> inserted (before_of d0 t) t (k, r)) \<and> k \<in> fst ` set (child_rows_of d0 t)" for k
      using keyed [of k] by (auto simp: inserted_def image_iff)
    have "k \<in> fst ` set (before_of d0 t) - fst ` set (child_rows_of d t)
        \<union> fst ` {x \<in> set (child_rows_of d t). changed_row (before_of d0 t) t x \<and> rewritten_on_change t} \<longleftrightarrow> k \<in> taken_keys d0 d t" for k
    proof (cases "\<exists>r. (k, r) \<in> set (child_rows_of d t)")
      case True
      then obtain r where r: "(k, r) \<in> set (child_rows_of d t)" by blast
      then have "k \<in> fst ` set (child_rows_of d t)" by force
      moreover have "(\<exists>r'. (k, r') \<in> set (child_rows_of d t) \<and> P r') \<longleftrightarrow> P r" for P using one r by blast
      ultimately show ?thesis unfolding Un_iff changed taken_keys_def keys_before Diff_iff mem_Collect_eq by simp blast
    next
      case False
      then have "k \<notin> fst ` set (child_rows_of d t)" by auto
      then show ?thesis using False unfolding Un_iff changed taken_keys_def keys_before Diff_iff mem_Collect_eq by simp
    qed
    then show ?thesis by (rule set_eqI)
  qed
  then show ?thesis by (simp add: plan_write_def Let_def plan_table_parts before_of_picture)
qed


lemma difference_plan:
  fixes d0 d v
  defines "p \<equiv> plan_write (Some (v, picture_of d0)) d"
  shows "pl_full p = False" "pl_id p = doc_fields d ''id''" "pl_version p = Some v" "pl_row p = account_row_of d"
    "pl_inserts p t = map snd (filter (inserted (before_of d0 t) t) (child_rows_of d t))"
    "pl_updates p t = map snd (filter (updated (before_of d0 t) t) (child_rows_of d t))"
    "pl_next p = picture_of d"
  by (simp_all add: p_def plan_write_def Let_def plan_table_parts before_of_picture)

lemma whole_plan:
  "pl_full (plan_write None d)" "pl_id (plan_write None d) = doc_fields d ''id''" "pl_row (plan_write None d) = account_row_of d"
  "pl_inserts (plan_write None d) t = map snd (child_rows_of d t)" "pl_updates (plan_write None d) t = []"
  "pl_next (plan_write None d) = picture_of d"
  by (simp_all add: plan_write_def Let_def)

lemma gone_iff_taken:
  assumes d0: "doc_ok fits d0" and d: "doc_ok fits d" and stored: "stored_as t (child_rows_of d0 t) S"
    and s: "s \<in> S" "s ''account_id'' = Number (doc_id d)"
  shows "sql_gone (removing (plan_write (Some (v, picture_of d0)) d)) t s \<longleftrightarrow> stored_key t s \<in> taken_keys d0 d t"
proof -
  let ?p = "plan_write (Some (v, picture_of d0)) d"
  obtain r where r: "(stored_key t s, r) \<in> set (child_rows_of d0 t)" "r ''id'' = Some (s ''id'')"
    "t = Market_Sold_Listings \<Longrightarrow> r ''sold_at'' = Some (s ''sold_at'')"
    using stored_row_of [OF d0 stored s(1)] by blast
  note ok = doc_ok_row [OF d0 r(1)]
  let ?names = "\<lambda>k. s ''id'' = Number (removed_id (removal_of t k)) \<and> (t = Market_Sold_Listings \<longrightarrow> s ''sold_at'' = removed_at (removal_of t k))"
  have "?names k \<longleftrightarrow> k = stored_key t s" if k: "k \<in> taken_keys d0 d t" for k
  proof -
    obtain r' where r': "(k, r') \<in> set (child_rows_of d0 t)" using k by (auto simp: taken_keys_def)
    show ?thesis
      using removal_names_key [OF ok(1) doc_ok_row(1) [OF d0 r'] r(2,3)] doc_ok_row(2) [OF d0 r'] ok(2) by simp
  qed
  then have "(\<exists>k \<in> taken_keys d0 d t. ?names k) \<longleftrightarrow> stored_key t s \<in> taken_keys d0 d t" by blast
  moreover have "sql_gone (removing ?p) t s \<longleftrightarrow> (\<exists>k \<in> taken_keys d0 d t. ?names k)"
    using s(2) doc_ok_id [OF d] by (simp add: gone_named difference_plan(1,2) removes_of_plan)
  ultimately show ?thesis by simp
qed

lemma left_after_difference:
  assumes d0: "doc_ok fits d0" and d: "doc_ok fits d"
    and stored: "\<And>u. stored_as u (child_rows_of d0 u) (rows_of_account u (Number (doc_id d)) db)"
    and refs: "storage_ok db"
    and heroes: "\<And>h. h \<in> rows_of_account Account_Avatars (Number (doc_id d)) db \<Longrightarrow> h ''id'' \<in> D
      \<Longrightarrow> sql_gone (removing (plan_write (Some (v, picture_of d0)) d)) Account_Avatars h"
  shows "left_for (child_rows_of d t) t (plan_write (Some (v, picture_of d0)) d)
    (dropped t D ` {s \<in> rows_of_account t (Number (doc_id d)) db. \<not> sql_gone (removing (plan_write (Some (v, picture_of d0)) d)) t s})"
proof -
  let ?p = "plan_write (Some (v, picture_of d0)) d" and ?rows = "child_rows_of d t" and ?a = "Number (doc_id d)"
  let ?I = "inserted (before_of d0 t) t" and ?U = "updated (before_of d0 t) t"
  let ?S = "rows_of_account t ?a db" and ?K = "{s \<in> rows_of_account t ?a db. \<not> sql_gone (removing ?p) t s}"
  have kept: "stored_key t s \<notin> taken_keys d0 d t" if "s \<in> ?K" for s
    using that gone_iff_taken [OF d0 d stored, of s t v] by (auto simp: rows_of_account_def)
  have keys: "stored_key t ` ?K = fst ` {x \<in> set ?rows. \<not> ?I x}"
  proof (intro equalityI subsetI)
    fix k assume "k \<in> stored_key t ` ?K"
    then obtain s where s: "s \<in> ?K" "k = stored_key t s" by blast
    then have "k \<in> fst ` set (child_rows_of d0 t)" using stored_asD(2) [OF stored, of t] by auto
    then show "k \<in> fst ` {x \<in> set ?rows. \<not> ?I x}" using kept [OF s(1)] s(2) by (force simp: taken_keys_def)
  next
    fix k assume "k \<in> fst ` {x \<in> set ?rows. \<not> ?I x}"
    then obtain r where r: "(k, r) \<in> set ?rows" "\<not> ?I (k, r)" by auto
    then have "k \<in> fst ` set (before_of d0 t)" by (auto simp: inserted_def map_of_eq_None_iff)
    then have "k \<in> stored_key t ` ?S" using stored_asD(2) [OF stored, of t] by (simp add: keys_before)
    then obtain s where s: "s \<in> ?S" "k = stored_key t s" by blast
    moreover have "k \<notin> taken_keys d0 d t" using r by (auto simp: taken_keys_def)
    ultimately have "s \<in> ?K" using gone_iff_taken [OF d0 d stored, of s t v] by (auto simp: rows_of_account_def)
    then show "k \<in> stored_key t ` ?K" using s(2) by blast
  qed
  have inj: "inj_on (stored_key t) (dropped t D ` ?K)"
    using inj_on_same_key [of "stored_key t" "dropped t D" ?K] inj_on_subset [OF stored_asD(1) [OF stored], of ?K t] by auto
  have row: "r ''id'' = Some (s ''id'') \<and> (\<not> ?U (stored_key t s, r) \<longrightarrow> agrees t r (dropped t D s))"
    if s: "s \<in> ?K" and r: "(stored_key t s, r) \<in> set ?rows" for s r
  proof -
    obtain r0 where r0: "(stored_key t s, r0) \<in> set (child_rows_of d0 t)" "agrees t r0 s" "r0 ''id'' = Some (s ''id'')"
      "t = Market_Sold_Listings \<Longrightarrow> r0 ''sold_at'' = Some (s ''sold_at'')"
      using stored_row_of [OF d0 stored, of s t] s by blast
    note ok0 = doc_ok_row [OF d0 r0(1)] and ok = doc_ok_row [OF d r]
    have "key_in t r = key_in t r0" using ok(2) ok0(2) by simp
    then have names: "s ''id'' = Number (removed_id (removal_of t (key_in t r)))"
      using removal_names_key [OF ok0(1) ok(1) r0(3,4)] by blast
    obtain i where i: "r ''id'' = Some (Number i)" using ok(1) by (auto simp: row_ok_def)
    obtain us where us: "t = Market_Sold_Listings \<Longrightarrow> r ''sold_at'' = Some (Words us) \<and> us \<noteq> units ''undefined'' \<and> us \<noteq> units ''null''"
      using ok(1) unfolding row_ok_def by blast
    have id_s: "r ''id'' = Some (s ''id'')" using names i by (simp add: removal_of_key [OF i us])
    have "agrees t r (dropped t D s)" if same: "\<not> ?U (stored_key t s, r)"
    proof -
      have "stored_key t s \<in> fst ` set (child_rows_of d0 t)" using r0(1) by force
      then obtain r' where r': "(stored_key t s, r') \<in> set ?rows" "\<not> ?I (stored_key t s, r')"
        using kept [OF s] unfolding taken_keys_def by blast
      then have "r' = r" using r child_rows_distinct [of d t] by (metis eq_key_imp_eq_value)
      then have "map_of (before_of d0 t) (stored_key t s) = Some (row_text (columns_of t) r)"
        using untouched_row [OF _ same] r'(2) by blast
      then have "row_text (columns_of t) r0 = row_text (columns_of t) r" using before_row [OF r0(1)] by simp
      then have "\<forall>c \<in> set (columns_of t). r0 c = r c"
        using ok0(1) ok(1) by (intro row_text_inject) (auto simp: row_ok_def)
      then have agree: "agrees t r s" using r0(2) agrees_cong by blast
      have "dropped t D s = s"
      proof (rule ccontr)
        assume "dropped t D s \<noteq> s"
        then obtain hero with_it where hero: "hero_reference t = Some (hero, with_it)" "s hero \<in> D" "s hero \<noteq> Null"
        proof -
          obtain hero with_it where "hero_reference t = Some (hero, with_it)" "s hero \<in> D" "s(hero := Null) \<noteq> s"
            using \<open>dropped t D s \<noteq> s\<close> by (auto simp: dropped_def split: option.splits if_splits)
          moreover from this(3) have "s hero \<noteq> Null" by (metis fun_upd_triv)
          ultimately show thesis using that by blast
        qed
        then obtain h where h: "h \<in> rows_of_account Account_Avatars ?a db" "h ''id'' = s hero"
          using storage_ok_hero [OF refs hero(1), of s] hero(3) s by (auto simp: rows_of_account_def)
        then have "stored_key Account_Avatars h \<in> taken_keys d0 d Account_Avatars"
          using heroes [OF h(1)] hero(2) gone_iff_taken [OF d0 d stored h(1), of v] by (simp add: rows_of_account_def)
        then have lost: "shown (Some (s hero)) \<in> taken_keys d0 d Account_Avatars" using h(2) by (simp add: stored_key_by_id)
        have "r hero = Some (s hero)"
        proof (cases "r hero")
          case None
          then have "s hero = Null" using agree hero(1) hero_column [OF hero(1)] by (auto simp: agrees_def)
          then show ?thesis using hero(3) by simp
        next
          case (Some v)
          then show ?thesis using agreesD [OF agree] hero_column [OF hero(1)] by simp
        qed
        then have "shown (Some (s hero)) \<in> fst ` set (child_rows_of d Account_Avatars)"
          using child_rows_facts(3) [OF r hero(1)] hero(3) by (auto simp: heroes_are_rows)
        then obtain x where x: "(shown (Some (s hero)), x) \<in> set (child_rows_of d Account_Avatars)" by auto
        have "shown (Some (s hero)) \<in> fst ` set (before_of d0 Account_Avatars)" using lost by (auto simp: taken_keys_def keys_before)
        then have "\<not> inserted (before_of d0 Account_Avatars) Account_Avatars (shown (Some (s hero)), x)"
          by (simp add: inserted_def rewritten_on_change_def map_of_eq_None_iff)
        then show False using lost x by (auto simp: taken_keys_def)
      qed
      then show ?thesis using agree by simp
    qed
    then show ?thesis using id_s by blast
  qed
  have "left_with ?I ?U ?rows t ?p (dropped t D ` ?K)"
    unfolding left_with_def
  proof (intro conjI)
    show "\<forall>x \<in> set ?rows. ?U x \<longrightarrow> key_columns t = [[''id'']]"
      by (auto simp: updated_def rewritten_on_change_def key_columns_def)
    show "stored_key t ` dropped t D ` ?K = fst ` {x \<in> set ?rows. \<not> ?I x}" using keys by (simp add: image_image)
    show "\<forall>s \<in> dropped t D ` ?K. \<forall>r. (stored_key t s, r) \<in> set ?rows \<longrightarrow> r ''id'' = Some (s ''id'') \<and> (\<not> ?U (stored_key t s, r) \<longrightarrow> agrees t r s)"
      using row by (auto simp: dropped_other)
  qed (use inj inserted_not_updated in \<open>auto simp: difference_plan\<close>)
  then show ?thesis unfolding left_for_def by blast
qed


lemma left_after_whole: "left_for (child_rows_of d t) t (plan_write None d) {}"
  unfolding left_for_def
  by (intro exI [of _ "\<lambda>_. True"] exI [of _ "\<lambda>_. False"]) (simp add: left_with_def whole_plan)

section \<open>Every table of every plan\<close>

definition id_of :: "document \<Rightarrow> datum" where
  "id_of d = Number (doc_id d)"

text \<open>Of the accounts saved together, no two have a row of one id.\<close>

definition ids_apart :: "document list \<Rightarrow> bool" where
  "ids_apart ds \<longleftrightarrow> distinct (map doc_id ds) \<and> (\<forall>d \<in> set ds. \<forall>e \<in> set ds. d \<noteq> e \<longrightarrow> (\<forall>t. t \<noteq> Market_Sold_Listings \<longrightarrow>
     (\<forall>(k, r) \<in> set (child_rows_of d t). \<forall>(l, q) \<in> set (child_rows_of e t). r ''id'' \<noteq> q ''id'')))"

text \<open>And none has a row of an id another account's row in storage has.\<close>

definition ids_free :: "document list \<Rightarrow> tables \<Rightarrow> bool" where
  "ids_free ds db \<longleftrightarrow> (\<forall>d \<in> set ds. \<forall>t. t \<noteq> Market_Sold_Listings \<longrightarrow> (\<forall>(k, r) \<in> set (child_rows_of d t).
     \<forall>s \<in> tb_rows db t. s ''account_id'' \<notin> id_of ` set ds \<longrightarrow> r ''id'' \<noteq> Some (s ''id'')))"

text \<open>Rows of an account that are left or written are all of ids it has.\<close>

lemma own_ids:
  assumes "doc_ok fits d" and "left_for (child_rows_of d t) t p S \<or> stored_as t (child_rows_of d t) S" and "s \<in> S"
  shows "\<exists>(k, r) \<in> set (child_rows_of d t). r ''id'' = Some (s ''id'')"
  using assms(2)
proof
  assume "left_for (child_rows_of d t) t p S"
  then obtain I U where L: "left_with I U (child_rows_of d t) t p S" by (auto simp: left_for_def)
  then have "stored_key t s \<in> fst ` set (child_rows_of d t)" using left_withD(6) [OF L] assms(3) by fastforce
  then obtain r where "(stored_key t s, r) \<in> set (child_rows_of d t)" by auto
  then show ?thesis using left_withD(7) [OF L assms(3)] by blast
next
  assume "stored_as t (child_rows_of d t) S"
  from stored_row_of [OF assms(1) this assms(3)] show ?thesis by blast
qed

lemma write_one_table:
  assumes sql: "sql_database fits same content exec" and docs: "\<forall>d \<in> fst ` set work. doc_ok fits d"
    and apart: "ids_apart (map fst work)" and todo: "set todo \<subseteq> set work" "distinct (map fst todo)"
    and accounts: "\<forall>d \<in> fst ` set work. tb_accounts (content db) (doc_id d) \<noteq> None"
    and heroes: "hero_reference t \<noteq> None \<Longrightarrow> \<forall>d \<in> fst ` set work.
      stored_as Account_Avatars (child_rows_of d Account_Avatars) (rows_of_account Account_Avatars (id_of d) (content db))"
    and free: "ids_free (map fst work) (content db)"
    and left: "\<forall>(d, p) \<in> set work. if (d, p) \<in> set todo then left_for (child_rows_of d t) t p (rows_of_account t (id_of d) (content db))
      else stored_as t (child_rows_of d t) (rows_of_account t (id_of d) (content db))"
  shows "\<exists>db' R. run_statements exec (concat (map (writing t \<circ> snd) todo)) db = Some db'
    \<and> content db' = (content db)\<lparr>tb_rows := (tb_rows (content db))(t := R)\<rparr>
    \<and> (\<forall>(d, p) \<in> set work. stored_as t (child_rows_of d t) (rows_of_account t (id_of d) (content db')))
    \<and> (\<forall>b. b \<notin> id_of ` fst ` set work \<longrightarrow> rows_of_account t b (content db') = rows_of_account t b (content db))"
  using todo accounts heroes free left
proof (induction todo arbitrary: db)
  case Nil
  have "content db = (content db)\<lparr>tb_rows := (tb_rows (content db))(t := tb_rows (content db) t)\<rparr>" by simp
  moreover have "\<forall>(d, p) \<in> set work. stored_as t (child_rows_of d t) (rows_of_account t (id_of d) (content db))" using Nil.prems(6) by simp
  ultimately show ?case by (intro exI [of _ db] exI [of _ "tb_rows (content db) t"]) simp
next
  case (Cons x todo)
  obtain d p where x: "x = (d, p)" by force
  have work: "(d, p) \<in> set work" using Cons.prems(1) x by simp
  then have doc: "doc_ok fits d" using docs by force
  have left: "left_for (child_rows_of d t) t p (rows_of_account t (id_of d) (content db))" using Cons.prems(6) work x by fastforce
  have others: "\<forall>(k, r) \<in> set (child_rows_of d t). \<forall>s \<in> tb_rows (content db) t. s ''account_id'' \<noteq> id_of d \<longrightarrow> r ''id'' \<noteq> Some (s ''id'')"
    if t: "t \<noteq> Market_Sold_Listings"
  proof clarify
    fix k r s assume r: "(k, r) \<in> set (child_rows_of d t)" and s: "s \<in> tb_rows (content db) t" "s ''account_id'' \<noteq> id_of d"
      and eq: "r ''id'' = Some (s ''id'')"
    show False
    proof (cases "s ''account_id'' \<in> id_of ` set (map fst work)")
      case False
      then show False using Cons.prems(5) work r s t eq unfolding ids_free_def by fastforce
    next
      case True
      then obtain e q where e: "(e, q) \<in> set work" "s ''account_id'' = id_of e" by auto
      have "left_for (child_rows_of e t) t q (rows_of_account t (id_of e) (content db))
          \<or> stored_as t (child_rows_of e t) (rows_of_account t (id_of e) (content db))" using Cons.prems(6) e(1) by (fastforce split: if_splits)
      moreover have "s \<in> rows_of_account t (id_of e) (content db)" using s e(2) by (simp add: rows_of_account_def)
      moreover have "doc_ok fits e" using docs e(1) by force
      ultimately obtain l y where y: "(l, y) \<in> set (child_rows_of e t)" "y ''id'' = Some (s ''id'')" using own_ids by blast
      moreover have "d \<noteq> e" using s(2) e(2) by auto
      moreover have "d \<in> set (map fst work)" "e \<in> set (map fst work)" using work e(1) by force+
      ultimately have "r ''id'' \<noteq> y ''id''" using apart r t unfolding ids_apart_def by blast
      then show False using eq y(2) by simp
    qed
  qed
  obtain db1 R1 where one: "run_statements exec (writing t p) db = Some db1"
    "content db1 = (content db)\<lparr>tb_rows := (tb_rows (content db))(t := R1)\<rparr>"
    "stored_as t (child_rows_of d t) (rows_of_account t (id_of d) (content db1))"
    "\<forall>b. b \<noteq> id_of d \<longrightarrow> rows_of_account t b (content db1) = rows_of_account t b (content db)"
  proof -
    have "tb_accounts (content db) (doc_id d) \<noteq> None" using Cons.prems(3) work by force
    moreover have "stored_as Account_Avatars (child_rows_of d Account_Avatars) (rows_of_account Account_Avatars (Number (doc_id d)) (content db))"
      if "hero_reference t \<noteq> None" using Cons.prems(4) [OF that] work unfolding id_of_def by force
    ultimately show thesis using write_table [OF sql doc _ _ left [unfolded id_of_def]] others that unfolding id_of_def by blast
  qed
  have elsewhere: "rows_of_account u b (content db1) = rows_of_account u b (content db)" if "u \<noteq> t \<or> b \<noteq> id_of d" for u b
    using that one(2,4) by (cases "u = t") (simp_all add: rows_of_account_def)
  have only: "e = d \<and> q = p" if "(e, q) \<in> set work" "id_of e = id_of d" for e q
  proof -
    have "distinct (map (doc_id \<circ> fst) work)" using apart by (simp add: ids_apart_def)
    then have "inj_on (doc_id \<circ> fst) (set work)" by (simp add: distinct_map)
    from inj_onD [OF this, of "(e, q)" "(d, p)"] show ?thesis using that work by (simp add: id_of_def)
  qed
  have "set todo \<subseteq> set work" "distinct (map fst todo)" using Cons.prems(1,2) by simp_all
  moreover have "\<forall>d \<in> fst ` set work. tb_accounts (content db1) (doc_id d) \<noteq> None" using Cons.prems(3) one(2) by simp
  moreover have "\<forall>d \<in> fst ` set work. stored_as Account_Avatars (child_rows_of d Account_Avatars) (rows_of_account Account_Avatars (id_of d) (content db1))"
    if "hero_reference t \<noteq> None"
  proof -
    have "t \<noteq> Account_Avatars" using that by (auto simp: hero_reference_def)
    then show ?thesis using Cons.prems(4) [OF that] elsewhere by simp
  qed
  moreover have "ids_free (map fst work) (content db1)"
  proof -
    have "s \<in> tb_rows (content db) u" if "s \<in> tb_rows (content db1) u" "s ''account_id'' \<notin> id_of ` set (map fst work)" for s u
    proof -
      have "s ''account_id'' \<noteq> id_of d" using that(2) work by force
      then have "rows_of_account u (s ''account_id'') (content db1) = rows_of_account u (s ''account_id'') (content db)" by (rule elsewhere [OF disjI2])
      moreover have "s \<in> rows_of_account u (s ''account_id'') (content db1)" using that(1) by (simp add: rows_of_account_def)
      ultimately have "s \<in> rows_of_account u (s ''account_id'') (content db)" by simp
      then show ?thesis by (simp add: rows_of_account_def)
    qed
    then show ?thesis using Cons.prems(5) unfolding ids_free_def by blast
  qed
  moreover have "\<forall>(e, q) \<in> set work. if (e, q) \<in> set todo then left_for (child_rows_of e t) t q (rows_of_account t (id_of e) (content db1))
      else stored_as t (child_rows_of e t) (rows_of_account t (id_of e) (content db1))"
  proof clarify
    fix e q assume e: "(e, q) \<in> set work"
    show "if (e, q) \<in> set todo then left_for (child_rows_of e t) t q (rows_of_account t (id_of e) (content db1))
      else stored_as t (child_rows_of e t) (rows_of_account t (id_of e) (content db1))"
    proof (cases "id_of e = id_of d")
      case True
      then have "e = d" "q = p" using only [OF e] by blast+
      moreover have "(d, p) \<notin> set todo" using Cons.prems(2) x by force
      ultimately show ?thesis using one(3) by simp
    next
      case False
      then have "(e, q) \<noteq> x" using x by auto
      then show ?thesis using Cons.prems(6) e elsewhere [of t "id_of e"] False by (fastforce split: if_splits)
    qed
  qed
  ultimately obtain db' R where rest: "run_statements exec (concat (map (writing t \<circ> snd) todo)) db1 = Some db'"
    "content db' = (content db1)\<lparr>tb_rows := (tb_rows (content db1))(t := R)\<rparr>"
    "\<forall>(d, p) \<in> set work. stored_as t (child_rows_of d t) (rows_of_account t (id_of d) (content db'))"
    "\<forall>b. b \<notin> id_of ` fst ` set work \<longrightarrow> rows_of_account t b (content db') = rows_of_account t b (content db1)"
    using Cons.IH [of db1] by blast
  have "b \<noteq> id_of d" if "b \<notin> id_of ` fst ` set work" for b using that work by force
  then have "\<forall>b. b \<notin> id_of ` fst ` set work \<longrightarrow> rows_of_account t b (content db') = rows_of_account t b (content db)"
    using rest(4) elsewhere by simp
  moreover have "content db' = (content db)\<lparr>tb_rows := (tb_rows (content db))(t := R)\<rparr>" by (simp add: rest(2) one(2))
  moreover have "run_statements exec (concat (map (writing t \<circ> snd) (x # todo))) db = Some db'"
    using one(1) rest(1) by (simp add: x run_statements_append)
  ultimately show ?case using rest(3) by blast
qed


definition same_elsewhere :: "datum set \<Rightarrow> tables \<Rightarrow> tables \<Rightarrow> bool" where
  "same_elsewhere ids db db' \<longleftrightarrow> (\<forall>t b. b \<notin> ids \<longrightarrow> rows_of_account t b db' = rows_of_account t b db)"

lemma same_elsewhere_row:
  assumes "same_elsewhere ids db db'" and "s ''account_id'' \<notin> ids"
  shows "s \<in> tb_rows db' t \<longleftrightarrow> s \<in> tb_rows db t"
proof -
  have "rows_of_account t (s ''account_id'') db' = rows_of_account t (s ''account_id'') db" using assms by (simp add: same_elsewhere_def)
  then have "s \<in> rows_of_account t (s ''account_id'') db' \<longleftrightarrow> s \<in> rows_of_account t (s ''account_id'') db" by simp
  then show ?thesis by (simp add: rows_of_account_def)
qed

lemma ids_free_elsewhere:
  assumes "ids_free ds db" and "same_elsewhere (id_of ` set ds) db db'"
  shows "ids_free ds db'"
  using assms(1) same_elsewhere_row [OF assms(2)] unfolding ids_free_def by blast

lemma write_all_tables:
  assumes sql: "sql_database fits same content exec" and docs: "\<forall>d \<in> fst ` set work. doc_ok fits d"
    and apart: "ids_apart (map fst work)" and ts: "distinct ts" "Account_Avatars \<in> set ts \<longrightarrow> hd ts = Account_Avatars"
    and accounts: "\<forall>d \<in> fst ` set work. tb_accounts (content db) (doc_id d) \<noteq> None"
    and free: "ids_free (map fst work) (content db)"
    and left: "\<forall>t. \<forall>(d, p) \<in> set work. if t \<in> set ts then left_for (child_rows_of d t) t p (rows_of_account t (id_of d) (content db))
      else stored_as t (child_rows_of d t) (rows_of_account t (id_of d) (content db))"
  shows "\<exists>db'. run_statements exec (concat (map (\<lambda>t. concat (map (writing t \<circ> snd) work)) ts)) db = Some db'
    \<and> tb_accounts (content db') = tb_accounts (content db)
    \<and> (\<forall>t. \<forall>(d, p) \<in> set work. stored_as t (child_rows_of d t) (rows_of_account t (id_of d) (content db')))
    \<and> same_elsewhere (id_of ` fst ` set work) (content db) (content db')"
  using ts accounts free left
proof (induction ts arbitrary: db)
  case Nil
  then show ?case by (auto simp: same_elsewhere_def)
next
  case (Cons t ts)
  have dist: "distinct (map fst work)" using apart unfolding ids_apart_def by (metis distinct_map)
  have heroes: "\<forall>d \<in> fst ` set work. stored_as Account_Avatars (child_rows_of d Account_Avatars) (rows_of_account Account_Avatars (id_of d) (content db))"
    if "hero_reference t \<noteq> None"
  proof -
    have "t \<noteq> Account_Avatars" using that by (auto simp: hero_reference_def)
    then have "Account_Avatars \<notin> set (t # ts)" using Cons.prems(2) by auto
    then show ?thesis using Cons.prems(5) [THEN spec, of Account_Avatars] by auto
  qed
  have left: "\<forall>(d, p) \<in> set work. if (d, p) \<in> set work then left_for (child_rows_of d t) t p (rows_of_account t (id_of d) (content db))
      else stored_as t (child_rows_of d t) (rows_of_account t (id_of d) (content db))"
    using Cons.prems(5) [THEN spec, of t] by auto
  obtain db1 R where one: "run_statements exec (concat (map (writing t \<circ> snd) work)) db = Some db1"
    "content db1 = (content db)\<lparr>tb_rows := (tb_rows (content db))(t := R)\<rparr>"
    "\<forall>(d, p) \<in> set work. stored_as t (child_rows_of d t) (rows_of_account t (id_of d) (content db1))"
    "\<forall>b. b \<notin> id_of ` fst ` set work \<longrightarrow> rows_of_account t b (content db1) = rows_of_account t b (content db)"
    using write_one_table [OF sql docs apart order_refl dist Cons.prems(3) heroes Cons.prems(4) left] by blast
  have other: "rows_of_account u b (content db1) = rows_of_account u b (content db)" if "u \<noteq> t" for u b
    using that one(2) by (simp add: rows_of_account_def)
  have elsewhere: "same_elsewhere (id_of ` fst ` set work) (content db) (content db1)"
    unfolding same_elsewhere_def using one(4) other by metis
  have "distinct ts" "Account_Avatars \<in> set ts \<longrightarrow> hd ts = Account_Avatars" using Cons.prems(1,2) by auto
  moreover have "\<forall>d \<in> fst ` set work. tb_accounts (content db1) (doc_id d) \<noteq> None" using Cons.prems(3) one(2) by simp
  moreover have "ids_free (map fst work) (content db1)"
    using ids_free_elsewhere [OF Cons.prems(4)] elsewhere by simp
  moreover have "\<forall>u. \<forall>(d, p) \<in> set work. if u \<in> set ts then left_for (child_rows_of d u) u p (rows_of_account u (id_of d) (content db1))
      else stored_as u (child_rows_of d u) (rows_of_account u (id_of d) (content db1))"
  proof
    fix u
    show "\<forall>(d, p) \<in> set work. if u \<in> set ts then left_for (child_rows_of d u) u p (rows_of_account u (id_of d) (content db1))
      else stored_as u (child_rows_of d u) (rows_of_account u (id_of d) (content db1))"
    proof (cases "u = t")
      case True
      then show ?thesis using one(3) Cons.prems(1) by simp
    next
      case False
      then show ?thesis using Cons.prems(5) [THEN spec, of u] other [OF False] by (auto split: if_splits)
    qed
  qed
  ultimately obtain db' where rest: "run_statements exec (concat (map (\<lambda>t. concat (map (writing t \<circ> snd) work)) ts)) db1 = Some db'"
    "tb_accounts (content db') = tb_accounts (content db1)"
    "\<forall>t. \<forall>(d, p) \<in> set work. stored_as t (child_rows_of d t) (rows_of_account t (id_of d) (content db'))"
    "same_elsewhere (id_of ` fst ` set work) (content db1) (content db')"
    using Cons.IH [of db1] by blast
  have "same_elsewhere (id_of ` fst ` set work) (content db) (content db')"
    using elsewhere rest(4) by (simp add: same_elsewhere_def)
  moreover have "run_statements exec (concat (map (\<lambda>t. concat (map (writing t \<circ> snd) work)) (t # ts))) db = Some db'"
    using one(1) rest(1) by (simp add: run_statements_append)
  moreover have "tb_accounts (content db') = tb_accounts (content db)" using rest(2) one(2) by simp
  ultimately show ?case using rest(3) by blast
qed

text \<open>Storage is in order afterwards.\<close>

lemma storage_ok_after:
  assumes ok: "storage_ok db" and docs: "\<forall>d \<in> set ds. doc_ok fits d" and apart: "ids_apart ds" and free: "ids_free ds db"
    and stored: "\<And>d t. d \<in> set ds \<Longrightarrow> stored_as t (child_rows_of d t) (rows_of_account t (id_of d) db')"
    and elsewhere: "same_elsewhere (id_of ` set ds) db db'"
  shows "storage_ok db'"
proof -
  have mine: "\<exists>(k, r) \<in> set (child_rows_of d t). r ''id'' = Some (s ''id'')" if "d \<in> set ds" "s \<in> rows_of_account t (id_of d) db'" for d t s
    using own_ids [of fits d t undefined "rows_of_account t (id_of d) db'" s] docs stored that by blast
  have outside: "s ''id'' \<noteq> s' ''id''" if s: "d \<in> set ds" "s \<in> rows_of_account t (id_of d) db'" and s': "s' \<in> tb_rows db' t" "s' ''account_id'' \<notin> id_of ` set ds"
    and t: "t \<noteq> Market_Sold_Listings" for d t s s'
  proof -
    obtain k r where r: "(k, r) \<in> set (child_rows_of d t)" "r ''id'' = Some (s ''id'')" using mine [OF s] by blast
    moreover have "s' \<in> tb_rows db t" using same_elsewhere_row [OF elsewhere, of s' t] s' by simp
    ultimately show ?thesis using free s(1) s'(2) t unfolding ids_free_def by fastforce
  qed
  have "inj_on (\<lambda>s. s ''id'') (tb_rows db' t)" if t: "t \<noteq> Market_Sold_Listings" for t
  proof (rule inj_onI)
    fix s s' assume s: "s \<in> tb_rows db' t" and s': "s' \<in> tb_rows db' t" and id: "s ''id'' = s' ''id''"
    consider "s ''account_id'' \<notin> id_of ` set ds" "s' ''account_id'' \<notin> id_of ` set ds"
      | d where "d \<in> set ds" "s ''account_id'' = id_of d" "s' ''account_id'' \<notin> id_of ` set ds"
      | d where "d \<in> set ds" "s' ''account_id'' = id_of d" "s ''account_id'' \<notin> id_of ` set ds"
      | d e where "d \<in> set ds" "e \<in> set ds" "s ''account_id'' = id_of d" "s' ''account_id'' = id_of e" by blast
    then show "s = s'"
    proof cases
      case 1
      then show ?thesis using storage_ok_key [OF ok t] same_elsewhere_row [OF elsewhere] s s' id by (auto dest: inj_onD)
    next
      case 2
      then show ?thesis using outside [of d s t s'] s s' id t by (simp add: rows_of_account_def)
    next
      case 3
      then show ?thesis using outside [of d s' t s] s s' id t by (simp add: rows_of_account_def)
    next
      case 4
      show ?thesis
      proof (cases "d = e")
        case True
        then have "s \<in> rows_of_account t (id_of d) db'" "s' \<in> rows_of_account t (id_of d) db'" using 4 s s' by (simp_all add: rows_of_account_def)
        moreover have "stored_key t s = stored_key t s'" using id t by (simp add: stored_key_by_id)
        ultimately show ?thesis using stored_asD(1) [OF stored [OF 4(1)]] by (blast dest: inj_onD)
      next
        case False
        obtain k r where "(k, r) \<in> set (child_rows_of d t)" "r ''id'' = Some (s ''id'')"
          using mine [OF 4(1), of s t] 4 s by (auto simp: rows_of_account_def)
        moreover obtain l q where "(l, q) \<in> set (child_rows_of e t)" "q ''id'' = Some (s' ''id'')"
          using mine [OF 4(2), of s' t] 4 s' by (auto simp: rows_of_account_def)
        ultimately show ?thesis using apart 4 False t id unfolding ids_apart_def by fastforce
      qed
    qed
  qed
  moreover have "\<exists>h \<in> tb_rows db' Account_Avatars. h ''id'' = s hero \<and> h ''account_id'' = s ''account_id''"
    if hero: "hero_reference t = Some (hero, with_it)" and s: "s \<in> tb_rows db' t" "s hero \<noteq> Null" for t hero with_it s
  proof (cases "s ''account_id'' \<in> id_of ` set ds")
    case False
    then have "s \<in> tb_rows db t" using same_elsewhere_row [OF elsewhere] s(1) by blast
    then obtain h where "h \<in> tb_rows db Account_Avatars" "h ''id'' = s hero" "h ''account_id'' = s ''account_id''"
      using storage_ok_hero [OF ok hero, of s] s(2) by blast
    then show ?thesis using same_elsewhere_row [OF elsewhere, of h] False by auto
  next
    case True
    then obtain d where d: "d \<in> set ds" "s ''account_id'' = id_of d" by blast
    then have doc: "doc_ok fits d" and own: "s \<in> rows_of_account t (id_of d) db'" using docs s(1) by (simp_all add: rows_of_account_def)
    obtain r where r: "(stored_key t s, r) \<in> set (child_rows_of d t)" "agrees t r s"
      using stored_row_of [OF doc stored [OF d(1)] own] by blast
    have some: "r hero = Some (s hero)"
    proof (cases "r hero")
      case None
      then have "s hero = Null" using r(2) hero hero_column [OF hero] by (auto simp: agrees_def)
      then show ?thesis using s(2) by simp
    next
      case (Some v)
      then show ?thesis using agreesD [OF r(2)] hero_column [OF hero] by simp
    qed
    then obtain i where i: "s hero = Number i" using doc_ok_row(1) [OF doc r(1)] hero s(2) unfolding row_ok_def by blast
    have "number_text i \<in> fst ` set (child_rows_of d Account_Avatars)"
      using child_rows_facts(3) [OF r(1) hero] some i by (auto simp: heroes_are_rows)
    then obtain h where h: "h \<in> rows_of_account Account_Avatars (id_of d) db'" "stored_key Account_Avatars h = number_text i"
      using stored_asD(2) [OF stored [OF d(1)], of Account_Avatars] by (metis imageE)
    obtain j where "h ''id'' = Number j" using stored_row_of [OF doc stored [OF d(1)] h(1)] by blast
    then have "h ''id'' = s hero" using h(2) i by (auto simp: stored_key_by_id dest: number_text_inject)
    then show ?thesis using h(1) d(2) by (auto simp: rows_of_account_def)
  qed
  ultimately show ?thesis unfolding storage_ok_def by blast
qed

end
