(* ===== verification/AccountBatches.thy ===== *)
theory AccountBatches
  imports AccountSaves
begin

text \<open>
  Several accounts saved as one transaction against the pictures a thread keeps of storage
  (\<open>saveAccounts\<close> of \<open>src/storage/postgres.js\<close>): storage account_held every one of them, the other accounts
  are as they were, and the pictures kept are of what storage account_held.
\<close>

section \<open>The accounts' own rows\<close>

text \<open>A picture to be trusted as far as its version: at that version, storage holds the account it was taken of.\<close>

definition trusted :: "(table option \<Rightarrow> string \<Rightarrow> datum option \<Rightarrow> bool) \<Rightarrow> tables \<Rightarrow> int \<Rightarrow> (int \<times> picture) option \<Rightarrow> bool" where
  "trusted fits db i snapshot \<longleftrightarrow> (case snapshot of None \<Rightarrow> True | Some (v, pic) \<Rightarrow>
     (\<exists>d0. doc_ok fits d0 \<and> doc_id d0 = i \<and> pic = picture_of d0 \<and> (\<forall>s. tb_accounts db i = Some (v, s) \<longrightarrow> account_held db d0)))"

definition next_version :: "int \<Rightarrow> tables \<Rightarrow> int" where
  "next_version i db = (case tb_accounts db i of None \<Rightarrow> 1 | Some (v, _) \<Rightarrow> v + 1)"

lemma account_columns_some: "''id'' \<in> set account_columns" "''name'' \<in> set account_columns"
  by code_simp+

lemma account_row_id: "account_row_of d ''id'' = doc_fields d ''id''"
  by (simp add: account_row_of_def mask_column_def)

lemma changed_columns:
  "pl_columns (plan_write (Some (v, picture_of d0)) d)
     = filter (\<lambda>c. comparable (account_row_of d0 c) \<noteq> comparable (account_row_of d c)) account_columns"
proof -
  have "map fst (filter (\<lambda>(_, was, is). was \<noteq> is) (zip xs (zip (map f xs) (map g xs)))) = filter (\<lambda>c. f c \<noteq> g c) xs"
    for xs :: "string list" and f g :: "string \<Rightarrow> text_units"
    by (induction xs) auto
  then show ?thesis by (simp add: plan_write_def Let_def picture_of_def)
qed

lemma map_of_pairs: "map_of (map (\<lambda>c. (c, f c)) cs) c = (if c \<in> set cs then Some (f c) else None)"
  by (simp add: map_of_map_restrict)

definition name_unused :: "(datum \<Rightarrow> datum \<Rightarrow> bool) \<Rightarrow> datum \<Rightarrow> int \<Rightarrow> tables \<Rightarrow> bool" where
  "name_unused same n i db \<longleftrightarrow> (\<forall>j w s. j \<noteq> i \<longrightarrow> tb_accounts db j = Some (w, s) \<longrightarrow> \<not> same n (s ''name''))"

lemma write_whole_ok:
  assumes sql: "sql_database fits same content exec" and doc: "doc_ok fits d"
    and name: "account_row_of d ''name'' = Some n" "name_unused same n (doc_id d) (content db)"
    and p: "pl_row p = account_row_of d"
  shows "\<exists>s' db'. write_whole exec p db = Some (p, next_version (doc_id d) (content db), db')
    \<and> content db' = (content db)\<lparr>tb_accounts := (tb_accounts (content db))(doc_id d \<mapsto> (next_version (doc_id d) (content db), s'))\<rparr>
    \<and> account_agrees (account_row_of d) s'"
proof -
  let ?assigns = "map (\<lambda>c. (c, account_row_of d c)) account_columns"
  have id: "map_of ?assigns ''id'' = Some (Some (Number (doc_id d)))"
    using doc_ok_id [OF doc] account_columns_some(1) by (simp add: map_of_pairs account_row_id)
  then have given: "given_id ?assigns = doc_id d" by (simp add: given_id_def)
  have name_at: "map_of ?assigns ''name'' = Some (Some n)" using name(1) account_columns_some(2) by (simp add: map_of_pairs)
  have "taken fits same (Upsert_Account ?assigns) (content db)"
    using doc id name(2) unfolding taken.simps name_free_def given name_at name_unused_def by (auto simp: doc_ok_def)
  then obtain dflt db' where db': "exec (Upsert_Account ?assigns) db = Some (sql_answered (Upsert_Account ?assigns) (content db), db')"
    "content db' = performed dflt (Upsert_Account ?assigns) (content db)"
    using sql unfolding sql_database_def by blast
  define old where "old = (case tb_accounts (content db) (doc_id d) of None \<Rightarrow> dflt None | Some (_, s) \<Rightarrow> s)"
  let ?s = "sql_filled (dflt None) (map_of ?assigns) old"
  have "content db' = (content db)\<lparr>tb_accounts := (tb_accounts (content db))(doc_id d \<mapsto> (next_version (doc_id d) (content db), ?s))\<rparr>"
    by (simp add: db'(2) given next_version_def old_def Let_def split: option.split)
  moreover have "account_agrees (account_row_of d) ?s"
    by (simp add: account_agrees_def sql_filled_def map_of_pairs)
  moreover have "write_whole exec p db = Some (p, next_version (doc_id d) (content db), db')"
    using db'(1) by (simp add: write_whole_def upsert_account_row_def p version_of_def given next_version_def)
  ultimately show ?thesis by blast
qed

text \<open>The plan that was carried out: everything, or the difference to an account storage held.\<close>

definition written_plan :: "(table option \<Rightarrow> string \<Rightarrow> datum option \<Rightarrow> bool) \<Rightarrow> tables \<Rightarrow> document \<Rightarrow> plan \<Rightarrow> bool" where
  "written_plan fits db d p \<longleftrightarrow> p = plan_write None d \<or>
     (\<exists>v d0. p = plan_write (Some (v, picture_of d0)) d \<and> doc_ok fits d0 \<and> doc_id d0 = doc_id d \<and> account_held db d0)"

lemma write_account_row_ok:
  assumes sql: "sql_database fits same content exec" and doc: "doc_ok fits d"
    and name: "account_row_of d ''name'' = Some n" "name_unused same n (doc_id d) (content db)"
    and trust: "trusted fits (content db) (doc_id d) snapshot"
  shows "\<exists>p' s' db'. write_account_row exec d (plan_write snapshot d) db = Some (p', next_version (doc_id d) (content db), db')
    \<and> content db' = (content db)\<lparr>tb_accounts := (tb_accounts (content db))(doc_id d \<mapsto> (next_version (doc_id d) (content db), s'))\<rparr>
    \<and> account_agrees (account_row_of d) s'
    \<and> written_plan fits (content db) d p'"
proof (cases snapshot)
  case None
  then show ?thesis using write_whole_ok [OF sql doc name, of "plan_write None d"] by (auto simp: write_account_row_def whole_plan written_plan_def)
next
  case (Some x)
  obtain v pic where x: "x = (v, pic)" by force
  obtain d0 where d0: "doc_ok fits d0" "doc_id d0 = doc_id d" "pic = picture_of d0"
    "\<And>s. tb_accounts (content db) (doc_id d) = Some (v, s) \<Longrightarrow> account_held (content db) d0"
    using trust Some x by (auto simp: trusted_def)
  let ?p = "plan_write (Some (v, picture_of d0)) d"
  let ?columns = "filter (\<lambda>c. comparable (account_row_of d0 c) \<noteq> comparable (account_row_of d c)) account_columns"
  let ?assigns = "map (\<lambda>c. (c, account_row_of d c)) ?columns"
  let ?st = "Advance_Account ?assigns (Number (doc_id d)) v"
  have st: "advance_account_row ?p = ?st"
    using doc_ok_id [OF doc] by (simp add: advance_account_row_def changed_columns difference_plan)
  have "account_row_of d ''id'' = account_row_of d0 ''id''" using doc_ok_id [OF doc] doc_ok_id [OF d0(1)] d0(2) by (simp add: account_row_id)
  then have "''id'' \<notin> set ?columns" by simp
  moreover have "name_free same ?assigns (doc_id d) (content db)"
    unfolding name_free_def map_of_pairs using name by (auto simp: name_unused_def)
  ultimately have "taken fits same ?st (content db)" using doc by (auto simp: doc_ok_def)
  then obtain dflt db1 where one: "exec ?st db = Some (sql_answered ?st (content db), db1)" "content db1 = performed dflt ?st (content db)"
    using sql unfolding sql_database_def by blast
  show ?thesis
  proof (cases "\<exists>s. tb_accounts (content db) (doc_id d) = Some (v, s)")
    case True
    then obtain s where s: "tb_accounts (content db) (doc_id d) = Some (v, s)" by blast
    let ?s = "sql_filled (dflt None) (map_of ?assigns) s"
    have was: "account_agrees (account_row_of d0) s" using d0(4) [OF s] s d0(2) by (auto simp: account_held_def)
    have same: "account_row_of d0 c = account_row_of d c" if "c \<in> set account_columns" "c \<notin> set ?columns" for c
      using that doc d0(1) by (intro comparable_inject) (auto simp: doc_ok_def)
    have "account_agrees (account_row_of d) ?s"
      unfolding account_agrees_def
    proof (intro ballI allI impI)
      fix c v' assume c: "c \<in> set account_columns" "account_row_of d c = Some v'"
      show "?s c = v'"
      proof (cases "c \<in> set ?columns")
        case True
        then show ?thesis using c(2) by (simp only: sql_filled_def map_of_pairs) simp
      next
        case False
        then have "s c = v'" using was same [OF c(1)] c unfolding account_agrees_def by simp
        then show ?thesis using False by (simp only: sql_filled_def map_of_pairs) simp
      qed
    qed
    moreover have "write_account_row exec d ?p db = Some (?p, v + 1, db1)"
      using one(1) s by (simp add: write_account_row_def difference_plan(1) st)
    moreover have "content db1 = (content db)\<lparr>tb_accounts := (tb_accounts (content db))(doc_id d \<mapsto> (v + 1, ?s))\<rparr>"
      by (simp add: one(2) s)
    moreover have "written_plan fits (content db) d ?p" using d0(1,2) d0(4) [OF s] unfolding written_plan_def by blast
    moreover have "next_version (doc_id d) (content db) = v + 1" using s by (simp add: next_version_def)
    ultimately show ?thesis unfolding Some x d0(3) by auto
  next
    case False
    then have "content db1 = content db" "sql_answered ?st (content db) = None"
      by (auto simp: one(2) split: option.split)
    then have same_db: "content db1 = content db" and "write_account_row exec d ?p db = write_whole exec (plan_write None d) db1"
      using one(1) by (simp_all add: write_account_row_def difference_plan(1) st)
    then show ?thesis
      using write_whole_ok [OF sql doc name(1), of db1 "plan_write None d"] name(2) Some x d0(3) by (auto simp: whole_plan written_plan_def)
  qed
qed

text \<open>All of them, one after the other. No two may have names the index takes for one, and none a name an account has that stays.\<close>

definition names_free :: "(datum \<Rightarrow> datum \<Rightarrow> bool) \<Rightarrow> document list \<Rightarrow> tables \<Rightarrow> bool" where
  "names_free same ds db \<longleftrightarrow> (\<forall>d \<in> set ds. \<exists>n. account_row_of d ''name'' = Some n \<and> name_unused same n (doc_id d) db
     \<and> (\<forall>e \<in> set ds. doc_id e \<noteq> doc_id d \<longrightarrow> (\<forall>m. account_row_of e ''name'' = Some m \<longrightarrow> \<not> same n m)))"

lemma account_held_cong:
  assumes "tb_rows db' = tb_rows db" and "tb_accounts db' (doc_id d) = tb_accounts db (doc_id d)"
  shows "account_held db' d = account_held db d"
  using assms by (simp add: account_held_def rows_of_account_def)

lemma trusted_cong:
  assumes "tb_rows db' = tb_rows db" and "tb_accounts db' i = tb_accounts db i"
  shows "trusted fits db' i snapshot = trusted fits db i snapshot"
proof (cases snapshot)
  case (Some x)
  have "doc_id d0 = i \<Longrightarrow> account_held db' d0 = account_held db d0" for d0 using assms by (intro account_held_cong) simp_all
  then show ?thesis using Some assms(2) by (simp add: trusted_def split: prod.split) blast
qed (simp add: trusted_def)

lemma written_plan_cong:
  assumes "tb_rows db' = tb_rows db" and "tb_accounts db' (doc_id d) = tb_accounts db (doc_id d)"
  shows "written_plan fits db' d p = written_plan fits db d p"
proof -
  have "doc_id d0 = doc_id d \<Longrightarrow> account_held db' d0 = account_held db d0" for d0 using assms by (intro account_held_cong) simp_all
  then show ?thesis unfolding written_plan_def by blast
qed

lemma names_free_rest:
  assumes names: "names_free same (d # ds) db" and fresh: "doc_id d \<notin> doc_id ` set ds"
    and others: "\<And>j. j \<noteq> doc_id d \<Longrightarrow> tb_accounts db' j = tb_accounts db j"
    and own: "tb_accounts db' (doc_id d) = Some (v, s)" "account_agrees (account_row_of d) s"
  shows "names_free same ds db'"
  unfolding names_free_def
proof
  fix e assume e: "e \<in> set ds"
  then have ed: "doc_id d \<noteq> doc_id e" using fresh e by (metis imageI)
  obtain n where n: "account_row_of e ''name'' = Some n" "name_unused same n (doc_id e) db"
    "\<forall>x \<in> set (d # ds). doc_id x \<noteq> doc_id e \<longrightarrow> (\<forall>m. account_row_of x ''name'' = Some m \<longrightarrow> \<not> same n m)"
    using names e unfolding names_free_def by (meson list.set_intros(2))
  obtain m where m: "account_row_of d ''name'' = Some m" using names unfolding names_free_def by (meson list.set_intros(1))
  then have "s ''name'' = m" using own(2) account_columns_some(2) by (simp add: account_agrees_def)
  moreover have "\<not> same n m" using n(3) ed m by simp
  ultimately have "name_unused same n (doc_id e) db'"
    unfolding name_unused_def using n(2) [unfolded name_unused_def] others own(1) by (metis option.inject prod.inject)
  moreover have "\<forall>x \<in> set ds. doc_id x \<noteq> doc_id e \<longrightarrow> (\<forall>m. account_row_of x ''name'' = Some m \<longrightarrow> \<not> same n m)" using n(3) by simp
  ultimately show "\<exists>n. account_row_of e ''name'' = Some n \<and> name_unused same n (doc_id e) db'
      \<and> (\<forall>x \<in> set ds. doc_id x \<noteq> doc_id e \<longrightarrow> (\<forall>m. account_row_of x ''name'' = Some m \<longrightarrow> \<not> same n m))" using n(1) by blast
qed

lemma write_account_rows_ok:
  assumes sql: "sql_database fits same content exec" and docs: "\<forall>d \<in> set ds. doc_ok fits d"
    and apart: "distinct (map doc_id ds)" and names: "names_free same ds (content db)"
    and trust: "\<forall>d \<in> set ds. trusted fits (content db) (doc_id d) (snap d)"
  shows "\<exists>ps db'. write_account_rows exec (map (\<lambda>d. (d, plan_write (snap d) d)) ds) db = Some (ps, db')
    \<and> tb_rows (content db') = tb_rows (content db)
    \<and> (\<forall>j. j \<notin> doc_id ` set ds \<longrightarrow> tb_accounts (content db') j = tb_accounts (content db) j)
    \<and> (\<forall>d \<in> set ds. \<exists>s. tb_accounts (content db') (doc_id d) = Some (next_version (doc_id d) (content db), s)
        \<and> account_agrees (account_row_of d) s)
    \<and> list_all2 (\<lambda>d x. snd x = next_version (doc_id d) (content db) \<and> written_plan fits (content db) d (fst x)) ds ps"
  using docs apart names trust
proof (induction ds arbitrary: db)
  case Nil
  then show ?case by simp
next
  case (Cons d ds)
  obtain n where n: "account_row_of d ''name'' = Some n" "name_unused same n (doc_id d) (content db)"
    using Cons.prems(3) unfolding names_free_def by (meson list.set_intros(1))
  have doc: "doc_ok fits d" and snap: "trusted fits (content db) (doc_id d) (snap d)" using Cons.prems(1,4) by simp_all
  obtain p s db1 where one: "write_account_row exec d (plan_write (snap d) d) db = Some (p, next_version (doc_id d) (content db), db1)"
    "content db1 = (content db)\<lparr>tb_accounts := (tb_accounts (content db))(doc_id d \<mapsto> (next_version (doc_id d) (content db), s))\<rparr>"
    "account_agrees (account_row_of d) s" "written_plan fits (content db) d p"
    using write_account_row_ok [OF sql doc n snap] by blast
  have fresh: "doc_id d \<notin> doc_id ` set ds" using Cons.prems(2) by simp
  have rows: "tb_rows (content db1) = tb_rows (content db)" by (simp add: one(2))
  have others: "j \<noteq> doc_id d \<Longrightarrow> tb_accounts (content db1) j = tb_accounts (content db) j" for j by (simp add: one(2))
  have own: "tb_accounts (content db1) (doc_id d) = Some (next_version (doc_id d) (content db), s)" by (simp add: one(2))
  have ne: "doc_id e \<noteq> doc_id d" if "e \<in> set ds" for e using that fresh by (metis imageI)
  have "\<forall>e \<in> set ds. trusted fits (content db1) (doc_id e) (snap e)"
    using Cons.prems(4) trusted_cong [OF rows] others ne by simp
  moreover have "names_free same ds (content db1)" by (rule names_free_rest [OF Cons.prems(3) fresh others own one(3)])
  ultimately obtain ps db' where rest: "write_account_rows exec (map (\<lambda>d. (d, plan_write (snap d) d)) ds) db1 = Some (ps, db')"
    "tb_rows (content db') = tb_rows (content db1)"
    "\<forall>j. j \<notin> doc_id ` set ds \<longrightarrow> tb_accounts (content db') j = tb_accounts (content db1) j"
    "\<forall>d \<in> set ds. \<exists>s. tb_accounts (content db') (doc_id d) = Some (next_version (doc_id d) (content db1), s) \<and> account_agrees (account_row_of d) s"
    "list_all2 (\<lambda>d x. snd x = next_version (doc_id d) (content db1) \<and> written_plan fits (content db1) d (fst x)) ds ps"
    using Cons.IH [of db1] Cons.prems(1,2) by auto
  have version: "next_version (doc_id e) (content db1) = next_version (doc_id e) (content db)" if "e \<in> set ds" for e
    using others [OF ne [OF that]] by (simp add: next_version_def)
  have "list_all2 (\<lambda>d x. snd x = next_version (doc_id d) (content db) \<and> written_plan fits (content db) d (fst x)) ds ps"
    using rest(5)
  proof (rule list.rel_mono_strong)
    fix e x assume "e \<in> set ds"
      and "snd x = next_version (doc_id e) (content db1) \<and> written_plan fits (content db1) e (fst x)"
    then show "snd x = next_version (doc_id e) (content db) \<and> written_plan fits (content db) e (fst x)"
      using version written_plan_cong [OF rows] others [OF ne] by simp
  qed
  then have "list_all2 (\<lambda>d x. snd x = next_version (doc_id d) (content db) \<and> written_plan fits (content db) d (fst x)) (d # ds)
      ((p, next_version (doc_id d) (content db)) # ps)" using one(4) by simp
  moreover have "write_account_rows exec (map (\<lambda>d. (d, plan_write (snap d) d)) (d # ds)) db
      = Some ((p, next_version (doc_id d) (content db)) # ps, db')" using one(1) rest(1) by simp
  moreover have "\<forall>j. j \<notin> doc_id ` set (d # ds) \<longrightarrow> tb_accounts (content db') j = tb_accounts (content db) j"
    using rest(3) others by simp
  moreover have "tb_accounts (content db') (doc_id d) = Some (next_version (doc_id d) (content db), s)" using rest(3) fresh own by simp
  then have "\<forall>e \<in> set (d # ds). \<exists>s. tb_accounts (content db') (doc_id e) = Some (next_version (doc_id e) (content db), s)
      \<and> account_agrees (account_row_of e) s" using rest(4) version one(3) by auto
  moreover have "tb_rows (content db') = tb_rows (content db)" using rest(2) rows by simp
  ultimately show ?case by blast
qed

section \<open>The rows that go, of all of them\<close>

lemma written_plan_parts:
  assumes "written_plan fits db d p"
  shows "pl_id p = doc_fields d ''id''" and "pl_next p = picture_of d"
  using assms unfolding written_plan_def by (auto simp: whole_plan difference_plan)

lemma gone_of_one:
  assumes work: "\<forall>(d, p) \<in> set work. doc_ok fits d \<and> pl_id p = doc_fields d ''id''"
    and apart: "distinct (map (doc_id \<circ> fst) work)"
  shows "sql_gone (concat (map (removing \<circ> snd) work)) t s \<Longrightarrow> s ''account_id'' \<in> id_of ` fst ` set work"
    and "(d, p) \<in> set work \<Longrightarrow> s ''account_id'' = id_of d
      \<Longrightarrow> sql_gone (concat (map (removing \<circ> snd) work)) t s \<longleftrightarrow> sql_gone (removing p) t s"
proof -
  have all: "sql_gone (concat (map (removing \<circ> snd) work)) t s \<longleftrightarrow> (\<exists>(e, q) \<in> set work. sql_gone (removing q) t s)"
    by (simp add: sql_gone_def case_prod_unfold)
  have account: "s ''account_id'' = id_of e" if "(e, q) \<in> set work" "sql_gone (removing q) t s" for e q
  proof -
    have "doc_ok fits e" "pl_id q = doc_fields e ''id''" using work that(1) by auto
    then show ?thesis using gone_account [OF that(2)] doc_ok_id by (simp add: id_of_def)
  qed
  show "sql_gone (concat (map (removing \<circ> snd) work)) t s \<Longrightarrow> s ''account_id'' \<in> id_of ` fst ` set work"
    using all account by force
  assume d: "(d, p) \<in> set work" "s ''account_id'' = id_of d"
  have "q = p" if "(e, q) \<in> set work" "sql_gone (removing q) t s" for e q
  proof -
    have "doc_id e = doc_id d" using account [OF that] d(2) by (simp add: id_of_def)
    moreover have "inj_on (doc_id \<circ> fst) (set work)" using apart by (simp add: distinct_map)
    ultimately show ?thesis using inj_onD [of "doc_id \<circ> fst" "set work" "(e, q)" "(d, p)"] that(1) d(1) by simp
  qed
  then show "sql_gone (concat (map (removing \<circ> snd) work)) t s \<longleftrightarrow> sql_gone (removing p) t s"
    unfolding all using d(1) by blast
qed

lemma gone_hero:
  assumes ok: "storage_ok db" and h: "h \<in> tb_rows db Account_Avatars" "h ''id'' \<in> gone_heroes ds db"
  shows "sql_gone ds Account_Avatars h"
proof -
  obtain g where g: "g \<in> tb_rows db Account_Avatars" "sql_gone ds Account_Avatars g" "g ''id'' = h ''id''"
    using h(2) by (auto simp: gone_heroes_def)
  then have "g = h" using storage_ok_key [OF ok, of Account_Avatars] h(1) by (auto dest: inj_onD)
  then show ?thesis using g(2) by simp
qed

lemma removals_leave:
  assumes work: "\<forall>(d, p) \<in> set work. doc_ok fits d \<and> written_plan fits db d p"
    and apart: "distinct (map (doc_id \<circ> fst) work)" and ok: "storage_ok db"
    and rows: "\<And>t. tb_rows db' t = dropped t (gone_heroes (concat (map (removing \<circ> snd) work)) db)
      ` {s \<in> tb_rows db t. \<not> sql_gone (concat (map (removing \<circ> snd) work)) t s}"
  shows "\<forall>t. \<forall>(d, p) \<in> set work. left_for (child_rows_of d t) t p (rows_of_account t (id_of d) db')"
    and "same_elsewhere (id_of ` fst ` set work) db db'"
proof -
  let ?ds = "concat (map (removing \<circ> snd) work)"
  let ?D = "gone_heroes ?ds db"
  have ids: "\<forall>(d, p) \<in> set work. doc_ok fits d \<and> pl_id p = doc_fields d ''id''" using work written_plan_parts(1) by blast
  note gone_one = gone_of_one [OF ids apart]
  have owned_after: "rows_of_account t b db' = dropped t ?D ` {s \<in> rows_of_account t b db. \<not> sql_gone ?ds t s}" for t b
    by (auto simp: rows_of_account_def rows dropped_other)
  have "left_for (child_rows_of d t) t p (rows_of_account t (id_of d) db')" if w: "(d, p) \<in> set work" for d p t
  proof -
    have doc: "doc_ok fits d" and plan: "written_plan fits db d p" using work w by auto
    have own: "{s \<in> rows_of_account t (id_of d) db. \<not> sql_gone ?ds t s} = {s \<in> rows_of_account t (id_of d) db. \<not> sql_gone (removing p) t s}"
      using gone_one(2) [OF w] by (auto simp: rows_of_account_def)
    from plan show ?thesis unfolding written_plan_def
    proof
      assume p: "p = plan_write None d"
      then have "{s \<in> rows_of_account t (id_of d) db. \<not> sql_gone (removing p) t s} = {}"
        using doc_ok_id [OF doc] by (auto simp: gone_full whole_plan rows_of_account_def id_of_def)
      then show ?thesis using left_after_whole [of d t] by (simp only: owned_after own p image_empty)
    next
      assume "\<exists>v d0. p = plan_write (Some (v, picture_of d0)) d \<and> doc_ok fits d0 \<and> doc_id d0 = doc_id d \<and> account_held db d0"
      then obtain v d0 where p: "p = plan_write (Some (v, picture_of d0)) d" and d0: "doc_ok fits d0" "doc_id d0 = doc_id d" "account_held db d0"
        by blast
      have "sql_gone (removing p) Account_Avatars h" if "h \<in> rows_of_account Account_Avatars (Number (doc_id d)) db" "h ''id'' \<in> ?D" for h
        using gone_hero [OF ok, of h ?ds] gone_one(2) [OF w, of h Account_Avatars] that by (simp add: rows_of_account_def id_of_def)
      then show ?thesis
        using left_after_difference [OF d0(1) doc _ ok, of ?D v t] d0(2,3) own unfolding owned_after id_of_def p account_held_def by simp
    qed
  qed
  then show "\<forall>t. \<forall>(d, p) \<in> set work. left_for (child_rows_of d t) t p (rows_of_account t (id_of d) db')" by blast
  have "rows_of_account t b db' = rows_of_account t b db" if b: "b \<notin> id_of ` fst ` set work" for t b
  proof -
    have kept: "\<not> sql_gone ?ds t s" "dropped t ?D s = s" if s: "s \<in> rows_of_account t b db" for s
    proof -
      show "\<not> sql_gone ?ds t s" using gone_one(1) [of t s] s b by (auto simp: rows_of_account_def)
      show "dropped t ?D s = s"
      proof (rule ccontr)
        assume "dropped t ?D s \<noteq> s"
        then obtain hero with_it where hero: "hero_reference t = Some (hero, with_it)" "s hero \<in> ?D" "s(hero := Null) \<noteq> s"
          by (auto simp: dropped_def split: option.splits if_splits)
        then have "s hero \<noteq> Null" by (metis fun_upd_triv)
        then obtain h where h: "h \<in> tb_rows db Account_Avatars" "h ''id'' = s hero" "h ''account_id'' = s ''account_id''"
          using storage_ok_hero [OF ok hero(1), of s] s by (auto simp: rows_of_account_def)
        then have "sql_gone ?ds Account_Avatars h" using gone_hero [OF ok h(1)] hero(2) by simp
        then show False using gone_one(1) [of Account_Avatars h] h(3) s b by (simp add: rows_of_account_def)
      qed
    qed
    then have "{s \<in> rows_of_account t b db. \<not> sql_gone ?ds t s} = rows_of_account t b db" by blast
    then show ?thesis using kept(2) by (simp add: owned_after)
  qed
  then show "same_elsewhere (id_of ` fst ` set work) db db'" by (simp add: same_elsewhere_def)
qed

section \<open>A batch of plans\<close>

lemma row_tables_order: "distinct row_tables" "hd row_tables = Account_Avatars"
  by (simp_all add: row_tables_def child_tables_def)

lemma zipped_plans:
  assumes "list_all2 P ds ps"
  shows "map f ps = map (\<lambda>(d, x). f x) (zip ds ps)" and "map fst (zip ds ps) = ds" and "\<forall>(d, x) \<in> set (zip ds ps). P d x"
proof -
  have len: "length ds = length ps" using assms by (simp add: list_all2_iff)
  have "map f ps = map f (map snd (zip ds ps))" using len by simp
  also have "\<dots> = map (\<lambda>(d, x). f x) (zip ds ps)" by (simp add: case_prod_unfold del: map_snd_zip)
  finally show "map f ps = map (\<lambda>(d, x). f x) (zip ds ps)" .
  show "map fst (zip ds ps) = ds" "\<forall>(d, x) \<in> set (zip ds ps). P d x" using assms len by (simp_all add: list_all2_iff)
qed

lemma run_plans_ok:
  assumes sql: "sql_database fits same content exec" and ok: "storage_ok (content db)" and docs: "\<forall>d \<in> set ds. doc_ok fits d"
    and apart: "ids_apart ds" and free: "ids_free ds (content db)" and names: "names_free same ds (content db)"
    and trust: "\<forall>d \<in> set ds. trusted fits (content db) (doc_id d) (snap d)"
  shows "\<exists>ps db'. run_plans exec (map (\<lambda>d. (d, plan_write (snap d) d)) ds) db = Some (ps, db')
    \<and> (\<forall>d \<in> set ds. \<exists>s. tb_accounts (content db') (doc_id d) = Some (next_version (doc_id d) (content db), s)
        \<and> account_agrees (account_row_of d) s)
    \<and> (\<forall>j. j \<notin> doc_id ` set ds \<longrightarrow> tb_accounts (content db') j = tb_accounts (content db) j)
    \<and> (\<forall>d \<in> set ds. \<forall>t. stored_as t (child_rows_of d t) (rows_of_account t (id_of d) (content db')))
    \<and> same_elsewhere (id_of ` set ds) (content db) (content db') \<and> storage_ok (content db')
    \<and> list_all2 (\<lambda>d x. snd x = next_version (doc_id d) (content db) \<and> pl_next (fst x) = picture_of d) ds ps"
proof -
  have ids: "distinct (map doc_id ds)" using apart by (simp add: ids_apart_def)
  obtain ps db1 where one: "write_account_rows exec (map (\<lambda>d. (d, plan_write (snap d) d)) ds) db = Some (ps, db1)"
    "tb_rows (content db1) = tb_rows (content db)"
    "\<forall>j. j \<notin> doc_id ` set ds \<longrightarrow> tb_accounts (content db1) j = tb_accounts (content db) j"
    "\<forall>d \<in> set ds. \<exists>s. tb_accounts (content db1) (doc_id d) = Some (next_version (doc_id d) (content db), s)
        \<and> account_agrees (account_row_of d) s"
    "list_all2 (\<lambda>d x. snd x = next_version (doc_id d) (content db) \<and> written_plan fits (content db) d (fst x)) ds ps"
    using write_account_rows_ok [OF sql docs ids names trust] by blast
  define work where "work = map (\<lambda>(d, x). (d, fst x)) (zip ds ps)"
  note zipped = zipped_plans [OF one(5)]
  have first: "map fst work = ds" using zipped(2) by (simp add: work_def comp_def case_prod_unfold)
  have plans: "map (f \<circ> fst) ps = map (f \<circ> snd) work" for f :: "plan \<Rightarrow> statement list"
    using zipped(1) [of "f \<circ> fst"] by (simp add: work_def comp_def case_prod_unfold)
  have in_ds: "fst ` set work = set ds" using first by (metis list.set_map)
  let ?ds = "concat (map (removing \<circ> snd) work)"
  have deletes: "\<forall>st \<in> set ?ds. is_delete st" using removing_deletes by auto
  obtain db2 where two: "run_statements exec ?ds db1 = Some db2" "tb_accounts (content db2) = tb_accounts (content db1)"
    "\<forall>t. tb_rows (content db2) t = dropped t (gone_heroes ?ds (content db1)) ` {s \<in> tb_rows (content db1) t. \<not> sql_gone ?ds t s}"
    using run_deletes [OF sql deletes, of db1] by blast
  have rows2: "tb_rows (content db2) t = dropped t (gone_heroes ?ds (content db)) ` {s \<in> tb_rows (content db) t. \<not> sql_gone ?ds t s}" for t
    using two(3) one(2) by (simp add: gone_heroes_def)
  have written: "\<forall>(d, p) \<in> set work. doc_ok fits d \<and> written_plan fits (content db) d p"
  proof clarify
    fix d p assume "(d, p) \<in> set work"
    then obtain x where x: "(d, x) \<in> set (zip ds ps)" "p = fst x" by (auto simp: work_def)
    then show "doc_ok fits d \<and> written_plan fits (content db) d p" using zipped(3) docs by (auto dest: set_zip_leftD)
  qed
  have dist: "distinct (map (doc_id \<circ> fst) work)" using ids first by (metis map_map)
  note left = removals_leave [OF written dist ok rows2]
  have docs2: "\<forall>d \<in> fst ` set work. doc_ok fits d" and apart2: "ids_apart (map fst work)" using docs apart in_ds first by simp_all
  have order: "Account_Avatars \<in> set row_tables \<longrightarrow> hd row_tables = Account_Avatars" using row_tables_order(2) by simp
  have accounts2: "\<forall>d \<in> fst ` set work. tb_accounts (content db2) (doc_id d) \<noteq> None" 
    unfolding in_ds two(2) using one(4) by (metis option.distinct(1))
  have free2: "ids_free (map fst work) (content db2)"
    using ids_free_elsewhere [OF _ left(2) [unfolded in_ds]] free first by simp
  have left2: "\<forall>t. \<forall>(d, p) \<in> set work. if t \<in> set row_tables then left_for (child_rows_of d t) t p (rows_of_account t (id_of d) (content db2))
      else stored_as t (child_rows_of d t) (rows_of_account t (id_of d) (content db2))" using left(1) all_tables by simp
  obtain db3 where three:
    "run_statements exec (concat (map (\<lambda>t. concat (map (writing t \<circ> snd) work)) row_tables)) db2 = Some db3"
    "tb_accounts (content db3) = tb_accounts (content db2)"
    "\<forall>t. \<forall>(d, p) \<in> set work. stored_as t (child_rows_of d t) (rows_of_account t (id_of d) (content db3))"
    "same_elsewhere (id_of ` fst ` set work) (content db2) (content db3)"
    using write_all_tables [OF sql docs2 apart2 row_tables_order(1) order accounts2 free2 left2] by blast
  have "run_plans exec (map (\<lambda>d. (d, plan_write (snap d) d)) ds) db = Some (ps, db3)"
    using one(1) two(1) three(1) by (simp add: run_plans_def plans run_statements_append)
  moreover have elsewhere: "same_elsewhere (id_of ` set ds) (content db) (content db3)"
    using left(2) three(4) unfolding in_ds same_elsewhere_def by simp
  moreover have stored: "\<forall>d \<in> set ds. \<forall>t. stored_as t (child_rows_of d t) (rows_of_account t (id_of d) (content db3))"
    using three(3) in_ds by fastforce
  moreover have "storage_ok (content db3)" using storage_ok_after [OF ok docs apart free _ elsewhere] stored by blast
  moreover have "list_all2 (\<lambda>d x. snd x = next_version (doc_id d) (content db) \<and> pl_next (fst x) = picture_of d) ds ps"
    using one(5) by (rule list_all2_mono) (use written_plan_parts(2) in blast)
  ultimately show ?thesis using one(3,4) two(2) three(2) by auto
qed

section \<open>The pictures kept afterwards\<close>

lemma remembered_one: "x \<in> set (remember i snapshot xs) \<Longrightarrow> x = (i, snapshot) \<or> x \<in> set xs \<and> fst x \<noteq> i"
proof -
  have "set (tl ys) \<subseteq> set ys" for ys :: snapshots by (cases ys) auto
  then show "x \<in> set (remember i snapshot xs) \<Longrightarrow> x = (i, snapshot) \<or> x \<in> set xs \<and> fst x \<noteq> i"
    by (fastforce simp: remember_def Let_def split: if_splits)
qed

lemma remembered_entries:
  assumes "list_all2 (\<lambda>d x. snd x = version d \<and> pl_next (fst x) = picture_of d) ds ps"
    and "x \<in> set (fold (\<lambda>(d, p, v). remember (doc_id d) (v, pl_next p)) (zip ds ps) xs)"
  shows "(\<exists>d \<in> set ds. x = (doc_id d, version d, picture_of d)) \<or> x \<in> set xs \<and> fst x \<notin> doc_id ` set ds"
  using assms
proof (induction ds ps arbitrary: xs rule: list_all2_induct)
  case (Cons d ds y ps)
  have "(\<exists>d \<in> set ds. x = (doc_id d, version d, picture_of d))
      \<or> x \<in> set (remember (doc_id d) (snd y, pl_next (fst y)) xs) \<and> fst x \<notin> doc_id ` set ds"
    using Cons.IH [of "remember (doc_id d) (snd y, pl_next (fst y)) xs"] Cons.prems by (simp add: case_prod_unfold)
  then show ?case using remembered_one [of x "doc_id d" "(snd y, pl_next (fst y))" xs] Cons.hyps(1) by auto
qed simp

lemma remember_limit: "length xs \<le> snapshot_limit \<Longrightarrow> length (remember i snapshot xs) \<le> snapshot_limit"
proof -
  assume "length xs \<le> snapshot_limit"
  moreover have "length (filter (\<lambda>x. fst x \<noteq> i) xs) \<le> length xs" by simp
  ultimately have "length (filter (\<lambda>x. fst x \<noteq> i) xs) \<le> snapshot_limit" by (rule order_trans [rotated])
  then show ?thesis unfolding remember_def Let_def by simp
qed

lemma pictures_bounded:
  assumes "length xs \<le> snapshot_limit"
  shows "length (fst (snd (save_accounts_as_rows exec ds xs db))) \<le> snapshot_limit"
proof -
  have "length xs \<le> snapshot_limit \<Longrightarrow> length (fold (\<lambda>(d, p, v). remember (doc_id d) (v, pl_next p)) ys xs) \<le> snapshot_limit"
    for ys :: "(document \<times> plan \<times> int) list" and xs
    by (induction ys arbitrary: xs) (auto simp: remember_limit)
  moreover have "length (forget ids xs) \<le> snapshot_limit" for ids
    using assms length_filter_le [of _ xs] order_trans unfolding forget_def by blast
  ultimately show ?thesis using assms by (simp add: save_accounts_as_rows_def split: option.split)
qed

definition pictures_trusted :: "(table option \<Rightarrow> string \<Rightarrow> datum option \<Rightarrow> bool) \<Rightarrow> tables \<Rightarrow> snapshots \<Rightarrow> bool" where
  "pictures_trusted fits db xs \<longleftrightarrow> (\<forall>(i, snapshot) \<in> set xs. trusted fits db i (Some snapshot))"

lemma trusted_elsewhere:
  assumes "tb_accounts db' i = tb_accounts db i" and "\<And>t. rows_of_account t (Number i) db' = rows_of_account t (Number i) db"
  shows "trusted fits db' i (Some snapshot) = trusted fits db i (Some snapshot)"
proof -
  have "doc_id d0 = i \<Longrightarrow> account_held db' d0 = account_held db d0" for d0 using assms by (auto simp: account_held_def)
  then show ?thesis using assms(1) by (simp add: trusted_def split: prod.split) blast
qed

text \<open>C36: Accounts saved together are all in storage afterwards, whatever mixture of differences and full rewrites the save came to: every column and every row of each of them, a row that moved from one account to another included, and no row they do not have. The version of each has moved on by one, the other accounts are as they were, ids stay keys and heroes referred to stay there, and the pictures kept for the next save are of what storage holds. Assumed: the database does with the statements it is bound to take what SQL says (sql_database), the accounts are ones its columns and keys have room for, and the pictures held before were good at their versions.\<close>

theorem saved_together:
  assumes sql: "sql_database fits same content exec" and ok: "storage_ok (content db)"
    and docs: "\<forall>d \<in> set ds. doc_ok fits d" and apart: "ids_apart ds"
    and free: "ids_free ds (content db)" and names: "names_free same ds (content db)"
    and pictures: "pictures_trusted fits (content db) xs"
  shows "\<exists>xs' db'. save_accounts_as_rows exec ds xs db = (True, xs', db')
    \<and> (\<forall>d \<in> set ds. account_held (content db') d)
    \<and> (\<forall>i. i \<notin> doc_id ` set ds \<longrightarrow> tb_accounts (content db') i = tb_accounts (content db) i
        \<and> (\<forall>t. rows_of_account t (Number i) (content db') = rows_of_account t (Number i) (content db)))
    \<and> (\<forall>d \<in> set ds. map_option fst (tb_accounts (content db') (doc_id d)) = Some (next_version (doc_id d) (content db)))
    \<and> storage_ok (content db') \<and> pictures_trusted fits (content db') xs'"
proof -
  have trust: "\<forall>d \<in> set ds. trusted fits (content db) (doc_id d) (map_of xs (doc_id d))"
  proof
    fix d assume "d \<in> set ds"
    show "trusted fits (content db) (doc_id d) (map_of xs (doc_id d))"
      using pictures map_of_SomeD [of xs "doc_id d"] unfolding pictures_trusted_def
      by (cases "map_of xs (doc_id d)") (auto simp: trusted_def [of _ _ _ None])
  qed
  obtain ps db' where run: "run_plans exec (map (\<lambda>d. (d, plan_write (map_of xs (doc_id d)) d)) ds) db = Some (ps, db')"
    and accounts: "\<forall>d \<in> set ds. \<exists>s. tb_accounts (content db') (doc_id d) = Some (next_version (doc_id d) (content db), s)
        \<and> account_agrees (account_row_of d) s"
    and others: "\<forall>j. j \<notin> doc_id ` set ds \<longrightarrow> tb_accounts (content db') j = tb_accounts (content db) j"
    and stored: "\<forall>d \<in> set ds. \<forall>t. stored_as t (child_rows_of d t) (rows_of_account t (id_of d) (content db'))"
    and elsewhere: "same_elsewhere (id_of ` set ds) (content db) (content db')" and ok': "storage_ok (content db')"
    and plans: "list_all2 (\<lambda>d x. snd x = next_version (doc_id d) (content db) \<and> pl_next (fst x) = picture_of d) ds ps"
    using run_plans_ok [OF sql ok docs apart free names trust] by blast
  let ?xs = "fold (\<lambda>(d, p, v). remember (doc_id d) (v, pl_next p)) (zip ds ps) xs"
  have held: "account_held (content db') d" if "d \<in> set ds" for d
    using accounts stored that unfolding account_held_def id_of_def by blast
  have same_rows: "rows_of_account t (Number i) (content db') = rows_of_account t (Number i) (content db)" if "i \<notin> doc_id ` set ds" for i t
  proof -
    have "Number i \<notin> id_of ` set ds" using that by (auto simp: id_of_def)
    then show ?thesis using elsewhere unfolding same_elsewhere_def by blast
  qed
  have "trusted fits (content db') (fst x) (Some (snd x))" if x: "x \<in> set ?xs" for x
  proof -
    consider d where "d \<in> set ds" "x = (doc_id d, next_version (doc_id d) (content db), picture_of d)"
      | "x \<in> set xs" "fst x \<notin> doc_id ` set ds" using remembered_entries [OF plans x] by blast
    then show ?thesis
    proof cases
      case 1
      then show ?thesis using docs held [OF 1(1)] by (auto simp: trusted_def)
    next
      case 2
      then show ?thesis using pictures others same_rows trusted_elsewhere [of "content db'" "fst x" "content db" fits "snd x"]
        unfolding pictures_trusted_def by (simp add: case_prod_unfold)
    qed
  qed
  then have "pictures_trusted fits (content db') ?xs" by (simp add: pictures_trusted_def case_prod_unfold)
  moreover have "save_accounts_as_rows exec ds xs db = (True, ?xs, db')" by (simp add: save_accounts_as_rows_def run)
  moreover have "map_option fst (tb_accounts (content db') (doc_id d)) = Some (next_version (doc_id d) (content db))" if "d \<in> set ds" for d
    using accounts that by fastforce
  ultimately show ?thesis using held others same_rows ok' by blast
qed

section \<open>Storage that holds an account\<close>

text \<open>The predicates on accounts, to be evaluated.\<close>

lemma row_ok_code [code]:
  "row_ok fits t r \<longleftrightarrow> list_all (\<lambda>c. plain_field (r c) \<and> fits (Some t) c (r c)) (columns_of t)
     \<and> (case r ''id'' of Some (Number i) \<Rightarrow> True | _ \<Rightarrow> False)
     \<and> (t = Market_Sold_Listings \<longrightarrow> (case r ''sold_at'' of Some (Words us) \<Rightarrow> us \<noteq> units ''undefined'' \<and> us \<noteq> units ''null'' | _ \<Rightarrow> False))
     \<and> (t = Account_Attributes \<longrightarrow> \<not> Option.is_none (r ''name''))
     \<and> (case hero_reference t of None \<Rightarrow> True | Some (hero, _) \<Rightarrow>
          (case r hero of Some Null \<Rightarrow> True | Some (Number h) \<Rightarrow> True | None \<Rightarrow> True | _ \<Rightarrow> False))"
proof -
  have "(\<exists>i. r ''id'' = Some (Number i)) \<longleftrightarrow> (case r ''id'' of Some (Number i) \<Rightarrow> True | _ \<Rightarrow> False)"
    by (auto split: option.split datum.split)
  moreover have "(\<exists>us. r ''sold_at'' = Some (Words us) \<and> us \<noteq> units ''undefined'' \<and> us \<noteq> units ''null'')
      \<longleftrightarrow> (case r ''sold_at'' of Some (Words us) \<Rightarrow> us \<noteq> units ''undefined'' \<and> us \<noteq> units ''null'' | _ \<Rightarrow> False)"
    by (auto split: option.split datum.split)
  moreover have "(\<forall>v. r hero = Some v \<longrightarrow> v = Null \<or> (\<exists>h. v = Number h))
      \<longleftrightarrow> (case r hero of Some Null \<Rightarrow> True | Some (Number h) \<Rightarrow> True | None \<Rightarrow> True | _ \<Rightarrow> False)" for hero
    by (auto split: option.split datum.split)
  ultimately show ?thesis
    unfolding row_ok_def by (cases "hero_reference t") (auto simp: list_all_iff Option.is_none_def)
qed

lemma doc_ok_code [code]:
  "doc_ok fits d \<longleftrightarrow> (case doc_fields d ''id'' of Some (Number i) \<Rightarrow> True | _ \<Rightarrow> False)
     \<and> list_all (\<lambda>c. plain_field (account_row_of d c) \<and> fits None c (account_row_of d c)) account_columns
     \<and> list_all (\<lambda>t. list_all (\<lambda>(k, r). row_ok fits t r) (child_rows_of d t)
          \<and> list_all (\<lambda>key. distinct (map (\<lambda>(k, r). map r key) (child_rows_of d t))) (key_columns t)) row_tables"
proof -
  have "(\<exists>i. doc_fields d ''id'' = Some (Number i)) \<longleftrightarrow> (case doc_fields d ''id'' of Some (Number i) \<Rightarrow> True | _ \<Rightarrow> False)"
    by (auto split: option.split datum.split)
  then show ?thesis by (simp add: doc_ok_def list_all_iff all_tables)
qed

lemma ids_apart_code [code]:
  "ids_apart ds \<longleftrightarrow> distinct (map doc_id ds) \<and> list_all (\<lambda>d. list_all (\<lambda>e. doc_id d \<noteq> doc_id e \<longrightarrow>
     list_all (\<lambda>t. t \<noteq> Market_Sold_Listings \<longrightarrow> list_all (\<lambda>(k, r). list_all (\<lambda>(l, q). r ''id'' \<noteq> q ''id'') (child_rows_of e t)) (child_rows_of d t))
       row_tables) ds) ds"
proof (cases "distinct (map doc_id ds)")
  case True
  then have "d = e \<longleftrightarrow> doc_id d = doc_id e" if "d \<in> set ds" "e \<in> set ds" for d e
    using that by (auto simp: distinct_map dest: inj_onD)
  then show ?thesis using True by (simp add: ids_apart_def list_all_iff all_tables cong: ball_cong)
qed (simp add: ids_apart_def)

text \<open>There is storage that holds an account, in order, whatever the account.\<close>

definition stored_of :: "row \<Rightarrow> stored_row" where
  "stored_of r = (\<lambda>c. case r c of None \<Rightarrow> Null | Some v \<Rightarrow> v)"

definition stored_only :: "document \<Rightarrow> int \<Rightarrow> tables" where
  "stored_only d v = \<lparr>tb_accounts = [doc_id d \<mapsto> (v, stored_of (account_row_of d))],
     tb_rows = (\<lambda>t. (stored_of \<circ> snd) ` set (child_rows_of d t))\<rparr>"

lemma stored_of_agrees: "agrees t r (stored_of r)"
  by (auto simp: agrees_def stored_of_def split: option.split)

lemma stored_only_holds:
  assumes doc: "doc_ok fits d"
  shows "account_held (stored_only d v) d" and "storage_ok (stored_only d v)"
proof -
  have row: "stored_key t (stored_of r) = k" "stored_of r ''account_id'' = Number (doc_id d)" "stored_of r ''id'' = the (r ''id'')" "r ''id'' \<noteq> None"
    if "(k, r) \<in> set (child_rows_of d t)" for t k r
    using agrees_key [OF doc_ok_row(1) [OF doc that] stored_of_agrees] doc_ok_row [OF doc that] by (auto simp: stored_of_def row_ok_def)
  have key: "distinct (map fst (child_rows_of d t))" for t by (rule child_rows_distinct)
  have one: "x = y" if "x \<in> set (child_rows_of d t)" "y \<in> set (child_rows_of d t)" "fst x = fst y" for t x y
    using key [of t] that by (metis eq_key_imp_eq_value prod.collapse)
  have rows_of_account: "rows_of_account t (Number (doc_id d)) (stored_only d v) = (stored_of \<circ> snd) ` set (child_rows_of d t)" for t
    using row(2) by (force simp: rows_of_account_def stored_only_def)
  have stored: "stored_as t (child_rows_of d t) ((stored_of \<circ> snd) ` set (child_rows_of d t))" for t
    unfolding stored_as_def
  proof (intro conjI ballI allI impI)
    show "inj_on (stored_key t) ((stored_of \<circ> snd) ` set (child_rows_of d t))"
      using row(1) one by (auto intro!: inj_onI) metis
    show "stored_key t ` (stored_of \<circ> snd) ` set (child_rows_of d t) = fst ` set (child_rows_of d t)"
      using row(1) by (force simp: image_image)
    fix s r assume "s \<in> (stored_of \<circ> snd) ` set (child_rows_of d t)" and r: "(stored_key t s, r) \<in> set (child_rows_of d t)"
    then obtain k q where "(k, q) \<in> set (child_rows_of d t)" "s = stored_of q" by auto
    then show "agrees t r s" using one [OF _ r, of "(k, q)"] row(1) stored_of_agrees by auto
  qed
  have "account_agrees (account_row_of d) (stored_of (account_row_of d))" by (auto simp: account_agrees_def stored_of_def)
  then show "account_held (stored_only d v) d" using stored by (simp add: account_held_def rows_of_account) (simp add: stored_only_def)
  show "storage_ok (stored_only d v)"
    unfolding storage_ok_def
  proof (intro conjI allI impI ballI)
    fix t assume "t \<noteq> Market_Sold_Listings"
    then show "inj_on (\<lambda>s. s ''id'') (tb_rows (stored_only d v) t)"
      using stored_asD(1) [OF stored, of t] by (auto simp: stored_only_def inj_on_def stored_key_by_id)
  next
    fix t hero with_it s
    assume hero: "hero_reference t = Some (hero, with_it)" and s: "s \<in> tb_rows (stored_only d v) t" "s hero \<noteq> Null"
    obtain k r where r: "(k, r) \<in> set (child_rows_of d t)" "s = stored_of r" using s(1) by (auto simp: stored_only_def)
    then have some: "r hero = Some (s hero)" using s(2) by (auto simp: stored_of_def split: option.splits)
    then obtain i where i: "s hero = Number i" using doc_ok_row(1) [OF doc r(1)] hero s(2) unfolding row_ok_def by blast
    have "number_text i \<in> fst ` set (child_rows_of d Account_Avatars)"
      using child_rows_facts(3) [OF r(1) hero] some i by (auto simp: heroes_are_rows)
    then obtain q where q: "(number_text i, q) \<in> set (child_rows_of d Account_Avatars)" by auto
    obtain j where "q ''id'' = Some (Number j)" using doc_ok_row(1) [OF doc q] by (auto simp: row_ok_def)
    then have "stored_of q ''id'' = s hero"
      using doc_ok_row(2) [OF doc q] i by (auto simp: key_in_def stored_of_def dest: number_text_inject)
    moreover have "stored_of q \<in> tb_rows (stored_only d v) Account_Avatars" using q by (force simp: stored_only_def)
    ultimately show "\<exists>h \<in> tb_rows (stored_only d v) Account_Avatars. h ''id'' = s hero \<and> h ''account_id'' = s ''account_id''"
      using row(2) [OF q] row(2) [OF r(1)] r(2) by auto
  qed
qed

section \<open>A trade, saved\<close>

text \<open>
  A weapon (row 7) equipped to a hero (row 11) of account 1, of which a thread has a picture at version 3, goes to
  account 2, which storage does not have yet. Both are saved together.
\<close>

definition fields_of :: "(string \<times> datum) list \<Rightarrow> row" where
  "fields_of xs = map_of xs"

definition seller_before :: document where
  "seller_before = \<lparr>doc_fields = fields_of [(''id'', Number 1), (''name'', Words (units ''Ada''))],
     doc_lists = (\<lambda>t. if t = Account_Avatars then [fields_of [(''id'', Number 11), (''avatar_id'', Number 101)]]
       else if t = Account_Items then [fields_of [(''id'', Number 7), (''item_id'', Number 900), (''avatar_id'', Number 11), (''avatar_slot'', Number 1)]]
       else [])\<rparr>"

definition seller_after :: document where
  "seller_after = seller_before\<lparr>doc_lists := (doc_lists seller_before)(Account_Items := [])\<rparr>"

definition buyer_after :: document where
  "buyer_after = \<lparr>doc_fields = fields_of [(''id'', Number 2), (''name'', Words (units ''Bea''))],
     doc_lists = (\<lambda>t. if t = Account_Avatars then [fields_of [(''id'', Number 12), (''avatar_id'', Number 101)]]
       else if t = Account_Items then [fields_of [(''id'', Number 7), (''item_id'', Number 900), (''avatar_id'', Number 11), (''avatar_slot'', Number 1)]]
       else [])\<rparr>"

definition any_fits :: "table option \<Rightarrow> string \<Rightarrow> datum option \<Rightarrow> bool" where
  "any_fits t c v = True"

definition takes_all :: "tables executor" where
  "takes_all s db = Some (sql_answered s db, performed (\<lambda>_ _. Null) s db)"

lemma takes_all_database: "sql_database any_fits (=) id takes_all"
  by (auto simp: sql_database_def takes_all_def defaults_ok_def)

lemma trade_documents: "doc_ok any_fits seller_before" "doc_ok any_fits seller_after" "doc_ok any_fits buyer_after"
  "ids_apart [seller_after, buyer_after]" "doc_id seller_before = 1" "doc_id seller_after = 1" "doc_id buyer_after = 2"
  by code_simp+

lemma trade_names:
  "account_row_of seller_after ''name'' = Some (Words (units ''Ada''))" "account_row_of seller_before ''name'' = Some (Words (units ''Ada''))"
  "account_row_of buyer_after ''name'' = Some (Words (units ''Bea''))" "units ''Ada'' \<noteq> units ''Bea''"
  by code_simp+

lemma trade_storage:
  "pictures_trusted any_fits (stored_only seller_before 3) [(1, 3, picture_of seller_before)]"
  "ids_free [seller_after, buyer_after] (stored_only seller_before 3)"
  "names_free (=) [seller_after, buyer_after] (stored_only seller_before 3)"
proof -
  note before = stored_only_holds [OF trade_documents(1), of 3]
  show "pictures_trusted any_fits (stored_only seller_before 3) [(1, 3, picture_of seller_before)]"
    using trade_documents(1,5) before(1) by (auto simp: pictures_trusted_def trusted_def)
  have "s ''account_id'' = id_of seller_after" if "s \<in> tb_rows (stored_only seller_before 3) t" for s t
  proof -
    obtain k r where r: "(k, r) \<in> set (child_rows_of seller_before t)" "s = stored_of r" using \<open>s \<in> _\<close> by (auto simp: stored_only_def)
    then show ?thesis using doc_ok_row(3) [OF trade_documents(1) r(1)] trade_documents(5,6) by (simp add: stored_of_def id_of_def)
  qed
  then show "ids_free [seller_after, buyer_after] (stored_only seller_before 3)" by (fastforce simp: ids_free_def)
  have "stored_of (account_row_of seller_before) ''name'' = Words (units ''Ada'')" using trade_names(2) by (simp add: stored_of_def)
  then show "names_free (=) [seller_after, buyer_after] (stored_only seller_before 3)"
    using trade_names trade_documents(5,6,7) by (simp add: names_free_def name_unused_def stored_only_def)
qed

lemma saved_together_witness:
  "\<exists>xs' db'. save_accounts_as_rows takes_all [seller_after, buyer_after] [(1, 3, picture_of seller_before)] (stored_only seller_before 3)
      = (True, xs', db')
    \<and> account_held db' seller_after \<and> account_held db' buyer_after \<and> map_option fst (tb_accounts db' 1) = Some 4 \<and> map_option fst (tb_accounts db' 2) = Some 1
    \<and> pictures_trusted any_fits db' xs'"
proof -
  have "\<forall>d \<in> set [seller_after, buyer_after]. doc_ok any_fits d" using trade_documents(2,3) by simp
  moreover have "next_version 1 (stored_only seller_before 3) = 4" "next_version 2 (stored_only seller_before 3) = 1"
    using trade_documents(5) by (simp_all add: next_version_def stored_only_def)
  ultimately show ?thesis
    using saved_together [OF takes_all_database, of "stored_only seller_before 3" "[seller_after, buyer_after]" "[(1, 3, picture_of seller_before)]"]
      stored_only_holds(2) [OF trade_documents(1)] trade_storage trade_documents(4,6,7) by auto
qed

end
