(* ===== verification/Progression.thy ===== *)
theory Progression
  imports Prelude
begin

text \<open>
  Hero levels and the points they earn (\<open>src/progression.js\<close>), and where points are placed and taken back:
  the training of a hero (\<open>avatarrecord/updateAvatarSlots\<close> in \<open>src/rpc-handlers.js\<close>) and the retraining the
  shop sells (\<open>respec\<close> in \<open>src/store.js\<close>). The \<open>Leveling\<close> table is game data and an argument.
\<close>

section \<open>The ladder of a hero\<close>

text \<open>A row of the table: what the level costs is a column for each hero, 0 when it is missing.\<close>

record level_row =
  lv_level :: int
  lv_points :: int
  lv_cost :: "string \<Rightarrow> int"

record rung =
  ru_level :: int
  ru_experience :: int
  ru_points :: int

fun ladder_from :: "string \<Rightarrow> int \<Rightarrow> int \<Rightarrow> level_row list \<Rightarrow> rung list" where
  "ladder_from hero experience points [] = []"
| "ladder_from hero experience points (r # rs) =
     (if lv_cost r hero = 0 then ladder_from hero experience points rs
      else \<lparr>ru_level = lv_level r, ru_experience = experience + lv_cost r hero - 1, ru_points = points + lv_points r\<rparr>
        # ladder_from hero (experience + lv_cost r hero) (points + lv_points r) rs)"

definition level_ladder :: "level_row list \<Rightarrow> string \<Rightarrow> rung list" where
  "level_ladder leveling hero = ladder_from hero 0 0 leveling"

text \<open>The first rung at or above the experience held, the last one past the end; \<open>None\<close> of a hero without a ladder.\<close>

definition rung_for :: "rung list \<Rightarrow> int \<Rightarrow> rung option" where
  "rung_for ladder experience =
     (case find_row (\<lambda>r. experience \<le> ru_experience r) ladder of
        Some r \<Rightarrow> Some r
      | None \<Rightarrow> if ladder = [] then None else Some (last ladder))"

definition hero_level :: "level_row list \<Rightarrow> string \<Rightarrow> int \<Rightarrow> int" where
  "hero_level leveling hero experience =
     (case rung_for (level_ladder leveling hero) experience of None \<Rightarrow> 1 | Some r \<Rightarrow> ru_level r)"

definition stat_points_earned :: "level_row list \<Rightarrow> string \<Rightarrow> int \<Rightarrow> int" where
  "stat_points_earned leveling hero experience =
     (case rung_for (level_ladder leveling hero) experience of None \<Rightarrow> 0 | Some r \<Rightarrow> ru_points r)"

definition max_level :: "level_row list \<Rightarrow> string \<Rightarrow> int" where
  "max_level leveling hero =
     (let ladder = level_ladder leveling hero in if ladder = [] then 1 else ru_level (last ladder))"

text \<open>The least experience that reads as a level; without a ladder the reading of its rung throws.\<close>

definition experience_for_level :: "level_row list \<Rightarrow> string \<Rightarrow> int \<Rightarrow> int option" where
  "experience_for_level leveling hero level =
     (let ladder = level_ladder leveling hero; index = min (max level 1) (int (length ladder)) - 1 in
      if index = 0 then Some 0 else if index < 0 then None else Some (ru_experience (ladder ! nat (index - 1)) + 1))"

section \<open>Training\<close>

definition stat_cap :: int where
  "stat_cap = 75"

definition stat_slots :: nat where
  "stat_slots = 4"

record trainee =
  tr_hero :: string
  tr_experience :: int
  tr_stats :: "int list"

datatype training_refusal = Not_Whole nat | Over_Cap nat | Needs_Retrain nat | Not_Earned

text \<open>The slots asked for, in order; one that is null, missing or empty text is \<open>None\<close>.\<close>

definition check_slot :: "int list \<Rightarrow> nat \<Rightarrow> js_number option \<Rightarrow> training_refusal + int" where
  "check_slot stats i asked =
     (case asked of
        Some (Whole n) \<Rightarrow>
          (if n < 0 then Inl (Not_Whole i)
           else if stat_cap < n then Inl (Over_Cap i)
           else if n < stats ! i then Inl (Needs_Retrain i)
           else Inr n)
      | _ \<Rightarrow> Inl (Not_Whole i))"

fun check_slots :: "int list \<Rightarrow> (nat \<times> js_number option) list \<Rightarrow> training_refusal + int list" where
  "check_slots stats [] = Inr []"
| "check_slots stats ((i, asked) # rest) =
     (case check_slot stats i asked of
        Inl e \<Rightarrow> Inl e
      | Inr n \<Rightarrow> (case check_slots stats rest of Inl e \<Rightarrow> Inl e | Inr ns \<Rightarrow> Inr (n # ns)))"

definition update_avatar_slots :: "level_row list \<Rightarrow> js_number option list \<Rightarrow> trainee \<Rightarrow> training_refusal + trainee" where
  "update_avatar_slots leveling asked t =
     (case check_slots (tr_stats t) (map (\<lambda>i. (i, if i < length asked then asked ! i else None)) [0..<stat_slots]) of
        Inl e \<Rightarrow> Inl e
      | Inr wanted \<Rightarrow>
          if stat_points_earned leveling (tr_hero t) (tr_experience t) < sum_list wanted then Inl Not_Earned
          else Inr (t\<lparr>tr_stats := wanted\<rparr>))"

text \<open>Retraining: the points come back, if any were placed.\<close>

definition retrain :: "trainee \<Rightarrow> trainee option" where
  "retrain t = (if sum_list (tr_stats t) = 0 then None else Some (t\<lparr>tr_stats := replicate stat_slots 0\<rparr>))"

section \<open>What the ladder says\<close>

text \<open>Costs and points are not negative.\<close>

definition leveling_ok :: "level_row list \<Rightarrow> string \<Rightarrow> bool" where
  "leveling_ok leveling hero \<longleftrightarrow> list_all (\<lambda>r. 0 \<le> lv_cost r hero \<and> 0 \<le> lv_points r) leveling"

lemma ladder_from_sorted:
  assumes "leveling_ok leveling hero"
  shows "sorted_wrt (\<lambda>r s. ru_experience r < ru_experience s \<and> ru_points r \<le> ru_points s) (ladder_from hero e p leveling)
    \<and> (\<forall>r \<in> set (ladder_from hero e p leveling). e \<le> ru_experience r \<and> p \<le> ru_points r)"
  using assms
proof (induction leveling arbitrary: e p)
  case (Cons r rs)
  then have "0 \<le> lv_cost r hero" and "0 \<le> lv_points r" and "leveling_ok rs hero" by (simp_all add: leveling_ok_def)
  show ?case
  proof (cases "lv_cost r hero = 0")
    case True
    then show ?thesis using Cons.IH [of e p] \<open>leveling_ok rs hero\<close> by simp
  next
    case False
    note above = Cons.IH [of "e + lv_cost r hero" "p + lv_points r", OF \<open>leveling_ok rs hero\<close>]
    have "e + lv_cost r hero - 1 < ru_experience x \<and> p + lv_points r \<le> ru_points x \<and> e \<le> ru_experience x \<and> p \<le> ru_points x"
      if "x \<in> set (ladder_from hero (e + lv_cost r hero) (p + lv_points r) rs)" for x
      using above that \<open>0 \<le> lv_cost r hero\<close> \<open>0 \<le> lv_points r\<close> by force
    then show ?thesis using above False \<open>0 \<le> lv_cost r hero\<close> \<open>0 \<le> lv_points r\<close> by auto
  qed
qed simp

lemma ladder_sorted:
  assumes "leveling_ok leveling hero"
  shows "sorted_wrt (\<lambda>r s. ru_experience r < ru_experience s \<and> ru_points r \<le> ru_points s) (level_ladder leveling hero)"
    and "r \<in> set (level_ladder leveling hero) \<Longrightarrow> 0 \<le> ru_experience r \<and> 0 \<le> ru_points r"
  using ladder_from_sorted [OF assms, of 0 0] by (simp_all add: level_ladder_def)

lemma rung_for_Cons:
  "rung_for (r # rs) x = (if x \<le> ru_experience r \<or> rs = [] then Some r else rung_for rs x)"
  by (auto simp: rung_for_def split: option.split)

lemma rung_for_mem: "rung_for ladder x = Some r \<Longrightarrow> r \<in> set ladder"
  by (induction ladder) (auto simp: rung_for_Cons rung_for_def [of "[]"] split: if_splits)

lemma rung_for_mono:
  assumes "sorted_wrt (\<lambda>r s. ru_experience r < ru_experience s \<and> f r \<le> (f s :: int)) ladder"
    and "x \<le> y" "rung_for ladder x = Some r" "rung_for ladder y = Some s"
  shows "f r \<le> f s"
  using assms
proof (induction ladder)
  case (Cons l ladder)
  show ?case
  proof (cases "y \<le> ru_experience l \<or> ladder = []")
    case True
    then show ?thesis using Cons.prems by (auto simp: rung_for_Cons split: if_splits)
  next
    case False
    then have "rung_for ladder y = Some s" using Cons.prems(4) by (simp add: rung_for_Cons)
    moreover from this have "s \<in> set ladder" by (rule rung_for_mem)
    ultimately show ?thesis using Cons False by (auto simp: rung_for_Cons split: if_splits)
  qed
qed (simp add: rung_for_def)

lemma rung_for_None [simp]: "rung_for ladder x = None \<longleftrightarrow> ladder = []"
  by (auto simp: rung_for_def split: option.split)

lemma points_mono:
  assumes "leveling_ok leveling hero" "x \<le> y"
  shows "stat_points_earned leveling hero x \<le> stat_points_earned leveling hero y"
proof (cases "level_ladder leveling hero = []")
  case False
  then obtain r s where r: "rung_for (level_ladder leveling hero) x = Some r" "rung_for (level_ladder leveling hero) y = Some s"
    by (metis not_None_eq rung_for_None)
  then show ?thesis
    using rung_for_mono [OF ladder_sorted(1) [OF assms(1)] assms(2) r] by (simp add: stat_points_earned_def)
qed (simp add: stat_points_earned_def rung_for_def)

lemma points_nonneg:
  assumes "leveling_ok leveling hero"
  shows "0 \<le> stat_points_earned leveling hero x"
  using ladder_sorted(2) [OF assms] rung_for_mem by (fastforce simp: stat_points_earned_def split: option.split)

text \<open>The least experience of a level reads as that level, and less reads as a lower rung.\<close>

lemma rung_at:
  assumes "sorted_wrt (\<lambda>r s. ru_experience r < ru_experience s) ladder" and "i < length ladder"
    and "i = 0 \<Longrightarrow> x \<le> ru_experience (ladder ! 0)"
    and "0 < i \<Longrightarrow> ru_experience (ladder ! (i - 1)) < x \<and> x \<le> ru_experience (ladder ! i)"
  shows "rung_for ladder x = Some (ladder ! i)"
  using assms
proof (induction ladder arbitrary: i)
  case (Cons r ladder)
  show ?case
  proof (cases i)
    case 0
    then show ?thesis using Cons.prems(3) by (simp add: rung_for_Cons)
  next
    case (Suc j)
    have "ru_experience r \<le> ru_experience ((r # ladder) ! j)"
    proof (cases j)
      case (Suc k)
      then show ?thesis using Cons.prems(1,2) \<open>i = Suc j\<close> by (auto intro!: less_imp_le)
    qed simp
    then have "ru_experience r < x" using Cons.prems(4) Suc by simp
    moreover have "rung_for ladder x = Some (ladder ! j)"
    proof (rule Cons.IH)
      show "j = 0 \<Longrightarrow> x \<le> ru_experience (ladder ! 0)" using Cons.prems(4) Suc by simp
      show "0 < j \<Longrightarrow> ru_experience (ladder ! (j - 1)) < x \<and> x \<le> ru_experience (ladder ! j)"
        using Cons.prems(4) Suc by (cases j) simp_all
    qed (use Cons.prems Suc in simp_all)
    moreover have "ladder \<noteq> []" using Cons.prems(2) Suc by auto
    ultimately show ?thesis using Suc by (simp add: rung_for_Cons)
  qed
qed simp

text \<open>
  The least experience of a level reads back as that level, and one point less as the level below, for every
  level of a hero's ladder that numbers its rungs from one.
\<close>

lemma level_roundtrip:
  assumes ok: "leveling_ok leveling hero" and numbered: "map ru_level (level_ladder leveling hero) = map int [1..<Suc n]"
    and level: "1 \<le> level" "level \<le> int n"
  shows "\<exists>e. experience_for_level leveling hero level = Some e \<and> hero_level leveling hero e = level
    \<and> (1 < level \<longrightarrow> hero_level leveling hero (e - 1) = level - 1)"
proof -
  let ?ladder = "level_ladder leveling hero"
  define i where "i = nat (level - 1)"
  have n: "length ?ladder = n" using arg_cong [OF numbered, of length] by simp
  have i: "i < length ?ladder" "int i = level - 1" using level n by (simp_all add: i_def)
  have sorted: "sorted_wrt (\<lambda>r s. ru_experience r < ru_experience s) ?ladder"
    using ladder_sorted(1) [OF ok] by (rule sorted_wrt_mono_rel [rotated]) simp
  have at_level: "ru_level (?ladder ! k) = int k + 1" if "k < length ?ladder" for k
  proof -
    have "map ru_level ?ladder ! k = map int [1..<Suc n] ! k" by (simp only: numbered)
    then show ?thesis using that n by (simp del: upt_Suc)
  qed
  have index: "min (max level 1) (int (length ?ladder)) - 1 = int i" using level n i by simp
  show ?thesis
  proof (cases i)
    case 0
    have "rung_for ?ladder 0 = Some (?ladder ! 0)"
      using ladder_sorted(2) [OF ok nth_mem [of 0 ?ladder]] i 0 by (intro rung_at [OF sorted]) simp_all
    then have "hero_level leveling hero 0 = level" using at_level [of 0] i 0 by (simp add: hero_level_def)
    moreover have "experience_for_level leveling hero level = Some 0"
      by (simp only: experience_for_level_def Let_def index) (simp add: 0)
    ultimately show ?thesis using i 0 by simp
  next
    case (Suc j)
    let ?e = "ru_experience (?ladder ! j) + 1"
    have step: "ru_experience (?ladder ! j) < ru_experience (?ladder ! i)"
      using sorted_wrt_nth_less [OF sorted, of j i] i Suc by simp
    have "rung_for ?ladder ?e = Some (?ladder ! i)" using step i Suc by (intro rung_at [OF sorted]) simp_all
    moreover have "rung_for ?ladder (?e - 1) = Some (?ladder ! j)"
    proof (rule rung_at [OF sorted])
      show "0 < j \<Longrightarrow> ru_experience (?ladder ! (j - 1)) < ?e - 1 \<and> ?e - 1 \<le> ru_experience (?ladder ! j)"
        using sorted_wrt_nth_less [OF sorted, of "j - 1" j] i Suc by simp
    qed (use i Suc in simp_all)
    moreover have "experience_for_level leveling hero level = Some ?e"
      by (simp only: experience_for_level_def Let_def index) (simp add: Suc)
    ultimately show ?thesis using at_level [of i] at_level [of j] i Suc by (simp add: hero_level_def)
  qed
qed

definition two_levels :: "level_row list" where
  "two_levels = [\<lparr>lv_level = 1, lv_points = 2, lv_cost = (\<lambda>_. 100)\<rparr>, \<lparr>lv_level = 2, lv_points = 2, lv_cost = (\<lambda>_. 150)\<rparr>]"

lemma two_levels_ladder:
  "leveling_ok two_levels ''RANGER''" "map ru_level (level_ladder two_levels ''RANGER'') = map int [1..<Suc 2]"
  by code_simp+

lemma level_roundtrip_witness:
  "\<exists>e. experience_for_level two_levels ''RANGER'' 2 = Some e \<and> hero_level two_levels ''RANGER'' e = 2
     \<and> hero_level two_levels ''RANGER'' (e - 1) = 1"
  using level_roundtrip [OF two_levels_ladder, of 2] by simp

section \<open>Points placed are points earned\<close>

datatype training_event = Trains "js_number option list" | Retrains | Gains nat

fun training_step :: "level_row list \<Rightarrow> training_event \<Rightarrow> trainee \<Rightarrow> trainee" where
  "training_step leveling (Trains asked) t = (case update_avatar_slots leveling asked t of Inl _ \<Rightarrow> t | Inr t' \<Rightarrow> t')"
| "training_step leveling Retrains t = (case retrain t of None \<Rightarrow> t | Some t' \<Rightarrow> t')"
| "training_step leveling (Gains n) t = t\<lparr>tr_experience := tr_experience t + int n\<rparr>"

definition new_trainee :: "string \<Rightarrow> trainee" where
  "new_trainee hero = \<lparr>tr_hero = hero, tr_experience = 0, tr_stats = replicate stat_slots 0\<rparr>"

definition trained_ok :: "level_row list \<Rightarrow> trainee \<Rightarrow> bool" where
  "trained_ok leveling t \<longleftrightarrow> length (tr_stats t) = stat_slots \<and> list_all (\<lambda>n. 0 \<le> n \<and> n \<le> stat_cap) (tr_stats t)
     \<and> sum_list (tr_stats t) \<le> stat_points_earned leveling (tr_hero t) (tr_experience t)"

lemma check_slots_Inr:
  "check_slots stats asked = Inr ns \<Longrightarrow> length ns = length asked \<and> list_all (\<lambda>n. 0 \<le> n \<and> n \<le> stat_cap) ns
     \<and> list_all2 (\<lambda>(i, _) n. stats ! i \<le> n) asked ns"
  by (induction stats asked arbitrary: ns rule: check_slots.induct)
    (auto simp: check_slot_def split: sum.splits option.splits js_number.splits if_splits)

lemma update_avatar_slots_Inr:
  assumes "update_avatar_slots leveling asked t = Inr t'"
  shows "tr_hero t' = tr_hero t" "tr_experience t' = tr_experience t" "trained_ok leveling t'"
    "length (tr_stats t) = stat_slots \<Longrightarrow> list_all2 (\<le>) (tr_stats t) (tr_stats t')"
proof -
  let ?asked = "map (\<lambda>i. (i, if i < length asked then asked ! i else None)) [0..<stat_slots]"
  obtain ns where ns: "check_slots (tr_stats t) ?asked = Inr ns" "t' = t\<lparr>tr_stats := ns\<rparr>"
    "sum_list ns \<le> stat_points_earned leveling (tr_hero t) (tr_experience t)"
    using assms by (auto simp: update_avatar_slots_def split: sum.splits if_splits)
  note found = check_slots_Inr [OF ns(1)]
  show "tr_hero t' = tr_hero t" "tr_experience t' = tr_experience t" by (simp_all add: ns(2))
  show "trained_ok leveling t'" using found ns(2,3) by (simp add: trained_ok_def)
  show "length (tr_stats t) = stat_slots \<Longrightarrow> list_all2 (\<le>) (tr_stats t) (tr_stats t')"
    using found by (auto simp: ns(2) list_all2_conv_all_nth)
qed

lemma training_step_ok:
  assumes "trained_ok leveling t" and "leveling_ok leveling (tr_hero t)"
  shows "trained_ok leveling (training_step leveling ev t)" and "tr_hero (training_step leveling ev t) = tr_hero t"
proof -
  have "trained_ok leveling (training_step leveling ev t) \<and> tr_hero (training_step leveling ev t) = tr_hero t"
  proof (cases ev)
    case (Trains asked)
    then show ?thesis using assms update_avatar_slots_Inr by (auto split: sum.split)
  next
    case Retrains
    then show ?thesis using assms points_nonneg [OF assms(2)]
      by (auto simp: retrain_def trained_ok_def stat_cap_def sum_list_replicate list_all_iff split: option.split)
  next
    case (Gains n)
    then show ?thesis using assms points_mono [OF assms(2), of "tr_experience t" "tr_experience t + int n"]
      by (simp add: trained_ok_def)
  qed
  then show "trained_ok leveling (training_step leveling ev t)" "tr_hero (training_step leveling ev t) = tr_hero t" by simp_all
qed

text \<open>C40: However a hero is trained, retrained and played, and whatever numbers a client asks for, the points on its four
  stats are points its level has earned, no stat is negative or over the cap, and training lowers none.
\<close>

theorem points_stay_earned:
  assumes ok: "leveling_ok leveling hero"
  shows "trained_ok leveling (fold (training_step leveling) events (new_trainee hero))
    \<and> (case update_avatar_slots leveling asked (fold (training_step leveling) events (new_trainee hero)) of
         Inl e \<Rightarrow> True
       | Inr t' \<Rightarrow> list_all2 (\<le>) (tr_stats (fold (training_step leveling) events (new_trainee hero))) (tr_stats t'))"
proof -
  have "trained_ok leveling t \<Longrightarrow> tr_hero t = hero \<Longrightarrow> trained_ok leveling (fold (training_step leveling) events t)" for t
    by (induction events arbitrary: t) (simp_all add: training_step_ok ok)
  moreover have "trained_ok leveling (new_trainee hero)"
    using points_nonneg [OF ok] by (simp add: new_trainee_def trained_ok_def stat_cap_def sum_list_replicate list_all_iff)
  ultimately have "trained_ok leveling (fold (training_step leveling) events (new_trainee hero))" by (simp add: new_trainee_def)
  then show ?thesis using update_avatar_slots_Inr(4) by (auto simp: trained_ok_def split: sum.split)
qed

definition trained_once :: "training_event list" where
  "trained_once = [Gains 120, Trains (map (Some \<circ> Whole) [2, 1, 0, 1]), Trains (map (Some \<circ> Whole) [2, 1, 0, 2])]"

lemma points_stay_earned_witness:
  "tr_stats (fold (training_step two_levels) trained_once (new_trainee ''RANGER'')) = [2, 1, 0, 1]
     \<and> trained_ok two_levels (fold (training_step two_levels) trained_once (new_trainee ''RANGER''))"
proof -
  have "tr_stats (fold (training_step two_levels) trained_once (new_trainee ''RANGER'')) = [2, 1, 0, 1]" by code_simp
  then show ?thesis using points_stay_earned [OF two_levels_ladder(1)] by blast
qed

end
