(* ===== verification/Shop.thy ===== *)
theory Shop
  imports Accounts Progression
begin

text \<open>
  The shop (\<open>src/store.js\<close>): what an offer grants, row by row of its details, what it costs and when it is refused.
  The tables of the game (\<open>GameMaster\<close>) are an argument, a column that is missing 0 or \<open>None\<close>; the allocator of
  row ids is a number handed on. A grant changes the account as it goes, so a refusal in the middle leaves what
  was granted before it; the caller has the account as it then is.
\<close>

section \<open>The tables\<close>

datatype currency = Coin_Offer | Gem_Offer | Money_Offer

datatype modifier_ref = No_Modifier | Modifier_Number int | Modifier_Constant string

datatype key_column = Basic_Keys | Uncommon_Keys | Rare_Keys | Legendary_Keys

record offer =
  of_id :: int
  of_name :: string
  of_price :: int
  of_currency :: currency

record offer_detail =
  dt_offer :: int
  dt_weapon :: int
  dt_weapon_power :: int
  dt_level :: "int option"
  dt_rarity :: string
  dt_modifier1 :: modifier_ref
  dt_modifier2 :: modifier_ref
  dt_modifier3 :: modifier_ref
  dt_stackable :: int
  dt_stackable_count :: int
  dt_keys :: "key_column \<Rightarrow> int"
  dt_small_keys :: int
  dt_royal_keys :: int
  dt_coins :: int
  dt_gems :: int
  dt_weapon_slots :: int
  dt_chest :: int
  dt_hero :: int
  dt_skin :: int
  dt_pet :: int

record modifier_entry =
  mo_id :: int
  mo_constant :: string
  mo_level :: int
  mo_type :: string

record rarity_entry =
  ra_id :: int
  ra_type :: string
  ra_modifiers :: nat
  ra_min_level :: "int option"
  ra_max_level :: "int option"
  ra_legendary :: bool

record weapon_row =
  wr_id :: int
  wr_constant :: string
  wr_mastertype :: string
  wr_power :: rat
  wr_accepts :: "string list"

record hero_row =
  he_id :: int
  he_constant :: string
  he_types :: "string list"

record chest_row =
  cr_id :: int
  cr_rarity :: string

record game_tables =
  gm_offers :: "offer list"
  gm_details :: "offer_detail list"
  gm_rarities :: "rarity_entry list"
  gm_modifiers :: "modifier_entry list"
  gm_legendary :: "modifier_entry list"
  gm_weapons :: "weapon_row list"
  gm_heroes :: "hero_row list"
  gm_chests :: "chest_row list"
  gm_drops :: "(string \<times> (int \<times> rat) list) list"
  gm_leveling :: "level_row list"

section \<open>Who buys\<close>

text \<open>
  The rows the market knows, and what the shop adds: gems, the heroes' looks and points, skins and pets.
\<close>

record pet_row =
  pt_id :: int
  pt_npc :: int
  pt_equipped :: "int option"

record shopper =
  sp_account :: account
  sp_gems :: int
  sp_looks :: "int \<Rightarrow> int"
  sp_stats :: "int \<Rightarrow> int list"
  sp_skins :: "(int \<times> int) list"
  sp_pets :: "pet_row list"
  sp_highest :: "int option"
  sp_active :: int

definition on_account :: "(account \<Rightarrow> account) \<Rightarrow> shopper \<Rightarrow> shopper" where
  "on_account f p = p\<lparr>sp_account := f (sp_account p)\<rparr>"

fun keys_of :: "key_column \<Rightarrow> account \<Rightarrow> int" where
  "keys_of Basic_Keys a = ac_basic_keys a"
| "keys_of Uncommon_Keys a = ac_uncommon_keys a"
| "keys_of Rare_Keys a = ac_rare_keys a"
| "keys_of Legendary_Keys a = ac_legendary_keys a"

fun add_keys :: "key_column \<Rightarrow> int \<Rightarrow> account \<Rightarrow> account" where
  "add_keys Basic_Keys n a = a\<lparr>ac_basic_keys := ac_basic_keys a + n\<rparr>"
| "add_keys Uncommon_Keys n a = a\<lparr>ac_uncommon_keys := ac_uncommon_keys a + n\<rparr>"
| "add_keys Rare_Keys n a = a\<lparr>ac_rare_keys := ac_rare_keys a + n\<rparr>"
| "add_keys Legendary_Keys n a = a\<lparr>ac_legendary_keys := ac_legendary_keys a + n\<rparr>"

definition key_columns_in_order :: "key_column list" where
  "key_columns_in_order = [Basic_Keys, Uncommon_Keys, Rare_Keys, Legendary_Keys]"

section \<open>Granting a detail\<close>

datatype store_refusal = No_Such_Offer | Real_Money | Only_Given | Cannot_Afford | Grants_Nothing | Storage_Full
  | Unknown_Hero | No_Active_Avatar | No_Points_Placed | Would_Grant_Nothing

text \<open>What a grant has come to: the next row id, the account, whether anything was handed over, the chests that were.\<close>

record till =
  tl_next :: int
  tl_shopper :: shopper
  tl_granted :: bool
  tl_chests :: "int list"

type_synonym deed = "till \<Rightarrow> store_refusal option \<times> till"

fun do_all :: "deed list \<Rightarrow> deed" where
  "do_all [] t = (None, t)"
| "do_all (d # ds) t = (case d t of (None, t') \<Rightarrow> do_all ds t' | (Some e, t') \<Rightarrow> (Some e, t'))"

definition handed :: "(shopper \<Rightarrow> shopper) \<Rightarrow> till \<Rightarrow> till" where
  "handed f t = t\<lparr>tl_shopper := f (tl_shopper t), tl_granted := True\<rparr>"

definition modifier_id_for :: "modifier_entry list \<Rightarrow> modifier_ref \<Rightarrow> int" where
  "modifier_id_for rows ref =
     (case ref of No_Modifier \<Rightarrow> 0 | Modifier_Number n \<Rightarrow> n
      | Modifier_Constant c \<Rightarrow> (case find_row (\<lambda>r. mo_constant r = c) rows of None \<Rightarrow> 0 | Some r \<Rightarrow> mo_id r))"

definition rarity_id_for :: "game_tables \<Rightarrow> string \<Rightarrow> int" where
  "rarity_id_for gm rarity = (case find_row (\<lambda>r. ra_type r = rarity) (gm_rarities gm) of None \<Rightarrow> 1 | Some r \<Rightarrow> ra_id r)"

definition shop_weapon :: "game_tables \<Rightarrow> int \<Rightarrow> int \<Rightarrow> int \<Rightarrow> offer_detail \<Rightarrow> item" where
  "shop_weapon gm now i account_id d =
     \<lparr>it_id = i, it_account_id = account_id, it_item_id = dt_weapon d, it_power = Some (dt_weapon_power d),
      it_avatar_id = None, it_avatar_slot = None, it_is_new = 1,
      it_requiredlevel = Some (case dt_level d of None \<Rightarrow> 1 | Some l \<Rightarrow> l), it_rarity = Some (rarity_id_for gm (dt_rarity d)),
      it_modifier1 = Some (modifier_id_for (gm_modifiers gm) (dt_modifier1 d)),
      it_modifier2 = Some (modifier_id_for (gm_modifiers gm) (dt_modifier2 d)),
      it_legendarymodifier = Some (modifier_id_for (gm_legendary gm) (dt_modifier3 d)), it_created = Some now\<rparr>"

definition storage_full :: "shopper \<Rightarrow> bool" where
  "storage_full p = (storage_limit (sp_account p) \<le> int (occupied_slots (sp_account p)))"

definition add_item :: "item \<Rightarrow> account \<Rightarrow> account" where
  "add_item it a = a\<lparr>ac_items := ac_items a @ [it]\<rparr>"

definition grant_weapon :: "game_tables \<Rightarrow> int \<Rightarrow> offer_detail \<Rightarrow> deed" where
  "grant_weapon gm now d t =
     (if dt_weapon d = 0 then (None, t)
      else if storage_full (tl_shopper t) then (Some Storage_Full, t)
      else (None, (handed (on_account (add_item (shop_weapon gm now (tl_next t) (ac_id (sp_account (tl_shopper t))) d))) t)
        \<lparr>tl_next := tl_next t + 1\<rparr>))"

text \<open>More of a stack: on its row where there is one, in a new row otherwise.\<close>

fun raise_stack :: "int \<Rightarrow> int \<Rightarrow> stackable list \<Rightarrow> stackable list" where
  "raise_stack stack n [] = []"
| "raise_stack stack n (r # rs) = (if st_stack_id r = stack then r\<lparr>st_count := st_count r + n\<rparr> # rs else r # raise_stack stack n rs)"

definition add_stackable :: "int \<Rightarrow> int \<Rightarrow> deed" where
  "add_stackable stack n t =
     (let a = sp_account (tl_shopper t) in
      if find_row (\<lambda>r. st_stack_id r = stack) (ac_stackables a) \<noteq> None
      then (None, handed (on_account (\<lambda>a. a\<lparr>ac_stackables := raise_stack stack n (ac_stackables a)\<rparr>)) t)
      else (None, (handed (on_account (\<lambda>a. a\<lparr>ac_stackables := ac_stackables a
          @ [\<lparr>st_id = tl_next t, st_account_id = ac_id a, st_stack_id = stack, st_count = n, st_is_new = 1\<rparr>]\<rparr>)) t)
        \<lparr>tl_next := tl_next t + 1\<rparr>))"

definition grant_stackable :: "offer_detail \<Rightarrow> deed" where
  "grant_stackable d t =
     (if dt_stackable d \<noteq> 0 \<and> dt_stackable_count d \<noteq> 0 then add_stackable (dt_stackable d) (dt_stackable_count d) t else (None, t))"

definition grant_keys :: "offer_detail \<Rightarrow> key_column \<Rightarrow> deed" where
  "grant_keys d k t = (None, if dt_keys d k = 0 then t else handed (on_account (add_keys k (dt_keys d k))) t)"

definition consumable_key_stackables :: "offer_detail \<Rightarrow> (int \<times> int) list" where
  "consumable_key_stackables d = [(dt_small_keys d, 60001), (dt_royal_keys d, 60018)]"

definition grant_consumable_keys :: "int \<times> int \<Rightarrow> deed" where
  "grant_consumable_keys x t = (if fst x = 0 then (None, t) else add_stackable (snd x) (fst x) t)"

definition grant_coins :: "offer_detail \<Rightarrow> deed" where
  "grant_coins d t = (None, if dt_coins d = 0 then t else handed (on_account (\<lambda>a. a\<lparr>ac_gold := ac_gold a + dt_coins d\<rparr>)) t)"

definition grant_gems :: "offer_detail \<Rightarrow> deed" where
  "grant_gems d t = (None, if dt_gems d = 0 then t else handed (\<lambda>p. p\<lparr>sp_gems := sp_gems p + dt_gems d\<rparr>) t)"

definition grant_slots :: "offer_detail \<Rightarrow> deed" where
  "grant_slots d t = (None, if dt_weapon_slots d = 0 then t
     else handed (on_account (\<lambda>a. a\<lparr>ac_buckets_weapon := ac_buckets_weapon a + dt_weapon_slots d\<rparr>)) t)"

definition grant_chest :: "offer_detail \<Rightarrow> deed" where
  "grant_chest d t =
     (if dt_chest d = 0 then (None, t)
      else if storage_full (tl_shopper t) then (Some Storage_Full, t)
      else (None, (handed (on_account (\<lambda>a. a\<lparr>ac_chests := ac_chests a @ [\<lparr>ch_id = tl_next t, ch_chest_id = dt_chest d\<rparr>]\<rparr>)) t)
        \<lparr>tl_next := tl_next t + 1, tl_chests := tl_chests t @ [tl_next t]\<rparr>))"

text \<open>The two weapons a bought hero comes with: the lowest of each of its first two mastery types.\<close>

definition starts_with :: "string \<Rightarrow> string \<Rightarrow> bool" where
  "starts_with prefix s = (take (length prefix) s = prefix)"

fun contains_text :: "string \<Rightarrow> string \<Rightarrow> bool" where
  "contains_text part [] = (part = [])"
| "contains_text part (c # cs) = (starts_with part (c # cs) \<or> contains_text part cs)"

fun lowest :: "weapon_row list \<Rightarrow> weapon_row option" where
  "lowest [] = None"
| "lowest (w # ws) = (case lowest ws of None \<Rightarrow> Some w | Some v \<Rightarrow> if wr_id w \<le> wr_id v then Some w else Some v)"

definition starter_weapons :: "game_tables \<Rightarrow> hero_row \<Rightarrow> weapon_row list" where
  "starter_weapons gm hero =
     List.map_filter (\<lambda>type. lowest (filter (\<lambda>w. wr_mastertype w = type \<and> starts_with ''HERO_'' (wr_constant w)
       \<and> \<not> contains_text ''LEGACY'' (wr_constant w) \<and> 0 < wr_power w) (gm_weapons gm))) (take 2 (he_types hero))"

definition starter_item :: "int \<Rightarrow> int \<Rightarrow> int \<Rightarrow> int \<Rightarrow> nat \<Rightarrow> weapon_row \<Rightarrow> item" where
  "starter_item now i account_id avatar slot w =
     \<lparr>it_id = i, it_account_id = account_id, it_item_id = wr_id w, it_power = Some (max 1 \<lfloor>wr_power w + 1 / 2\<rfloor>),
      it_avatar_id = Some avatar, it_avatar_slot = Some (int slot), it_is_new = 0, it_requiredlevel = Some 1, it_rarity = Some 1,
      it_modifier1 = Some 0, it_modifier2 = Some 0, it_legendarymodifier = Some 0, it_created = Some now\<rparr>"

definition grant_starter :: "int \<Rightarrow> int \<Rightarrow> nat \<times> weapon_row \<Rightarrow> till \<Rightarrow> till" where
  "grant_starter now avatar x t =
     (handed (on_account (\<lambda>a. add_item (starter_item now (tl_next t) (ac_id a) avatar (fst x) (snd x)) a)) t)\<lparr>tl_next := tl_next t + 1\<rparr>"

definition new_avatar :: "int \<Rightarrow> int \<Rightarrow> avatar" where
  "new_avatar i hero = \<lparr>av_id = i, av_hero = hero, av_experience = 0, av_consumable1_id = 0, av_consumable1_count = 0,
     av_consumable2_id = 0, av_consumable2_count = 0\<rparr>"

definition add_avatar :: "int \<Rightarrow> int \<Rightarrow> shopper \<Rightarrow> shopper" where
  "add_avatar i hero p =
     (let avatars = ac_avatars (sp_account p) @ [new_avatar i hero] in
      (on_account (\<lambda>a. a\<lparr>ac_avatars := avatars\<rparr>) p)
        \<lparr>sp_looks := (sp_looks p)(i := hero + 50), sp_stats := (sp_stats p)(i := replicate stat_slots 0),
         sp_highest := Some (max (case sp_highest p of None \<Rightarrow> 1 | Some n \<Rightarrow> n) (int (length avatars)))\<rparr>)"

definition grant_hero :: "game_tables \<Rightarrow> int \<Rightarrow> offer_detail \<Rightarrow> deed" where
  "grant_hero gm now d t =
     (if dt_hero d = 0 then (None, t)
      else case find_row (\<lambda>h. he_id h = dt_hero d) (gm_heroes gm) of
          None \<Rightarrow> (Some Unknown_Hero, t)
        | Some hero \<Rightarrow>
            if find_row (\<lambda>v. av_hero v = dt_hero d) (ac_avatars (sp_account (tl_shopper t))) \<noteq> None then (None, t)
            else let avatar = tl_next t; t = (handed (add_avatar avatar (dt_hero d)) t)\<lparr>tl_next := avatar + 1\<rparr> in
              (None, fold (grant_starter now avatar) (enumerate 0 (starter_weapons gm hero)) t))"

definition grant_skin :: "offer_detail \<Rightarrow> deed" where
  "grant_skin d t =
     (None, if dt_skin d = 0 \<or> find_row (\<lambda>s. snd s = dt_skin d) (sp_skins (tl_shopper t)) \<noteq> None then t
        else (handed (\<lambda>p. p\<lparr>sp_skins := sp_skins p @ [(tl_next t, dt_skin d)]\<rparr>) t)\<lparr>tl_next := tl_next t + 1\<rparr>)"

definition grant_pet :: "offer_detail \<Rightarrow> deed" where
  "grant_pet d t =
     (None, if dt_pet d = 0 then t
        else (handed (\<lambda>p. p\<lparr>sp_pets := sp_pets p @ [\<lparr>pt_id = tl_next t, pt_npc = dt_pet d, pt_equipped = None\<rparr>]\<rparr>) t)
          \<lparr>tl_next := tl_next t + 1\<rparr>)"

definition apply_detail :: "game_tables \<Rightarrow> int \<Rightarrow> offer_detail \<Rightarrow> deed" where
  "apply_detail gm now d = do_all
     ([grant_weapon gm now d, grant_stackable d] @ map (grant_keys d) key_columns_in_order
      @ map grant_consumable_keys (consumable_key_stackables d)
      @ [grant_coins d, grant_gems d, grant_slots d, grant_chest d, grant_hero gm now d, grant_skin d, grant_pet d])"

section \<open>Buying an offer\<close>

definition respec_offer_id :: int where
  "respec_offer_id = 51303"

definition respec :: deed where
  "respec t =
     (let p = tl_shopper t in
      case find_row (\<lambda>v. av_id v = sp_active p) (ac_avatars (sp_account p)) of
        None \<Rightarrow> (Some No_Active_Avatar, t)
      | Some v \<Rightarrow>
          if sum_list (sp_stats p (av_id v)) = 0 then (Some No_Points_Placed, t)
          else (None, handed (\<lambda>p. p\<lparr>sp_stats := (sp_stats p)(av_id v := replicate stat_slots 0)\<rparr>) t))"

definition balance_in :: "currency \<Rightarrow> shopper \<Rightarrow> int" where
  "balance_in c p = (case c of Coin_Offer \<Rightarrow> ac_gold (sp_account p) | Gem_Offer \<Rightarrow> sp_gems p | Money_Offer \<Rightarrow> 0)"

definition charge :: "offer \<Rightarrow> shopper \<Rightarrow> shopper" where
  "charge f p =
     (case of_currency f of
        Coin_Offer \<Rightarrow> on_account (\<lambda>a. a\<lparr>ac_gold := ac_gold a - of_price f\<rparr>) p
      | Gem_Offer \<Rightarrow> p\<lparr>sp_gems := sp_gems p - of_price f\<rparr>
      | Money_Offer \<Rightarrow> p)"

definition price_refusal :: "offer \<Rightarrow> shopper \<Rightarrow> store_refusal option" where
  "price_refusal f p =
     (if of_currency f = Money_Offer then Some Real_Money
      else if of_price f \<le> 0 then Some Only_Given
      else if balance_in (of_currency f) p < of_price f then Some Cannot_Afford
      else None)"

text \<open>The offer bought, free of charge or not: the chests it added or the refusal, and what is left either way.\<close>

definition purchase_offer ::
    "game_tables \<Rightarrow> int \<Rightarrow> int \<Rightarrow> bool \<Rightarrow> int \<times> shopper \<Rightarrow> (store_refusal + int list) \<times> int \<times> shopper" where
  "purchase_offer gm now offer_id free s =
     (case s of (next_id, p) \<Rightarrow>
      case find_row (\<lambda>f. of_id f = offer_id) (gm_offers gm) of
        None \<Rightarrow> (Inl No_Such_Offer, s)
      | Some f \<Rightarrow>
          case (if free then None else price_refusal f p) of
            Some e \<Rightarrow> (Inl e, s)
          | None \<Rightarrow>
              let details = filter (\<lambda>d. dt_offer d = offer_id) (gm_details gm) in
              if details = [] \<and> offer_id \<noteq> respec_offer_id then (Inl Grants_Nothing, s)
              else case do_all ((if offer_id = respec_offer_id then [respec] else []) @ map (apply_detail gm now) details)
                  \<lparr>tl_next = next_id, tl_shopper = p, tl_granted = False, tl_chests = []\<rparr> of
                (Some e, t) \<Rightarrow> (Inl e, tl_next t, tl_shopper t)
              | (None, t) \<Rightarrow>
                  if \<not> tl_granted t then (Inl Would_Grant_Nothing, tl_next t, tl_shopper t)
                  else (Inr (tl_chests t), tl_next t, if free then tl_shopper t else charge f (tl_shopper t)))"

section \<open>What a grant pays out\<close>

datatype purse = Coins_Held | Gems_Held | Keys_Held key_column | Slots_Held | Stack_Held int | Chests_Held int

definition stack_total :: "int \<Rightarrow> stackable list \<Rightarrow> int" where
  "stack_total stack rows = sum_list (map st_count (filter (\<lambda>r. st_stack_id r = stack) rows))"

definition chest_total :: "int \<Rightarrow> chest list \<Rightarrow> int" where
  "chest_total kind rows = int (length (filter (\<lambda>c. ch_chest_id c = kind) rows))"

fun in_purse :: "purse \<Rightarrow> shopper \<Rightarrow> int" where
  "in_purse Coins_Held p = ac_gold (sp_account p)"
| "in_purse Gems_Held p = sp_gems p"
| "in_purse (Keys_Held k) p = keys_of k (sp_account p)"
| "in_purse Slots_Held p = ac_buckets_weapon (sp_account p)"
| "in_purse (Stack_Held stack) p = stack_total stack (ac_stackables (sp_account p))"
| "in_purse (Chests_Held kind) p = chest_total kind (ac_chests (sp_account p))"

fun pays :: "purse \<Rightarrow> offer_detail \<Rightarrow> int" where
  "pays Coins_Held d = dt_coins d"
| "pays Gems_Held d = dt_gems d"
| "pays (Keys_Held k) d = dt_keys d k"
| "pays Slots_Held d = dt_weapon_slots d"
| "pays (Stack_Held stack) d =
     (if dt_stackable d = stack \<and> stack \<noteq> 0 then dt_stackable_count d else 0)
     + (if stack = 60001 then dt_small_keys d else 0) + (if stack = 60018 then dt_royal_keys d else 0)"
| "pays (Chests_Held kind) d = (if dt_chest d = kind \<and> kind \<noteq> 0 then 1 else 0)"


definition detail_ok :: "offer_detail \<Rightarrow> bool" where
  "detail_ok d \<longleftrightarrow> 0 \<le> dt_coins d \<and> 0 \<le> dt_gems d \<and> (\<forall>k. 0 \<le> dt_keys d k) \<and> 0 \<le> dt_weapon_slots d
     \<and> 0 \<le> dt_stackable_count d \<and> 0 \<le> dt_small_keys d \<and> 0 \<le> dt_royal_keys d"

lemma pays_nonneg: "detail_ok d \<Longrightarrow> 0 \<le> pays k d"
  by (cases k) (auto simp: detail_ok_def)

text \<open>A deed pays \<open>f\<close>: done, every purse holds \<open>f\<close> more; refused, nothing has happened.\<close>

definition pays_out :: "deed \<Rightarrow> (purse \<Rightarrow> int) \<Rightarrow> bool" where
  "pays_out d f \<longleftrightarrow> (\<forall>t. case d t of
     (None, t') \<Rightarrow> (\<forall>k. in_purse k (tl_shopper t') = in_purse k (tl_shopper t) + f k) \<and> (t' = t \<or> tl_granted t') \<and> (tl_granted t \<longrightarrow> tl_granted t')
   | (Some e, t') \<Rightarrow> t' = t)"

lemma pays_outD:
  assumes "pays_out d f"
  shows "d t = (None, t') \<Longrightarrow> in_purse k (tl_shopper t') = in_purse k (tl_shopper t) + f k"
    and "d t = (None, t') \<Longrightarrow> t' = t \<or> tl_granted t'" and "d t = (None, t') \<Longrightarrow> tl_granted t \<Longrightarrow> tl_granted t'"
    and "d t = (Some e, t') \<Longrightarrow> t' = t"
  using assms unfolding pays_out_def by (auto dest: spec [of _ t])

lemma stack_total_raise:
  "\<exists>r \<in> set rows. st_stack_id r = stack \<Longrightarrow>
     stack_total s (raise_stack stack n rows) = stack_total s rows + (if s = stack then n else 0)"
proof (induction rows)
  case (Cons r rows)
  show ?case
  proof (cases "st_stack_id r = stack")
    case False
    then have "\<exists>r \<in> set rows. st_stack_id r = stack" using Cons.prems by simp
    then show ?thesis using Cons.IH False by (auto simp: stack_total_def)
  qed (simp add: stack_total_def)
qed simp

lemma keys_of_same [simp]:
  "keys_of k (a\<lparr>ac_gold := x1\<rparr>) = keys_of k a" "keys_of k (a\<lparr>ac_items := x2\<rparr>) = keys_of k a"
  "keys_of k (a\<lparr>ac_chests := x3\<rparr>) = keys_of k a" "keys_of k (a\<lparr>ac_stackables := x4\<rparr>) = keys_of k a"
  "keys_of k (a\<lparr>ac_avatars := x5\<rparr>) = keys_of k a" "keys_of k (a\<lparr>ac_buckets_weapon := x6\<rparr>) = keys_of k a"
  by (cases k; simp)+

lemma add_keys_same [simp]:
  "ac_gold (add_keys k n a) = ac_gold a" "ac_items (add_keys k n a) = ac_items a" "ac_chests (add_keys k n a) = ac_chests a"
  "ac_stackables (add_keys k n a) = ac_stackables a" "ac_buckets_weapon (add_keys k n a) = ac_buckets_weapon a"
  "ac_id (add_keys k n a) = ac_id a" "ac_avatars (add_keys k n a) = ac_avatars a"
  by (cases k; simp)+

lemma keys_of_add_keys [simp]: "keys_of j (add_keys k n a) = keys_of j a + (if j = k then n else 0)"
  by (cases k; cases j) simp_all

lemma pays_add_stackable: "pays_out (add_stackable stack n) (\<lambda>k. if k = Stack_Held stack then n else 0)"
proof -
  have "in_purse k (on_account (\<lambda>a. a\<lparr>ac_stackables := raise_stack stack n (ac_stackables a)\<rparr>) p)
      = in_purse k p + (if k = Stack_Held stack then n else 0)" if "\<exists>r \<in> set (ac_stackables (sp_account p)). st_stack_id r = stack" for k p
    using stack_total_raise [OF that] by (cases k) (auto simp: on_account_def)
  moreover have "in_purse k (on_account (\<lambda>a. a\<lparr>ac_stackables := ac_stackables a @ [r a]\<rparr>) p)
      = in_purse k p + (if k = Stack_Held (st_stack_id (r (sp_account p))) then st_count (r (sp_account p)) else 0)" for k p r
    by (cases k) (auto simp: on_account_def stack_total_def)
  ultimately show ?thesis
    unfolding pays_out_def add_stackable_def Let_def handed_def by auto
qed

lemma pays_if:
  assumes "pays_out d f"
  shows "pays_out (\<lambda>t. if b then d t else (None, t)) (\<lambda>k. if b then f k else 0)"
  using assms by (cases b) (simp_all add: pays_out_def)

lemma in_purse_add_item [simp]: "in_purse k (on_account (add_item it) p) = in_purse k p"
    "in_purse k (on_account (\<lambda>a. add_item (g a) a) p) = in_purse k p"
  by (cases k; simp add: on_account_def add_item_def)+

lemma in_purse_add_keys: "in_purse k (on_account (add_keys j n) p) = in_purse k p + (if k = Keys_Held j then n else 0)"
  by (cases k) (simp_all add: on_account_def)

lemma in_purse_add_coins: "in_purse k (on_account (\<lambda>a. a\<lparr>ac_gold := ac_gold a + n\<rparr>) p) = in_purse k p + (if k = Coins_Held then n else 0)"
  by (cases k) (simp_all add: on_account_def)

lemma in_purse_add_slots:
  "in_purse k (on_account (\<lambda>a. a\<lparr>ac_buckets_weapon := ac_buckets_weapon a + n\<rparr>) p) = in_purse k p + (if k = Slots_Held then n else 0)"
  by (cases k) (simp_all add: on_account_def)

lemma in_purse_add_gems: "in_purse k (p\<lparr>sp_gems := sp_gems p + n\<rparr>) = in_purse k p + (if k = Gems_Held then n else 0)"
  by (cases k) simp_all

lemma in_purse_add_chest:
  "in_purse k (on_account (\<lambda>a. a\<lparr>ac_chests := ac_chests a @ [\<lparr>ch_id = i, ch_chest_id = kind\<rparr>]\<rparr>) p)
     = in_purse k p + (if k = Chests_Held kind then 1 else 0)"
  by (cases k) (simp_all add: on_account_def chest_total_def)

lemma in_purse_other [simp]:
  "in_purse k (p\<lparr>sp_looks := l, sp_stats := s, sp_highest := h\<rparr>) = in_purse k p"
  "in_purse k (p\<lparr>sp_skins := x\<rparr>) = in_purse k p" "in_purse k (p\<lparr>sp_pets := y\<rparr>) = in_purse k p"
  "in_purse k (p\<lparr>sp_stats := s\<rparr>) = in_purse k p"
  "in_purse k (on_account (\<lambda>a. a\<lparr>ac_avatars := v\<rparr>) p) = in_purse k p"
  by (cases k; simp add: on_account_def)+

lemma in_purse_add_avatar [simp]: "in_purse k (add_avatar i hero p) = in_purse k p"
  by (simp add: add_avatar_def Let_def)

lemma pays_weapon: "pays_out (grant_weapon gm now d) (\<lambda>_. 0)"
  unfolding pays_out_def grant_weapon_def handed_def by simp

lemma pays_keys: "pays_out (grant_keys d j) (\<lambda>k. if k = Keys_Held j then dt_keys d j else 0)"
  unfolding pays_out_def grant_keys_def handed_def by (simp add: in_purse_add_keys)

lemma pays_stackable: "pays_out (grant_stackable d) (\<lambda>k. if k = Stack_Held (dt_stackable d) \<and> dt_stackable d \<noteq> 0 then dt_stackable_count d else 0)"
proof -
  have "(\<lambda>k. if dt_stackable d \<noteq> 0 \<and> dt_stackable_count d \<noteq> 0 then if k = Stack_Held (dt_stackable d) then dt_stackable_count d else 0 else 0)
      = (\<lambda>k. if k = Stack_Held (dt_stackable d) \<and> dt_stackable d \<noteq> 0 then dt_stackable_count d else 0)" by auto
  then show ?thesis
    using pays_if [OF pays_add_stackable [of "dt_stackable d" "dt_stackable_count d"], of "dt_stackable d \<noteq> 0 \<and> dt_stackable_count d \<noteq> 0"]
    by (simp add: grant_stackable_def [abs_def])
qed

lemma pays_consumable_keys: "pays_out (grant_consumable_keys x) (\<lambda>k. if k = Stack_Held (snd x) then fst x else 0)"
proof -
  have "(\<lambda>k. if fst x \<noteq> 0 then if k = Stack_Held (snd x) then fst x else 0 else 0) = (\<lambda>k. if k = Stack_Held (snd x) then fst x else 0)" by auto
  moreover have "grant_consumable_keys x = (\<lambda>t. if fst x \<noteq> 0 then add_stackable (snd x) (fst x) t else (None, t))"
    by (simp add: fun_eq_iff grant_consumable_keys_def)
  ultimately show ?thesis using pays_if [OF pays_add_stackable [of "snd x" "fst x"], of "fst x \<noteq> 0"] by simp
qed

lemma pays_coins: "pays_out (grant_coins d) (\<lambda>k. if k = Coins_Held then dt_coins d else 0)"
  unfolding pays_out_def grant_coins_def handed_def by (simp add: in_purse_add_coins)

lemma pays_gems: "pays_out (grant_gems d) (\<lambda>k. if k = Gems_Held then dt_gems d else 0)"
  unfolding pays_out_def grant_gems_def handed_def by (simp add: in_purse_add_gems)

lemma pays_slots: "pays_out (grant_slots d) (\<lambda>k. if k = Slots_Held then dt_weapon_slots d else 0)"
  unfolding pays_out_def grant_slots_def handed_def by (simp add: in_purse_add_slots)

lemma pays_chest: "pays_out (grant_chest d) (\<lambda>k. if k = Chests_Held (dt_chest d) \<and> dt_chest d \<noteq> 0 then 1 else 0)"
  unfolding pays_out_def grant_chest_def handed_def by (simp add: in_purse_add_chest)

lemma pays_skin: "pays_out (grant_skin d) (\<lambda>_. 0)"
  unfolding pays_out_def grant_skin_def handed_def by simp

lemma pays_pet: "pays_out (grant_pet d) (\<lambda>_. 0)"
  unfolding pays_out_def grant_pet_def handed_def by simp

lemma in_purse_starter [simp]:
  "in_purse k (tl_shopper (grant_starter now v x t)) = in_purse k (tl_shopper t)" "tl_granted (grant_starter now v x t)"
  by (simp_all add: grant_starter_def handed_def)

lemma fold_starters:
  "in_purse k (tl_shopper (fold (grant_starter now v) xs t)) = in_purse k (tl_shopper t)"
  "tl_granted t \<Longrightarrow> tl_granted (fold (grant_starter now v) xs t)"
  by (induction xs arbitrary: t) simp_all

lemma pays_hero: "pays_out (grant_hero gm now d) (\<lambda>_. 0)"
  unfolding pays_out_def grant_hero_def Let_def by (auto simp: fold_starters handed_def split: option.split)

lemma pays_respec: "pays_out respec (\<lambda>_. 0)"
  unfolding pays_out_def respec_def Let_def by (auto simp: handed_def split: option.split)

text \<open>Deeds one after the other pay what each pays; refused midway, what those before paid.\<close>

lemma pays_do_all:
  assumes "list_all2 pays_out ds fs" and "do_all ds t = (e, t')"
  shows "e = None \<Longrightarrow> in_purse k (tl_shopper t') = in_purse k (tl_shopper t) + (\<Sum>f\<leftarrow>fs. f k)"
    and "e = None \<Longrightarrow> t' = t \<or> tl_granted t'"
    and "tl_granted t \<Longrightarrow> tl_granted t'"
    and "(\<And>f k. f \<in> set fs \<Longrightarrow> 0 \<le> f k) \<Longrightarrow> in_purse k (tl_shopper t) \<le> in_purse k (tl_shopper t')"
proof -
  have "(e = None \<longrightarrow> in_purse k (tl_shopper t') = in_purse k (tl_shopper t) + (\<Sum>f\<leftarrow>fs. f k))
      \<and> (e = None \<longrightarrow> t' = t \<or> tl_granted t') \<and> (tl_granted t \<longrightarrow> tl_granted t')
      \<and> ((\<forall>f \<in> set fs. 0 \<le> f k) \<longrightarrow> in_purse k (tl_shopper t) \<le> in_purse k (tl_shopper t'))"
    using assms
  proof (induction ds fs arbitrary: t rule: list_all2_induct)
    case (Cons d ds f fs)
    obtain e1 t1 where one: "d t = (e1, t1)" by force
    show ?case
    proof (cases e1)
      case None
      then have "do_all ds t1 = (e, t')" using Cons.prems one by simp
      then show ?thesis using Cons.IH [of t1] pays_outD(1) [OF Cons.hyps(1), of t t1 k] pays_outD(2,3) [OF Cons.hyps(1), of t t1] one None by auto
    next
      case (Some r)
      then show ?thesis using Cons.prems one pays_outD(4) [OF Cons.hyps(1), of t r t1] by auto
    qed
  qed simp
  then show "e = None \<Longrightarrow> in_purse k (tl_shopper t') = in_purse k (tl_shopper t) + (\<Sum>f\<leftarrow>fs. f k)"
    and "e = None \<Longrightarrow> t' = t \<or> tl_granted t'" and "tl_granted t \<Longrightarrow> tl_granted t'"
    and "(\<And>f k. f \<in> set fs \<Longrightarrow> 0 \<le> f k) \<Longrightarrow> in_purse k (tl_shopper t) \<le> in_purse k (tl_shopper t')" by auto
qed

text \<open>The deeds of a detail and what each pays.\<close>

definition detail_pays :: "offer_detail \<Rightarrow> (purse \<Rightarrow> int) list" where
  "detail_pays d = [\<lambda>_. 0, \<lambda>k. if k = Stack_Held (dt_stackable d) \<and> dt_stackable d \<noteq> 0 then dt_stackable_count d else 0]
     @ map (\<lambda>j k. if k = Keys_Held j then dt_keys d j else 0) key_columns_in_order
     @ map (\<lambda>x k. if k = Stack_Held (snd x) then fst x else 0) (consumable_key_stackables d)
     @ [\<lambda>k. if k = Coins_Held then dt_coins d else 0, \<lambda>k. if k = Gems_Held then dt_gems d else 0,
        \<lambda>k. if k = Slots_Held then dt_weapon_slots d else 0, \<lambda>k. if k = Chests_Held (dt_chest d) \<and> dt_chest d \<noteq> 0 then 1 else 0,
        \<lambda>_. 0, \<lambda>_. 0, \<lambda>_. 0]"



lemma pays_detail_deeds:
  "list_all2 pays_out
     ([grant_weapon gm now d, grant_stackable d] @ map (grant_keys d) key_columns_in_order
      @ map grant_consumable_keys (consumable_key_stackables d)
      @ [grant_coins d, grant_gems d, grant_slots d, grant_chest d, grant_hero gm now d, grant_skin d, grant_pet d]) (detail_pays d)"
  by (simp add: detail_pays_def key_columns_in_order_def consumable_key_stackables_def pays_weapon pays_stackable pays_keys
      pays_consumable_keys [where x = "(n, stack)" for n stack, simplified] pays_coins pays_gems pays_slots pays_chest pays_hero pays_skin pays_pet)

lemma do_all_append: "do_all (xs @ ys) t = (case do_all xs t of (None, t') \<Rightarrow> do_all ys t' | (Some e, t') \<Rightarrow> (Some e, t'))"
  by (induction xs arbitrary: t) (auto split: prod.split option.split)

lemma do_all_concat: "do_all (map do_all dss) t = do_all (concat dss) t"
  by (induction dss arbitrary: t) (auto simp: do_all_append split: prod.split option.split)

text \<open>Everything a purchase does, in one list of deeds.\<close>

definition detail_deeds :: "game_tables \<Rightarrow> int \<Rightarrow> offer_detail \<Rightarrow> deed list" where
  "detail_deeds gm now d = [grant_weapon gm now d, grant_stackable d] @ map (grant_keys d) key_columns_in_order
      @ map grant_consumable_keys (consumable_key_stackables d)
      @ [grant_coins d, grant_gems d, grant_slots d, grant_chest d, grant_hero gm now d, grant_skin d, grant_pet d]"

definition offer_deeds :: "game_tables \<Rightarrow> int \<Rightarrow> int \<Rightarrow> deed list" where
  "offer_deeds gm now offer_id = (if offer_id = respec_offer_id then [respec] else [])
     @ concat (map (detail_deeds gm now) (filter (\<lambda>d. dt_offer d = offer_id) (gm_details gm)))"

lemma purchase_deeds:
  "do_all ((if offer_id = respec_offer_id then [respec] else []) @ map (apply_detail gm now) ds) t
     = do_all ((if offer_id = respec_offer_id then [respec] else []) @ concat (map (detail_deeds gm now) ds)) t"
proof -
  have "map (apply_detail gm now) ds = map do_all (map (detail_deeds gm now) ds)"
    by (simp add: apply_detail_def detail_deeds_def fun_eq_iff)
  then show ?thesis by (simp only: do_all_append do_all_concat)
qed

definition offer_pays :: "game_tables \<Rightarrow> int \<Rightarrow> (purse \<Rightarrow> int) list" where
  "offer_pays gm offer_id = (if offer_id = respec_offer_id then [\<lambda>_. 0] else [])
     @ concat (map detail_pays (filter (\<lambda>d. dt_offer d = offer_id) (gm_details gm)))"

lemma list_all2_concat_map: "(\<And>x. x \<in> set xs \<Longrightarrow> list_all2 P (f x) (g x)) \<Longrightarrow> list_all2 P (concat (map f xs)) (concat (map g xs))"
  by (induction xs) (auto intro: list_all2_appendI)

lemma pays_offer: "list_all2 pays_out (offer_deeds gm now offer_id) (offer_pays gm offer_id)"
  unfolding offer_deeds_def offer_pays_def detail_deeds_def
  by (intro list_all2_appendI list_all2_concat_map pays_detail_deeds) (simp add: pays_respec)



text \<open>A purchase taken apart.\<close>

lemma purchase_offer_eq:
  "purchase_offer gm now offer_id free (n, p) =
     (case find_row (\<lambda>f. of_id f = offer_id) (gm_offers gm) of
        None \<Rightarrow> (Inl No_Such_Offer, n, p)
      | Some f \<Rightarrow>
          case (if free then None else price_refusal f p) of
            Some e \<Rightarrow> (Inl e, n, p)
          | None \<Rightarrow>
              if filter (\<lambda>d. dt_offer d = offer_id) (gm_details gm) = [] \<and> offer_id \<noteq> respec_offer_id then (Inl Grants_Nothing, n, p)
              else case do_all (offer_deeds gm now offer_id) \<lparr>tl_next = n, tl_shopper = p, tl_granted = False, tl_chests = []\<rparr> of
                (Some e, t) \<Rightarrow> (Inl e, tl_next t, tl_shopper t)
              | (None, t) \<Rightarrow>
                  if \<not> tl_granted t then (Inl Would_Grant_Nothing, tl_next t, tl_shopper t)
                  else (Inr (tl_chests t), tl_next t, if free then tl_shopper t else charge f (tl_shopper t)))"
  by (simp only: purchase_offer_def prod.case Let_def purchase_deeds offer_deeds_def)

lemma purchase_offer_cases:
  assumes "purchase_offer gm now offer_id free (n, p) = (r, n', p')"
  obtains (refused) e where "r = Inl e" "n' = n" "p' = p"
  | (midway) e t where "r = Inl e" "do_all (offer_deeds gm now offer_id) \<lparr>tl_next = n, tl_shopper = p, tl_granted = False, tl_chests = []\<rparr> = (Some e, t)"
      "n' = tl_next t" "p' = tl_shopper t"
  | (empty) t where "r = Inl Would_Grant_Nothing" "\<not> tl_granted t" "n' = tl_next t" "p' = tl_shopper t"
      "do_all (offer_deeds gm now offer_id) \<lparr>tl_next = n, tl_shopper = p, tl_granted = False, tl_chests = []\<rparr> = (None, t)"
  | (bought) f t where "r = Inr (tl_chests t)" "find_row (\<lambda>f. of_id f = offer_id) (gm_offers gm) = Some f"
      "\<not> free \<Longrightarrow> price_refusal f p = None" "tl_granted t" "n' = tl_next t" "p' = (if free then tl_shopper t else charge f (tl_shopper t))"
      "do_all (offer_deeds gm now offer_id) \<lparr>tl_next = n, tl_shopper = p, tl_granted = False, tl_chests = []\<rparr> = (None, t)"
proof -
  let ?do = "do_all (offer_deeds gm now offer_id) \<lparr>tl_next = n, tl_shopper = p, tl_granted = False, tl_chests = []\<rparr>"
  show thesis
  proof (cases "find_row (\<lambda>f. of_id f = offer_id) (gm_offers gm)")
    case None
    then show thesis using assms [unfolded purchase_offer_def prod.case None option.case] refused by blast
  next
    case (Some f)
    show thesis
    proof (cases "if free then None else price_refusal f p")
      case (Some e)
      then show thesis using assms \<open>find_row _ _ = Some f\<close> refused [of e] by (simp add: purchase_offer_def)
    next
      case None
      obtain e t where do: "?do = (e, t)" by force
      show thesis
      proof (cases "filter (\<lambda>d. dt_offer d = offer_id) (gm_details gm) = [] \<and> offer_id \<noteq> respec_offer_id")
        case True
        then show thesis using assms \<open>find_row _ _ = Some f\<close> None refused [of Grants_Nothing] by (simp add: purchase_offer_def)
      next
        case False
        then have eq: "(case ?do of
            (Some e, t) \<Rightarrow> (Inl e, tl_next t, tl_shopper t)
          | (None, t) \<Rightarrow>
              if \<not> tl_granted t then (Inl Would_Grant_Nothing, tl_next t, tl_shopper t)
              else (Inr (tl_chests t), tl_next t, if free then tl_shopper t else charge f (tl_shopper t))) = (r, n', p')"
          using assms unfolding purchase_offer_eq \<open>find_row _ _ = Some f\<close> option.case None by (simp only: if_False)
        show thesis
        proof (cases e)
          case (Some x)
          then show thesis using eq do midway [of x t] by simp
        next
          case none: None
          show thesis
          proof (cases "tl_granted t")
            case True
            have "\<not> free \<Longrightarrow> price_refusal f p = None" using None by simp
            then show thesis using eq do none True bought [of t f] \<open>find_row _ _ = Some f\<close> by auto
          next
            case False
            then show thesis using eq do none by - (rule empty [of t], auto)
          qed
        qed
      qed
    qed
  qed
qed

section \<open>What a purchase costs\<close>





text \<open>An offer bought once more than it can be: nothing to hand over is nothing to pay for, and nothing has changed.\<close>

lemma nothing_granted_nothing_changed:
  assumes "purchase_offer gm now offer_id free (n, p) = (Inl Would_Grant_Nothing, n', p')"
  shows "p' = p"
  using assms
proof (cases rule: purchase_offer_cases)
  case (midway e t)
  have no: "d t \<noteq> (Some Would_Grant_Nothing, t')" if "d \<in> set (offer_deeds gm now offer_id)" for d t t'
    using that by (auto simp: offer_deeds_def detail_deeds_def respec_def Let_def grant_weapon_def grant_stackable_def add_stackable_def
        grant_keys_def grant_consumable_keys_def grant_coins_def grant_gems_def grant_slots_def grant_chest_def grant_hero_def
        grant_skin_def grant_pet_def split: if_splits option.splits)
  have "(\<And>d t t'. d \<in> set ds \<Longrightarrow> d t \<noteq> (Some Would_Grant_Nothing, t')) \<Longrightarrow> do_all ds t \<noteq> (Some Would_Grant_Nothing, t')" for ds t t'
    by (induction ds arbitrary: t) (auto split: prod.split option.split)
  then show ?thesis using midway(1,2) no by blast
next
  case (empty t)
  then show ?thesis using pays_do_all(2) [OF pays_offer empty(5) refl] by auto
qed simp_all

section \<open>Room for what is bought\<close>

definition till_ok :: "till \<Rightarrow> bool" where
  "till_ok t \<longleftrightarrow> 0 < tl_next t \<and> within_storage (sp_account (tl_shopper t))"

definition keeps_room :: "deed \<Rightarrow> bool" where
  "keeps_room d \<longleftrightarrow> (\<forall>t. till_ok t \<longrightarrow> till_ok (snd (d t)))"

lemma keeps_roomD: "keeps_room d \<Longrightarrow> till_ok t \<Longrightarrow> d t = (e, t') \<Longrightarrow> till_ok t'"
  unfolding keeps_room_def by (metis snd_conv)

lemma keeps_room_do_all: "list_all keeps_room ds \<Longrightarrow> till_ok t \<Longrightarrow> do_all ds t = (e, t') \<Longrightarrow> till_ok t'"
proof (induction ds arbitrary: t)
  case (Cons d ds)
  obtain e1 t1 where one: "d t = (e1, t1)" by force
  moreover have "keeps_room d" using Cons.prems(1) by simp
  ultimately have "till_ok t1" using keeps_roomD Cons.prems(2) by blast
  then show ?case using Cons one by (cases e1) auto
qed simp

lemma occupied_simps [simp]:
  "occupied_slots (a\<lparr>ac_gold := x1\<rparr>) = occupied_slots a" "occupied_slots (a\<lparr>ac_stackables := x2\<rparr>) = occupied_slots a"
  "occupied_slots (a\<lparr>ac_avatars := x3\<rparr>) = occupied_slots a" "occupied_slots (a\<lparr>ac_buckets_weapon := x4\<rparr>) = occupied_slots a"
  "occupied_slots (add_keys k n a) = occupied_slots a"
  "occupied_slots (a\<lparr>ac_chests := ac_chests a @ [c]\<rparr>) = Suc (occupied_slots a)"
  "occupied_slots (add_item it a) = (if equipped it then occupied_slots a else Suc (occupied_slots a))"
  by (simp_all add: occupied_slots_def unequipped_weapons_def held_chests_def add_item_def)

lemma limit_simps [simp]:
  "storage_limit (a\<lparr>ac_gold := x1\<rparr>) = storage_limit a" "storage_limit (a\<lparr>ac_stackables := x2\<rparr>) = storage_limit a"
  "storage_limit (a\<lparr>ac_avatars := x3\<rparr>) = storage_limit a" "storage_limit (a\<lparr>ac_chests := x4\<rparr>) = storage_limit a"
  "storage_limit (add_keys k n a) = storage_limit a" "storage_limit (add_item it a) = storage_limit a"
  "storage_limit (a\<lparr>ac_buckets_weapon := x5\<rparr>) = x5"
  by (simp_all add: storage_limit_def add_item_def)

lemma within_storage_iff: "within_storage a \<longleftrightarrow> int (occupied_slots a) \<le> storage_limit a"
  by (simp add: within_storage_def)

lemma room_add_stackable: "keeps_room (add_stackable stack n)"
  by (auto simp: keeps_room_def add_stackable_def Let_def till_ok_def handed_def on_account_def within_storage_iff)

lemma starter_ok:
  assumes "till_ok t" "0 < v"
  shows "till_ok (grant_starter now v x t)"
  using assms by (simp add: grant_starter_def till_ok_def handed_def on_account_def within_storage_iff equipped_def starter_item_def)

lemma starters_ok: "till_ok t \<Longrightarrow> 0 < v \<Longrightarrow> till_ok (fold (grant_starter now v) xs t)"
  by (induction xs arbitrary: t) (simp_all add: starter_ok)

lemma room_hero: "keeps_room (grant_hero gm now d)"
  unfolding keeps_room_def
proof (intro allI impI)
  fix t assume t: "till_ok t"
  have "till_ok ((handed (add_avatar (tl_next t) (dt_hero d)) t)\<lparr>tl_next := tl_next t + 1\<rparr>)"
    using t by (simp add: till_ok_def handed_def add_avatar_def Let_def on_account_def within_storage_iff)
  then show "till_ok (snd (grant_hero gm now d t))"
    using t starters_ok by (simp add: grant_hero_def Let_def till_ok_def split: option.split)
qed

lemma room_details:
  assumes "detail_ok d"
  shows "list_all keeps_room (detail_deeds gm now d)"
proof -
  have "keeps_room (grant_weapon gm now d)" "keeps_room (grant_chest d)"
    by (auto simp: keeps_room_def grant_weapon_def grant_chest_def till_ok_def handed_def on_account_def within_storage_iff
        storage_full_def equipped_def shop_weapon_def)
  moreover have "keeps_room (grant_stackable d)" "keeps_room (grant_consumable_keys x)" for x
    using room_add_stackable by (simp_all add: keeps_room_def grant_stackable_def grant_consumable_keys_def)
  moreover have "keeps_room (grant_keys d k)" "keeps_room (grant_coins d)" "keeps_room (grant_gems d)" "keeps_room (grant_slots d)"
    "keeps_room (grant_skin d)" "keeps_room (grant_pet d)" for k
    using assms by (auto simp: keeps_room_def grant_keys_def grant_coins_def grant_gems_def grant_slots_def grant_skin_def grant_pet_def
        till_ok_def handed_def on_account_def within_storage_iff detail_ok_def) (simp add: storage_limit_def)
  ultimately show ?thesis using room_hero by (simp add: detail_deeds_def key_columns_in_order_def consumable_key_stackables_def)
qed

lemma room_offer: "list_all detail_ok (gm_details gm) \<Longrightarrow> list_all keeps_room (offer_deeds gm now offer_id)"
proof -
  have "keeps_room respec"
    by (auto simp: keeps_room_def respec_def Let_def till_ok_def handed_def split: option.split)
  then show "list_all detail_ok (gm_details gm) \<Longrightarrow> list_all keeps_room (offer_deeds gm now offer_id)"
    using room_details by (auto simp: offer_deeds_def list_all_iff)
qed

text \<open>Bought or refused, what is stored is no more than there is room for.\<close>

lemma purchase_keeps_room:
  assumes details: "list_all detail_ok (gm_details gm)" and p: "within_storage (sp_account p)" "0 < n"
    and bought: "purchase_offer gm now offer_id free (n, p) = (r, n', p')"
  shows "within_storage (sp_account p')" and "0 < n'"
proof -
  have start: "till_ok \<lparr>tl_next = n, tl_shopper = p, tl_granted = False, tl_chests = []\<rparr>" using p by (simp add: till_ok_def)
  have charge: "within_storage (sp_account (charge f q)) = within_storage (sp_account q)" for f q
    by (simp add: charge_def on_account_def within_storage_iff split: currency.split)
  have "within_storage (sp_account p') \<and> 0 < n'"
    using bought
  proof (cases rule: purchase_offer_cases)
    case (midway e t)
    then show ?thesis using keeps_room_do_all [OF room_offer [OF details] start midway(2)] by (simp add: till_ok_def)
  next
    case (empty t)
    then show ?thesis using keeps_room_do_all [OF room_offer [OF details] start empty(5)] by (simp add: till_ok_def)
  next
    case (bought f t)
    then show ?thesis using keeps_room_do_all [OF room_offer [OF details] start bought(7)] charge by (simp add: till_ok_def)
  qed (use p in simp)
  then show "within_storage (sp_account p')" and "0 < n'" by simp_all
qed

section \<open>A shop\<close>

definition no_detail :: offer_detail where
  "no_detail = \<lparr>dt_offer = 0, dt_weapon = 0, dt_weapon_power = 0, dt_level = None, dt_rarity = ''COMMON'', dt_modifier1 = No_Modifier,
     dt_modifier2 = No_Modifier, dt_modifier3 = No_Modifier, dt_stackable = 0, dt_stackable_count = 0, dt_keys = (\<lambda>_. 0), dt_small_keys = 0,
     dt_royal_keys = 0, dt_coins = 0, dt_gems = 0, dt_weapon_slots = 0, dt_chest = 0, dt_hero = 0, dt_skin = 0, dt_pet = 0\<rparr>"

text \<open>An offer of one row (30 coins for 5 gems) and one of two: coins, and a chest that needs room.\<close>

definition small_shop :: game_tables where
  "small_shop = \<lparr>gm_offers = [\<lparr>of_id = 1, of_name = ''Coins'', of_price = 5, of_currency = Gem_Offer\<rparr>,
       \<lparr>of_id = 2, of_name = ''Bundle'', of_price = 5, of_currency = Gem_Offer\<rparr>],
     gm_details = [no_detail\<lparr>dt_offer := 1, dt_coins := 30\<rparr>, no_detail\<lparr>dt_offer := 2, dt_coins := 30\<rparr>, no_detail\<lparr>dt_offer := 2, dt_chest := 7\<rparr>],
     gm_rarities = [], gm_modifiers = [], gm_legendary = [], gm_weapons = [], gm_heroes = [], gm_chests = [], gm_drops = [], gm_leveling = []\<rparr>"

definition plain_account :: account where
  "plain_account = \<lparr>ac_id = 1, ac_name = ''Ada'', ac_gold = 10, ac_items = [], ac_chests = [], ac_listings = [], ac_avatars = [],
     ac_stackables = [], ac_buckets_weapon = 0, ac_market_barred = False, ac_restriction = None, ac_sanctions = None,
     ac_basic_keys = 0, ac_uncommon_keys = 0, ac_rare_keys = 0, ac_legendary_keys = 0\<rparr>"

definition plain_shopper :: shopper where
  "plain_shopper = \<lparr>sp_account = plain_account, sp_gems = 8, sp_looks = (\<lambda>_. 0), sp_stats = (\<lambda>_. []), sp_skins = [], sp_pets = [],
     sp_highest = None, sp_active = 0\<rparr>"




text \<open>
  Refused in the middle, an offer of several rows leaves what its first rows granted, unpaid for: here 30 coins, and the
  chest refused for want of room, as often as it is asked for. The handler answers an error and does not save; but an
  account in play is handed to it as the object that is played, and the next save of the run keeps it.
\<close>

lemma refused_and_granted:
  "\<exists>p'. purchase_offer small_shop 0 2 False (100, plain_shopper) = (Inl Storage_Full, 100, p')
     \<and> in_purse Coins_Held p' = in_purse Coins_Held plain_shopper + 30 \<and> in_purse Gems_Held p' = in_purse Gems_Held plain_shopper"
  by (simp add: purchase_offer_def small_shop_def no_detail_def plain_shopper_def plain_account_def apply_detail_def price_refusal_def balance_in_def
      grant_weapon_def grant_stackable_def grant_keys_def key_columns_in_order_def grant_consumable_keys_def consumable_key_stackables_def
      grant_coins_def grant_gems_def grant_slots_def grant_chest_def grant_hero_def grant_skin_def grant_pet_def handed_def on_account_def
      respec_offer_id_def storage_full_def storage_limit_def occupied_slots_def unequipped_weapons_def held_chests_def)

end
