(* ===== verification/Chests.thy ===== *)
theory Chests
  imports Shop
begin

text \<open>
  Opening a chest (\<open>src/chests.js\<close>): the drop of its rarity, the weapon rolled for the hero that opens it, the offer
  handed over instead, and what the opening takes; the chest bought and opened in one (\<open>openBoughtChest\<close> of
  \<open>src/rpc-handlers.js\<close>). \<open>Math.random\<close> is a sequence of numbers from 0 up to but not 1. The power of a weapon
  (\<open>src/weapon-power.js\<close>, a curve of real powers) is an argument.
\<close>

section \<open>Rolls\<close>

type_synonym dice = "(nat \<Rightarrow> rat) \<times> nat"

definition throw :: "dice \<Rightarrow> rat \<times> dice" where
  "throw d = (fst d (snd d), (fst d, Suc (snd d)))"

definition fair :: "dice \<Rightarrow> bool" where
  "fair d \<longleftrightarrow> (\<forall>k. 0 \<le> fst d k \<and> fst d k < 1)"

text \<open>\<open>pool[Math.floor(random() * pool.length)]\<close>: nothing of an empty pool.\<close>

definition draw :: "'a list \<Rightarrow> dice \<Rightarrow> 'a option \<times> dice" where
  "draw pool d = (case throw d of (x, d') \<Rightarrow>
     let i = nat \<lfloor>x * of_nat (length pool)\<rfloor> in (if i < length pool then Some (pool ! i) else None, d'))"

fun pick_from :: "rat \<Rightarrow> (int \<times> rat) list \<Rightarrow> int option" where
  "pick_from roll [] = None"
| "pick_from roll ((key, weight) # rest) = (if roll - weight \<le> 0 then Some key else pick_from (roll - weight) rest)"

definition pick_weighted :: "(int \<times> rat) list \<Rightarrow> dice \<Rightarrow> int option \<times> dice" where
  "pick_weighted weights d = (case throw d of (x, d') \<Rightarrow>
     (case pick_from (x * sum_list (map snd weights)) weights of
        Some key \<Rightarrow> Some key | None \<Rightarrow> if weights = [] then None else Some (fst (last weights)), d'))"

text \<open>The drops of a rarity, in the order an object keeps whole-number keys in.\<close>

definition drop_distribution :: "game_tables \<Rightarrow> string \<Rightarrow> (int \<times> rat) list option" where
  "drop_distribution gm rarity = map_option (\<lambda>(_, ws). sort_key fst (filter (\<lambda>w. 0 < snd w) ws)) (find_row (\<lambda>r. fst r = rarity) (gm_drops gm))"

text \<open>Offers 0 and 1 stand for a weapon of the chest's rarity.\<close>

definition weapon_sentinel :: "int \<Rightarrow> bool" where
  "weapon_sentinel offer_id = (offer_id = 0 \<or> offer_id = 1)"

definition key_column_of :: "string \<Rightarrow> key_column option" where
  "key_column_of rarity =
     (if rarity = ''COMMON'' then Some Basic_Keys else if rarity = ''UNCOMMON'' then Some Uncommon_Keys
      else if rarity = ''RARE'' then Some Rare_Keys else if rarity = ''LEGENDARY'' then Some Legendary_Keys else None)"

section \<open>The weapon\<close>

text \<open>A weapon the hero wields, that a chest may drop: it takes modifiers and is not a skin's copy of another.\<close>

definition eligible_weapons :: "game_tables \<Rightarrow> hero_row \<Rightarrow> weapon_row list" where
  "eligible_weapons gm hero = filter (\<lambda>w. \<not> contains_text ''__'' (wr_constant w) \<and> wr_mastertype w \<noteq> ''''
     \<and> wr_mastertype w \<in> set (he_types hero) \<and> 0 < wr_power w \<and> wr_accepts w \<noteq> []) (gm_weapons gm)"

definition modifier_candidates :: "game_tables \<Rightarrow> rarity_entry \<Rightarrow> weapon_row \<Rightarrow> modifier_entry list" where
  "modifier_candidates gm rarity w =
     (let low = (case ra_min_level rarity of None \<Rightarrow> 1 | Some l \<Rightarrow> l); high = (case ra_max_level rarity of None \<Rightarrow> low | Some l \<Rightarrow> l) in
      filter (\<lambda>m. low \<le> mo_level m \<and> mo_level m \<le> high \<and> mo_type m \<in> set (wr_accepts w)) (gm_modifiers gm))"

text \<open>Distinct types, in at most so many tries.\<close>

fun roll_types :: "nat \<Rightarrow> nat \<Rightarrow> modifier_entry list \<Rightarrow> modifier_entry list \<Rightarrow> dice \<Rightarrow> modifier_entry list \<times> dice" where
  "roll_types 0 wanted candidates chosen d = (chosen, d)"
| "roll_types (Suc tries) wanted candidates chosen d =
     (if wanted \<le> length chosen then (chosen, d)
      else case draw candidates d of
          (None, d') \<Rightarrow> roll_types tries wanted candidates chosen d'
        | (Some m, d') \<Rightarrow>
            if mo_type m \<in> mo_type ` set chosen then roll_types tries wanted candidates chosen d'
            else roll_types tries wanted candidates (chosen @ [m]) d')"

definition roll_modifiers :: "game_tables \<Rightarrow> rarity_entry \<Rightarrow> weapon_row \<Rightarrow> dice \<Rightarrow> modifier_entry list \<times> dice" where
  "roll_modifiers gm rarity w d =
     (if ra_modifiers rarity = 0 then ([], d) else roll_types 50 (ra_modifiers rarity) (modifier_candidates gm rarity w) [] d)"

definition roll_item_level :: "int \<Rightarrow> int \<Rightarrow> dice \<Rightarrow> int \<times> dice" where
  "roll_item_level level top_level d = (case throw d of (x, d') \<Rightarrow> (min top_level (max 1 (level + \<lfloor>x * 5\<rfloor> - 2)), d'))"

definition roll_legendary_modifier :: "game_tables \<Rightarrow> rarity_entry \<Rightarrow> dice \<Rightarrow> int \<times> dice" where
  "roll_legendary_modifier gm rarity d =
     (if \<not> ra_legendary rarity then (0, d)
      else case draw (gm_legendary gm) d of (None, d') \<Rightarrow> (0, d') | (Some m, d') \<Rightarrow> (mo_id m, d'))"

definition nth_id :: "nat \<Rightarrow> modifier_entry list \<Rightarrow> int" where
  "nth_id i ms = (if i < length ms then mo_id (ms ! i) else 0)"

definition generate_weapon ::
    "(weapon_row \<Rightarrow> rarity_entry \<Rightarrow> int \<Rightarrow> int) \<Rightarrow> game_tables \<Rightarrow> int \<Rightarrow> hero_row \<Rightarrow> rarity_entry \<Rightarrow> int \<Rightarrow> int \<Rightarrow> int
      \<Rightarrow> (weapon_row \<Rightarrow> bool) option \<Rightarrow> dice \<Rightarrow> item option \<times> dice" where
  "generate_weapon power_at gm now hero rarity level account_id i among d =
     (let eligible = eligible_weapons gm hero;
          narrowed = (case among of None \<Rightarrow> eligible | Some sells \<Rightarrow> filter sells eligible);
          pool = (if narrowed \<noteq> [] then narrowed else eligible) in
      if pool = [] then (None, d)
      else case draw pool d of
          (None, d') \<Rightarrow> (None, d')
        | (Some w, d1) \<Rightarrow>
            (case roll_modifiers gm rarity w d1 of (ms, d2) \<Rightarrow>
             case roll_item_level level (max_level (gm_leveling gm) (he_constant hero)) d2 of (required, d3) \<Rightarrow>
             case roll_legendary_modifier gm rarity d3 of (legendary, d4) \<Rightarrow>
               (Some \<lparr>it_id = i, it_account_id = account_id, it_item_id = wr_id w, it_power = Some (power_at w rarity required),
                 it_avatar_id = None, it_avatar_slot = None, it_is_new = 1, it_requiredlevel = Some required, it_rarity = Some (ra_id rarity),
                 it_modifier1 = Some (nth_id 0 ms), it_modifier2 = Some (nth_id 1 ms), it_legendarymodifier = Some legendary,
                 it_created = Some now\<rparr>, d4)))"

section \<open>The chest\<close>

datatype chest_refusal = No_Chest | Unknown_Chest | No_Drops | No_Hero | No_Key | Not_Granted store_refusal | No_Rarity | Weapons_Full | No_Weapon

datatype chest_reward = Opened_Offer int | Opened_Weapon item

definition take_key :: "key_column option \<Rightarrow> account \<Rightarrow> account" where
  "take_key column a = (case column of None \<Rightarrow> a | Some k \<Rightarrow> add_keys k (-1) a)"

definition take_chest :: "int \<Rightarrow> account \<Rightarrow> account" where
  "take_chest i a = a\<lparr>ac_chests := filter (\<lambda>c. ch_id c \<noteq> i) (ac_chests a)\<rparr>"

definition no_key :: "key_column option \<Rightarrow> account \<Rightarrow> bool" where
  "no_key column a = (case column of None \<Rightarrow> False | Some k \<Rightarrow> keys_of k a < 1)"

text \<open>The avatar named, or the first there is.\<close>

definition opening_avatar :: "int \<Rightarrow> account \<Rightarrow> avatar option" where
  "opening_avatar i a = (case find_row (\<lambda>v. av_id v = i) (ac_avatars a) of
     Some v \<Rightarrow> Some v | None \<Rightarrow> (case ac_avatars a of [] \<Rightarrow> None | v # _ \<Rightarrow> Some v))"

definition open_for_offer :: "game_tables \<Rightarrow> int \<Rightarrow> int \<Rightarrow> key_column option \<Rightarrow> int \<Rightarrow> int \<times> shopper
      \<Rightarrow> (chest_refusal + chest_reward) \<times> int \<times> shopper" where
  "open_for_offer gm now chest_id column offer_id s =
     (if no_key column (sp_account (snd s)) then (Inl No_Key, s)
      else case purchase_offer gm now offer_id True s of
          (Inl e, s') \<Rightarrow> (Inl (Not_Granted e), s')
        | (Inr _, n, p) \<Rightarrow> (Inr (Opened_Offer offer_id), n, on_account (take_key column \<circ> take_chest chest_id) p))"

definition open_for_weapon ::
    "(weapon_row \<Rightarrow> rarity_entry \<Rightarrow> int \<Rightarrow> int) \<Rightarrow> game_tables \<Rightarrow> int \<Rightarrow> int \<Rightarrow> string \<Rightarrow> key_column option \<Rightarrow> hero_row \<Rightarrow> avatar \<Rightarrow> dice
      \<Rightarrow> int \<times> shopper \<Rightarrow> (chest_refusal + chest_reward) \<times> int \<times> shopper" where
  "open_for_weapon power_at gm now chest_id kind column hero v d s =
     (let n = fst s; p = snd s; a = sp_account p in
      case find_row (\<lambda>r. ra_type r = kind) (gm_rarities gm) of
        None \<Rightarrow> (Inl No_Rarity, s)
      | Some rarity \<Rightarrow>
          if storage_limit a \<le> int (unequipped_weapons a) then (Inl Weapons_Full, s)
          else if no_key column a then (Inl No_Key, s)
          else case fst (generate_weapon power_at gm now hero rarity
                (hero_level (gm_leveling gm) (he_constant hero) (av_experience v)) (ac_id a) n None d) of
              None \<Rightarrow> (Inl No_Weapon, n + 1, p)
            | Some it \<Rightarrow> (Inr (Opened_Weapon it), n + 1, on_account (take_key column \<circ> take_chest chest_id \<circ> add_item it) p))"

definition open_chest ::
    "(weapon_row \<Rightarrow> rarity_entry \<Rightarrow> int \<Rightarrow> int) \<Rightarrow> game_tables \<Rightarrow> int \<Rightarrow> int \<Rightarrow> int \<Rightarrow> bool \<Rightarrow> dice \<Rightarrow> int \<times> shopper
      \<Rightarrow> (chest_refusal + chest_reward) \<times> int \<times> shopper" where
  "open_chest power_at gm now chest_id avatar_id keyless d s =
     (let a = sp_account (snd s) in
      case find_row (\<lambda>c. ch_id c = chest_id) (ac_chests a) of
        None \<Rightarrow> (Inl No_Chest, s)
      | Some c \<Rightarrow>
      case find_row (\<lambda>r. cr_id r = ch_chest_id c) (gm_chests gm) of
        None \<Rightarrow> (Inl Unknown_Chest, s)
      | Some row \<Rightarrow>
      case drop_distribution gm (cr_rarity row) of
        None \<Rightarrow> (Inl No_Drops, s)
      | Some drops \<Rightarrow>
      case opening_avatar avatar_id a of
        None \<Rightarrow> (Inl No_Hero, s)
      | Some v \<Rightarrow>
      case find_row (\<lambda>h. he_id h = av_hero v) (gm_heroes gm) of
        None \<Rightarrow> (Inl No_Hero, s)
      | Some hero \<Rightarrow>
      let column = (if keyless then None else key_column_of (cr_rarity row)) in
      case pick_weighted drops d of
        (Some offer_id, d') \<Rightarrow>
          if weapon_sentinel offer_id then open_for_weapon power_at gm now chest_id (cr_rarity row) column hero v d' s
          else open_for_offer gm now chest_id column offer_id s
      | (None, d') \<Rightarrow> (Inl (if no_key column a then No_Key else Not_Granted No_Such_Offer), s))"

definition is_keyed_chest :: "game_tables \<Rightarrow> int \<Rightarrow> bool" where
  "is_keyed_chest gm kind = (case find_row (\<lambda>r. cr_id r = kind) (gm_chests gm) of None \<Rightarrow> False | Some r \<Rightarrow> key_column_of (cr_rarity r) \<noteq> None)"

text \<open>A chest bought is opened with it, when it is the only one; one that cannot be opened stays, paid for.\<close>

definition open_bought_chest ::
    "(weapon_row \<Rightarrow> rarity_entry \<Rightarrow> int \<Rightarrow> int) \<Rightarrow> game_tables \<Rightarrow> int \<Rightarrow> int list \<Rightarrow> int \<Rightarrow> dice \<Rightarrow> int \<times> shopper \<Rightarrow> chest_reward option \<times> int \<times> shopper" where
  "open_bought_chest power_at gm now chests avatar_id d s =
     (let bought = filter (\<lambda>i. case find_row (\<lambda>c. ch_id c = i) (ac_chests (sp_account (snd s))) of
          None \<Rightarrow> False | Some c \<Rightarrow> is_keyed_chest gm (ch_chest_id c)) chests in
      if length bought \<noteq> 1 then (None, s)
      else case open_chest power_at gm now (hd bought) avatar_id True d s of
          (Inl e, s') \<Rightarrow> (None, s')
        | (Inr reward, s') \<Rightarrow> (Some reward, s'))"

text \<open>The whole of \<open>store/PurchaseOffer\<close>: bought, and opened when it is a chest; the refusal otherwise.\<close>

definition buy_offer ::
    "(weapon_row \<Rightarrow> rarity_entry \<Rightarrow> int \<Rightarrow> int) \<Rightarrow> game_tables \<Rightarrow> int \<Rightarrow> int \<Rightarrow> int \<Rightarrow> dice \<Rightarrow> int \<times> shopper
      \<Rightarrow> (store_refusal + chest_reward option) \<times> int \<times> shopper" where
  "buy_offer power_at gm now avatar_id offer_id d s =
     (case purchase_offer gm now offer_id False s of
        (Inl e, s') \<Rightarrow> (Inl e, s')
      | (Inr chests, s') \<Rightarrow> (case open_bought_chest power_at gm now chests avatar_id d s' of (reward, s'') \<Rightarrow> (Inr reward, s'')))"

section \<open>What is rolled\<close>

lemma draw_mem: "draw pool d = (Some x, d') \<Longrightarrow> x \<in> set pool"
  by (auto simp: draw_def throw_def Let_def split: if_splits)

lemma draw_fst [simp]: "fst (snd (draw pool d)) = fst d"
  by (simp add: draw_def throw_def Let_def)

lemma draw_some:
  assumes "fair d" and "pool \<noteq> []"
  shows "\<exists>x d'. draw pool d = (Some x, d')"
proof -
  let ?x = "fst d (snd d)" and ?n = "length pool"
  have x: "0 \<le> ?x" "?x < 1" using assms(1) by (auto simp: fair_def)
  have n: "0 < (of_nat ?n :: rat)" using assms(2) by simp
  have "?x * of_nat ?n < of_nat ?n" using mult_strict_right_mono [OF x(2) n] by simp
  then have "\<lfloor>?x * of_nat ?n\<rfloor> < int ?n" by (simp add: floor_less_iff)
  moreover have "0 \<le> \<lfloor>?x * of_nat ?n\<rfloor>" using x(1) by simp
  ultimately have "nat \<lfloor>?x * of_nat ?n\<rfloor> < ?n" by linarith
  then show ?thesis by (simp add: draw_def throw_def Let_def)
qed

text \<open>What is picked is one of the drops, and one whose weight counts.\<close>

lemma pick_from_mem: "pick_from roll ws = Some key \<Longrightarrow> key \<in> fst ` set ws"
  by (induction roll ws rule: pick_from.induct) (auto split: if_splits)

lemma pick_weighted_mem: "pick_weighted ws d = (Some key, d') \<Longrightarrow> key \<in> fst ` set ws"
  using pick_from_mem by (fastforce simp: pick_weighted_def throw_def split: option.splits if_splits)

lemma pick_weighted_some: "ws \<noteq> [] \<Longrightarrow> \<exists>key d'. pick_weighted ws d = (Some key, d')"
  by (simp add: pick_weighted_def throw_def split: option.split)

definition modifiers_fit :: "nat \<Rightarrow> modifier_entry list \<Rightarrow> modifier_entry list \<Rightarrow> bool" where
  "modifiers_fit wanted candidates ms \<longleftrightarrow> length ms \<le> wanted \<and> set ms \<subseteq> set candidates \<and> distinct (map mo_type ms)"

lemma roll_types_fit:
  "modifiers_fit wanted candidates chosen \<Longrightarrow> roll_types tries wanted candidates chosen d = (ms, d') \<Longrightarrow> modifiers_fit wanted candidates ms"
proof (induction tries wanted candidates chosen d rule: roll_types.induct)
  case (2 tries wanted candidates chosen d)
  show ?case
  proof (cases "wanted \<le> length chosen")
    case False
    obtain m d1 where m: "draw candidates d = (m, d1)" by (metis surj_pair)
    show ?thesis
    proof (cases m)
      case None
      then show ?thesis using 2 m False by simp
    next
      case (Some x)
      then have "x \<in> set candidates" using m draw_mem by simp
      then show ?thesis using 2 m False Some by (auto simp: modifiers_fit_def split: if_splits)
    qed
  qed (use 2 in simp)
qed simp

lemma roll_modifiers_fit:
  "roll_modifiers gm rarity w d = (ms, d') \<Longrightarrow> modifiers_fit (ra_modifiers rarity) (modifier_candidates gm rarity w) ms"
  using roll_types_fit [of "ra_modifiers rarity" "modifier_candidates gm rarity w" "[]"]
  by (auto simp: roll_modifiers_def modifiers_fit_def split: if_splits)

text \<open>A weapon fit for the hero: one it wields, at a level it can reach, with modifiers the weapon takes at the rarity's levels.\<close>

definition weapon_fits :: "(weapon_row \<Rightarrow> rarity_entry \<Rightarrow> int \<Rightarrow> int) \<Rightarrow> game_tables \<Rightarrow> hero_row \<Rightarrow> rarity_entry \<Rightarrow> item \<Rightarrow> bool" where
  "weapon_fits power_at gm hero rarity it \<longleftrightarrow> (\<exists>w ms required. w \<in> set (eligible_weapons gm hero) \<and> it_item_id it = wr_id w
     \<and> modifiers_fit (ra_modifiers rarity) (modifier_candidates gm rarity w) ms
     \<and> it_modifier1 it = Some (nth_id 0 ms) \<and> it_modifier2 it = Some (nth_id 1 ms)
     \<and> it_requiredlevel it = Some required \<and> required \<le> max_level (gm_leveling gm) (he_constant hero)
     \<and> it_power it = Some (power_at w rarity required)
     \<and> it_legendarymodifier it \<in> insert (Some 0) (Some ` mo_id ` set (gm_legendary gm))
     \<and> (\<not> ra_legendary rarity \<longrightarrow> it_legendarymodifier it = Some 0)
     \<and> it_rarity it = Some (ra_id rarity) \<and> \<not> equipped it)"

lemma generate_weapon_fits:
  assumes "generate_weapon power_at gm now hero rarity level account_id i among d = (Some it, d')"
  shows "weapon_fits power_at gm hero rarity it" and "it_id it = i" and "it_account_id it = account_id"
proof -
  let ?eligible = "eligible_weapons gm hero"
  define pool where "pool = (let narrowed = (case among of None \<Rightarrow> ?eligible | Some sells \<Rightarrow> filter sells ?eligible) in
    if narrowed \<noteq> [] then narrowed else ?eligible)"
  have sub: "set pool \<subseteq> set ?eligible" by (auto simp: pool_def Let_def split: option.split)
  obtain w d1 where w: "draw pool d = (Some w, d1)"
    using assms by (auto simp: generate_weapon_def Let_def pool_def split: if_splits prod.splits option.splits)
  obtain ms d2 where ms: "roll_modifiers gm rarity w d1 = (ms, d2)" by (metis surj_pair)
  obtain required d3 where required: "roll_item_level level (max_level (gm_leveling gm) (he_constant hero)) d2 = (required, d3)" by (metis surj_pair)
  obtain legendary d4 where legendary: "roll_legendary_modifier gm rarity d3 = (legendary, d4)" by (metis surj_pair)
  have pool: "pool \<noteq> []" using draw_mem [OF w] by auto
  have it: "it = \<lparr>it_id = i, it_account_id = account_id, it_item_id = wr_id w, it_power = Some (power_at w rarity required),
                 it_avatar_id = None, it_avatar_slot = None, it_is_new = 1, it_requiredlevel = Some required, it_rarity = Some (ra_id rarity),
                 it_modifier1 = Some (nth_id 0 ms), it_modifier2 = Some (nth_id 1 ms), it_legendarymodifier = Some legendary,
                 it_created = Some now\<rparr>"
    using assms pool unfolding generate_weapon_def Let_def pool_def [unfolded Let_def, symmetric] by (simp add: w ms required legendary)
  have "required \<le> max_level (gm_leveling gm) (he_constant hero)" using required by (auto simp: roll_item_level_def throw_def)
  moreover have "legendary = 0 \<or> legendary \<in> mo_id ` set (gm_legendary gm)" "\<not> ra_legendary rarity \<Longrightarrow> legendary = 0"
    using legendary draw_mem [of "gm_legendary gm" d3] by (auto simp: roll_legendary_modifier_def split: if_splits prod.splits option.splits)
  ultimately show "weapon_fits power_at gm hero rarity it"
    unfolding weapon_fits_def using draw_mem [OF w] sub roll_modifiers_fit [OF ms]
    by (intro exI [of _ w] exI [of _ ms] exI [of _ required]) (auto simp: it equipped_def)
  show "it_id it = i" "it_account_id it = account_id" by (simp_all add: it)
qed

lemma level_near:
  assumes "fair d" and "roll_item_level level top_level d = (required, d')" and "1 \<le> level" "level \<le> top_level"
  shows "1 \<le> required" "required \<le> level + 2" "level - 2 \<le> required"
proof -
  have x: "0 \<le> fst d (snd d)" "fst d (snd d) < 1" using assms(1) by (auto simp: fair_def)
  have up: "\<lfloor>fst d (snd d) * 5\<rfloor> < 5" using x(2) by (simp add: floor_less_iff)
  have down: "0 \<le> \<lfloor>fst d (snd d) * 5\<rfloor>" using x(1) by simp
  have "required = min top_level (max 1 (level + \<lfloor>fst d (snd d) * 5\<rfloor> - 2))" using assms(2) by (simp add: roll_item_level_def throw_def)
  then show "1 \<le> required" "required \<le> level + 2" "level - 2 \<le> required" using up down assms(3,4) by linarith+
qed

section \<open>What an opening takes and gives\<close>

text \<open>Every way an opening can end, with what it comes to.\<close>

lemma open_for_offer_cases:
  assumes "open_for_offer gm now chest_id column offer_id (n, p) = (r, n', p')"
  obtains (locked) "no_key column (sp_account p)" "r = Inl No_Key" "n' = n" "p' = p"
  | (tried) r' q where "\<not> no_key column (sp_account p)" "purchase_offer gm now offer_id True (n, p) = (r', n', q)"
      "case r' of Inl e \<Rightarrow> r = Inl (Not_Granted e) \<and> p' = q
        | Inr _ \<Rightarrow> r = Inr (Opened_Offer offer_id) \<and> p' = on_account (take_key column \<circ> take_chest chest_id) q"
proof (cases "no_key column (sp_account p)")
  case True
  have "r = Inl No_Key \<and> n' = n \<and> p' = p" using assms by (auto simp: open_for_offer_def True)
  then show thesis using True locked by blast
next
  case False
  obtain r' m q where bought: "purchase_offer gm now offer_id True (n, p) = (r', m, q)" by (metis surj_pair)
  have "case r' of Inl e \<Rightarrow> r = Inl (Not_Granted e) \<and> n' = m \<and> p' = q
        | Inr _ \<Rightarrow> r = Inr (Opened_Offer offer_id) \<and> n' = m \<and> p' = on_account (take_key column \<circ> take_chest chest_id) q"
    using assms False by (cases r') (simp_all add: open_for_offer_def bought)
  then show thesis using tried [of r' q] False bought by (cases r') simp_all
qed

lemma open_for_weapon_cases:
  assumes "open_for_weapon power_at gm now chest_id kind column hero v d (n, p) = (r, n', p')"
  obtains (refused) e where "r = Inl e" "p' = p" "n \<le> n'" "\<And>x. e \<noteq> Not_Granted x"
  | (rolled) rarity it where "\<not> no_key column (sp_account p)" "unequipped_weapons (sp_account p) < storage_limit (sp_account p)"
      "find_row (\<lambda>r. ra_type r = kind) (gm_rarities gm) = Some rarity" "weapon_fits power_at gm hero rarity it"
      "it_id it = n" "it_account_id it = ac_id (sp_account p)"
      "r = Inr (Opened_Weapon it)" "n' = n + 1" "p' = on_account (take_key column \<circ> take_chest chest_id \<circ> add_item it) p"
proof (cases "find_row (\<lambda>r. ra_type r = kind) (gm_rarities gm)")
  case None
  then show thesis using assms refused [of No_Rarity] by (simp add: open_for_weapon_def Let_def del: find_row_None)
next
  case rarity: (Some rarity)
  let ?a = "sp_account p"
  let ?roll = "generate_weapon power_at gm now hero rarity (hero_level (gm_leveling gm) (he_constant hero) (av_experience v)) (ac_id ?a) n None d"
  note eq = assms [unfolded open_for_weapon_def Let_def fst_conv snd_conv rarity option.case]
  show thesis
  proof (cases "storage_limit ?a \<le> int (unequipped_weapons ?a)")
    case True
    then show thesis using eq refused [of Weapons_Full] by simp
  next
    case room: False
    show thesis
    proof (cases "no_key column ?a")
      case True
      then show thesis using eq room refused [of No_Key] by simp
    next
      case key: False
      show thesis
      proof (cases "fst ?roll")
        case None
        then show thesis using eq room key refused [of No_Weapon] by simp
      next
        case (Some it)
        then have "?roll = (Some it, snd ?roll)" by (simp add: prod_eq_iff)
        from generate_weapon_fits [OF this] show thesis using eq room key rarity Some rolled [of rarity it] by simp
      qed
    qed
  qed
qed

text \<open>The opening itself: refused with nothing done, or handed to one of the two.\<close>

lemma open_chest_cases:
  assumes "open_chest power_at gm now chest_id avatar_id keyless d s = (r, s')"
  obtains (refused) e where "r = Inl e" "s' = s" "\<And>x. e = Not_Granted x \<Longrightarrow> x = No_Such_Offer"
  | (offer) c row offer_id where "find_row (\<lambda>c. ch_id c = chest_id) (ac_chests (sp_account (snd s))) = Some c"
      "find_row (\<lambda>r. cr_id r = ch_chest_id c) (gm_chests gm) = Some row" "\<not> weapon_sentinel offer_id"
      "open_for_offer gm now chest_id (if keyless then None else key_column_of (cr_rarity row)) offer_id s = (r, s')"
  | (weapon) c row hero v d' where "find_row (\<lambda>c. ch_id c = chest_id) (ac_chests (sp_account (snd s))) = Some c"
      "find_row (\<lambda>r. cr_id r = ch_chest_id c) (gm_chests gm) = Some row"
      "v \<in> set (ac_avatars (sp_account (snd s)))" "find_row (\<lambda>h. he_id h = av_hero v) (gm_heroes gm) = Some hero"
      "open_for_weapon power_at gm now chest_id (cr_rarity row) (if keyless then None else key_column_of (cr_rarity row)) hero v d' s = (r, s')"
proof -
  let ?a = "sp_account (snd s)"
  have "(\<exists>e. r = Inl e \<and> s' = s \<and> (\<forall>x. e = Not_Granted x \<longrightarrow> x = No_Such_Offer))
    \<or> (\<exists>c row offer_id. find_row (\<lambda>c. ch_id c = chest_id) (ac_chests ?a) = Some c \<and> find_row (\<lambda>r. cr_id r = ch_chest_id c) (gm_chests gm) = Some row
        \<and> \<not> weapon_sentinel offer_id
        \<and> open_for_offer gm now chest_id (if keyless then None else key_column_of (cr_rarity row)) offer_id s = (r, s'))
    \<or> (\<exists>c row hero v d'. find_row (\<lambda>c. ch_id c = chest_id) (ac_chests ?a) = Some c \<and> find_row (\<lambda>r. cr_id r = ch_chest_id c) (gm_chests gm) = Some row
        \<and> v \<in> set (ac_avatars ?a) \<and> find_row (\<lambda>h. he_id h = av_hero v) (gm_heroes gm) = Some hero
        \<and> open_for_weapon power_at gm now chest_id (cr_rarity row) (if keyless then None else key_column_of (cr_rarity row)) hero v d' s = (r, s'))"
  proof (cases "find_row (\<lambda>c. ch_id c = chest_id) (ac_chests ?a)")
    case c: (Some c)
    show ?thesis
    proof (cases "find_row (\<lambda>r. cr_id r = ch_chest_id c) (gm_chests gm)")
      case row: (Some row)
      show ?thesis
      proof (cases "drop_distribution gm (cr_rarity row)")
        case drops: (Some drops)
        show ?thesis
        proof (cases "opening_avatar avatar_id ?a")
          case v: (Some v)
          then have mem: "v \<in> set (ac_avatars ?a)" by (auto simp: opening_avatar_def split: option.splits list.splits)
          obtain picked d' where picked: "pick_weighted drops d = (picked, d')" by (metis surj_pair)
          show ?thesis
          proof (cases "find_row (\<lambda>h. he_id h = av_hero v) (gm_heroes gm)")
            case hero: (Some hero)
            note eq = assms [unfolded open_chest_def Let_def c row drops v hero option.case picked prod.case]
            show ?thesis
            proof (cases picked)
              case (Some offer_id)
              note eq = eq [unfolded Some option.case]
              show ?thesis
              proof (cases "weapon_sentinel offer_id")
                case True
                then show ?thesis using eq c row mem hero unfolding if_P [OF True] by blast
              next
                case False
                then show ?thesis using eq c row unfolding if_not_P [OF False] by blast
              qed
            qed (use eq in \<open>auto split: if_splits\<close>)
          qed (use assms c row drops v in \<open>auto simp add: open_chest_def Let_def simp del: find_row_None\<close>)
        qed (use assms c row drops in \<open>auto simp add: open_chest_def Let_def\<close>)
      qed (use assms c row in \<open>auto simp add: open_chest_def Let_def\<close>)
    qed (use assms c in \<open>auto simp add: open_chest_def Let_def simp del: find_row_None\<close>)
  qed (use assms in \<open>auto simp add: open_chest_def Let_def simp del: find_row_None\<close>)
  then show thesis using refused offer weapon by blast
qed







text \<open>No more is stored than there is room for: the weapon takes the place of the chest.\<close>

lemma opening_keeps_room:
  assumes details: "list_all detail_ok (gm_details gm)" and p: "within_storage (sp_account p)" "0 < n"
    and opened: "open_chest power_at gm now chest_id avatar_id keyless d (n, p) = (r, n', p')"
  shows "within_storage (sp_account p') \<and> 0 < n'"
proof -
  have taken: "occupied_slots (take_key column (take_chest i a)) + length (filter (\<lambda>c. ch_id c = i) (ac_chests a)) = occupied_slots a"
    "storage_limit (take_key column (take_chest i a)) = storage_limit a" for column i a
  proof -
    have same: "occupied_slots (take_key column b) = occupied_slots b" "storage_limit (take_key column b) = storage_limit b" for b
      by (cases column; simp add: take_key_def)+
    have "length (filter (\<lambda>c. ch_id c \<noteq> i) xs) + length (filter (\<lambda>c. ch_id c = i) xs) = length xs" for xs
      by (induction xs) auto
    then show "occupied_slots (take_key column (take_chest i a)) + length (filter (\<lambda>c. ch_id c = i) (ac_chests a)) = occupied_slots a"
      by (simp add: same) (simp add: take_chest_def occupied_slots_def unequipped_weapons_def held_chests_def)
    show "storage_limit (take_key column (take_chest i a)) = storage_limit a" by (simp add: same) (simp add: take_chest_def storage_limit_def)
  qed
  from opened show ?thesis
  proof (cases rule: open_chest_cases)
    case (offer c row offer_id)
    from offer(4) show ?thesis
    proof (cases rule: open_for_offer_cases)
      case (tried r' q)
      have "within_storage (sp_account q)" "0 < n'" using purchase_keeps_room [OF details p tried(2)] by simp_all
      then show ?thesis using tried(3) taken [of "if keyless then None else key_column_of (cr_rarity row)" chest_id "sp_account q"]
        by (cases r') (simp_all add: on_account_def within_storage_iff)
    qed (use p in simp)
  next
    case (weapon c row hero v d')
    from weapon(5) show ?thesis
    proof (cases rule: open_for_weapon_cases)
      case (rolled rarity it)
      have "c \<in> set (filter (\<lambda>c. ch_id c = chest_id) (ac_chests (sp_account p)))" using find_row_Some [OF weapon(1)] by simp
      then have held: "1 \<le> length (filter (\<lambda>c. ch_id c = chest_id) (ac_chests (sp_account p)))"
        by (metis One_nat_def Suc_leI length_pos_if_in_set)
      let ?column = "if keyless then None else key_column_of (cr_rarity row)"
      have same: "ac_chests (add_item it (sp_account p)) = ac_chests (sp_account p)" by (simp add: add_item_def)
      have "occupied_slots (add_item it (sp_account p)) \<le> Suc (occupied_slots (sp_account p))" by simp
      then have "occupied_slots (take_key ?column (take_chest chest_id (add_item it (sp_account p)))) \<le> occupied_slots (sp_account p)"
        using taken(1) [of ?column chest_id "add_item it (sp_account p)", unfolded same] held by linarith
      moreover have "storage_limit (take_key ?column (take_chest chest_id (add_item it (sp_account p)))) = storage_limit (sp_account p)"
        by (simp only: taken(2) limit_simps)
      ultimately show ?thesis using rolled(8,9) p unfolding within_storage_iff on_account_def by simp
    qed (use p in simp)
  qed (use p in simp)
qed

lemma buying_keeps_room:
  assumes details: "list_all detail_ok (gm_details gm)" and p: "within_storage (sp_account p)" "0 < n"
    and bought: "buy_offer power_at gm now avatar_id offer_id d (n, p) = (r, n', p')"
  shows "within_storage (sp_account p') \<and> 0 < n'"
proof -
  obtain r1 n1 p1 where one: "purchase_offer gm now offer_id False (n, p) = (r1, n1, p1)" by (metis surj_pair)
  note kept = purchase_keeps_room [OF details p one]
  show ?thesis
  proof (cases r1)
    case (Inl e)
    then show ?thesis using bought one kept by (simp add: buy_offer_def)
  next
    case (Inr chests)
    define i where "i = hd (filter (\<lambda>i. case find_row (\<lambda>c. ch_id c = i) (ac_chests (sp_account p1)) of
          None \<Rightarrow> False | Some c \<Rightarrow> is_keyed_chest gm (ch_chest_id c)) chests)"
    obtain r2 n2 p2 where two: "open_chest power_at gm now i avatar_id True d (n1, p1) = (r2, n2, p2)" by (metis surj_pair)
    then have "within_storage (sp_account p2) \<and> 0 < n2" by (rule opening_keeps_room [OF details kept])
    moreover have "(n', p') = (n1, p1) \<or> (n', p') = (n2, p2)"
      using bought one Inr two by (auto simp: buy_offer_def open_bought_chest_def Let_def i_def [symmetric] split: if_splits sum.splits)
    ultimately show ?thesis using kept by auto
  qed
qed

section \<open>A chest opened\<close>







end
