(* ===== verification/Spec2Isabelle.thy ===== *)
theory Spec2Isabelle
  imports Economy Ranked Matches WebSocket Connection Signals Transitions FloorState RunSaves Powerups Sanctions Social Presence AccountBatches Chests
begin

text \<open>
  DRServer, the game server: what of it is modelled, how the models correspond to the code, and what
  is proved of them. All paths are under \<open>src/src/\<close> unless they say otherwise.

  \<^bold>\<open>The program.\<close> A player's client speaks to the server twice: JSON-RPC over HTTP changes the account
  (inventory, market, trades), and a game socket carries one binary stream in and one out. The
  socket side admits the connection, cuts packets, and hands entries to the session's transitions,
  which reserve a place in a match (a dungeon run) from the registry and join its world. A run is a
  sequence of floors, each wired from its map: triggers, gates, generators; the floor's rules decide
  how it ends. What a run earns is on the account, which is held while it is played and saved to
  storage as it goes. Ranked play pairs players in a queue, runs a race over two matches, and keeps
  ratings and a standings board from a log of decided races.

  \<^bold>\<open>Theories, and the code each models.\<close>

  \<^item> \<open>Prelude\<close>: the reading of JavaScript numbers, list operations, and the two interfaces several
    components rely on, as locales: a keyed store, and a transition system with an invariant. They
    are interpreted on the account store, the races, the registry and the ranked service.

  \<^item> \<open>Accounts\<close>, \<open>Market\<close>, \<open>Trade\<close>, \<open>Economy\<close>: \<open>accounts.js\<close>, \<open>inventory-space.js\<close>, \<open>market.js\<close>,
    \<open>market-rules.js\<close>, \<open>market-history.js\<close>, \<open>store.js\<close> (a weapon's price), \<open>trade.js\<close>. Each operation
    that changes accounts under their locks is one function from the store to a refusal or the new
    store, with the code's checks in its order. \<open>Economy\<close> composes them into one transition system and
    proves conservation of weapons, soundness of purses and bags, and exact accounting.

  \<^item> \<open>Queue\<close>, \<open>Race\<close>, \<open>Rating\<close>, \<open>Standing\<close>, \<open>Ranked\<close>: \<open>modes/ranked/queue.js\<close>, \<open>race.js\<close>,
    \<open>rating.js\<close>, \<open>leagues.js\<close>, \<open>standing.js\<close>, \<open>index.js\<close>. The service composes queue, races and
    ratings with its log, whose failures are outcomes of each step.

  \<^item> \<open>Matches\<close>: \<open>socket/matches.js\<close>, the registry, its search and its reservations.

  \<^item> \<open>Transitions\<close>: \<open>socket/session-transitions.js\<close>. Each \<open>await\<close> is a place a transition rests at;
    the current transition and the one an exit has cancelled are resumed by the outcomes of what they
    wait for, in any order.

  \<^item> \<open>Framing\<close>, \<open>Packet\<close>, \<open>WebSocket\<close>, \<open>Connection\<close>: \<open>socket/packet.js\<close>, \<open>socket/websocket.js\<close> and
    the socket part of \<open>socket/index.js\<close>. \<open>Framing\<close> states as a locale what a parser of frames
    promises, and both framings interpret it; the queue of chunks is a locale as well, interpreted by
    the decoder's.

  \<^item> \<open>Wiring\<close>, \<open>Signals\<close>: \<open>socket/triggers.js\<close>, the gates of a floor and the signals that run
    through them. What an effect makes the rest of the game publish is a parameter.

  \<^item> \<open>FloorState\<close>: \<open>socket/floorstate.js\<close>, with the exit of \<open>socket/floor-exit.js\<close> and the report of
    \<open>socket/summary.js\<close>: the countdown, the clearing, the completion, the victory and the report.

  \<^item> \<open>RunSaves\<close>: \<open>account-registry.js\<close>, \<open>socket/run-saves.js\<close>, and where \<open>socket/rewards.js\<close>,
    \<open>socket/settle-account.js\<close> and \<open>socket/floor-exit.js\<close> use them: the saves of an account in play.

  \<^item> \<open>Powerups\<close>: \<open>consumables.js\<close> and \<open>socket/powerups.js\<close>: the two slots of a hero, the bag, the carry
    rule that settles one against the other, and the repair at the loading of an account.

  \<^item> \<open>Sanctions\<close>: \<open>socket/security-events.js\<close>, \<open>sanctions.js\<close>, \<open>restrictions.js\<close>: when a pattern of
    violations ends a session, the ladder of sanctions and its decay, and the restriction each step asks for.

  \<^item> \<open>Social\<close>: \<open>social.js\<close> and the friend methods of \<open>rpc-handlers.js\<close>: friend codes, requests,
    friendships, blocks, and the changes that are announced.

  \<^item> \<open>Presence\<close>: \<open>socket/presence.js\<close> and the login of \<open>socket/index.js\<close>: the roll of who is on, who follows
    whom while friendships change under the checks of it, and what every connection is shown.

  \<^item> \<open>Progression\<close>, \<open>Shop\<close>, \<open>Chests\<close>: \<open>progression.js\<close>, \<open>store.js\<close>, \<open>chests.js\<close> and the training, buying and opening
    of \<open>rpc-handlers.js\<close>. The game's tables, the dice, the power of a weapon and the allocator of row ids are arguments.
    A grant is a list of deeds on the account as it goes, each shown to pay out exactly its column; a purchase and an
    opening are composed of them.

  \<^item> \<open>AccountRows\<close>, \<open>AccountWrites\<close>, \<open>AccountSaves\<close>, \<open>AccountBatches\<close>: \<open>storage/account-rows.js\<close>,
    \<open>storage/account-writes.js\<close> and \<open>saveAccounts\<close> of \<open>storage/postgres.js\<close>: an account as rows, the text rows are
    compared by, the plan of a save, the statements it comes to, and several accounts saved as one transaction. The
    database is a parameter, a function from statements to answers; \<open>sql_database\<close> says what it is held to.
    \<open>AccountSaves\<close> follows the rows of each table through removals and writes, \<open>AccountBatches\<close> the accounts' own
    rows, their versions, and the whole save: storage holds what was saved.

  \<^bold>\<open>How state and effects are modelled.\<close> A class or the module's variables are a record, a method a
  function on it. A JavaScript \<open>Map\<close> whose order is read is an association list, another a function
  to options. A refusal or a throw is a value of a sum type. What happens between two awaits is one
  step, and callbacks, timers and outcomes of I/O are events that may come in any order; a timer may
  therefore come late. Money, ids and times are unbounded integers where the code stays below
  \<open>2^53\<close>; bytes and wire fields are words, and 32-bit conversions are written out.

  \<^bold>\<open>Bounds and fuel.\<close> Publishing a signal recurses through the wiring; the model passes a depth and
  the theorem \<open>signals_settle\<close> shows which depth is enough on any floor whose gates have ranks, that
  is, no cycle. A cycle through a negation never returns, which the theory shows of one. The resting
  passes are bounded as the code bounds them, twice the number of gates, and enough by
  \<open>floor_opens_at_rest\<close>. Every other loop of the models is structural.

  \<^bold>\<open>Where the code departs from its description.\<close> \<open>Wiring\<close> (toggles and counters outlive the floor they
  were counted on), \<open>Transitions\<close> (a place is kept by a teardown that throws; a cancelled entry may
  still answer), \<open>FloorState\<close> (the loot delay is lost after an earlier exit; a floor won by its own
  trigger can be lost before the report), \<open>RunSaves\<close> (with two sessions on an account a change can be
  dropped), \<open>Powerups\<close> (settling twice differs from settling once), \<open>Sanctions\<close> (an end that cannot be
  read is cut short), \<open>Social\<close> (an accepted request that waits on), \<open>Presence\<close> (a friend parted from during
  the login check is told of on), \<open>Shop\<close> (an offer refused midway leaves what its first rows granted) and \<open>Matches\<close> have a lemma of each.

  \<^bold>\<open>Not modelled.\<close> Of storage the reading of rows, connections, migrations and the file backend; HTTP and JSON-RPC plumbing, tokens and
  codes, configuration and content loading, status and metrics, the threads of match workers: I/O or
  services. Combat pricing, hazards, enemy behaviour, path finding and navigation: floating-point
  geometry over authored tables. Map files, the building of floors and what is drawn. Gifts, the
  rotation of offers and the modes other than ranked are not modelled.
\<close>

end
